(* ===== verification/Prelude.thy ===== *)
theory Prelude
  imports Main "HOL-Library.Word" "HOL-Library.Monad_Syntax"
begin

text \<open>
  Shared vocabulary of the development: the machine types of the C sources, byte memory and
  NUL-terminated strings, checked signed arithmetic, and the generic lemmas the component
  theories use.

  Conventions used by every component theory:
  \<^item> unsigned C integers are words (\<open>u8\<close>, \<open>u16\<close>, \<open>u32\<close>, \<open>u64\<close>), so that arithmetic wraps as in C;
  \<^item> signed C integers are \<open>int\<close>; where an operation could leave the range of its type (which
    is undefined behaviour in C) the model computes in the \<open>option\<close> monad and yields \<open>None\<close>;
  \<^item> memory reached through a byte pointer \<open>p\<close> is a function \<open>mem\<close> from offsets to bytes:
    \<open>p[i]\<close> is \<open>p i\<close>, a store is a function update, and \<open>p + k\<close> is \<open>mem_at p k\<close>;
  \<^item> a NUL-terminated string is the list of the bytes in front of its terminator; reading at the
    end of the list (\<open>cat z i\<close> with \<open>i = length z\<close>) reads the terminator \<open>0\<close>.
\<close>

unbundle bit_operations_syntax

named_theorems csimps \<open>unfolding of the elementary C operations\<close>

type_synonym u8 = "8 word"
type_synonym u16 = "16 word"
type_synonym u32 = "32 word"
type_synonym u64 = "64 word"
type_synonym mem = "nat \<Rightarrow> u8"
type_synonym cstr = "u8 list"

definition mem_at :: "mem \<Rightarrow> nat \<Rightarrow> mem" where
  "mem_at p k = (\<lambda>i. p (k + i))"

definition cat :: "cstr \<Rightarrow> nat \<Rightarrow> u8" where
  "cat z i = (if i < length z then z ! i else 0)"

definition ch :: "char \<Rightarrow> u8" where
  "ch c = of_char c"

definition cstring :: "string \<Rightarrow> cstr" where
  "cstring s = map ch s"

definition cstr_ok :: "cstr \<Rightarrow> bool" where
  "cstr_ok z \<longleftrightarrow> (\<forall>b \<in> set z. b \<noteq> 0)"

definition mem_bytes :: "mem \<Rightarrow> nat \<Rightarrow> u8 list" where
  "mem_bytes p n = map p [0..<n]"

fun mem_write :: "mem \<Rightarrow> nat \<Rightarrow> u8 list \<Rightarrow> mem" where
  "mem_write p i [] = p"
| "mem_write p i (b # bs) = mem_write (p(i := b)) (Suc i) bs"

lemma mem_at_apply [simp]: "mem_at p k i = p (k + i)"
  by (simp add: mem_at_def)

lemma mem_at_mem_at [simp]: "mem_at (mem_at p k) l = mem_at p (k + l)"
  by (rule ext) (simp add: add.assoc)

lemma mem_at_0 [simp]: "mem_at p 0 = p"
  by (rule ext) simp

lemma mem_write_apply:
  "mem_write p i bs j = (if i \<le> j \<and> j < i + length bs then bs ! (j - i) else p j)"
proof (induction bs arbitrary: p i)
  case Nil
  then show ?case by auto
next
  case (Cons b bs)
  then show ?case by (auto simp: nth_Cons' not_le less_Suc_eq_le)
qed

lemma length_mem_bytes [simp]: "length (mem_bytes p n) = n"
  by (simp add: mem_bytes_def)

lemma nth_mem_bytes [simp]: "i < n \<Longrightarrow> mem_bytes p n ! i = p i"
  by (simp add: mem_bytes_def)

lemma cat_Nil [simp]: "cat [] i = 0"
  by (simp add: cat_def)

lemma cat_Cons_0 [simp]: "cat (b # z) 0 = b"
  by (simp add: cat_def)

lemma cat_Cons_Suc [simp]: "cat (b # z) (Suc i) = cat z i"
  by (simp add: cat_def)

lemma cstr_ok_Nil [simp]: "cstr_ok []"
  by (simp add: cstr_ok_def)

lemma cstr_ok_Cons [simp]: "cstr_ok (b # z) \<longleftrightarrow> b \<noteq> 0 \<and> cstr_ok z"
  by (auto simp: cstr_ok_def)

lemma cstr_ok_append [simp]: "cstr_ok (y @ z) \<longleftrightarrow> cstr_ok y \<and> cstr_ok z"
  by (auto simp: cstr_ok_def)

lemma drop_eq_ConsD: "drop i z = c # r \<Longrightarrow> i < length z \<and> z ! i = c \<and> drop (Suc i) z = r"
proof -
  assume a: "drop i z = c # r"
  then have "i < length z" by (metis drop_all list.distinct(1) not_le)
  with a show ?thesis using Cons_nth_drop_Suc [of i z] by simp
qed

subsection \<open>Words\<close>

lemma unat_of_nat_less: "n < 2 ^ LENGTH('a) \<Longrightarrow> unat (of_nat n :: 'a::len word) = n"
  by (simp add: unat_of_nat)

lemma unat_drop_bit: "unat (drop_bit k v) = unat v div 2 ^ k" for v :: "'a::len word"
  by (subst unat_drop_bit_eq) (rule drop_bit_eq_div)

lemma unat_drop_bit_less:
  fixes v :: "'a::len word"
  assumes "drop_bit k v \<noteq> 0" "0 < k"
  shows "unat (drop_bit k v) < unat v"
proof -
  have "0 < unat v" using assms(1) by (auto simp: unat_gt_0)
  moreover have "1 < (2::nat) ^ k" using one_less_power [of "2::nat" k] assms(2) by simp
  ultimately show ?thesis by (simp add: unat_drop_bit)
qed

text \<open>Equality of words, bit by bit at explicit positions: it decides identities of masks and shifts.\<close>

lemma word8_eq_bits:
  "(a::u8) = b \<longleftrightarrow> list_all (\<lambda>n. bit a n = bit b n)
     [0, 1, 2, 3, 4, 5, 6, 7]"
proof -
  have "a = b \<longleftrightarrow> list_all (\<lambda>n. bit a n = bit b n) [0..<8]"
    by (auto simp: list_all_iff intro!: bit_word_eqI)
  moreover have "[0..<8] =
      [0, 1, 2, 3, 4, 5, 6, 7]"
    by code_simp
  ultimately show ?thesis by simp
qed

lemma word16_eq_bits:
  "(a::u16) = b \<longleftrightarrow> list_all (\<lambda>n. bit a n = bit b n)
     [0, 1, 2, 3, 4, 5, 6, 7, 8, 9, 10, 11, 12, 13, 14, 15]"
proof -
  have "a = b \<longleftrightarrow> list_all (\<lambda>n. bit a n = bit b n) [0..<16]"
    by (auto simp: list_all_iff intro!: bit_word_eqI)
  moreover have "[0..<16] =
      [0, 1, 2, 3, 4, 5, 6, 7, 8, 9, 10, 11, 12, 13, 14, 15]"
    by code_simp
  ultimately show ?thesis by simp
qed

lemma word32_eq_bits:
  "(a::u32) = b \<longleftrightarrow> list_all (\<lambda>n. bit a n = bit b n)
     [0, 1, 2, 3, 4, 5, 6, 7, 8, 9, 10, 11, 12, 13, 14, 15, 16, 17, 18, 19, 20, 21,
      22, 23, 24, 25, 26, 27, 28, 29, 30, 31]"
proof -
  have "a = b \<longleftrightarrow> list_all (\<lambda>n. bit a n = bit b n) [0..<32]"
    by (auto simp: list_all_iff intro!: bit_word_eqI)
  moreover have "[0..<32] =
      [0, 1, 2, 3, 4, 5, 6, 7, 8, 9, 10, 11, 12, 13, 14, 15, 16, 17, 18, 19, 20, 21,
      22, 23, 24, 25, 26, 27, 28, 29, 30, 31]"
    by code_simp
  ultimately show ?thesis by simp
qed

lemma word64_eq_bits:
  "(a::u64) = b \<longleftrightarrow> list_all (\<lambda>n. bit a n = bit b n)
     [0, 1, 2, 3, 4, 5, 6, 7, 8, 9, 10, 11, 12, 13, 14, 15, 16, 17, 18, 19, 20, 21,
      22, 23, 24, 25, 26, 27, 28, 29, 30, 31, 32, 33, 34, 35, 36, 37, 38, 39, 40, 41,
      42, 43, 44, 45, 46, 47, 48, 49, 50, 51, 52, 53, 54, 55, 56, 57, 58, 59, 60, 61,
      62, 63]"
proof -
  have "a = b \<longleftrightarrow> list_all (\<lambda>n. bit a n = bit b n) [0..<64]"
    by (auto simp: list_all_iff intro!: bit_word_eqI)
  moreover have "[0..<64] =
      [0, 1, 2, 3, 4, 5, 6, 7, 8, 9, 10, 11, 12, 13, 14, 15, 16, 17, 18, 19, 20, 21,
      22, 23, 24, 25, 26, 27, 28, 29, 30, 31, 32, 33, 34, 35, 36, 37, 38, 39, 40, 41,
      42, 43, 44, 45, 46, 47, 48, 49, 50, 51, 52, 53, 54, 55, 56, 57, 58, 59, 60, 61,
      62, 63]"
    by code_simp
  ultimately show ?thesis by simp
qed

lemma u8_bit_high: "8 \<le> n \<Longrightarrow> \<not> bit (x::u8) n"
  using bit_imp_le_length [of x n] by auto

lemma u16_bit_high: "16 \<le> n \<Longrightarrow> \<not> bit (x::u16) n"
  using bit_imp_le_length [of x n] by auto

lemma u32_bit_high: "32 \<le> n \<Longrightarrow> \<not> bit (x::u32) n"
  using bit_imp_le_length [of x n] by auto

lemma u64_bit_high: "64 \<le> n \<Longrightarrow> \<not> bit (x::u64) n"
  using bit_imp_le_length [of x n] by auto

lemma unat_eq_0_iff: "unat x = 0 \<longleftrightarrow> x = 0" for x :: "'a::len word"
  by (simp add: word_unat_eq_iff)

lemma drop_bit_eq_0: "drop_bit k v = 0 \<longleftrightarrow> unat v < 2 ^ k" for v :: "'a::len word"
  by (simp only: unat_eq_0_iff [symmetric] unat_drop_bit div_eq_0_iff) simp

subsection \<open>The number of binary digits\<close>

fun bit_length :: "nat \<Rightarrow> nat" where
  "bit_length n = (if n = 0 then 0 else Suc (bit_length (n div 2)))"

declare bit_length.simps [simp del]

lemma bit_length_bounds: "n < 2 ^ bit_length n" "0 < n \<Longrightarrow> 2 ^ (bit_length n - 1) \<le> n"
proof -
  have "n < 2 ^ bit_length n \<and> (0 < n \<longrightarrow> 2 ^ (bit_length n - 1) \<le> n)"
  proof (induction n rule: bit_length.induct)
    case (1 n)
    show ?case
    proof (cases "n div 2 = 0")
      case True
      then have "n = 0 \<or> n = 1" by linarith
      moreover have "bit_length 0 = 0" by (simp add: bit_length.simps [of 0])
      moreover from this have "bit_length 1 = 1" by (simp add: bit_length.simps [of "Suc 0"])
      ultimately show ?thesis by auto
    next
      case False
      then have "0 < bit_length (n div 2)" by (simp add: bit_length.simps [of "n div 2"])
      then obtain k where k: "bit_length (n div 2) = Suc k" by (cases "bit_length (n div 2)") auto
      from False have "n \<noteq> 0" "0 < n div 2" by auto
      with "1.IH" k have "n div 2 < 2 * 2 ^ k" "2 ^ k \<le> n div 2" by simp_all
      then have "n < 2 * (2 * 2 ^ k)" "2 * 2 ^ k \<le> n" by linarith+
      moreover have "bit_length n = Suc (Suc k)"
        using \<open>n \<noteq> 0\<close> k by (simp add: bit_length.simps [of n])
      ultimately show ?thesis by simp
    qed
  qed
  then show "n < 2 ^ bit_length n" "0 < n \<Longrightarrow> 2 ^ (bit_length n - 1) \<le> n" by auto
qed

lemma bit_length_le: "n < 2 ^ k \<Longrightarrow> bit_length n \<le> k"
proof (rule ccontr)
  assume n: "n < 2 ^ k" "\<not> bit_length n \<le> k"
  then have "0 < n" by (cases n) (simp_all add: bit_length.simps)
  then have "2 ^ (bit_length n - 1) \<le> n" by (rule bit_length_bounds)
  moreover have "(2::nat) ^ k \<le> 2 ^ (bit_length n - 1)" using n(2) by (intro power_increasing) auto
  ultimately show False using n(1) by linarith
qed

subsection \<open>Signed integers\<close>

definition LARGEST_INT64 :: int where "LARGEST_INT64 = 9223372036854775807"
definition SMALLEST_INT64 :: int where "SMALLEST_INT64 = - 9223372036854775808"

text \<open>The result codes that several components share.\<close>

definition SQLITE_OK :: int where "SQLITE_OK = 0"
definition SQLITE_BUSY :: int where "SQLITE_BUSY = 5"
definition SQLITE_NOMEM :: int where "SQLITE_NOMEM = 7"

definition in_i64 :: "int \<Rightarrow> bool" where
  "in_i64 x \<longleftrightarrow> SMALLEST_INT64 \<le> x \<and> x \<le> LARGEST_INT64"

definition in_i32 :: "int \<Rightarrow> bool" where
  "in_i32 x \<longleftrightarrow> - 2147483648 \<le> x \<and> x \<le> 2147483647"

text \<open>The value of a signed 64-bit (32-bit) C expression, \<open>None\<close> when it overflows.\<close>

definition i64 :: "int \<Rightarrow> int option" where
  "i64 x = (if in_i64 x then Some x else None)"

definition i32 :: "int \<Rightarrow> int option" where
  "i32 x = (if in_i32 x then Some x else None)"

text \<open>C's division truncates towards zero; it is undefined for a zero divisor and on overflow.\<close>

definition cdiv :: "int \<Rightarrow> int \<Rightarrow> int" where
  "cdiv a b = sgn a * sgn b * (\<bar>a\<bar> div \<bar>b\<bar>)"

lemma cdiv_pos: "0 \<le> a \<Longrightarrow> 0 < b \<Longrightarrow> cdiv a b = a div b"
  by (cases "a = 0") (simp_all add: cdiv_def)

lemma cdiv_neg_pos: "a < 0 \<Longrightarrow> 0 < b \<Longrightarrow> cdiv a b = - ((- a) div b)"
  by (simp add: cdiv_def)

definition i64_div :: "int \<Rightarrow> int \<Rightarrow> int option" where
  "i64_div a b = (if b = 0 then None else i64 (cdiv a b))"

lemmas i64_bounds = LARGEST_INT64_def SMALLEST_INT64_def

lemma i64_Some [simp]: "in_i64 x \<Longrightarrow> i64 x = Some x"
  by (simp add: i64_def)

end
