(* ===== verification/Cpp.thy ===== *)
theory Cpp
  imports Prelude
begin

text \<open>
  What the C++ sources of libenigma use of the language and its standard library: the ways an operation can fail
  to return (\<open>cpp_error\<close>), the allocator, and searching in a \<open>std::string\<close>.

  An operation that can throw or that is undefined for some arguments returns \<open>Inl\<close> of the failure, or \<open>Inr\<close> of
  its result.  The allocator is a parameter \<open>al\<close> of the operations that allocate: \<open>al n\<close> is the block that
  \<open>malloc(n)\<close> returns, with arbitrary contents, and \<open>None\<close> when it returns a null pointer.
\<close>

datatype cpp_error =
    Out_of_memory    \<comment> \<open>\<open>std::runtime_error("out of memory")\<close>\<close>
  | Undefined        \<comment> \<open>undefined behaviour\<close>
  | Bad_state        \<comment> \<open>another \<open>std::runtime_error\<close>\<close>
  | Terminate        \<comment> \<open>an exception leaves a \<open>noexcept\<close> function or a thread: \<open>std::terminate\<close>\<close>

type_synonym 'a result = "cpp_error + 'a"
type_synonym allocator = "nat \<Rightarrow> u8 list option"

text \<open>A block has the size that was asked for, and no object is larger than \<open>PTRDIFF_MAX\<close>.\<close>

definition alloc_ok :: "allocator \<Rightarrow> bool" where
  "alloc_ok al \<longleftrightarrow> (\<forall>n b. al n = Some b \<longrightarrow> length b = n \<and> n < 2 ^ 63)"

definition never_undefined :: "'a result \<Rightarrow> bool" where
  "never_undefined r \<longleftrightarrow> r \<noteq> Inl Undefined"

text \<open>What a function declared \<open>noexcept\<close> does with an exception of its body.\<close>

definition noexcept :: "'a result \<Rightarrow> 'a result" where
  "noexcept r = (case r of Inl e \<Rightarrow> Inl (if e = Undefined then Undefined else Terminate) | Inr x \<Rightarrow> Inr x)"

lemma noexcept_simps [simp]:
  "noexcept (Inr x) = Inr x" "noexcept (Inl Out_of_memory) = Inl Terminate" "noexcept (Inl Undefined) = Inl Undefined"
  by (simp_all add: noexcept_def)

lemma noexcept_eq_Inr [simp]: "noexcept r = Inr x \<longleftrightarrow> r = Inr x"
  by (cases r) (simp_all add: noexcept_def)

lemma alloc_okD: "alloc_ok al \<Longrightarrow> al n = Some b \<Longrightarrow> length b = n \<and> n < 2 ^ 63"
  by (simp add: alloc_ok_def)

lemma never_undefined_simps [simp]:
  "never_undefined (Inr x)" "never_undefined (Inl e) \<longleftrightarrow> e \<noteq> Undefined"
  by (simp_all add: never_undefined_def)

subsection \<open>Searching in strings\<close>

text \<open>
  \<open>std::string::find(needle, pos)\<close>: the least position from \<open>pos\<close> on where \<open>needle\<close> occurs; \<open>None\<close> is \<open>npos\<close>.
  The empty needle occurs at every position up to the length.
\<close>

definition occurs_at :: "'a list \<Rightarrow> 'a list \<Rightarrow> nat \<Rightarrow> bool" where
  "occurs_at s needle i \<longleftrightarrow> i + length needle \<le> length s \<and> take (length needle) (drop i s) = needle"

function str_find :: "'a list \<Rightarrow> 'a list \<Rightarrow> nat \<Rightarrow> nat option" where
  "str_find s needle i =
     (if length s < i + length needle then None
      else if occurs_at s needle i then Some i
      else str_find s needle (Suc i))"
  by pat_completeness auto
termination by (relation "measure (\<lambda>(s, needle, i). Suc (length s) - i)") auto

declare str_find.simps [simp del]

lemma str_find_Some: "str_find s needle i = Some j \<Longrightarrow> i \<le> j \<and> occurs_at s needle j \<and> (\<forall>k. i \<le> k \<and> k < j \<longrightarrow> \<not> occurs_at s needle k)"
proof (induction s needle i rule: str_find.induct)
  case (1 s needle i)
  show ?case
  proof (cases "length s < i + length needle \<or> occurs_at s needle i")
    case True
    then show ?thesis using 1(2) by (auto simp: str_find.simps [of s needle i] split: if_splits)
  next
    case False
    then have "str_find s needle (Suc i) = Some j" using 1(2) by (simp add: str_find.simps [of s needle i])
    with 1(1) False have ih: "Suc i \<le> j" "occurs_at s needle j" "\<forall>k. Suc i \<le> k \<and> k < j \<longrightarrow> \<not> occurs_at s needle k" by auto
    then show ?thesis using False by (metis Suc_leD Suc_leI le_neq_implies_less)
  qed
qed

lemma str_find_None: "str_find s needle i = None \<Longrightarrow> i \<le> k \<Longrightarrow> \<not> occurs_at s needle k"
proof (induction s needle i rule: str_find.induct)
  case (1 s needle i)
  show ?case
  proof (cases "length s < i + length needle")
    case True
    then show ?thesis using 1(3) by (simp add: occurs_at_def)
  next
    case False
    then have "\<not> occurs_at s needle i" "str_find s needle (Suc i) = None"
      using 1(2) by (auto simp: str_find.simps [of s needle i] split: if_splits)
    with 1(1) False 1(3) show ?thesis by (metis le_neq_implies_less Suc_leI)
  qed
qed

lemma str_find_empty: "i \<le> length s \<Longrightarrow> str_find s [] i = Some i"
  by (simp add: str_find.simps [of s "[]" i] occurs_at_def)

lemma occurs_at_split: "occurs_at s needle j \<Longrightarrow> s = take j s @ needle @ drop (j + length needle) s"
proof -
  assume "occurs_at s needle j"
  then have "take (length needle) (drop j s) = needle" by (simp add: occurs_at_def)
  then have "drop j s = needle @ drop (length needle) (drop j s)" by (metis append_take_drop_id)
  then show ?thesis by (metis append_take_drop_id drop_drop add.commute)
qed

end
