(* ===== verification/Packet.thy ===== *)
theory Packet
  imports Cpp
begin

text \<open>
  The packet buffer of the network layer, \<open>src/include/network/packet.h\<close>: a growable byte buffer with a write
  offset and a read position.  The positions are 64-bit words, so that \<open>offset_ + data_size\<close> and \<open>size_ * 2\<close> wrap
  as they do in the code; \<open>pk_data\<close> is the block owned by the packet (\<open>None\<close> is the null pointer) and a \<open>memcpy\<close>
  or \<open>memset\<close> that leaves the block is undefined.
\<close>

record packet =
  pk_data :: "u8 list option"
  pk_size :: u64
  pk_offset :: u64
  pk_read_pos :: u64

definition packet_null :: packet where
  "packet_null = \<lparr>pk_data = None, pk_size = 0, pk_offset = 0, pk_read_pos = 0\<rparr>"

subsection \<open>Operations\<close>

definition packet_malloc :: "allocator \<Rightarrow> packet \<Rightarrow> u64 \<Rightarrow> packet result" where
  "packet_malloc al p len =
     (if len = 0 then Inr p
      else case al (unat len) of
             None \<Rightarrow> Inl Out_of_memory
           | Some b \<Rightarrow> Inr (p\<lparr>pk_data := Some b, pk_size := len\<rparr>))"

text \<open>\<open>std::realloc\<close> keeps the contents and leaves the rest of the larger block unspecified.\<close>

definition packet_realloc :: "allocator \<Rightarrow> packet \<Rightarrow> u64 \<Rightarrow> packet result" where
  "packet_realloc al p len =
     (if len = 0 \<or> len \<le> pk_size p then Inr p
      else case pk_data p of
             None \<Rightarrow> packet_malloc al p len
           | Some d \<Rightarrow>
               (case al (unat len) of
                  None \<Rightarrow> Inl Out_of_memory
                | Some b \<Rightarrow> Inr (p\<lparr>pk_data := Some (d @ drop (length d) b), pk_size := len\<rparr>)))"

definition packet_new :: "allocator \<Rightarrow> u64 \<Rightarrow> packet result" where
  "packet_new al len = packet_malloc al packet_null len"

definition packet_empty :: "packet \<Rightarrow> bool" where
  "packet_empty p \<longleftrightarrow> pk_size p = 0"

definition packet_remaining :: "packet \<Rightarrow> u64" where
  "packet_remaining p = (if pk_size p > pk_offset p then pk_size p - pk_offset p else 0)"

definition packet_reset_pos :: "packet \<Rightarrow> packet" where
  "packet_reset_pos p = p\<lparr>pk_read_pos := 0\<rparr>"

definition packet_set_pos :: "packet \<Rightarrow> u64 \<Rightarrow> packet" where
  "packet_set_pos p pos = p\<lparr>pk_read_pos := (if pos < pk_offset p then pos else pk_offset p)\<rparr>"

definition packet_read_remaining :: "packet \<Rightarrow> u64" where
  "packet_read_remaining p = (if pk_offset p > pk_read_pos p then pk_offset p - pk_read_pos p else 0)"

text \<open>Writing and reading inside the block; a null pointer or a range that leaves the block is undefined.\<close>

definition block_put :: "u8 list option \<Rightarrow> nat \<Rightarrow> u8 list \<Rightarrow> u8 list result" where
  "block_put d i bs =
     (case d of
        None \<Rightarrow> Inl Undefined
      | Some b \<Rightarrow> if i + length bs \<le> length b then Inr (take i b @ bs @ drop (i + length bs) b) else Inl Undefined)"

definition block_get :: "u8 list option \<Rightarrow> nat \<Rightarrow> nat \<Rightarrow> u8 list result" where
  "block_get d i n =
     (case d of
        None \<Rightarrow> Inl Undefined
      | Some b \<Rightarrow> if i + n \<le> length b then Inr (take n (drop i b)) else Inl Undefined)"

text \<open>
  \<open>write\<close>: the template for a trivially copyable value and the function for a buffer differ only in the test
  for an empty buffer; \<open>bs\<close> are the bytes of the value or buffer.
\<close>

definition packet_write_value :: "allocator \<Rightarrow> packet \<Rightarrow> u8 list \<Rightarrow> (bool \<times> packet) result" where
  "packet_write_value al p bs =
     (let n = of_nat (length bs) :: u64 in
      case (if pk_offset p + n > pk_size p
            then packet_realloc al p (max (pk_size p * 2) (pk_offset p + n)) else Inr p) of
        Inl e \<Rightarrow> Inl e
      | Inr q \<Rightarrow>
          (case block_put (pk_data q) (unat (pk_offset q)) bs of
             Inl e \<Rightarrow> Inl e
           | Inr d \<Rightarrow> Inr (True, q\<lparr>pk_data := Some d, pk_offset := pk_offset q + n\<rparr>)))"

definition packet_write :: "allocator \<Rightarrow> packet \<Rightarrow> u8 list option \<Rightarrow> (bool \<times> packet) result" where
  "packet_write al p buf =
     (case buf of
        None \<Rightarrow> Inr (False, p)
      | Some bs \<Rightarrow> if bs = [] then Inr (False, p) else packet_write_value al p bs)"

text \<open>\<open>read\<close>: the bytes copied out, or \<open>None\<close> when it returns \<open>false\<close>.\<close>

definition packet_read_value :: "packet \<Rightarrow> u64 \<Rightarrow> (u8 list option \<times> packet) result" where
  "packet_read_value p n =
     (if pk_read_pos p + n > pk_offset p then Inr (None, p)
      else case block_get (pk_data p) (unat (pk_read_pos p)) (unat n) of
             Inl e \<Rightarrow> Inl e
           | Inr bs \<Rightarrow> Inr (Some bs, p\<lparr>pk_read_pos := pk_read_pos p + n\<rparr>))"

definition packet_read :: "packet \<Rightarrow> bool \<Rightarrow> u64 \<Rightarrow> (u8 list option \<times> packet) result" where
  "packet_read p buffer n = (if \<not> buffer \<or> n = 0 then Inr (None, p) else packet_read_value p n)"

definition packet_clear :: "packet \<Rightarrow> packet result" where
  "packet_clear p =
     (if packet_empty p \<or> pk_offset p = 0 then Inr p
      else case block_put (pk_data p) 0 (replicate (unat (pk_offset p)) 0) of
             Inl e \<Rightarrow> Inl e
           | Inr d \<Rightarrow> Inr (p\<lparr>pk_data := Some d, pk_offset := 0, pk_read_pos := 0\<rparr>))"

definition packet_free :: "packet \<Rightarrow> packet" where
  "packet_free p =
     (if packet_empty p \<or> pk_data p = None then p
      else p\<lparr>pk_data := None, pk_size := 0, pk_offset := 0, pk_read_pos := 0\<rparr>)"

text \<open>
  Copy assignment of a different object; the read position is not copied.  It is declared \<open>noexcept\<close>, so that the
  exception of a reallocation that fails ends the program.
\<close>

definition packet_copy_assign :: "allocator \<Rightarrow> packet \<Rightarrow> packet \<Rightarrow> packet result" where
  "packet_copy_assign al p l =
     (if pk_size l = 0 then Inr (packet_free p)
      else if pk_offset l = 0 then packet_clear p
      else case noexcept (if pk_size l > pk_size p then packet_realloc al p (pk_size l) else Inr p) of
             Inl e \<Rightarrow> Inl e
           | Inr q \<Rightarrow>
               (case block_get (pk_data l) 0 (unat (pk_offset l)) of
                  Inl e \<Rightarrow> Inl e
                | Inr bs \<Rightarrow>
                    (case block_put (pk_data q) 0 bs of
                       Inl e \<Rightarrow> Inl e
                     | Inr d \<Rightarrow>
                         (case (if pk_offset l < pk_size q
                                then block_put (Some d) (unat (pk_offset l)) (replicate (unat (pk_size q - pk_offset l)) 0)
                                else Inr d) of
                            Inl e \<Rightarrow> Inl e
                          | Inr d' \<Rightarrow> Inr (q\<lparr>pk_data := Some d', pk_offset := pk_offset l\<rparr>)))))"

text \<open>Move assignment of a different object: the target and what is left of the source.\<close>

definition packet_move_assign :: "packet \<Rightarrow> packet \<Rightarrow> packet \<times> packet" where
  "packet_move_assign p r =
     (p\<lparr>pk_data := pk_data r, pk_size := pk_size r, pk_offset := pk_offset r\<rparr>,
      r\<lparr>pk_data := None, pk_size := 0, pk_offset := 0\<rparr>)"

definition packet_copy :: "allocator \<Rightarrow> packet \<Rightarrow> packet result" where
  "packet_copy al l = packet_copy_assign al packet_null l"

definition packet_move :: "packet \<Rightarrow> packet \<times> packet" where
  "packet_move r = packet_move_assign packet_null r"

subsection \<open>The invariant\<close>

text \<open>The block has the recorded size, which the write offset does not exceed.\<close>

definition packet_ok :: "packet \<Rightarrow> bool" where
  "packet_ok p \<longleftrightarrow>
     (case pk_data p of None \<Rightarrow> pk_size p = 0 | Some b \<Rightarrow> length b = unat (pk_size p) \<and> length b < 2 ^ 63)
     \<and> pk_offset p \<le> pk_size p"

text \<open>The bytes written so far.\<close>

definition packet_bytes :: "packet \<Rightarrow> u8 list" where
  "packet_bytes p = (case pk_data p of None \<Rightarrow> [] | Some b \<Rightarrow> take (unat (pk_offset p)) b)"

lemma packet_ok_null [simp]: "packet_ok packet_null"
  by (simp add: packet_ok_def packet_null_def)

lemma packet_ok_Some: "packet_ok p \<Longrightarrow> pk_data p = Some b \<Longrightarrow> length b = unat (pk_size p) \<and> length b < 2 ^ 63"
  by (simp add: packet_ok_def)

lemma packet_ok_size: "packet_ok p \<Longrightarrow> unat (pk_offset p) \<le> unat (pk_size p) \<and> unat (pk_size p) < 2 ^ 63"
  by (auto simp: packet_ok_def word_le_nat_alt split: option.splits)

lemma packet_ok_data: "packet_ok p \<Longrightarrow> unat (pk_size p) \<noteq> 0 \<Longrightarrow> pk_data p \<noteq> None"
  by (auto simp: packet_ok_def split: option.splits)

lemma packet_ok_read_pos [simp]: "packet_ok (p\<lparr>pk_read_pos := pos\<rparr>) \<longleftrightarrow> packet_ok p"
  by (cases "pk_data p") (simp_all add: packet_ok_def)

lemma block_put_within:
  "d = Some b \<Longrightarrow> i + length bs \<le> length b \<Longrightarrow> block_put d i bs = Inr (take i b @ bs @ drop (i + length bs) b)"
  by (simp add: block_put_def)

lemma block_get_within: "d = Some b \<Longrightarrow> i + n \<le> length b \<Longrightarrow> block_get d i n = Inr (take n (drop i b))"
  by (simp add: block_get_def)

lemma unat_add_u64: "unat a + n < 2 ^ 64 \<Longrightarrow> unat (a + of_nat n) = unat a + n" for a :: u64
proof -
  assume a: "unat a + n < 2 ^ 64"
  then have "unat (of_nat n :: u64) = n" by (intro unat_of_nat_less) simp
  with a show ?thesis by (simp add: unat_word_ariths)
qed

text \<open>A reallocation that succeeds keeps the contents and provides the size.\<close>

lemma packet_malloc_ok:
  assumes "alloc_ok al" "packet_ok p" "pk_data p = None" "packet_malloc al p len = Inr q"
  shows "packet_ok q \<and> packet_bytes q = packet_bytes p \<and> len \<le> pk_size q \<and> pk_offset q = pk_offset p
    \<and> pk_read_pos q = pk_read_pos p \<and> (len \<noteq> 0 \<longrightarrow> pk_data q \<noteq> None)"
proof -
  have "pk_offset p = 0" using assms(2,3) by (simp add: packet_ok_def word_le_nat_alt word_unat_eq_iff)
  with assms show ?thesis
    by (auto simp: packet_malloc_def packet_ok_def packet_bytes_def split: if_splits option.splits dest!: alloc_okD)
qed

lemma packet_realloc_ok:
  assumes al: "alloc_ok al" and p: "packet_ok p" and q: "packet_realloc al p len = Inr q"
  shows "packet_ok q \<and> packet_bytes q = packet_bytes p \<and> len \<le> pk_size q \<and> pk_offset q = pk_offset p
    \<and> pk_read_pos q = pk_read_pos p \<and> (len \<noteq> 0 \<longrightarrow> pk_data q \<noteq> None)"
proof (cases "len = 0 \<or> len \<le> pk_size p")
  case True
  moreover from this have "pk_data p \<noteq> None" if "len \<noteq> 0"
    using that packet_ok_data [OF p] by (fastforce simp: word_le_nat_alt word_unat_eq_iff)
  ultimately show ?thesis using p q by (auto simp: packet_realloc_def)
next
  case False
  show ?thesis
  proof (cases "pk_data p")
    case None
    then show ?thesis using packet_malloc_ok [OF al p None] q False by (simp add: packet_realloc_def)
  next
    case (Some d)
    then obtain b where b: "al (unat len) = Some b" "q = p\<lparr>pk_data := Some (d @ drop (length d) b), pk_size := len\<rparr>"
      using q False by (auto simp: packet_realloc_def split: option.splits)
    have l: "length b = unat len" "unat len < 2 ^ 63" using alloc_okD [OF al b(1)] by auto
    have d: "length d = unat (pk_size p)" "unat (pk_offset p) \<le> unat (pk_size p)"
      using packet_ok_Some [OF p Some] packet_ok_size [OF p] by auto
    have "unat (pk_size p) < unat len" using False by (simp add: word_less_nat_alt not_le)
    then show ?thesis using b(2) d l Some
      by (auto simp: packet_ok_def packet_bytes_def word_le_nat_alt)
  qed
qed

lemma packet_realloc_fails: "packet_realloc al p len = Inl e \<Longrightarrow> e = Out_of_memory \<and> al (unat len) = None"
  by (auto simp: packet_realloc_def packet_malloc_def split: if_splits option.splits)

subsection \<open>Writing and reading\<close>

lemma packet_grow:
  assumes al: "alloc_ok al" and p: "packet_ok p" and n: "0 < n" "n < 2 ^ 63"
    and q: "(if pk_offset p + of_nat n > pk_size p
             then packet_realloc al p (max (pk_size p * 2) (pk_offset p + of_nat n)) else Inr p) = Inr q"
  shows "packet_ok q \<and> packet_bytes q = packet_bytes p \<and> pk_offset q = pk_offset p \<and> pk_read_pos q = pk_read_pos p
    \<and> unat (pk_offset p) + n \<le> unat (pk_size q) \<and> pk_data q \<noteq> None"
proof -
  have o: "unat (pk_offset p) \<le> unat (pk_size p)" "unat (pk_size p) < 2 ^ 63" using packet_ok_size [OF p] by auto
  then have s: "unat (pk_offset p + of_nat n) = unat (pk_offset p) + n" using n(2) by (intro unat_add_u64) simp
  show ?thesis
  proof (cases "pk_offset p + of_nat n > pk_size p")
    case True
    let ?len = "max (pk_size p * 2) (pk_offset p + of_nat n)"
    have r: "packet_realloc al p ?len = Inr q" using q True by simp
    have le: "pk_offset p + of_nat n \<le> ?len" by simp
    then have "unat (pk_offset p) + n \<le> unat ?len" using s by (simp only: word_le_nat_alt)
    moreover have "?len \<noteq> 0" using calculation n(1) by auto
    ultimately show ?thesis using packet_realloc_ok [OF al p r] by (auto simp: word_le_nat_alt)
  next
    case False
    then have le: "unat (pk_offset p) + n \<le> unat (pk_size p)" using s by (simp add: word_le_nat_alt not_less)
    moreover have "pk_data p \<noteq> None" using le n(1) packet_ok_data [OF p] by linarith
    ultimately show ?thesis using q False p by simp
  qed
qed

lemma packet_write_value_ok:
  assumes al: "alloc_ok al" and p: "packet_ok p" and bs: "bs \<noteq> []" "length bs < 2 ^ 63"
  shows "packet_write_value al p bs = Inl Out_of_memory
    \<or> (\<exists>q. packet_write_value al p bs = Inr (True, q) \<and> packet_ok q
         \<and> packet_bytes q = packet_bytes p @ bs \<and> pk_read_pos q = pk_read_pos p)"
proof -
  let ?n = "length bs"
  let ?g = "if pk_offset p + of_nat ?n > pk_size p
    then packet_realloc al p (max (pk_size p * 2) (pk_offset p + of_nat ?n)) else Inr p"
  show ?thesis
  proof (cases ?g)
    case (Inl e)
    then have "e = Out_of_memory" using packet_realloc_fails by (auto split: if_splits)
    then show ?thesis using Inl by (simp add: packet_write_value_def Let_def)
  next
    case (Inr q)
    then have q: "packet_ok q" "packet_bytes q = packet_bytes p" "pk_offset q = pk_offset p" "pk_read_pos q = pk_read_pos p"
        "unat (pk_offset p) + ?n \<le> unat (pk_size q)" "pk_data q \<noteq> None"
      using packet_grow [OF al p _ bs(2) Inr] bs(1) by auto
    then obtain b where b: "pk_data q = Some b" by auto
    have lb: "length b = unat (pk_size q)" "length b < 2 ^ 63" using packet_ok_Some [OF q(1) b] by auto
    let ?b = "take (unat (pk_offset q)) b @ bs @ drop (unat (pk_offset q) + ?n) b"
    let ?r = "q\<lparr>pk_data := Some ?b, pk_offset := pk_offset q + of_nat ?n\<rparr>"
    have w: "packet_write_value al p bs = Inr (True, ?r)"
      using Inr block_put_within [OF b, of "unat (pk_offset q)" bs] q lb
      by (simp add: packet_write_value_def Let_def)
    have s: "unat (pk_offset q + of_nat ?n) = unat (pk_offset p) + ?n"
      using q(3,5) lb unat_add_u64 [of "pk_offset p" ?n] by simp
    have o: "unat (pk_offset q) \<le> length b" using q(3,5) lb by simp
    have "packet_ok ?r"
      using q lb s by (simp add: packet_ok_def word_le_nat_alt)
    moreover have "packet_bytes ?r = packet_bytes p @ bs"
    proof -
      have "packet_bytes ?r = take (unat (pk_offset q)) b @ bs" using s o q(3) by (simp add: packet_bytes_def)
      moreover have "take (unat (pk_offset q)) b = packet_bytes q" by (simp add: packet_bytes_def b)
      ultimately show ?thesis using q(2) by metis
    qed
    ultimately show ?thesis using w q(4) by auto
  qed
qed

lemma packet_read_value_ok:
  assumes p: "packet_ok p" and n: "0 < n" "n < 2 ^ 63" and pos: "unat (pk_read_pos p) < 2 ^ 63"
  shows "packet_read_value p (of_nat n) =
    (if unat (pk_read_pos p) + n \<le> length (packet_bytes p)
     then Inr (Some (take n (drop (unat (pk_read_pos p)) (packet_bytes p))), p\<lparr>pk_read_pos := pk_read_pos p + of_nat n\<rparr>)
     else Inr (None, p))"
proof -
  have s: "unat (pk_read_pos p + of_nat n) = unat (pk_read_pos p) + n" using pos n by (intro unat_add_u64) simp
  have un: "unat (of_nat n :: u64) = n" using n by (intro unat_of_nat_less) simp
  have len: "length (packet_bytes p) = unat (pk_offset p)"
    using p packet_ok_size [OF p] by (auto simp: packet_bytes_def packet_ok_def word_le_nat_alt split: option.splits)
  have gt: "pk_read_pos p + of_nat n > pk_offset p \<longleftrightarrow> \<not> unat (pk_read_pos p) + n \<le> length (packet_bytes p)"
    using s len by (simp add: word_less_nat_alt not_le)
  show ?thesis
  proof (cases "unat (pk_read_pos p) + n \<le> length (packet_bytes p)")
    case True
    then obtain b where b: "pk_data p = Some b" using n(1) by (auto simp: packet_bytes_def split: option.splits)
    have "unat (pk_read_pos p) + n \<le> length b"
      using True len packet_ok_size [OF p] packet_ok_Some [OF p b] by simp
    then show ?thesis using True gt len block_get_within [OF b, of "unat (pk_read_pos p)" n]
      by (simp add: packet_read_value_def un packet_bytes_def b drop_take min_def)
  next
    case False
    then show ?thesis using gt by (simp add: packet_read_value_def)
  qed
qed

subsection \<open>Every operation is defined\<close>

datatype packet_op =
    PWriteValue "u8 list"
  | PWrite "u8 list option"
  | PReadValue u64
  | PRead bool u64
  | PClear
  | PFree
  | PSetPos u64
  | PResetPos
  | PCopyFrom packet
  | PMoveFrom packet

fun packet_step :: "allocator \<Rightarrow> packet \<Rightarrow> packet_op \<Rightarrow> packet result" where
  "packet_step al p (PWriteValue bs) = map_sum id snd (packet_write_value al p bs)"
| "packet_step al p (PWrite buf) = map_sum id snd (packet_write al p buf)"
| "packet_step al p (PReadValue n) = map_sum id snd (packet_read_value p n)"
| "packet_step al p (PRead buffer n) = map_sum id snd (packet_read p buffer n)"
| "packet_step al p PClear = packet_clear p"
| "packet_step al p PFree = Inr (packet_free p)"
| "packet_step al p (PSetPos pos) = Inr (packet_set_pos p pos)"
| "packet_step al p PResetPos = Inr (packet_reset_pos p)"
| "packet_step al p (PCopyFrom l) = packet_copy_assign al p l"
| "packet_step al p (PMoveFrom r) = Inr (fst (packet_move_assign p r))"

fun packet_run :: "allocator \<Rightarrow> packet \<Rightarrow> packet_op list \<Rightarrow> packet result" where
  "packet_run al p [] = Inr p"
| "packet_run al p (op # ops) =
     (case packet_step al p op of Inl e \<Rightarrow> Inl e | Inr q \<Rightarrow> packet_run al q ops)"

text \<open>Values and buffers are objects of at most \<open>PTRDIFF_MAX\<close> bytes; the other packet is well-formed too.\<close>

fun packet_op_ok :: "packet_op \<Rightarrow> bool" where
  "packet_op_ok (PWriteValue bs) \<longleftrightarrow> bs \<noteq> [] \<and> length bs < 2 ^ 63"
| "packet_op_ok (PWrite buf) \<longleftrightarrow> (case buf of None \<Rightarrow> True | Some bs \<Rightarrow> length bs < 2 ^ 63)"
| "packet_op_ok (PReadValue n) \<longleftrightarrow> n \<noteq> 0 \<and> unat n < 2 ^ 63"
| "packet_op_ok (PRead buffer n) \<longleftrightarrow> unat n < 2 ^ 63"
| "packet_op_ok (PCopyFrom l) \<longleftrightarrow> packet_ok l"
| "packet_op_ok (PMoveFrom r) \<longleftrightarrow> packet_ok r"
| "packet_op_ok _ \<longleftrightarrow> True"

definition packet_inv :: "packet \<Rightarrow> bool" where
  "packet_inv p \<longleftrightarrow> packet_ok p \<and> unat (pk_read_pos p) < 2 ^ 63"

text \<open>An operation fails with one error at most, or keeps the invariant.\<close>

definition packet_safe :: "cpp_error \<Rightarrow> packet result \<Rightarrow> bool" where
  "packet_safe err r \<longleftrightarrow> (case r of Inl e \<Rightarrow> e = err | Inr p \<Rightarrow> packet_inv p)"

lemma packet_safe_simps [simp]:
  "packet_safe err (Inl e) \<longleftrightarrow> e = err" "packet_safe err (Inr p) \<longleftrightarrow> packet_inv p"
  by (simp_all add: packet_safe_def)

text \<open>The size that an operation may ask the allocator for.\<close>

fun packet_request :: "packet \<Rightarrow> packet_op \<Rightarrow> u64 option" where
  "packet_request p (PWriteValue bs) = Some (max (pk_size p * 2) (pk_offset p + of_nat (length bs)))"
| "packet_request p (PWrite buf) = map_option (\<lambda>bs. max (pk_size p * 2) (pk_offset p + of_nat (length bs))) buf"
| "packet_request p (PCopyFrom l) = Some (pk_size l)"
| "packet_request p _ = None"

lemma write_value_safe:
  "alloc_ok al \<Longrightarrow> packet_inv p \<Longrightarrow> bs \<noteq> [] \<Longrightarrow> length bs < 2 ^ 63
     \<Longrightarrow> packet_safe Out_of_memory (map_sum id snd (packet_write_value al p bs))"
  using packet_write_value_ok [of al p bs] by (auto simp: packet_inv_def)

lemma write_value_fails:
  "packet_write_value al p bs = Inl Out_of_memory \<Longrightarrow> al (unat (max (pk_size p * 2) (pk_offset p + of_nat (length bs)))) = None"
  by (auto simp: packet_write_value_def Let_def block_put_def split: sum.splits option.splits if_splits dest: packet_realloc_fails)

lemma read_value_safe:
  assumes "packet_inv p" "n \<noteq> 0" "unat n < 2 ^ 63"
  shows "packet_safe err (map_sum id snd (packet_read_value p n))"
proof -
  have n: "0 < unat n" "of_nat (unat n) = n" using assms(2) by (simp_all add: unat_gt_0)
  have "length (packet_bytes p) < 2 ^ 63"
    using assms(1) packet_ok_size [of p] by (auto simp: packet_inv_def packet_ok_def packet_bytes_def split: option.splits)
  moreover have "unat (pk_read_pos p + n) = unat (pk_read_pos p) + unat n"
    using unat_add_u64 [of "pk_read_pos p" "unat n"] assms by (simp add: packet_inv_def)
  ultimately show ?thesis
    using packet_read_value_ok [OF _ n(1) assms(3), of p] assms(1) n(2)
    by (auto simp: packet_inv_def)
qed

lemma clear_safe: "packet_inv p \<Longrightarrow> packet_safe err (packet_clear p)"
proof -
  assume p: "packet_inv p"
  then have ok: "packet_ok p" by (simp add: packet_inv_def)
  show ?thesis
  proof (cases "packet_empty p \<or> pk_offset p = 0")
    case True
    then show ?thesis using p by (simp add: packet_clear_def)
  next
    case False
    then obtain b where b: "pk_data p = Some b" "length b = unat (pk_size p)" "length b < 2 ^ 63"
      using packet_ok_data [OF ok] packet_ok_Some [OF ok] by (auto simp: packet_empty_def word_unat_eq_iff)
    have "0 + length (replicate (unat (pk_offset p)) (0::u8)) \<le> length b" using packet_ok_size [OF ok] b by simp
    from block_put_within [OF b(1) this] show ?thesis
      using False b packet_ok_size [OF ok] by (simp add: packet_clear_def packet_inv_def packet_ok_def)
  qed
qed

lemma free_safe: "packet_inv p \<Longrightarrow> packet_inv (packet_free p)"
  by (auto simp: packet_free_def packet_inv_def packet_ok_def packet_empty_def)

lemma copy_assign_safe:
  assumes al: "alloc_ok al" and p: "packet_inv p" and l: "packet_ok l"
  shows "packet_safe Terminate (packet_copy_assign al p l)"
proof (cases "pk_size l = 0 \<or> pk_offset l = 0")
  case True
  then show ?thesis using clear_safe [OF p] free_safe [OF p] by (auto simp: packet_copy_assign_def)
next
  case False
  let ?g = "if pk_size l > pk_size p then packet_realloc al p (pk_size l) else Inr p"
  show ?thesis
  proof (cases ?g)
    case (Inl e)
    then have "e = Out_of_memory" using packet_realloc_fails by (auto split: if_splits)
    then show ?thesis using False Inl by (simp add: packet_copy_assign_def)
  next
    case (Inr q)
    have q: "packet_ok q" "unat (pk_size l) \<le> unat (pk_size q)" "pk_read_pos q = pk_read_pos p"
      using Inr packet_realloc_ok [OF al, of p "pk_size l" q] p
      by (auto simp: packet_inv_def word_le_nat_alt word_less_nat_alt split: if_splits)
    obtain c where c: "pk_data l = Some c" "length c = unat (pk_size l)"
      using False packet_ok_data [OF l] packet_ok_Some [OF l] by (auto simp: word_unat_eq_iff)
    have o: "unat (pk_offset l) \<le> unat (pk_size l)" using packet_ok_size [OF l] by simp
    have "unat (pk_size q) \<noteq> 0" using q(2) False by (auto simp: word_unat_eq_iff)
    then obtain b where b: "pk_data q = Some b" "length b = unat (pk_size q)" "length b < 2 ^ 63"
      using packet_ok_data [OF q(1)] packet_ok_Some [OF q(1)] by auto
    define bs where "bs = take (unat (pk_offset l)) c"
    have bs: "block_get (pk_data l) 0 (unat (pk_offset l)) = Inr bs" "length bs = unat (pk_offset l)"
      using c o by (simp_all add: block_get_within bs_def)
    define d where "d = bs @ drop (length bs) b"
    have d: "block_put (pk_data q) 0 bs = Inr d" "length d = length b"
      using block_put_within [OF b(1), of 0 bs] bs(2) o q(2) b(2) by (simp_all add: d_def)
    have sub: "unat (pk_size q - pk_offset l) = unat (pk_size q) - unat (pk_offset l)"
      if "pk_offset l < pk_size q" using that by (simp add: unat_sub)
    define z where "z = (if pk_offset l < pk_size q
      then block_put (Some d) (unat (pk_offset l)) (replicate (unat (pk_size q - pk_offset l)) 0) else Inr d)"
    obtain d' where d': "z = Inr d'" "length d' = length b"
    proof (cases "pk_offset l < pk_size q")
      case True
      let ?z = "replicate (unat (pk_size q - pk_offset l)) (0::u8)"
      have "unat (pk_offset l) + length ?z = length d" using sub [OF True] True d(2) b(2) by (simp add: word_less_nat_alt)
      then show ?thesis using that True d(2) block_put_within [of "Some d" d "unat (pk_offset l)" ?z] by (simp add: z_def)
    qed (use that d(2) in \<open>simp add: z_def\<close>)
    have "packet_copy_assign al p l = Inr (q\<lparr>pk_data := Some d', pk_offset := pk_offset l\<rparr>)"
      using False Inr bs(1) d(1) d'(1) by (simp add: packet_copy_assign_def z_def)
    moreover have "packet_ok (q\<lparr>pk_data := Some d', pk_offset := pk_offset l\<rparr>)"
      using d'(2) b o q(2) by (simp add: packet_ok_def word_le_nat_alt)
    ultimately show ?thesis using q(3) p by (simp add: packet_inv_def)
  qed
qed

lemma copy_assign_fails: "packet_copy_assign al p l = Inl Terminate \<Longrightarrow> al (unat (pk_size l)) = None"
proof -
  assume f: "packet_copy_assign al p l = Inl Terminate"
  let ?g = "if pk_size l > pk_size p then packet_realloc al p (pk_size l) else Inr p"
  show ?thesis
  proof (cases ?g)
    case (Inl e)
    then show ?thesis by (auto split: if_splits dest: packet_realloc_fails)
  next
    case (Inr q)
    then show ?thesis
      using f by (auto simp: packet_copy_assign_def packet_clear_def block_put_def block_get_def split: if_splits sum.splits option.splits)
  qed
qed

lemma packet_step_safe:
  assumes "alloc_ok al" "packet_inv p" "packet_op_ok op"
  shows "packet_safe (case op of PCopyFrom l \<Rightarrow> Terminate | _ \<Rightarrow> Out_of_memory) (packet_step al p op)"
proof (cases op)
  case (PWrite buf)
  then show ?thesis using assms write_value_safe [OF assms(1,2)] by (auto simp: packet_write_def split: option.splits)
next
  case (PRead buffer n)
  then show ?thesis using assms read_value_safe [OF assms(2)] by (auto simp: packet_read_def)
next
  case (PSetPos pos)
  then show ?thesis using assms packet_ok_size [of p]
    by (auto simp: packet_set_pos_def packet_inv_def word_less_nat_alt)
next
  case PResetPos
  then show ?thesis using assms by (simp add: packet_reset_pos_def packet_inv_def)
next
  case (PMoveFrom r)
  then show ?thesis using assms by (simp add: packet_move_assign_def packet_inv_def packet_ok_def split: option.splits)
qed (use assms write_value_safe read_value_safe clear_safe free_safe copy_assign_safe in simp_all)

lemma packet_step_fails:
  assumes "alloc_ok al" "packet_inv p" "packet_op_ok op" "packet_step al p op = Inl e"
  shows "\<exists>n. packet_request p op = Some n \<and> al (unat n) = None"
proof -
  have e: "e = (case op of PCopyFrom l \<Rightarrow> Terminate | _ \<Rightarrow> Out_of_memory)"
    using packet_step_safe [OF assms(1-3)] assms(4) by simp
  show ?thesis
  proof (cases op)
    case (PWriteValue bs)
    then show ?thesis using assms(4) e write_value_fails [of al p bs] by (cases "packet_write_value al p bs") simp_all
  next
    case (PWrite buf)
    then show ?thesis
      using assms(4) e write_value_fails [of al p]
      by (cases "packet_write al p buf") (auto simp: packet_write_def split: option.splits if_splits)
  next
    case (PCopyFrom l)
    then show ?thesis using assms(4) e copy_assign_fails [of al p l] by simp
  qed (use packet_step_safe [OF assms(1-3)] assms in
      \<open>auto simp: packet_read_def packet_read_value_def packet_clear_def block_put_def block_get_def split: if_splits option.splits sum.splits\<close>)
qed

text \<open>
  C5. No sequence of packet operations leaves the buffer: from any well-formed packet, writes, reads, clears,
  copies and moves (of objects up to \<open>PTRDIFF_MAX\<close> bytes) end in a packet whose offset lies inside its block, or at the first operation
  for which the allocator does not provide the size that it asks for; in particular no \<open>memcpy\<close> or \<open>memset\<close> is undefined.  A write that
  fails throws the documented out-of-memory exception; a copy, which is \<open>noexcept\<close>, terminates the program.
\<close>

theorem packet_memory_safe:
  assumes "alloc_ok al" "packet_inv p" "list_all packet_op_ok ops"
  shows "case packet_run al p ops of
      Inr q \<Rightarrow> packet_inv q
    | Inl e \<Rightarrow> \<exists>pre op post q n. ops = pre @ op # post \<and> packet_run al p pre = Inr q \<and> packet_inv q
        \<and> packet_request q op = Some n \<and> al (unat n) = None
        \<and> e = (case op of PCopyFrom l \<Rightarrow> Terminate | _ \<Rightarrow> Out_of_memory)"
  using assms(2,3)
proof (induction ops arbitrary: p)
  case (Cons op ops)
  then have s: "packet_safe (case op of PCopyFrom l \<Rightarrow> Terminate | _ \<Rightarrow> Out_of_memory) (packet_step al p op)"
    using packet_step_safe [OF assms(1)] by simp
  show ?case
  proof (cases "packet_step al p op")
    case (Inl e)
    then obtain n where "packet_request p op = Some n" "al (unat n) = None"
      using packet_step_fails [OF assms(1) _ _ Inl] Cons.prems by auto
    then show ?thesis using Inl s Cons.prems(1) by (auto intro!: exI [of _ "[]"])
  next
    case (Inr q)
    then have "packet_inv q" using s by simp
    note ih = Cons.IH [OF this]
    show ?thesis
    proof (cases "packet_run al q ops")
      case e: (Inl e)
      then obtain pre op' post r n where split: "op # ops = (op # pre) @ op' # post" "packet_run al p (op # pre) = Inr r" "packet_inv r"
        "packet_request r op' = Some n" "al (unat n) = None" "e = (case op' of PCopyFrom l \<Rightarrow> Terminate | _ \<Rightarrow> Out_of_memory)"
        using ih Cons.prems(2) Inr by auto
      have "packet_run al p (op # ops) = Inl e" using e Inr by simp
      then show ?thesis using split by (simp only: sum.case) blast
    qed (use ih Cons.prems(2) Inr in simp)
  qed
qed simp

text \<open>An allocator that serves blocks of up to 64 bytes.\<close>

definition zalloc :: allocator where
  "zalloc n = (if n \<le> 64 then Some (replicate n 0) else None)"

lemma zalloc_ok: "alloc_ok zalloc"
  by (auto simp: alloc_ok_def zalloc_def)

theorem packet_memory_safe_witness:
  "(case packet_run zalloc packet_null
       [PWriteValue [1, 2, 3], PSetPos 1, PReadValue 2, PCopyFrom packet_null, PReadValue 1, PWrite (Some [9])] of
      Inr q \<Rightarrow> packet_inv q | Inl e \<Rightarrow> False)"
proof -
  let ?ops = "[PWriteValue [1, 2, 3], PSetPos 1, PReadValue 2, PCopyFrom packet_null, PReadValue 1, PWrite (Some [9])]"
  have "packet_inv packet_null" "list_all packet_op_ok ?ops" by (simp add: packet_inv_def, simp add: packet_null_def, simp)
  note r = packet_memory_safe [OF zalloc_ok this]
  have "\<not> isl (packet_run zalloc packet_null ?ops)" by code_simp
  then show ?thesis using r by (auto simp: isl_def split: sum.splits)
qed

subsection \<open>What is written is read back\<close>

fun packet_writes :: "allocator \<Rightarrow> packet \<Rightarrow> u8 list list \<Rightarrow> packet result" where
  "packet_writes al p [] = Inr p"
| "packet_writes al p (bs # bss) =
     (case packet_write_value al p bs of Inl e \<Rightarrow> Inl e | Inr (r, q) \<Rightarrow> packet_writes al q bss)"

fun packet_reads :: "packet \<Rightarrow> nat list \<Rightarrow> u8 list option list result" where
  "packet_reads p [] = Inr []"
| "packet_reads p (n # ns) =
     (case packet_read_value p (of_nat n) of
        Inl e \<Rightarrow> Inl e
      | Inr (r, q) \<Rightarrow> map_sum id (\<lambda>rs. r # rs) (packet_reads q ns))"

abbreviation chunk_ok :: "u8 list \<Rightarrow> bool" where
  "chunk_ok bs \<equiv> bs \<noteq> [] \<and> length bs < 2 ^ 63"

lemma packet_writes_bytes:
  assumes "alloc_ok al" "packet_ok p" "list_all chunk_ok bss" "packet_writes al p bss = Inr q"
  shows "packet_ok q \<and> packet_bytes q = packet_bytes p @ concat bss \<and> pk_read_pos q = pk_read_pos p"
  using assms(2-4)
proof (induction bss arbitrary: p)
  case (Cons bs bss)
  from Cons.prems(3) obtain r p1 where w: "packet_write_value al p bs = Inr (r, p1)" "packet_writes al p1 bss = Inr q"
    by (auto split: sum.splits)
  then have "packet_ok p1 \<and> packet_bytes p1 = packet_bytes p @ bs \<and> pk_read_pos p1 = pk_read_pos p"
    using packet_write_value_ok [OF assms(1) Cons.prems(1), of bs] Cons.prems(2) by auto
  then show ?case using Cons.IH [of p1] Cons.prems(2) w(2) by simp
qed simp

lemma packet_reads_bytes:
  assumes "packet_ok p" "list_all chunk_ok bss"
    and "drop (unat (pk_read_pos p)) (packet_bytes p) = concat bss" "unat (pk_read_pos p) \<le> length (packet_bytes p)"
  shows "packet_reads p (map length bss) = Inr (map Some bss)"
  using assms
proof (induction bss arbitrary: p)
  case (Cons bs bss)
  let ?p = "unat (pk_read_pos p)"
  have len: "length (packet_bytes p) < 2 ^ 63"
    using packet_ok_size [OF Cons.prems(1)] by (auto simp: packet_bytes_def split: option.splits)
  have n: "0 < length bs" "length bs < 2 ^ 63" using Cons.prems(2) by auto
  have "length (drop ?p (packet_bytes p)) = length bs + length (concat bss)" using Cons.prems(3) by simp
  then have le: "?p + length bs \<le> length (packet_bytes p)" using Cons.prems(4) by simp
  let ?q = "p\<lparr>pk_read_pos := pk_read_pos p + of_nat (length bs)\<rparr>"
  have r: "packet_read_value p (of_nat (length bs)) = Inr (Some bs, ?q)"
    using packet_read_value_ok [OF Cons.prems(1) n] le len Cons.prems(3) by simp
  have u: "unat (pk_read_pos ?q) = ?p + length bs" using le len unat_add_u64 [of "pk_read_pos p" "length bs"] by simp
  have pb: "packet_bytes ?q = packet_bytes p" by (simp add: packet_bytes_def split: option.split)
  have "drop (?p + length bs) (packet_bytes p) = drop (length bs) (drop ?p (packet_bytes p))"
    by (simp add: drop_drop add.commute)
  then have "drop (unat (pk_read_pos ?q)) (packet_bytes ?q) = concat bss"
    using Cons.prems(3) u pb by simp
  moreover have "packet_ok ?q" using Cons.prems(1) by simp
  ultimately have "packet_reads ?q (map length bss) = Inr (map Some bss)"
    using Cons.IH [of ?q] Cons.prems(2) u le pb by simp
  with r show ?case by simp
qed simp

text \<open>
  C18. Values written one after the other to a new packet are read back in the same order with the same contents,
  whatever the initial capacity and however often the buffer has been reallocated in between.
\<close>

theorem packet_roundtrip:
  assumes "alloc_ok al" "packet_new al n = Inr p" "list_all chunk_ok bss" "packet_writes al p bss = Inr q"
  shows "packet_reads q (map length bss) = Inr (map Some bss)"
proof -
  have p: "packet_ok p \<and> packet_bytes p = [] \<and> pk_read_pos p = 0"
    using packet_malloc_ok [OF assms(1) packet_ok_null, of n p] assms(2)
    by (simp add: packet_new_def packet_null_def packet_bytes_def)
  then have "packet_ok q" "packet_bytes q = concat bss" "pk_read_pos q = 0"
    using packet_writes_bytes [OF assms(1) _ assms(3,4)] by auto
  then show ?thesis using packet_reads_bytes [OF _ assms(3)] by simp
qed

theorem packet_roundtrip_witness:
  "\<exists>p q. packet_new zalloc 2 = Inr p \<and> packet_writes zalloc p [[1, 2, 3], [4]] = Inr q
     \<and> packet_reads q [3, 1] = Inr [Some [1, 2, 3], Some [4]]"
proof -
  let ?p = "\<lparr>pk_data = Some [0, 0], pk_size = 2, pk_offset = 0, pk_read_pos = 0\<rparr> :: packet"
  have p: "packet_new zalloc 2 = Inr ?p"
    by code_simp
  have "\<exists>q. packet_writes zalloc ?p [[1, 2, 3], [4]] = Inr q"
    by (simp add: packet_write_value_def packet_realloc_def block_put_def zalloc_def Let_def)
  then obtain q where q: "packet_writes zalloc ?p [[1, 2, 3], [4]] = Inr q" by blast
  have "packet_reads q (map length [[1 :: u8, 2, 3], [4]]) = Inr (map Some [[1, 2, 3], [4]])"
    by (rule packet_roundtrip [OF zalloc_ok p _ q]) simp
  with p q show ?thesis by (auto simp: numeral_3_eq_3)
qed

end
