(* ===== verification/SyncQueue.thy ===== *)
theory SyncQueue
  imports Cpp "HOL-Library.Multiset" "HOL-Library.Sublist"
begin

text \<open>
  The blocking queue \<open>src/include/container/sync_queue.h\<close>.  Its state is the queue and the stop flag; each member
  function is one definition for what it does while it holds the mutex.  The interleaving of several threads,
  with the mutex, the condition variable and spurious wakeups, is the step relation of the second part.

  The interface that the event handler, the logger and the thread pool rely on is the locale \<open>fifo_queue\<close>.
\<close>

record 'a SyncQueue =
  sq_queue :: "'a list"
  sq_stop :: bool

definition SyncQueue_new :: "'a SyncQueue" where
  "SyncQueue_new = \<lparr>sq_queue = [], sq_stop = False\<rparr>"

definition SyncQueue_Push :: "'a SyncQueue \<Rightarrow> 'a \<Rightarrow> 'a SyncQueue" where
  "SyncQueue_Push q v = q\<lparr>sq_queue := sq_queue q @ [v]\<rparr>"

text \<open>
  \<open>Pop\<close>: the predicate of the wait (with the value of \<open>cond()\<close>, \<open>False\<close> for \<open>Pop()\<close>), and what follows the wait.
  \<open>SyncQueue_Pop\<close> is \<open>None\<close> when the caller has to wait; \<open>front()\<close> of an empty queue is undefined.
\<close>

definition SyncQueue_Pop_pred :: "bool \<Rightarrow> 'a SyncQueue \<Rightarrow> bool" where
  "SyncQueue_Pop_pred cond q \<longleftrightarrow> sq_queue q \<noteq> [] \<or> sq_stop q \<or> cond"

definition SyncQueue_Pop_rest :: "'a SyncQueue \<Rightarrow> ('a option \<times> 'a SyncQueue) result" where
  "SyncQueue_Pop_rest q =
     (if sq_stop q then Inr (None, q)
      else case sq_queue q of
             [] \<Rightarrow> Inl Undefined
           | v # vs \<Rightarrow> Inr (Some v, q\<lparr>sq_queue := vs\<rparr>))"

definition SyncQueue_Pop :: "bool \<Rightarrow> 'a SyncQueue \<Rightarrow> ('a option \<times> 'a SyncQueue) result option" where
  "SyncQueue_Pop cond q = (if SyncQueue_Pop_pred cond q then Some (SyncQueue_Pop_rest q) else None)"

fun SyncQueue_Clear_loop :: "'a list \<Rightarrow> 'a list" where
  "SyncQueue_Clear_loop [] = []"
| "SyncQueue_Clear_loop (v # vs) = SyncQueue_Clear_loop vs"

definition SyncQueue_Clear :: "'a SyncQueue \<Rightarrow> 'a SyncQueue" where
  "SyncQueue_Clear q = q\<lparr>sq_queue := SyncQueue_Clear_loop (sq_queue q)\<rparr>"

definition SyncQueue_Stop :: "'a SyncQueue \<Rightarrow> 'a SyncQueue" where
  "SyncQueue_Stop q = q\<lparr>sq_stop := True\<rparr>"

definition SyncQueue_Size :: "'a SyncQueue \<Rightarrow> nat" where
  "SyncQueue_Size q = length (sq_queue q)"

lemma SyncQueue_Clear_loop_Nil [simp]: "SyncQueue_Clear_loop vs = []"
  by (induction vs) simp_all

lemma sq_queue_simps [simp]:
  "sq_queue (SyncQueue_Push q v) = sq_queue q @ [v]" "sq_queue (SyncQueue_Clear q) = []"
  "sq_queue (SyncQueue_Stop q) = sq_queue q" "sq_queue SyncQueue_new = []"
  "sq_stop (SyncQueue_Push q v) = sq_stop q" "sq_stop (SyncQueue_Clear q) = sq_stop q"
  "sq_stop (SyncQueue_Stop q)" "\<not> sq_stop SyncQueue_new"
  by (simp_all add: SyncQueue_Push_def SyncQueue_Clear_def SyncQueue_Stop_def SyncQueue_new_def)

text \<open>The three outcomes of \<open>Pop()\<close>.\<close>

lemma SyncQueue_Pop_simps:
  "sq_stop q \<Longrightarrow> SyncQueue_Pop c q = Some (Inr (None, q))"
  "\<not> sq_stop q \<Longrightarrow> sq_queue q = v # vs \<Longrightarrow> SyncQueue_Pop c q = Some (Inr (Some v, q\<lparr>sq_queue := vs\<rparr>))"
  "\<not> sq_stop q \<Longrightarrow> sq_queue q = [] \<Longrightarrow> SyncQueue_Pop False q = None"
  "\<not> sq_stop q \<Longrightarrow> sq_queue q = [] \<Longrightarrow> SyncQueue_Pop True q = Some (Inl Undefined)"
  by (simp_all add: SyncQueue_Pop_def SyncQueue_Pop_pred_def SyncQueue_Pop_rest_def)

lemma SyncQueue_PopE:
  assumes "SyncQueue_Pop c q = r"
  obtains (stopped) "sq_stop q" "r = Some (Inr (None, q))"
    | (item) v vs where "\<not> sq_stop q" "sq_queue q = v # vs" "r = Some (Inr (Some v, q\<lparr>sq_queue := vs\<rparr>))"
    | (wait) "\<not> sq_stop q" "sq_queue q = []" "\<not> c" "r = None"
    | (undef) "\<not> sq_stop q" "sq_queue q = []" "c" "r = Some (Inl Undefined)"
  using assms by (cases "sq_stop q"; cases "sq_queue q"; cases c) (auto simp: SyncQueue_Pop_simps)

subsection \<open>The interface of the queue\<close>

text \<open>What the clients use: \<open>push\<close> appends, \<open>pop\<close> takes from the front or asks to wait, \<open>stop\<close> makes \<open>pop\<close> return nothing.\<close>

locale fifo_queue =
  fixes items :: "'q \<Rightarrow> 'a list"
    and stopped :: "'q \<Rightarrow> bool"
    and push :: "'q \<Rightarrow> 'a \<Rightarrow> 'q"
    and pop :: "'q \<Rightarrow> ('a option \<times> 'q) result option"
    and stop :: "'q \<Rightarrow> 'q"
  assumes items_push: "items (push q v) = items q @ [v]"
    and stopped_push: "stopped (push q v) = stopped q"
    and items_stop: "items (stop q) = items q"
    and stopped_stop: "stopped (stop q)"
    and pop_item: "\<not> stopped q \<Longrightarrow> items q = v # vs \<Longrightarrow> \<exists>q'. pop q = Some (Inr (Some v, q')) \<and> items q' = vs \<and> \<not> stopped q'"
    and pop_wait: "\<not> stopped q \<Longrightarrow> items q = [] \<Longrightarrow> pop q = None"
    and pop_stopped: "stopped q \<Longrightarrow> pop q = Some (Inr (None, q))"
begin

text \<open>
  A consumer thread as the clients have it, \<open>while (!stop_requested) { auto v = pop(); if (v) handle(v); }\<close>: at most
  \<open>n\<close> rounds, ending early when \<open>pop\<close> has to wait.
\<close>

fun consume :: "('s \<Rightarrow> 'a \<Rightarrow> 's) \<Rightarrow> nat \<Rightarrow> 's \<Rightarrow> 'q \<Rightarrow> 's \<times> 'q" where
  "consume handle 0 s q = (s, q)"
| "consume handle (Suc n) s q =
     (case pop q of
        None \<Rightarrow> (s, q)
      | Some (Inl e) \<Rightarrow> (s, q)
      | Some (Inr (None, q')) \<Rightarrow> consume handle n s q'
      | Some (Inr (Some v, q')) \<Rightarrow> consume handle n (handle s v) q')"

lemma items_pushes: "items (foldl push q vs) = items q @ vs"
  by (induction vs arbitrary: q) (simp_all add: items_push)

lemma stopped_pushes: "stopped (foldl push q vs) = stopped q"
  by (induction vs arbitrary: q) (simp_all add: stopped_push)

lemma consume_all:
  assumes "\<not> stopped q" "length (items q) \<le> n"
  shows "\<exists>q'. consume handle n s q = (foldl handle s (items q), q') \<and> items q' = [] \<and> \<not> stopped q'"
  using assms
proof (induction n arbitrary: s q)
  case (Suc n)
  show ?case
  proof (cases "items q")
    case Nil
    then show ?thesis using Suc.prems(1) pop_wait by simp
  next
    case (Cons v vs)
    then obtain q' where q': "pop q = Some (Inr (Some v, q'))" "items q' = vs" "\<not> stopped q'"
      using pop_item Suc.prems(1) by blast
    then show ?thesis using Suc.IH [of q' "handle s v"] Suc.prems(2) Cons by simp
  qed
qed simp

lemma consume_prefix:
  assumes "\<not> stopped q"
  shows "fst (consume handle n s q) = foldl handle s (take n (items q))"
  using assms
proof (induction n arbitrary: s q)
  case (Suc n)
  show ?case
  proof (cases "items q")
    case Nil
    then show ?thesis using Suc.prems pop_wait by simp
  next
    case (Cons v vs)
    then obtain q' where q': "pop q = Some (Inr (Some v, q'))" "items q' = vs" "\<not> stopped q'"
      using pop_item Suc.prems by blast
    then show ?thesis using Suc.IH [of q' "handle s v"] Cons by simp
  qed
qed simp

lemma consume_stopped: "stopped q \<Longrightarrow> consume handle n s q = (s, q)"
  by (induction n) (simp_all add: pop_stopped)

text \<open>The same thread when an exception may leave \<open>handle\<close> (second component): it ends the thread in the middle of the round.\<close>

fun consume_until :: "('s \<Rightarrow> 'a \<Rightarrow> 's \<times> bool) \<Rightarrow> nat \<Rightarrow> 's \<Rightarrow> 'q \<Rightarrow> ('s \<times> bool) \<times> 'q" where
  "consume_until handle 0 s q = ((s, False), q)"
| "consume_until handle (Suc n) s q =
     (case pop q of
        None \<Rightarrow> ((s, False), q)
      | Some (Inl e) \<Rightarrow> ((s, False), q)
      | Some (Inr (None, q')) \<Rightarrow> consume_until handle n s q'
      | Some (Inr (Some v, q')) \<Rightarrow>
          (case handle s v of (s', escapes) \<Rightarrow> if escapes then ((s', True), q') else consume_until handle n s' q'))"

lemma consume_until_all:
  assumes "\<And>s v. v \<in> set (items q) \<Longrightarrow> handle s v = (step s v, False)" "\<not> stopped q" "length (items q) \<le> n"
  shows "\<exists>q'. consume_until handle n s q = ((foldl step s (items q), False), q') \<and> items q' = []"
  using assms
proof (induction n arbitrary: s q)
  case (Suc n)
  show ?case
  proof (cases "items q")
    case Nil
    then show ?thesis using Suc.prems(2) pop_wait by simp
  next
    case (Cons v vs)
    then obtain q' where q': "pop q = Some (Inr (Some v, q'))" "items q' = vs" "\<not> stopped q'"
      using pop_item Suc.prems(2) by blast
    then show ?thesis using Suc.IH [of q' "step s v"] Suc.prems(1,3) Cons by simp
  qed
qed simp

lemma consume_until_escape:
  assumes "\<And>s v. v \<in> set pre \<Longrightarrow> handle s v = (step s v, False)" "\<And>s. handle s v = (step s v, True)"
    and "\<not> stopped q" "items q = pre @ v # post" "length pre < n"
  shows "\<exists>q'. consume_until handle n s q = ((step (foldl step s pre) v, True), q') \<and> items q' = post"
  using assms
proof (induction n arbitrary: s q pre)
  case (Suc n)
  show ?case
  proof (cases pre)
    case Nil
    then show ?thesis using Suc.prems pop_item [of q v post] by auto
  next
    case (Cons u us)
    then obtain q' where q': "pop q = Some (Inr (Some u, q'))" "items q' = us @ v # post" "\<not> stopped q'"
      using pop_item [of q u "us @ v # post"] Suc.prems(3,4) by auto
    then show ?thesis using Suc.IH [of us q' "step s u"] Suc.prems(1,2,5) Cons by simp
  qed
qed simp

lemma consume_until_stopped: "stopped q \<Longrightarrow> consume_until handle n s q = ((s, False), q)"
  by (induction n) (simp_all add: pop_stopped)

end

interpretation sq: fifo_queue sq_queue sq_stop SyncQueue_Push "SyncQueue_Pop False" SyncQueue_Stop
  by unfold_locales (simp_all add: SyncQueue_Pop_simps)

text \<open>
  A \<open>SyncQueue\<close> is first-in first-out: a consumer that calls \<open>Pop\<close> as often as there are elements handles exactly
  the elements pushed, each once and in the order of the pushes, and leaves the queue empty.
\<close>

theorem SyncQueue_fifo:
  assumes "length vs \<le> n"
  shows "\<exists>q. sq.consume handle n s (foldl SyncQueue_Push SyncQueue_new vs) = (foldl handle s vs, q) \<and> sq_queue q = []"
  using sq.consume_all [of "foldl SyncQueue_Push SyncQueue_new vs" n handle s] assms
  by (auto simp: sq.items_pushes sq.stopped_pushes)

theorem SyncQueue_fifo_witness:
  "\<exists>q. sq.consume (\<lambda>s v. s @ [v]) 3 [] (foldl SyncQueue_Push SyncQueue_new [4, 5, 6 :: nat]) = ([4, 5, 6], q) \<and> sq_queue q = []"
  using SyncQueue_fifo [of "[4, 5, 6 :: nat]" 3 "\<lambda>s v. s @ [v]" "[]"] by simp

subsection \<open>Threads\<close>

text \<open>
  Where a thread is in \<open>Pop\<close>: outside, at the predicate with the mutex held and the predicate found false, blocked in
  the condition variable, or woken up and about to take the mutex again.
\<close>

datatype pc = Idle | Checked | Blocked | Woken

text \<open>
  The object with the threads that use it.  \<open>sys_pending\<close> counts the calls of \<open>Stop\<close> between \<open>request_stop\<close> and
  \<open>notify_all\<close>; \<open>sys_cond\<close> is the value of \<open>cond()\<close>, which may become true at any time (it is a stop token of the
  caller); \<open>sys_pushed\<close>, \<open>sys_gone\<close> and \<open>sys_popped\<close> record the elements pushed, removed, and returned by \<open>Pop\<close>.
\<close>

record 'a sqsys =
  sys_q :: "'a SyncQueue"
  sys_holder :: "nat option"
  sys_pcs :: "pc list"
  sys_cond :: bool
  sys_pending :: nat
  sys_undef :: bool
  sys_pushed :: "'a list"
  sys_gone :: "'a list"
  sys_popped :: "'a list"

definition sq_init :: "nat \<Rightarrow> 'a sqsys" where
  "sq_init n = \<lparr>sys_q = SyncQueue_new, sys_holder = None, sys_pcs = replicate n Idle, sys_cond = False, sys_pending = 0,
     sys_undef = False, sys_pushed = [], sys_gone = [], sys_popped = []\<rparr>"

text \<open>\<open>notify_one\<close> wakes one of the blocked threads, if there is one; \<open>notify_all\<close> wakes all of them.\<close>

definition notify_one :: "pc list \<Rightarrow> pc list \<Rightarrow> bool" where
  "notify_one ps ps' \<longleftrightarrow>
     (if Blocked \<in> set ps then \<exists>t < length ps. ps ! t = Blocked \<and> ps' = ps[t := Woken] else ps' = ps)"

definition notify_all :: "pc list \<Rightarrow> pc list" where
  "notify_all ps = map (\<lambda>p. if p = Blocked then Woken else p) ps"

definition at_pop :: "'a sqsys \<Rightarrow> nat \<Rightarrow> bool" where
  "at_pop s t \<longleftrightarrow> t < length (sys_pcs s) \<and> (sys_pcs s ! t = Idle \<or> sys_pcs s ! t = Woken) \<and> sys_holder s = None"

inductive sq_step :: "'a sqsys \<Rightarrow> 'a sqsys \<Rightarrow> bool" where
  push: "sys_holder s = None \<Longrightarrow> notify_one (sys_pcs s) ps \<Longrightarrow>
    sq_step s (s\<lparr>sys_q := SyncQueue_Push (sys_q s) v, sys_pcs := ps, sys_pushed := sys_pushed s @ [v]\<rparr>)"
| pop_item: "at_pop s t \<Longrightarrow> SyncQueue_Pop (sys_cond s) (sys_q s) = Some (Inr (Some v, q)) \<Longrightarrow>
    sq_step s (s\<lparr>sys_q := q, sys_pcs := (sys_pcs s)[t := Idle], sys_gone := sys_gone s @ [v], sys_popped := sys_popped s @ [v]\<rparr>)"
| pop_stop: "at_pop s t \<Longrightarrow> SyncQueue_Pop (sys_cond s) (sys_q s) = Some (Inr (None, q)) \<Longrightarrow>
    sq_step s (s\<lparr>sys_q := q, sys_pcs := (sys_pcs s)[t := Idle]\<rparr>)"
| pop_undef: "at_pop s t \<Longrightarrow> SyncQueue_Pop (sys_cond s) (sys_q s) = Some (Inl e) \<Longrightarrow>
    sq_step s (s\<lparr>sys_undef := True\<rparr>)"
| pop_check: "at_pop s t \<Longrightarrow> SyncQueue_Pop (sys_cond s) (sys_q s) = None \<Longrightarrow>
    sq_step s (s\<lparr>sys_pcs := (sys_pcs s)[t := Checked], sys_holder := Some t\<rparr>)"
| pop_block: "t < length (sys_pcs s) \<Longrightarrow> sys_pcs s ! t = Checked \<Longrightarrow>
    sq_step s (s\<lparr>sys_pcs := (sys_pcs s)[t := Blocked], sys_holder := None\<rparr>)"
| spurious: "t < length (sys_pcs s) \<Longrightarrow> sys_pcs s ! t = Blocked \<Longrightarrow>
    sq_step s (s\<lparr>sys_pcs := (sys_pcs s)[t := Woken]\<rparr>)"
| clear: "sys_holder s = None \<Longrightarrow>
    sq_step s (s\<lparr>sys_q := SyncQueue_Clear (sys_q s), sys_gone := sys_gone s @ sq_queue (sys_q s)\<rparr>)"
| request_stop: "sq_step s (s\<lparr>sys_q := SyncQueue_Stop (sys_q s), sys_pending := Suc (sys_pending s)\<rparr>)"
| stop_notify: "sys_pending s = Suc k \<Longrightarrow>
    sq_step s (s\<lparr>sys_pcs := notify_all (sys_pcs s), sys_pending := k\<rparr>)"
| cond_true: "sq_step s (s\<lparr>sys_cond := True\<rparr>)"

inductive sq_reach :: "nat \<Rightarrow> 'a sqsys \<Rightarrow> bool" for n where
  init: "sq_reach n (sq_init n)"
| step: "sq_reach n s \<Longrightarrow> sq_step s s' \<Longrightarrow> sq_reach n s'"

inductive_cases sq_stepE: "sq_step s s'"

text \<open>An invariant of the initial state that every step keeps holds in every reachable state.\<close>

lemma sq_invariant:
  assumes "sq_reach n s" "P (sq_init n)" "\<And>s s'. P s \<Longrightarrow> sq_step s s' \<Longrightarrow> P s'"
  shows "P s"
  using assms(1) by (induction rule: sq_reach.induct) (blast intro: assms(2,3))+

subsection \<open>Elements are neither lost nor duplicated nor reordered\<close>

definition sq_fifo_inv :: "'a sqsys \<Rightarrow> bool" where
  "sq_fifo_inv s \<longleftrightarrow> sys_gone s @ sq_queue (sys_q s) = sys_pushed s \<and> subseq (sys_popped s) (sys_gone s)"

lemma sq_fifo_init: "sq_fifo_inv (sq_init n)"
  by (simp add: sq_fifo_inv_def sq_init_def)

lemma sq_fifo_step: "sq_fifo_inv s \<Longrightarrow> sq_step s s' \<Longrightarrow> sq_fifo_inv s'"
proof (erule sq_stepE)
  fix t v q
  assume inv: "sq_fifo_inv s" and s': "s' = s\<lparr>sys_q := q, sys_pcs := (sys_pcs s)[t := Idle],
      sys_gone := sys_gone s @ [v], sys_popped := sys_popped s @ [v]\<rparr>"
    and "SyncQueue_Pop (sys_cond s) (sys_q s) = Some (Inr (Some v, q))"
  from this(3) show "sq_fifo_inv s'"
  proof (cases rule: SyncQueue_PopE)
    case (item w vs)
    then show ?thesis using inv s' by (auto simp: sq_fifo_inv_def intro: list_emb_append_mono)
  qed auto
next
  fix t q
  assume "sq_fifo_inv s" "s' = s\<lparr>sys_q := q, sys_pcs := (sys_pcs s)[t := Idle]\<rparr>"
    "SyncQueue_Pop (sys_cond s) (sys_q s) = Some (Inr (None, q))"
  then show "sq_fifo_inv s'" by (auto simp: sq_fifo_inv_def elim: SyncQueue_PopE)
next
  assume "sq_fifo_inv s" "s' = s\<lparr>sys_q := SyncQueue_Clear (sys_q s), sys_gone := sys_gone s @ sq_queue (sys_q s)\<rparr>"
  then show "sq_fifo_inv s'" using list_emb_append_mono [of "(=)" "sys_popped s" "sys_gone s" "[]" "sq_queue (sys_q s)"]
    by (simp add: sq_fifo_inv_def)
qed (simp_all add: sq_fifo_inv_def)

text \<open>
  C3. With any number of threads, any interleaving, spurious wakeups, \<open>Clear\<close> and \<open>Stop\<close>: the elements that have left
  the queue followed by those still in it are the elements pushed, in the order of the pushes, and the elements
  that \<open>Pop\<close> has returned are a subsequence of those that have left (the others were cleared).
\<close>

theorem SyncQueue_linear_order:
  assumes "sq_reach n s"
  shows "sys_gone s @ sq_queue (sys_q s) = sys_pushed s \<and> subseq (sys_popped s) (sys_gone s)"
proof -
  have "sq_fifo_inv s"
    using assms by (rule sq_invariant [where P = sq_fifo_inv]) (rule sq_fifo_init, rule sq_fifo_step)
  then show ?thesis by (simp add: sq_fifo_inv_def)
qed

subsection \<open>No lost wakeups\<close>

abbreviation woken :: "pc list \<Rightarrow> nat" where
  "woken ps \<equiv> count (mset ps) Woken"

lemma woken_update:
  "t < length ps \<Longrightarrow> woken (ps[t := p]) + (if ps ! t = Woken then 1 else 0) = woken ps + (if p = Woken then 1 else 0)"
proof -
  assume t: "t < length ps"
  have "ps ! t \<in># mset ps" using t by simp
  then have "0 < woken ps" if "ps ! t = Woken" using that by simp
  with t show ?thesis by (auto simp: mset_update)
qed

text \<open>At most one thread holds the mutex after a failed check, and a non-empty queue has enough threads on their way.\<close>

definition sq_wake_inv :: "'a sqsys \<Rightarrow> bool" where
  "sq_wake_inv s \<longleftrightarrow>
     (\<forall>t < length (sys_pcs s). sys_pcs s ! t = Checked \<longrightarrow> sys_holder s = Some t)
     \<and> (\<not> sq_stop (sys_q s) \<longrightarrow>
          (Checked \<in> set (sys_pcs s) \<longrightarrow> sq_queue (sys_q s) = [])
          \<and> (Blocked \<in> set (sys_pcs s) \<longrightarrow> length (sq_queue (sys_q s)) \<le> woken (sys_pcs s)))"

lemma sq_wakeI:
  assumes "\<And>t. t < length (sys_pcs s) \<Longrightarrow> sys_pcs s ! t = Checked \<Longrightarrow> sys_holder s = Some t"
    and "\<not> sq_stop (sys_q s) \<Longrightarrow> Checked \<in> set (sys_pcs s) \<Longrightarrow> sq_queue (sys_q s) = []"
    and "\<not> sq_stop (sys_q s) \<Longrightarrow> Blocked \<in> set (sys_pcs s) \<Longrightarrow> length (sq_queue (sys_q s)) \<le> woken (sys_pcs s)"
  shows "sq_wake_inv s"
  using assms by (simp add: sq_wake_inv_def)

lemma sq_wakeD:
  assumes "sq_wake_inv s"
  shows "t < length (sys_pcs s) \<Longrightarrow> sys_pcs s ! t = Checked \<Longrightarrow> sys_holder s = Some t"
    and "\<not> sq_stop (sys_q s) \<Longrightarrow> Checked \<in> set (sys_pcs s) \<Longrightarrow> sq_queue (sys_q s) = []"
    and "\<not> sq_stop (sys_q s) \<Longrightarrow> Blocked \<in> set (sys_pcs s) \<Longrightarrow> length (sq_queue (sys_q s)) \<le> woken (sys_pcs s)"
  using assms by (simp_all add: sq_wake_inv_def)

lemma no_Checked: "sq_wake_inv s \<Longrightarrow> sys_holder s = None \<Longrightarrow> Checked \<notin> set (sys_pcs s)"
  using sq_wakeD(1) [of s] by (metis in_set_conv_nth option.distinct(1))

lemma set_update_other: "x \<in> set (xs[i := y]) \<Longrightarrow> x \<noteq> y \<Longrightarrow> x \<in> set xs"
  using set_update_subset_insert [of xs i y] by auto

lemma nth_update_other: "t < length xs \<Longrightarrow> xs[i := y] ! t = x \<Longrightarrow> x \<noteq> y \<Longrightarrow> xs ! t = x"
  by (cases "i = t") simp_all

lemma wake_push:
  assumes inv: "sq_wake_inv s" and h: "sys_holder s = None" and n: "notify_one (sys_pcs s) ps"
  shows "sq_wake_inv (s\<lparr>sys_q := SyncQueue_Push (sys_q s) v, sys_pcs := ps, sys_pushed := pu\<rparr>)"
proof (cases "Blocked \<in> set (sys_pcs s)")
  case True
  then obtain t where t: "t < length (sys_pcs s)" "sys_pcs s ! t = Blocked" "ps = (sys_pcs s)[t := Woken]"
    using n by (auto simp: notify_one_def)
  have nc: "Checked \<notin> set ps" using no_Checked [OF inv h] t(3) set_update_other [of Checked] by auto
  show ?thesis
  proof (rule sq_wakeI)
    assume "\<not> sq_stop (sys_q (s\<lparr>sys_q := SyncQueue_Push (sys_q s) v, sys_pcs := ps, sys_pushed := pu\<rparr>))"
    then have "length (sq_queue (sys_q s)) \<le> woken (sys_pcs s)" using sq_wakeD(3) [OF inv] True by simp
    then show "length (sq_queue (sys_q (s\<lparr>sys_q := SyncQueue_Push (sys_q s) v, sys_pcs := ps, sys_pushed := pu\<rparr>)))
        \<le> woken (sys_pcs (s\<lparr>sys_q := SyncQueue_Push (sys_q s) v, sys_pcs := ps, sys_pushed := pu\<rparr>))"
      using woken_update [OF t(1), of Woken] t(2,3) by simp
  qed (use nc nth_mem in force)+
next
  case False
  then have "ps = sys_pcs s" using n by (simp add: notify_one_def)
  then show ?thesis using no_Checked [OF inv h] False by (intro sq_wakeI) (auto simp: in_set_conv_nth)
qed

lemma wake_leave:
  assumes inv: "sq_wake_inv s" and t: "at_pop s t"
    and q: "sq_stop q = sq_stop (sys_q s)" "\<not> sq_stop q \<Longrightarrow> Suc (length (sq_queue q)) = length (sq_queue (sys_q s))"
  shows "sq_wake_inv (s\<lparr>sys_q := q, sys_pcs := (sys_pcs s)[t := Idle], sys_gone := g, sys_popped := po\<rparr>)"
proof (rule sq_wakeI, goal_cases)
  case (1 u)
  then show ?case using no_Checked [OF inv] t nth_update_other [of u "sys_pcs s" t Idle Checked]
    by (auto simp: at_pop_def in_set_conv_nth)
next
  case 2
  then show ?case using no_Checked [OF inv] t set_update_other [of Checked] by (auto simp: at_pop_def)
next
  case 3
  then have "Blocked \<in> set (sys_pcs s)" using set_update_other [of Blocked "sys_pcs s" t Idle] by simp
  with 3 have "length (sq_queue (sys_q s)) \<le> woken (sys_pcs s)" using sq_wakeD(3) [OF inv] q(1) by simp
  moreover have "woken (sys_pcs s) \<le> Suc (woken ((sys_pcs s)[t := Idle]))"
    using woken_update [of t "sys_pcs s" Idle] t by (auto simp: at_pop_def split: if_splits)
  ultimately show ?case using q 3 by simp
qed

lemma wake_check:
  assumes inv: "sq_wake_inv s" and t: "at_pop s t" and p: "SyncQueue_Pop c (sys_q s) = None"
  shows "sq_wake_inv (s\<lparr>sys_pcs := (sys_pcs s)[t := Checked], sys_holder := Some t\<rparr>)"
proof -
  have e: "sq_queue (sys_q s) = []" using p by (auto elim: SyncQueue_PopE)
  show ?thesis
  proof (rule sq_wakeI, goal_cases)
    case (1 u)
    then show ?case using no_Checked [OF inv] t by (cases "u = t") (auto simp: at_pop_def in_set_conv_nth)
  qed (simp_all add: e)
qed

lemma wake_block:
  assumes inv: "sq_wake_inv s" and t: "t < length (sys_pcs s)" "sys_pcs s ! t = Checked"
  shows "sq_wake_inv (s\<lparr>sys_pcs := (sys_pcs s)[t := Blocked], sys_holder := None\<rparr>)"
proof (rule sq_wakeI, goal_cases)
  case (1 u)
  then have "sys_pcs s ! u = Checked" "u \<noteq> t" using nth_update_other [of u "sys_pcs s" t Blocked Checked] by auto
  then show ?case using sq_wakeD(1) [OF inv, of u] sq_wakeD(1) [OF inv t] 1 by simp
next
  case 2
  then show ?case using sq_wakeD(2) [OF inv] set_update_other [of Checked "sys_pcs s" t Blocked] by simp
next
  case 3
  have "Checked \<in> set (sys_pcs s)" using t nth_mem by metis
  then show ?case using 3 sq_wakeD(2) [OF inv] by simp
qed

lemma wake_spurious:
  assumes inv: "sq_wake_inv s" and t: "t < length (sys_pcs s)" "sys_pcs s ! t = Blocked"
  shows "sq_wake_inv (s\<lparr>sys_pcs := (sys_pcs s)[t := Woken]\<rparr>)"
proof (rule sq_wakeI, goal_cases)
  case (1 u)
  then show ?case using sq_wakeD(1) [OF inv, of u] nth_update_other [of u "sys_pcs s" t Woken Checked] by simp
next
  case 2
  then show ?case using sq_wakeD(2) [OF inv] set_update_other [of Checked "sys_pcs s" t Woken] by simp
next
  case 3
  then have "length (sq_queue (sys_q s)) \<le> woken (sys_pcs s)"
    using sq_wakeD(3) [OF inv] set_update_other [of Blocked "sys_pcs s" t Woken] by simp
  then show ?case using woken_update [OF t(1), of Woken] t(2) by simp
qed

lemma wake_notify_all: "sq_wake_inv s \<Longrightarrow> sq_wake_inv (s\<lparr>sys_pcs := notify_all (sys_pcs s), sys_pending := k\<rparr>)"
proof (rule sq_wakeI, goal_cases)
  case (1 u)
  then show ?case using sq_wakeD(1) [of s u] by (auto simp: notify_all_def split: if_splits)
next
  case 2
  then show ?case using sq_wakeD(2) [of s] by (auto simp: notify_all_def split: if_splits)
next
  case 3
  then show ?case by (auto simp: notify_all_def split: if_splits)
qed

lemma wake_queue:
  assumes "sq_wake_inv s" "\<not> sq_stop q \<Longrightarrow> \<not> sq_stop (sys_q s) \<and> sq_queue q = []"
  shows "sq_wake_inv (s\<lparr>sys_q := q, sys_gone := g, sys_pending := k\<rparr>)"
  using assms by (auto simp: sq_wake_inv_def)

lemma wake_flags [simp]:
  "sq_wake_inv (s\<lparr>sys_undef := b\<rparr>) \<longleftrightarrow> sq_wake_inv s" "sq_wake_inv (s\<lparr>sys_cond := b\<rparr>) \<longleftrightarrow> sq_wake_inv s"
  by (simp_all add: sq_wake_inv_def)

lemma sq_wake_step: "sq_wake_inv s \<Longrightarrow> sq_step s s' \<Longrightarrow> sq_wake_inv s'"
proof (erule sq_stepE)
  fix t v q
  assume "sq_wake_inv s" "s' = s\<lparr>sys_q := q, sys_pcs := (sys_pcs s)[t := Idle],
      sys_gone := sys_gone s @ [v], sys_popped := sys_popped s @ [v]\<rparr>" "at_pop s t"
    and "SyncQueue_Pop (sys_cond s) (sys_q s) = Some (Inr (Some v, q))"
  then show "sq_wake_inv s'" by (auto elim!: SyncQueue_PopE intro!: wake_leave)
next
  fix t q
  assume a: "sq_wake_inv s" "s' = s\<lparr>sys_q := q, sys_pcs := (sys_pcs s)[t := Idle]\<rparr>" "at_pop s t"
    and "SyncQueue_Pop (sys_cond s) (sys_q s) = Some (Inr (None, q))"
  then have "q = sys_q s" "sq_stop q" by (auto elim: SyncQueue_PopE)
  then show "sq_wake_inv s'" using wake_leave [OF a(1,3), where q = q and g = "sys_gone s" and po = "sys_popped s"] a(2) by simp
next
  fix t
  assume "sq_wake_inv s" "at_pop s t" "SyncQueue_Pop (sys_cond s) (sys_q s) = None"
    "s' = s\<lparr>sys_pcs := (sys_pcs s)[t := Checked], sys_holder := Some t\<rparr>"
  then show "sq_wake_inv s'" using wake_check by metis
next
  assume a: "sq_wake_inv s" "s' = s\<lparr>sys_q := SyncQueue_Clear (sys_q s), sys_gone := sys_gone s @ sq_queue (sys_q s)\<rparr>"
  then show "sq_wake_inv s'" using wake_queue [OF a(1), where q = "SyncQueue_Clear (sys_q s)" and k = "sys_pending s"] by simp
next
  assume a: "sq_wake_inv s" "s' = s\<lparr>sys_q := SyncQueue_Stop (sys_q s), sys_pending := Suc (sys_pending s)\<rparr>"
  then show "sq_wake_inv s'" using wake_queue [OF a(1), where q = "SyncQueue_Stop (sys_q s)" and g = "sys_gone s" and k = "Suc (sys_pending s)"] by simp
qed (auto intro: wake_push wake_block wake_spurious wake_notify_all)

lemma sq_wake_reach: "sq_reach n s \<Longrightarrow> sq_wake_inv s"
  by (erule sq_invariant [OF _ _ sq_wake_step]) (simp add: sq_wake_inv_def sq_init_def)

text \<open>
  C4. No wakeup of \<open>Push\<close> is lost: as long as the queue is not stopped, whenever it holds elements while a thread is
  blocked in \<open>Pop\<close>, at least as many threads as there are elements have been woken, and when the mutex is free one of
  them takes the first element in its next step.
\<close>

theorem SyncQueue_no_lost_wakeup:
  assumes "sq_reach n s" "\<not> sq_stop (sys_q s)" "sq_queue (sys_q s) = v # vs" "Blocked \<in> set (sys_pcs s)" "sys_holder s = None"
  shows "length (v # vs) \<le> woken (sys_pcs s)
    \<and> (\<exists>t s'. t < length (sys_pcs s) \<and> sys_pcs s ! t = Woken \<and> sq_step s s' \<and> sys_popped s' = sys_popped s @ [v] \<and> sys_pcs s' ! t = Idle)"
proof
  show le: "length (v # vs) \<le> woken (sys_pcs s)"
    using sq_wakeD(3) [OF sq_wake_reach [OF assms(1)] assms(2,4)] assms(3) by simp
  then have "0 < woken (sys_pcs s)" unfolding length_Cons by linarith
  then have "Woken \<in># mset (sys_pcs s)" by (simp only: count_greater_zero_iff)
  then obtain t where t: "t < length (sys_pcs s)" "sys_pcs s ! t = Woken" by (auto simp: in_set_conv_nth)
  then have "at_pop s t" using assms(5) by (simp add: at_pop_def)
  from sq_step.pop_item [OF this SyncQueue_Pop_simps(2) [OF assms(2,3)]] t
  show "\<exists>t s'. t < length (sys_pcs s) \<and> sys_pcs s ! t = Woken \<and> sq_step s s' \<and> sys_popped s' = sys_popped s @ [v] \<and> sys_pcs s' ! t = Idle"
    by (intro exI conjI) (assumption | simp)+
qed

text \<open>A thread that waits, an element that arrives, and the woken thread on its way.\<close>

lemmas sq_defs = sq_init_def at_pop_def notify_one_def notify_all_def SyncQueue_new_def SyncQueue_Push_def SyncQueue_Stop_def

lemma sq_reach_waiting:
  assumes "n = 2"
  shows "sq_reach n (\<lparr>sys_q = SyncQueue_new, sys_holder = None, sys_pcs = [Blocked, Blocked], sys_cond = False, sys_pending = 0,
    sys_undef = False, sys_pushed = [], sys_gone = [], sys_popped = []\<rparr> :: 'a sqsys)"
proof -
  have i: "sq_init n = (\<lparr>sys_q = SyncQueue_new, sys_holder = None, sys_pcs = [Idle, Idle], sys_cond = False, sys_pending = 0,
      sys_undef = False, sys_pushed = [], sys_gone = [], sys_popped = []\<rparr> :: 'a sqsys)"
    using assms by (simp add: sq_init_def numeral_2_eq_2)
  note r0 = sq_reach.init [of n, where ?'a = 'a, unfolded i]
  note r1 = sq_reach.step [OF r0 sq_step.pop_check [of _ 0]]
  note r2 = sq_reach.step [OF r1 sq_step.pop_block [of 0]]
  note r3 = sq_reach.step [OF r2 sq_step.pop_check [of _ 1]]
  note r4 = sq_reach.step [OF r3 sq_step.pop_block [of 1]]
  show ?thesis using r4 by (simp add: at_pop_def SyncQueue_Pop_simps)
qed

theorem SyncQueue_no_lost_wakeup_witness:
  "\<exists>s :: nat sqsys. sq_reach 2 s \<and> Blocked \<in> set (sys_pcs s)
     \<and> length [7 :: nat] \<le> woken (sys_pcs s)
     \<and> (\<exists>t s'. t < length (sys_pcs s) \<and> sys_pcs s ! t = Woken \<and> sq_step s s' \<and> sys_popped s' = sys_popped s @ [7] \<and> sys_pcs s' ! t = Idle)"
proof -
  let ?s = "\<lparr>sys_q = \<lparr>sq_queue = [7], sq_stop = False\<rparr>, sys_holder = None, sys_pcs = [Woken, Blocked], sys_cond = False, sys_pending = 0,
      sys_undef = False, sys_pushed = [7], sys_gone = [], sys_popped = []\<rparr> :: nat sqsys"
  have "notify_one [Blocked, Blocked] [Woken, Blocked]" by (auto simp: notify_one_def intro!: exI [of _ 0])
  then have r: "sq_reach 2 ?s"
    using sq_reach.step [OF sq_reach_waiting [OF refl] sq_step.push [where v = 7]]
    by (simp add: SyncQueue_new_def SyncQueue_Push_def)
  show ?thesis using SyncQueue_no_lost_wakeup [OF r, of 7 "[]"] r by (intro exI [of _ ?s]) simp
qed

theorem SyncQueue_linear_order_witness:
  "\<exists>s :: nat sqsys. sq_reach 2 s \<and> sys_gone s @ sq_queue (sys_q s) = sys_pushed s \<and> subseq (sys_popped s) (sys_gone s)"
  using sq_reach_waiting [OF refl] SyncQueue_linear_order by blast

subsection \<open>Stopping and conditions\<close>

text \<open>
  C40. \<open>Stop\<close> can be missed: it sets the flag and notifies without taking the mutex, so a thread that has found the
  predicate false but has not yet blocked sleeps on although the queue is stopped and all notifications are out.
\<close>

theorem SyncQueue_Stop_lost_wakeup:
  "\<exists>s :: 'a sqsys. sq_reach 1 s \<and> sq_stop (sys_q s) \<and> sys_pending s = 0 \<and> sys_holder s = None \<and> sys_pcs s = [Blocked]"
proof -
  have i: "sq_init 1 = (\<lparr>sys_q = SyncQueue_new, sys_holder = None, sys_pcs = [Idle], sys_cond = False, sys_pending = 0,
      sys_undef = False, sys_pushed = [], sys_gone = [], sys_popped = []\<rparr> :: 'a sqsys)"
    by (simp add: sq_init_def)
  note r0 = sq_reach.init [of 1, where ?'a = 'a, unfolded i]
  note r1 = sq_reach.step [OF r0 sq_step.pop_check [of _ 0]]
  note r2 = sq_reach.step [OF r1 sq_step.request_stop]
  note r3 = sq_reach.step [OF r2 sq_step.stop_notify [of _ 0]]
  note r4 = sq_reach.step [OF r3 sq_step.pop_block [of 0]]
  show ?thesis by (rule exI, rule conjI, rule r4) (simp_all add: at_pop_def SyncQueue_Pop_simps notify_all_def)
qed

lemma undef_needs_cond: "sq_reach n s \<Longrightarrow> sys_undef s \<longrightarrow> sys_cond s"
proof (induction rule: sq_reach.induct)
  case (step s s')
  from step.hyps(2) step.IH show ?case by cases (auto elim: SyncQueue_PopE)
qed (simp add: sq_init_def)

text \<open>
  \<open>Pop()\<close> never reads the front of an empty queue; \<open>Pop(cond)\<close> does so exactly because of its condition: an
  undefined read is reachable only after \<open>cond()\<close> has become true, and then it is reachable with a single thread.
\<close>

theorem SyncQueue_Pop_undefined_iff_cond:
  "(\<exists>s :: 'a sqsys. sq_reach 1 s \<and> sys_undef s) \<and> \<not> (\<exists>n. \<exists>s :: 'a sqsys. sq_reach n s \<and> sys_undef s \<and> \<not> sys_cond s)"
proof
  have i: "sq_init 1 = (\<lparr>sys_q = SyncQueue_new, sys_holder = None, sys_pcs = [Idle], sys_cond = False, sys_pending = 0,
      sys_undef = False, sys_pushed = [], sys_gone = [], sys_popped = []\<rparr> :: 'a sqsys)"
    by (simp add: sq_init_def)
  note r0 = sq_reach.init [of 1, where ?'a = 'a, unfolded i]
  note r1 = sq_reach.step [OF r0 sq_step.cond_true]
  note r2 = sq_reach.step [OF r1 sq_step.pop_undef [of _ 0 Undefined]]
  show "\<exists>s :: 'a sqsys. sq_reach 1 s \<and> sys_undef s"
    by (rule exI, rule conjI, rule r2) (simp_all add: at_pop_def SyncQueue_Pop_simps)
  show "\<not> (\<exists>n. \<exists>s :: 'a sqsys. sq_reach n s \<and> sys_undef s \<and> \<not> sys_cond s)" using undef_needs_cond by blast
qed

end
