(* ===== verification/Promise.thy ===== *)
theory Promise
  imports Cpp
begin

text \<open>
  Promises and futures, \<open>src/include/thread/thread.h\<close>: the shared state \<open>_SharedPromiseState<F, S>\<close>, and the handles
  \<open>Promise\<close> and \<open>Future\<close> that refer to one.  Every member function of the shared state holds its mutex from its
  first statement to its last, so the behaviour under concurrency is that of a sequence of calls.

  A callback is known by a number, \<open>None\<close> being the empty \<open>std::function\<close>; \<open>ps_calls\<close> records the invocations and
  what they were given.  A value handed over by \<open>std::move\<close> is \<open>Moved\<close> afterwards.  The parameters \<open>void_fail\<close> and
  \<open>void_success\<close> are the template constants of that name: for \<open>void\<close> a callback is called without a value.
\<close>

datatype 'v val_slot = Empty | Held 'v | Moved

datatype ('f, 's) call = SuccessCall nat "'s val_slot" | FailCall nat "'f val_slot"

record ('f, 's) PromiseState =
  ps_finished :: bool
  ps_successed :: bool
  ps_s_func :: "nat option"
  ps_f_func :: "nat option"
  ps_success_value :: "'s val_slot"
  ps_fail_value :: "'f val_slot"
  ps_calls :: "('f, 's) call list"

definition PromiseState_new :: "('f, 's) PromiseState" where
  "PromiseState_new = \<lparr>ps_finished = False, ps_successed = False, ps_s_func = None, ps_f_func = None,
     ps_success_value = Empty, ps_fail_value = Empty, ps_calls = []\<rparr>"

text \<open>Calling a callback, without a value or with the value moved out of its slot.\<close>

definition call_success :: "bool \<Rightarrow> nat \<Rightarrow> ('f, 's) PromiseState \<Rightarrow> ('f, 's) PromiseState" where
  "call_success void c p =
     (if void then p\<lparr>ps_calls := ps_calls p @ [SuccessCall c Empty]\<rparr>
      else p\<lparr>ps_calls := ps_calls p @ [SuccessCall c (ps_success_value p)], ps_success_value := Moved\<rparr>)"

definition call_fail :: "bool \<Rightarrow> nat \<Rightarrow> ('f, 's) PromiseState \<Rightarrow> ('f, 's) PromiseState" where
  "call_fail void c p =
     (if void then p\<lparr>ps_calls := ps_calls p @ [FailCall c Empty]\<rparr>
      else p\<lparr>ps_calls := ps_calls p @ [FailCall c (ps_fail_value p)], ps_fail_value := Moved\<rparr>)"

definition SetFailFunc :: "bool \<Rightarrow> nat option \<Rightarrow> ('f, 's) PromiseState \<Rightarrow> ('f, 's) PromiseState" where
  "SetFailFunc void_fail v p =
     (case v of
        None \<Rightarrow> p
      | Some c \<Rightarrow>
          if ps_finished p \<and> \<not> ps_successed p then
            if void_fail then call_fail True c p
            else if ps_fail_value p \<noteq> Empty then call_fail False c p else p
          else p\<lparr>ps_f_func := Some c\<rparr>)"

definition SetSuccessFunc :: "bool \<Rightarrow> nat option \<Rightarrow> ('f, 's) PromiseState \<Rightarrow> ('f, 's) PromiseState" where
  "SetSuccessFunc void_success v p =
     (case v of
        None \<Rightarrow> p
      | Some c \<Rightarrow>
          if ps_finished p \<and> ps_successed p then
            if void_success then call_success True c p
            else if ps_success_value p \<noteq> Empty then call_success False c p else p
          else p\<lparr>ps_s_func := Some c\<rparr>)"

text \<open>The value is stored only when it is not \<open>void\<close>.\<close>

definition SetFailed :: "bool \<Rightarrow> 'f \<Rightarrow> ('f, 's) PromiseState \<Rightarrow> ('f, 's) PromiseState" where
  "SetFailed void_fail x p =
     (if ps_finished p then p
      else let p1 = p\<lparr>ps_finished := True, ps_successed := False\<rparr>;
               p2 = (if void_fail then p1 else p1\<lparr>ps_fail_value := Held x\<rparr>)
           in case ps_f_func p2 of None \<Rightarrow> p2 | Some c \<Rightarrow> call_fail void_fail c p2)"

definition SetSuccessed :: "bool \<Rightarrow> 's \<Rightarrow> ('f, 's) PromiseState \<Rightarrow> ('f, 's) PromiseState" where
  "SetSuccessed void_success x p =
     (if ps_finished p then p
      else let p1 = p\<lparr>ps_finished := True, ps_successed := True\<rparr>;
               p2 = (if void_success then p1 else p1\<lparr>ps_success_value := Held x\<rparr>)
           in case ps_s_func p2 of None \<Rightarrow> p2 | Some c \<Rightarrow> call_success void_success c p2)"

definition IsFinished :: "('f, 's) PromiseState \<Rightarrow> bool" where
  "IsFinished p = ps_finished p"

definition IsSuccessed :: "('f, 's) PromiseState \<Rightarrow> bool" where
  "IsSuccessed p \<longleftrightarrow> ps_finished p \<and> ps_successed p"

subsection \<open>Promises and futures\<close>

text \<open>
  The shared states live on the heap; a \<open>Promise\<close> or \<open>Future\<close> holds the address of one or the null pointer
  (\<open>_state\<close>).  \<open>pw_next\<close> is the next free address.
\<close>

type_synonym handle = "nat option"

record ('f, 's) pworld =
  pw_states :: "nat \<Rightarrow> ('f, 's) PromiseState"
  pw_next :: nat

definition Promise_new :: "('f, 's) pworld \<Rightarrow> handle \<times> ('f, 's) pworld" where
  "Promise_new w = (Some (pw_next w), w\<lparr>pw_states := (pw_states w)(pw_next w := PromiseState_new), pw_next := Suc (pw_next w)\<rparr>)"

text \<open>Moving a handle: the new owner, and what is left of the old one.\<close>

definition Promise_move :: "handle \<Rightarrow> handle \<times> handle" where
  "Promise_move other = (other, None)"

definition Future_move :: "handle \<Rightarrow> handle \<times> handle" where
  "Future_move other = (other, None)"

definition Promise_GetFuture :: "handle \<Rightarrow> handle result" where
  "Promise_GetFuture s = (case s of None \<Rightarrow> Inl Bad_state | Some a \<Rightarrow> Inr (Some a))"

definition on_state :: "(('f, 's) PromiseState \<Rightarrow> ('f, 's) PromiseState) \<Rightarrow> handle \<Rightarrow> ('f, 's) pworld \<Rightarrow> ('f, 's) pworld" where
  "on_state f s w = (case s of None \<Rightarrow> w | Some a \<Rightarrow> w\<lparr>pw_states := (pw_states w)(a := f (pw_states w a))\<rparr>)"

definition Promise_SetFailed :: "bool \<Rightarrow> handle \<Rightarrow> 'f \<Rightarrow> ('f, 's) pworld \<Rightarrow> ('f, 's) pworld" where
  "Promise_SetFailed vf s x = on_state (SetFailed vf x) s"

definition Promise_SetSuccessed :: "bool \<Rightarrow> handle \<Rightarrow> 's \<Rightarrow> ('f, 's) pworld \<Rightarrow> ('f, 's) pworld" where
  "Promise_SetSuccessed vs s x = on_state (SetSuccessed vs x) s"

definition Future_Then :: "bool \<Rightarrow> handle \<Rightarrow> nat option \<Rightarrow> ('f, 's) pworld \<Rightarrow> ('f, 's) pworld" where
  "Future_Then vs s func w = (if func = None then w else on_state (SetSuccessFunc vs func) s w)"

definition Future_Fail :: "bool \<Rightarrow> handle \<Rightarrow> nat option \<Rightarrow> ('f, 's) pworld \<Rightarrow> ('f, 's) pworld" where
  "Future_Fail vf s func w = (if func = None then w else on_state (SetFailFunc vf func) s w)"

definition Future_IsFinished :: "handle \<Rightarrow> ('f, 's) pworld \<Rightarrow> bool" where
  "Future_IsFinished s w = (case s of None \<Rightarrow> False | Some a \<Rightarrow> IsFinished (pw_states w a))"

definition Future_IsSuccessed :: "handle \<Rightarrow> ('f, 's) pworld \<Rightarrow> bool" where
  "Future_IsSuccessed s w = (case s of None \<Rightarrow> False | Some a \<Rightarrow> IsSuccessed (pw_states w a))"

subsection \<open>Sequences of calls\<close>

datatype ('f, 's) promise_op = Then "nat option" | Fail "nat option" | Fulfil 's | Reject 'f

fun ps_step :: "bool \<Rightarrow> bool \<Rightarrow> ('f, 's) PromiseState \<Rightarrow> ('f, 's) promise_op \<Rightarrow> ('f, 's) PromiseState" where
  "ps_step vf vs p (Then c) = SetSuccessFunc vs c p"
| "ps_step vf vs p (Fail c) = SetFailFunc vf c p"
| "ps_step vf vs p (Fulfil x) = SetSuccessed vs x p"
| "ps_step vf vs p (Reject x) = SetFailed vf x p"

abbreviation ps_run :: "bool \<Rightarrow> bool \<Rightarrow> ('f, 's) PromiseState \<Rightarrow> ('f, 's) promise_op list \<Rightarrow> ('f, 's) PromiseState" where
  "ps_run vf vs \<equiv> foldl (ps_step vf vs)"

fun settles :: "('f, 's) promise_op \<Rightarrow> bool" where
  "settles (Fulfil x) \<longleftrightarrow> True"
| "settles (Reject x) \<longleftrightarrow> True"
| "settles _ \<longleftrightarrow> False"

text \<open>The callbacks registered by a sequence of calls.\<close>

fun thens :: "('f, 's) promise_op list \<Rightarrow> nat list" where
  "thens [] = []"
| "thens (Then (Some c) # ops) = c # thens ops"
| "thens (op # ops) = thens ops"

fun fails :: "('f, 's) promise_op list \<Rightarrow> nat list" where
  "fails [] = []"
| "fails (Fail (Some c) # ops) = c # fails ops"
| "fails (op # ops) = fails ops"

text \<open>The last one, when there is one; and a value that is given to the first of several callbacks.\<close>

definition last_opt :: "'a list \<Rightarrow> 'a list" where
  "last_opt xs = (if xs = [] then [] else [last xs])"

fun handed :: "bool \<Rightarrow> 'v val_slot \<Rightarrow> nat list \<Rightarrow> (nat \<times> 'v val_slot) list" where
  "handed void x [] = []"
| "handed void x (c # cs) = (if void then (c, Empty) # handed void x cs else (c, x) # handed void Moved cs)"

text \<open>Before the promise is settled callbacks are only remembered, the last one of each kind.\<close>

lemma thens_append [simp]: "thens (xs @ ys) = thens xs @ thens ys"
  by (induction xs rule: thens.induct) simp_all

lemma fails_append [simp]: "fails (xs @ ys) = fails xs @ fails ys"
  by (induction xs rule: fails.induct) simp_all

lemma run_pending:
  assumes "list_all (\<lambda>op. \<not> settles op) ops"
  shows "ps_run vf vs PromiseState_new ops = PromiseState_new
    \<lparr>ps_s_func := (if thens ops = [] then None else Some (last (thens ops))),
     ps_f_func := (if fails ops = [] then None else Some (last (fails ops)))\<rparr>"
  using assms
proof (induction ops rule: rev_induct)
  case (snoc op ops)
  then show ?case
    by (cases op) (auto simp: SetSuccessFunc_def SetFailFunc_def PromiseState_new_def split: option.splits)
qed (simp add: PromiseState_new_def)

text \<open>After it is settled only callbacks of its kind are called, at once.\<close>

lemma run_fulfilled:
  assumes "ps_finished p" "ps_successed p" "vs \<or> ps_success_value p \<noteq> Empty"
  shows "ps_calls (ps_run vf vs p ops) = ps_calls p @ map (\<lambda>(c, x). SuccessCall c x) (handed vs (ps_success_value p) (thens ops))
    \<and> ps_finished (ps_run vf vs p ops) \<and> ps_successed (ps_run vf vs p ops)"
  using assms
proof (induction ops arbitrary: p)
  case (Cons op ops)
  show ?case
  proof (cases op)
    case (Then v)
    then show ?thesis using Cons.prems Cons.IH [of "SetSuccessFunc vs v p"]
      by (cases v) (auto simp: SetSuccessFunc_def call_success_def)
  next
    case (Fail v)
    then show ?thesis using Cons.prems Cons.IH [of "SetFailFunc vf v p"]
      by (cases v) (auto simp: SetFailFunc_def)
  qed (use Cons in \<open>simp_all add: SetSuccessed_def SetFailed_def\<close>)
qed simp

lemma run_rejected:
  assumes "ps_finished p" "\<not> ps_successed p" "vf \<or> ps_fail_value p \<noteq> Empty"
  shows "ps_calls (ps_run vf vs p ops) = ps_calls p @ map (\<lambda>(c, x). FailCall c x) (handed vf (ps_fail_value p) (fails ops))
    \<and> ps_finished (ps_run vf vs p ops) \<and> \<not> ps_successed (ps_run vf vs p ops)"
  using assms
proof (induction ops arbitrary: p)
  case (Cons op ops)
  show ?case
  proof (cases op)
    case (Fail v)
    then show ?thesis using Cons.prems Cons.IH [of "SetFailFunc vf v p"]
      by (cases v) (auto simp: SetFailFunc_def call_fail_def)
  next
    case (Then v)
    then show ?thesis using Cons.prems Cons.IH [of "SetSuccessFunc vs v p"]
      by (cases v) (auto simp: SetSuccessFunc_def)
  qed (use Cons in \<open>simp_all add: SetSuccessed_def SetFailed_def\<close>)
qed simp

text \<open>
  C25. A promise that is fulfilled with \<open>x\<close> after the calls \<open>pre\<close>, whatever calls \<open>post\<close> follow (further attempts to
  settle it included), calls no failure callback, and of the success callbacks exactly the last one registered
  before and each one registered after, in this order; the first of them receives \<open>x\<close>, the later ones a value
  that has been moved from.
\<close>

theorem promise_fulfil_calls:
  assumes "list_all (\<lambda>op. \<not> settles op) pre"
  shows "ps_calls (ps_run vf vs PromiseState_new (pre @ Fulfil x # post))
    = map (\<lambda>(c, y). SuccessCall c y) (handed vs (Held x) (last_opt (thens pre) @ thens post))"
proof -
  let ?p = "ps_run vf vs PromiseState_new pre"
  let ?q = "SetSuccessed vs x ?p"
  have q: "ps_calls ?q = map (\<lambda>(c, y). SuccessCall c y) (handed vs (Held x) (last_opt (thens pre)))"
    "ps_finished ?q" "ps_successed ?q"
    "ps_success_value ?q = (if vs then Empty else if thens pre = [] then Held x else Moved)"
    unfolding run_pending [OF assms]
    by (simp_all add: SetSuccessed_def call_success_def PromiseState_new_def last_opt_def Let_def)
  have h: "handed vs (Held x) (last_opt cs @ ds) = handed vs (Held x) (last_opt cs)
      @ handed vs (if vs then Empty else if cs = [] then Held x else Moved) ds" for cs ds
    by (cases "cs = []"; cases vs; induction ds) (simp_all add: last_opt_def)
  have "vs \<or> ps_success_value ?q \<noteq> Empty" using q(4) by simp
  from run_fulfilled [OF q(2,3) this, of vf post] show ?thesis
    unfolding q(1,4) by (simp add: h)
qed

theorem promise_fulfil_calls_witness:
  "ps_calls (ps_run True False PromiseState_new ([Then (Some 1), Then (Some 2)] @ Fulfil (42 :: nat) # [Reject (), Then (Some 3)]))
    = [SuccessCall 2 (Held 42), SuccessCall 3 Moved]"
  using promise_fulfil_calls [of "[Then (Some 1), Then (Some 2)]" True False "42 :: nat" "[Reject (), Then (Some 3)]"]
  by (simp add: last_opt_def)

text \<open>
  Dually for a promise that is rejected: no success callback is ever called, and the failure callbacks called are
  the last one registered before and each one registered after.
\<close>

theorem promise_reject_calls:
  assumes "list_all (\<lambda>op. \<not> settles op) pre"
  shows "ps_calls (ps_run vf vs PromiseState_new (pre @ Reject x # post))
    = map (\<lambda>(c, y). FailCall c y) (handed vf (Held x) (last_opt (fails pre) @ fails post))"
proof -
  let ?p = "ps_run vf vs PromiseState_new pre"
  let ?q = "SetFailed vf x ?p"
  have q: "ps_calls ?q = map (\<lambda>(c, y). FailCall c y) (handed vf (Held x) (last_opt (fails pre)))"
    "ps_finished ?q" "\<not> ps_successed ?q"
    "ps_fail_value ?q = (if vf then Empty else if fails pre = [] then Held x else Moved)"
    unfolding run_pending [OF assms]
    by (simp_all add: SetFailed_def call_fail_def PromiseState_new_def last_opt_def Let_def)
  have h: "handed vf (Held x) (last_opt cs @ ds) = handed vf (Held x) (last_opt cs)
      @ handed vf (if vf then Empty else if cs = [] then Held x else Moved) ds" for cs ds
    by (cases "cs = []"; cases vf; induction ds) (simp_all add: last_opt_def)
  have "vf \<or> ps_fail_value ?q \<noteq> Empty" using q(4) by simp
  from run_rejected [OF q(2,3) this, of vs post] show ?thesis
    unfolding q(1,4) by (simp add: h)
qed

theorem promise_reject_calls_witness:
  "ps_calls (ps_run False True PromiseState_new ([Then (Some 1), Fail (Some 2)] @ Reject (5 :: nat) # [Fulfil ()]))
    = [FailCall 2 (Held 5)]"
  using promise_reject_calls [of "[Then (Some 1), Fail (Some 2)]" False True "5 :: nat" "[Fulfil ()]"]
  by (simp add: last_opt_def)

end
