(* ===== verification/EventBus.thy ===== *)
theory EventBus
  imports SyncQueue
begin

text \<open>
  The event bus, \<open>src/include/event_bus/event_bus.h\<close> and \<open>event_handler.h\<close>.  A handler owns a queue of events and a
  table of callbacks by type name, and a thread that takes events from the queue and calls the callback of their type;
  the bus hands published events to the subscribed handlers.  The queue is used through the interface \<open>fifo_queue\<close>.

  Handlers are objects on a heap, known by their address; the bus holds a \<open>std::set\<close> of addresses, which is iterated
  in ascending order.  A callback is known by a number; \<open>throws\<close> says which of them throw.  \<open>eh_log\<close> records what the
  thread of a handler has called.
\<close>

text \<open>\<open>std::any\<close>: nothing, or a value with the name of its type.\<close>

datatype 'm any = AnyEmpty | Any string 'm

record 'm Event =
  ev_type :: string
  ev_ev :: "'m any"
  ev_ack :: "nat option"

text \<open>A callback registered by \<open>On<T>\<close>, which unpacks the value, or by \<open>OnType\<close>, which gets the event.\<close>

datatype event_fn = OnFn string nat | TypeFn nat

datatype 'm action = Called nat 'm | CalledType nat "'m Event" | Acked nat

record 'm EventHandler =
  eh_events :: "'m Event SyncQueue"
  eh_handles :: "string \<Rightarrow> event_fn option"
  eh_start :: bool
  eh_stop_requested :: bool
  eh_log :: "'m action list"

definition EventHandler_new :: "'m EventHandler" where
  "EventHandler_new = \<lparr>eh_events = SyncQueue_new, eh_handles = Map.empty, eh_start = False, eh_stop_requested = False, eh_log = []\<rparr>"

subsection \<open>The handler\<close>

definition EventHandler_On :: "'m EventHandler \<Rightarrow> string \<Rightarrow> nat option \<Rightarrow> bool \<times> 'm EventHandler" where
  "EventHandler_On h type_name callback =
     (case callback of
        None \<Rightarrow> (False, h)
      | Some c \<Rightarrow>
          if eh_handles h type_name = None
          then (True, h\<lparr>eh_handles := (eh_handles h)(type_name \<mapsto> OnFn type_name c)\<rparr>) else (False, h))"

definition EventHandler_OnType :: "'m EventHandler \<Rightarrow> string \<Rightarrow> nat option \<Rightarrow> bool \<times> 'm EventHandler" where
  "EventHandler_OnType h type callback =
     (case callback of
        None \<Rightarrow> (False, h)
      | Some c \<Rightarrow>
          if type = [] then (False, h)
          else if eh_handles h type = None
          then (True, h\<lparr>eh_handles := (eh_handles h)(type \<mapsto> TypeFn c)\<rparr>) else (False, h))"

definition EventHandler_Cancel :: "'m EventHandler \<Rightarrow> string \<Rightarrow> 'm EventHandler" where
  "EventHandler_Cancel h type_name = h\<lparr>eh_handles := (eh_handles h)(type_name := None)\<rparr>"

definition EventHandler_Clear :: "'m EventHandler \<Rightarrow> 'm EventHandler" where
  "EventHandler_Clear h = h\<lparr>eh_events := SyncQueue_Clear (eh_events h)\<rparr>"

definition EventHandler_HasType :: "'m EventHandler \<Rightarrow> string \<Rightarrow> bool" where
  "EventHandler_HasType h type_name \<longleftrightarrow> eh_handles h type_name \<noteq> None"

definition EventHandler_Deliver :: "'m EventHandler \<Rightarrow> 'm Event \<Rightarrow> 'm EventHandler" where
  "EventHandler_Deliver h ev = h\<lparr>eh_events := SyncQueue_Push (eh_events h) ev\<rparr>"

text \<open>A new thread has a new stop token.\<close>

definition EventHandler_Start :: "'m EventHandler \<Rightarrow> 'm EventHandler" where
  "EventHandler_Start h = (if eh_start h then h else h\<lparr>eh_stop_requested := False, eh_start := True\<rparr>)"

definition EventHandler_Stop :: "'m EventHandler \<Rightarrow> 'm EventHandler" where
  "EventHandler_Stop h =
     (if \<not> eh_start h then h
      else h\<lparr>eh_stop_requested := True, eh_events := SyncQueue_Clear (SyncQueue_Stop (eh_events h)), eh_start := False\<rparr>)"

text \<open>
  A call of a registered callback: what is called, and whether an exception leaves it.  The callback made by \<open>On<T>\<close> has
  a \<open>catch (...)\<close>: a value of another type, or a function that throws, ends it silently and without the acknowledgement.
  \<open>OnType\<close> stores its function as it is, so that the exception of a function that throws leaves the callback.
\<close>

definition run_callback :: "(nat \<Rightarrow> bool) \<Rightarrow> event_fn \<Rightarrow> 'm Event \<Rightarrow> 'm action list \<times> bool" where
  "run_callback throws f ev =
     (case f of
        TypeFn c \<Rightarrow> ([CalledType c ev], throws c)
      | OnFn tn c \<Rightarrow>
          (case ev_ev ev of
             AnyEmpty \<Rightarrow> ([], False)
           | Any t m \<Rightarrow>
               if t \<noteq> tn then ([], False)
               else (Called c m #
                 (if throws c then [] else case ev_ack ev of None \<Rightarrow> [] | Some a \<Rightarrow> [Acked a]), False)))"

definition handle_event ::
  "(nat \<Rightarrow> bool) \<Rightarrow> (string \<Rightarrow> event_fn option) \<Rightarrow> 'm action list \<Rightarrow> 'm Event \<Rightarrow> 'm action list \<times> bool" where
  "handle_event throws handles log ev =
     (case handles (ev_type ev) of
        None \<Rightarrow> (log, False)
      | Some f \<Rightarrow> (case run_callback throws f ev of (calls, escapes) \<Rightarrow> (log @ calls, escapes)))"

text \<open>
  The loop of the thread, at most \<open>n\<close> rounds; it ends when it is stopped or has to wait.  The function of the thread has
  no handler for exceptions: one that reaches it calls \<open>std::terminate\<close>, which is the first component of the result, and the
  program ends with the state as it is.
\<close>

fun handler_thread :: "(nat \<Rightarrow> bool) \<Rightarrow> nat \<Rightarrow> 'm EventHandler \<Rightarrow> bool \<times> 'm EventHandler" where
  "handler_thread throws 0 h = (False, h)"
| "handler_thread throws (Suc n) h =
     (if eh_stop_requested h then (False, h)
      else case SyncQueue_Pop False (eh_events h) of
             None \<Rightarrow> (False, h)
           | Some (Inl e) \<Rightarrow> (False, h)
           | Some (Inr (None, q)) \<Rightarrow> handler_thread throws n (h\<lparr>eh_events := q\<rparr>)
           | Some (Inr (Some ev, q)) \<Rightarrow>
               (case handle_event throws (eh_handles h) (eh_log h) ev of
                  (log, escapes) \<Rightarrow>
                    if escapes then (True, h\<lparr>eh_events := q, eh_log := log\<rparr>)
                    else handler_thread throws n (h\<lparr>eh_events := q, eh_log := log\<rparr>)))"

subsection \<open>The bus\<close>

type_synonym 'm handlers = "nat \<Rightarrow> 'm EventHandler"

record EventBus =
  eb_handlers :: "nat list"

text \<open>\<open>std::set::insert\<close> and \<open>erase\<close>, on the ascending list of the elements.\<close>

definition EventBus_Subscribe :: "EventBus \<Rightarrow> nat option \<Rightarrow> bool \<times> EventBus" where
  "EventBus_Subscribe b handler =
     (case handler of
        None \<Rightarrow> (False, b)
      | Some a \<Rightarrow> if a \<in> set (eb_handlers b) then (False, b) else (True, b\<lparr>eb_handlers := insort a (eb_handlers b)\<rparr>))"

definition EventBus_Unsubscribe :: "EventBus \<Rightarrow> nat option \<Rightarrow> EventBus" where
  "EventBus_Unsubscribe b handler =
     (case handler of None \<Rightarrow> b | Some a \<Rightarrow> b\<lparr>eb_handlers := remove1 a (eb_handlers b)\<rparr>)"

text \<open>\<open>Publish<T>\<close> copies the message into each event; \<open>Publish(type, any)\<close> moves its argument.\<close>

fun publish_loop :: "string \<Rightarrow> 'm \<Rightarrow> nat option \<Rightarrow> nat list \<Rightarrow> bool \<times> 'm handlers \<Rightarrow> bool \<times> 'm handlers" where
  "publish_loop tn msg ack [] (r, w) = (r, w)"
| "publish_loop tn msg ack (a # as) (r, w) =
     (if EventHandler_HasType (w a) tn
      then publish_loop tn msg ack as
             (True, w(a := EventHandler_Deliver (w a) \<lparr>ev_type = tn, ev_ev = Any tn msg, ev_ack = ack\<rparr>))
      else publish_loop tn msg ack as (r, w))"

definition EventBus_Publish :: "EventBus \<Rightarrow> 'm handlers \<Rightarrow> string \<Rightarrow> 'm \<Rightarrow> nat option \<Rightarrow> bool \<times> 'm handlers" where
  "EventBus_Publish b w tn msg ack = publish_loop tn msg ack (eb_handlers b) (False, w)"

fun publish_any_loop :: "string \<Rightarrow> 'm any \<Rightarrow> nat option \<Rightarrow> nat list \<Rightarrow> bool \<times> 'm handlers \<Rightarrow> bool \<times> 'm handlers" where
  "publish_any_loop tn x ack [] (r, w) = (r, w)"
| "publish_any_loop tn x ack (a # as) (r, w) =
     (if EventHandler_HasType (w a) tn
      then publish_any_loop tn AnyEmpty ack as
             (True, w(a := EventHandler_Deliver (w a) \<lparr>ev_type = tn, ev_ev = x, ev_ack = ack\<rparr>))
      else publish_any_loop tn x ack as (r, w))"

definition EventBus_Publish_any :: "EventBus \<Rightarrow> 'm handlers \<Rightarrow> string \<Rightarrow> 'm any \<Rightarrow> nat option \<Rightarrow> bool \<times> 'm handlers" where
  "EventBus_Publish_any b w tn x ack = publish_any_loop tn x ack (eb_handlers b) (False, w)"

subsection \<open>Subscriptions\<close>

definition bus_ok :: "EventBus \<Rightarrow> bool" where
  "bus_ok b \<longleftrightarrow> sorted (eb_handlers b) \<and> distinct (eb_handlers b)"

lemma bus_ok_Subscribe:
  "bus_ok b \<Longrightarrow> bus_ok (snd (EventBus_Subscribe b a))"
  "bus_ok b \<Longrightarrow> bus_ok (EventBus_Unsubscribe b a)"
  by (auto simp: bus_ok_def EventBus_Subscribe_def EventBus_Unsubscribe_def sorted_insort distinct_insort sorted_remove1
      split: option.splits)

lemma Subscribe_set:
  "bus_ok b \<Longrightarrow> set (eb_handlers (snd (EventBus_Subscribe b (Some a)))) = insert a (set (eb_handlers b))"
  "bus_ok b \<Longrightarrow> set (eb_handlers (EventBus_Unsubscribe b (Some a))) = set (eb_handlers b) - {a}"
  by (auto simp: bus_ok_def EventBus_Subscribe_def EventBus_Unsubscribe_def set_insort_key)

subsection \<open>Delivery\<close>

lemma HasType_Deliver [simp]: "EventHandler_HasType (EventHandler_Deliver h ev) tn = EventHandler_HasType h tn"
  by (simp add: EventHandler_HasType_def EventHandler_Deliver_def)

lemma Deliver_simps:
  "eh_events (EventHandler_Deliver h ev) = SyncQueue_Push (eh_events h) ev" "eh_handles (EventHandler_Deliver h ev) = eh_handles h"
  "eh_log (EventHandler_Deliver h ev) = eh_log h" "eh_stop_requested (EventHandler_Deliver h ev) = eh_stop_requested h"
  by (simp_all add: EventHandler_Deliver_def)

lemma publish_loop_delivers:
  "distinct as \<Longrightarrow> publish_loop tn msg ack as (r, w) =
     (r \<or> (\<exists>a \<in> set as. EventHandler_HasType (w a) tn),
      \<lambda>a. if a \<in> set as \<and> EventHandler_HasType (w a) tn
          then EventHandler_Deliver (w a) \<lparr>ev_type = tn, ev_ev = Any tn msg, ev_ack = ack\<rparr> else w a)"
  by (induction as arbitrary: r w) (auto intro!: ext)

lemma Publish_eq:
  assumes "bus_ok b"
  shows "EventBus_Publish b w tn msg ack =
     (\<exists>a \<in> set (eb_handlers b). EventHandler_HasType (w a) tn,
      \<lambda>a. if a \<in> set (eb_handlers b) \<and> EventHandler_HasType (w a) tn
          then EventHandler_Deliver (w a) \<lparr>ev_type = tn, ev_ev = Any tn msg, ev_ack = ack\<rparr> else w a)"
  using publish_loop_delivers [of "eb_handlers b" tn msg ack False w] assms
  by (simp add: EventBus_Publish_def bus_ok_def)

text \<open>
  \<open>Publish<T>\<close> appends exactly one event with a copy of the message to the queue of every subscribed handler that has a
  callback for the type, touches no other handler, and returns whether there was one.
\<close>

theorem EventBus_Publish_delivers:
  assumes "bus_ok b"
  shows "EventBus_Publish b w tn msg ack =
     (\<exists>a \<in> set (eb_handlers b). EventHandler_HasType (w a) tn,
      \<lambda>a. if a \<in> set (eb_handlers b) \<and> EventHandler_HasType (w a) tn
          then EventHandler_Deliver (w a) \<lparr>ev_type = tn, ev_ev = Any tn msg, ev_ack = ack\<rparr> else w a)"
  using assms by (rule Publish_eq)

theorem EventBus_Publish_delivers_witness:
  "fst (EventBus_Publish \<lparr>eb_handlers = [3, 5]\<rparr> (\<lambda>a. snd (EventHandler_On EventHandler_new ''T'' (Some a))) ''T'' (1 :: nat) None)"
  by (subst EventBus_Publish_delivers) (auto simp: bus_ok_def EventHandler_HasType_def EventHandler_On_def EventHandler_new_def)

lemma publish_any_rest:
  "distinct as \<Longrightarrow> publish_any_loop tn AnyEmpty ack as (r, w) =
     (r \<or> (\<exists>a \<in> set as. EventHandler_HasType (w a) tn),
      \<lambda>a. if a \<in> set as \<and> EventHandler_HasType (w a) tn
          then EventHandler_Deliver (w a) \<lparr>ev_type = tn, ev_ev = AnyEmpty, ev_ack = ack\<rparr> else w a)"
  by (induction as arbitrary: r w) (auto intro!: ext)

lemma publish_any_loop_first:
  assumes "distinct (as @ a # bs)" "\<forall>c \<in> set as. \<not> EventHandler_HasType (w c) tn" "EventHandler_HasType (w a) tn"
  shows "publish_any_loop tn x ack (as @ a # bs) (r, w) =
     publish_any_loop tn AnyEmpty ack bs (True, w(a := EventHandler_Deliver (w a) \<lparr>ev_type = tn, ev_ev = x, ev_ack = ack\<rparr>))"
  using assms by (induction as arbitrary: r) auto

text \<open>
  \<open>Publish(type, any)\<close> gives the value to the first matching handler in the order of the addresses only: it moves its
  argument in the loop, so that every later matching handler receives an event with an empty \<open>std::any\<close>.
\<close>

theorem EventBus_Publish_any_first_only:
  assumes "bus_ok b" "eb_handlers b = as @ a # bs"
    and "\<forall>c \<in> set as. \<not> EventHandler_HasType (w c) tn" "EventHandler_HasType (w a) tn"
  shows "snd (EventBus_Publish_any b w tn x ack) =
     (\<lambda>c. if c = a then EventHandler_Deliver (w c) \<lparr>ev_type = tn, ev_ev = x, ev_ack = ack\<rparr>
          else if c \<in> set bs \<and> EventHandler_HasType (w c) tn
          then EventHandler_Deliver (w c) \<lparr>ev_type = tn, ev_ev = AnyEmpty, ev_ack = ack\<rparr> else w c)"
proof -
  have d: "distinct (as @ a # bs)" "distinct bs" "a \<notin> set bs" using assms(1,2) by (simp_all add: bus_ok_def)
  let ?w = "w(a := EventHandler_Deliver (w a) \<lparr>ev_type = tn, ev_ev = x, ev_ack = ack\<rparr>)"
  have "EventBus_Publish_any b w tn x ack = publish_any_loop tn AnyEmpty ack bs (True, ?w)"
    using publish_any_loop_first [OF d(1) assms(3,4)] assms(2) by (simp add: EventBus_Publish_any_def)
  then show ?thesis using publish_any_rest [OF d(2), of tn ack True ?w] d(3) by (auto intro!: ext)
qed

theorem EventBus_Publish_any_first_only_witness:
  "ev_ev (last (sq_queue (eh_events (snd (EventBus_Publish_any \<lparr>eb_handlers = [3, 5]\<rparr>
     (\<lambda>a. snd (EventHandler_On EventHandler_new ''T'' (Some a))) ''T'' (Any ''T'' (1 :: nat)) None) 5)))) = AnyEmpty"
  by (subst EventBus_Publish_any_first_only [where as = "[]" and a = 3 and bs = "[5]"])
    (simp_all add: bus_ok_def EventHandler_HasType_def EventHandler_On_def EventHandler_new_def EventHandler_Deliver_def)

subsection \<open>The callbacks of a handler\<close>

text \<open>\<open>On<T>\<close> registers its callback under the name of \<open>T\<close>; a handler that is used through its methods keeps to this.\<close>

definition handles_ok :: "(string \<Rightarrow> event_fn option) \<Rightarrow> bool" where
  "handles_ok handles \<longleftrightarrow> (\<forall>ty tn c. handles ty = Some (OnFn tn c) \<longrightarrow> tn = ty)"

lemma handles_ok_ops:
  "handles_ok (eh_handles EventHandler_new)"
  "handles_ok (eh_handles h) \<Longrightarrow> handles_ok (eh_handles (snd (EventHandler_On h tn f)))"
  "handles_ok (eh_handles h) \<Longrightarrow> handles_ok (eh_handles (snd (EventHandler_OnType h tn f)))"
  "handles_ok (eh_handles h) \<Longrightarrow> handles_ok (eh_handles (EventHandler_Cancel h tn))"
  by (auto simp: handles_ok_def EventHandler_new_def EventHandler_On_def EventHandler_OnType_def EventHandler_Cancel_def
      split: option.splits)

text \<open>
  What handling an event of a type should call, in terms of the registered function: a function of \<open>On<T>\<close> is called
  when the value of the event has the type of the event, and the event is acknowledged after it unless it throws; a function of
  \<open>OnType\<close> gets the event.  The event is fatal when the function is one of \<open>OnType\<close> and throws.
\<close>

definition event_calls :: "(nat \<Rightarrow> bool) \<Rightarrow> (string \<Rightarrow> event_fn option) \<Rightarrow> 'm Event \<Rightarrow> 'm action list" where
  "event_calls throws handles ev =
     (case (handles (ev_type ev), ev_ev ev) of
        (Some (OnFn tn c), Any t m) \<Rightarrow>
          if t \<noteq> ev_type ev then []
          else if throws c then [Called c m]
          else (case ev_ack ev of None \<Rightarrow> [Called c m] | Some a \<Rightarrow> [Called c m, Acked a])
      | (Some (TypeFn c), x) \<Rightarrow> [CalledType c ev]
      | _ \<Rightarrow> [])"

definition fatal :: "(nat \<Rightarrow> bool) \<Rightarrow> (string \<Rightarrow> event_fn option) \<Rightarrow> 'm Event \<Rightarrow> bool" where
  "fatal throws handles ev = (case handles (ev_type ev) of Some (TypeFn c) \<Rightarrow> throws c | _ \<Rightarrow> False)"

lemma handle_event_calls:
  "handles_ok handles \<Longrightarrow>
     handle_event throws handles log ev = (log @ event_calls throws handles ev, fatal throws handles ev)"
  by (auto simp: handle_event_def run_callback_def event_calls_def fatal_def handles_ok_def
      split: option.splits event_fn.splits any.splits)

lemma foldl_calls: "foldl (\<lambda>log ev. log @ f ev) log evs = log @ concat (map f evs)"
  by (induction evs arbitrary: log) simp_all

subsection \<open>The thread of a handler\<close>

lemma handler_thread_consume:
  assumes "\<not> eh_stop_requested h"
    and "sq.consume_until (handle_event throws (eh_handles h)) n (eh_log h) (eh_events h) = ((l, t), q)"
  shows "handler_thread throws n h = (t, h\<lparr>eh_events := q, eh_log := l\<rparr>)"
  using assms
proof (induction n arbitrary: h)
  case (Suc n)
  from refl [of "SyncQueue_Pop False (eh_events h)"] show ?case
  proof (cases rule: SyncQueue_PopE)
    case stopped
    then show ?thesis using Suc.prems Suc.IH [of h] by simp
  next
    case (item v vs)
    obtain l' x where v: "handle_event throws (eh_handles h) (eh_log h) v = (l', x)" by fastforce
    let ?h = "h\<lparr>eh_events := eh_events h\<lparr>sq_queue := vs\<rparr>, eh_log := l'\<rparr>"
    from item v show ?thesis using Suc.prems Suc.IH [of ?h] by (auto split: if_splits)
  qed (use Suc.prems in simp_all)
qed simp

lemma Deliver_many: "eh_events (foldl EventHandler_Deliver h evs) = foldl SyncQueue_Push (eh_events h) evs"
  and Deliver_rest: "eh_handles (foldl EventHandler_Deliver h evs) = eh_handles h"
    "eh_log (foldl EventHandler_Deliver h evs) = eh_log h"
    "eh_stop_requested (foldl EventHandler_Deliver h evs) = eh_stop_requested h"
  by (induction evs arbitrary: h) (simp_all add: Deliver_simps)

text \<open>Without a fatal event the thread works through its queue; it goes no further than the first fatal one.\<close>

lemma handler_thread_all:
  assumes "handles_ok (eh_handles h)" "\<not> eh_stop_requested h" "\<not> sq_stop (eh_events h)"
    and "\<forall>ev \<in> set (sq_queue (eh_events h)). \<not> fatal throws (eh_handles h) ev" "length (sq_queue (eh_events h)) \<le> n"
  shows "\<exists>q. sq_queue q = [] \<and> handler_thread throws n h
    = (False, h\<lparr>eh_events := q, eh_log := eh_log h @ concat (map (event_calls throws (eh_handles h)) (sq_queue (eh_events h)))\<rparr>)"
proof -
  let ?step = "\<lambda>log ev. log @ event_calls throws (eh_handles h) ev"
  obtain q where "sq.consume_until (handle_event throws (eh_handles h)) n (eh_log h) (eh_events h)
      = ((foldl ?step (eh_log h) (sq_queue (eh_events h)), False), q)" "sq_queue q = []"
    using sq.consume_until_all [of "eh_events h" "handle_event throws (eh_handles h)" ?step n "eh_log h"] assms
    by (auto simp: handle_event_calls)
  with handler_thread_consume [OF assms(2) this(1)] show ?thesis by (auto simp: foldl_calls)
qed

lemma handler_thread_fatal:
  assumes "handles_ok (eh_handles h)" "\<not> eh_stop_requested h" "\<not> sq_stop (eh_events h)"
    and "sq_queue (eh_events h) = pre @ ev # post" "\<forall>ev \<in> set pre. \<not> fatal throws (eh_handles h) ev"
    and "fatal throws (eh_handles h) ev" "length pre < n"
  shows "\<exists>q. sq_queue q = post \<and> handler_thread throws n h
    = (True, h\<lparr>eh_events := q, eh_log := eh_log h @ concat (map (event_calls throws (eh_handles h)) (pre @ [ev]))\<rparr>)"
proof -
  let ?step = "\<lambda>log ev. log @ event_calls throws (eh_handles h) ev"
  obtain q where "sq.consume_until (handle_event throws (eh_handles h)) n (eh_log h) (eh_events h)
      = ((?step (foldl ?step (eh_log h) pre) ev, True), q)" "sq_queue q = post"
    using sq.consume_until_escape [of pre "handle_event throws (eh_handles h)" ?step ev "eh_events h" post n "eh_log h"] assms
    by (auto simp: handle_event_calls)
  with handler_thread_consume [OF assms(2) this(1)] show ?thesis by (auto simp: foldl_calls)
qed

text \<open>
  A started handler handles the events delivered to it in the order of their delivery, each exactly once: after enough
  rounds of its thread the queue is empty and the log has grown by the calls for each event in turn, unless the function
  of an event of \<open>OnType\<close> throws.
\<close>

theorem EventHandler_handles_in_order:
  assumes "handles_ok (eh_handles h)" "\<not> eh_stop_requested h" "\<not> sq_stop (eh_events h)" "sq_queue (eh_events h) = []"
    and "\<forall>ev \<in> set evs. \<not> fatal throws (eh_handles h) ev" "length evs \<le> n"
  shows "\<exists>q. sq_queue q = [] \<and> handler_thread throws n (foldl EventHandler_Deliver h evs)
    = (False, h\<lparr>eh_events := q, eh_log := eh_log h @ concat (map (event_calls throws (eh_handles h)) evs)\<rparr>)"
proof -
  have "foldl EventHandler_Deliver h evs = h\<lparr>eh_events := foldl SyncQueue_Push (eh_events h) evs\<rparr>"
    by (induction evs arbitrary: h) (simp_all add: EventHandler_Deliver_def)
  with handler_thread_all [of "foldl EventHandler_Deliver h evs" throws n] show ?thesis
    using assms by (auto simp: sq.stopped_pushes sq.items_pushes)
qed

theorem EventHandler_handles_in_order_witness:
  "eh_log (snd (handler_thread (\<lambda>_. False) 2
     (foldl EventHandler_Deliver (snd (EventHandler_On EventHandler_new ''T'' (Some 9)))
       [\<lparr>ev_type = ''T'', ev_ev = Any ''T'' (1 :: nat), ev_ack = Some 4\<rparr>, \<lparr>ev_type = ''T'', ev_ev = Any ''T'' 2, ev_ack = None\<rparr>])))
   = [Called 9 1, Acked 4, Called 9 2]"
proof -
  let ?h = "snd (EventHandler_On EventHandler_new ''T'' (Some 9)) :: nat EventHandler"
  have "handles_ok (eh_handles ?h)" by (intro handles_ok_ops)
  from EventHandler_handles_in_order [OF this, of "[\<lparr>ev_type = ''T'', ev_ev = Any ''T'' 1, ev_ack = Some 4\<rparr>,
      \<lparr>ev_type = ''T'', ev_ev = Any ''T'' 2, ev_ack = None\<rparr>]" "\<lambda>_. False" 2]
  show ?thesis by (fastforce simp: EventHandler_On_def EventHandler_new_def event_calls_def fatal_def)
qed

text \<open>
  A handler cannot be restarted: \<open>Stop\<close> stops its queue for good, so that after a second \<open>Start\<close> the thread never
  handles another event, however many are delivered and however long it runs.
\<close>

theorem EventHandler_restart_ignores_events:
  assumes "eh_start h"
  shows "eh_log (snd (handler_thread throws n (foldl EventHandler_Deliver (EventHandler_Start (EventHandler_Stop h)) evs))) = eh_log h"
proof -
  let ?h = "EventHandler_Start (EventHandler_Stop h)"
  let ?g = "foldl EventHandler_Deliver ?h evs"
  have h: "\<not> eh_stop_requested ?h" "sq_stop (eh_events ?h)" "eh_log ?h = eh_log h"
    using assms by (simp_all add: EventHandler_Start_def EventHandler_Stop_def)
  then have "sq_stop (eh_events ?g)" by (simp add: Deliver_many sq.stopped_pushes)
  from sq.consume_until_stopped [OF this, of "handle_event throws (eh_handles ?g)" n "eh_log ?g"]
  show ?thesis using handler_thread_consume [of ?g throws n] h by (simp add: Deliver_rest)
qed

theorem EventHandler_restart_ignores_events_witness:
  "eh_log (snd (handler_thread (\<lambda>_. False) 100
     (foldl EventHandler_Deliver (EventHandler_Start (EventHandler_Stop (EventHandler_Start
        (snd (EventHandler_On EventHandler_new ''T'' (Some 9))))))
       [\<lparr>ev_type = ''T'', ev_ev = Any ''T'' (1 :: nat), ev_ack = None\<rparr>]))) = []"
  by (subst EventHandler_restart_ignores_events) (simp_all add: EventHandler_Start_def EventHandler_On_def EventHandler_new_def)

end
