(* ===== verification/ThreadPool.thy ===== *)
theory ThreadPool
  imports SyncQueue
begin

text \<open>
  The thread pool, \<open>src/include/thread/thread_pool.h\<close>.  A worker has its own \<open>SyncQueue\<close> of tasks and a thread; the pool
  counts the tasks that have been submitted and not finished.

  Every statement that touches shared state is a step of its own: \<open>wk_at\<close> is the position of a worker's thread in its
  loop, \<open>tp_sub\<close> the position of the call of \<open>Submit\<close> that holds \<open>_worker_mtx\<close>, and \<open>tp_del\<close> the position of
  \<open>Shutdown\<close> in the destruction of the workers.  The counter is an \<open>int\<close>, so that a decrement too many would show as a
  negative number (the \<open>size_t\<close> of the code would wrap around).  \<open>tp_accepted\<close>, \<open>tp_done\<close> and \<open>tp_dropped\<close> record the tasks that
  have been pushed to a queue, that have been run, and that were discarded with the queue of a destroyed worker.

  \<open>throws\<close> says which tasks throw; an exception that leaves a task leaves the thread and terminates the program.  \<open>Shutdown\<close>
  changes the workers without the mutex, so a call of \<open>Submit\<close> during \<open>Shutdown\<close> is a data race and no step of the model.
\<close>

datatype 'j wphase = WTop | WIdle | WPop | WGot "'j option" | WRun 'j | WDone | WExit

record 'j Worker =
  wk_tasks :: "'j SyncQueue"
  wk_busy :: bool
  wk_at :: "'j wphase"

datatype 'j sphase = SIdle | SLoop 'j nat | SPlace 'j nat | SCounted 'j nat

datatype dphase = DNone | DClear | DStop | DJoin

record 'j ThreadPool =
  tp_allow_expand :: bool
  tp_start :: bool
  tp_count :: int
  tp_max :: nat
  tp_workers :: "'j Worker list"
  tp_stop :: bool
  tp_sub :: "'j sphase"
  tp_del :: dphase
  tp_accepted :: "'j list"
  tp_done :: "'j list"
  tp_dropped :: "'j list"

definition ThreadPool_new :: "'j ThreadPool" where
  "ThreadPool_new = \<lparr>tp_allow_expand = True, tp_start = False, tp_count = 0, tp_max = 0, tp_workers = [], tp_stop = False,
     tp_sub = SIdle, tp_del = DNone, tp_accepted = [], tp_done = [], tp_dropped = []\<rparr>"

definition Worker_new :: "'j Worker" where
  "Worker_new = \<lparr>wk_tasks = SyncQueue_new, wk_busy = False, wk_at = WTop\<rparr>"

definition Worker_GetTaskCount :: "'j Worker \<Rightarrow> nat" where
  "Worker_GetTaskCount w = SyncQueue_Size (wk_tasks w)"

subsection \<open>Starting and submitting\<close>

definition ThreadPool_Startup :: "nat \<Rightarrow> nat \<Rightarrow> bool \<Rightarrow> 'j ThreadPool \<Rightarrow> 'j ThreadPool" where
  "ThreadPool_Startup thread_count max_task_count allow_expand p =
     (if tp_start p then p
      else p\<lparr>tp_max := (if max_task_count = 0 then 999 else max_task_count),
             tp_allow_expand := allow_expand,
             tp_workers := tp_workers p @ replicate (if thread_count = 0 then 1 else thread_count) Worker_new,
             tp_start := True\<rparr>)"

text \<open>
  \<open>push_task\<close> counts first and pushes then; each is a step.  A task counts as accepted when it is in the queue.
\<close>

definition push_task_count :: "'j ThreadPool \<Rightarrow> 'j ThreadPool" where
  "push_task_count p = p\<lparr>tp_count := tp_count p + 1\<rparr>"

definition push_task_push :: "nat \<Rightarrow> 'j \<Rightarrow> 'j ThreadPool \<Rightarrow> 'j ThreadPool" where
  "push_task_push i task p =
     (let w = tp_workers p ! i in
      p\<lparr>tp_workers := (tp_workers p)[i := w\<lparr>wk_tasks := SyncQueue_Push (wk_tasks w) task\<rparr>],
        tp_accepted := tp_accepted p @ [task]\<rparr>)"

text \<open>
  \<open>Submit\<close> up to the test of the counter: the result \<open>Some False\<close> is the refusal, \<open>None\<close> that the call goes on.  A call that
  has to wait for the mutex makes no step.
\<close>

definition ThreadPool_Submit_begin :: "'j \<Rightarrow> 'j ThreadPool \<Rightarrow> (bool option \<times> 'j ThreadPool) option" where
  "ThreadPool_Submit_begin task p =
     (if \<not> tp_start p then Some (Some False, p)
      else if tp_sub p \<noteq> SIdle \<or> tp_del p \<noteq> DNone then None
      else if tp_count p > int (tp_max p) then Some (Some False, p)
      else Some (None, p\<lparr>tp_sub := SLoop task 0\<rparr>))"

text \<open>
  The rest of \<open>Submit\<close>: the loop over the workers reads one busy flag at a time.  The code inserts a new worker into the list after
  the push; the list is only read with the mutex held, so the model inserts it when it is made.  \<open>hw\<close> is
  \<open>std::thread::hardware_concurrency()\<close>, \<open>r\<close> the random number, which \<open>std::uniform_int_distribution\<close> draws from the
  indices of the workers.
\<close>

definition ThreadPool_Submit_step :: "nat \<Rightarrow> nat \<Rightarrow> 'j ThreadPool \<Rightarrow> 'j ThreadPool option" where
  "ThreadPool_Submit_step hw r p =
     (case tp_sub p of
        SIdle \<Rightarrow> None
      | SLoop task i \<Rightarrow>
          if i < length (tp_workers p)
          then Some (p\<lparr>tp_sub := (if \<not> wk_busy (tp_workers p ! i) then SPlace task i else SLoop task (Suc i))\<rparr>)
          else if \<not> tp_allow_expand p \<or> length (tp_workers p) + 1 > hw * 2
          then Some (p\<lparr>tp_sub := SPlace task r\<rparr>)
          else Some (p\<lparr>tp_workers := tp_workers p @ [Worker_new], tp_sub := SPlace task (length (tp_workers p))\<rparr>)
      | SPlace task i \<Rightarrow> Some ((push_task_count p)\<lparr>tp_sub := SCounted task i\<rparr>)
      | SCounted task i \<Rightarrow> Some ((push_task_push i task p)\<lparr>tp_sub := SIdle\<rparr>))"

subsection \<open>The worker's thread\<close>

text \<open>
  One step of the thread of a worker, with the tasks it has run and the change of the counter; \<open>None\<close> when it waits in
  \<open>Pop\<close> or has ended.
\<close>

definition Worker_step :: "('j \<Rightarrow> bool) \<Rightarrow> bool \<Rightarrow> 'j Worker \<Rightarrow> ('j list \<times> int \<times> 'j Worker) result option" where
  "Worker_step throws stop w =
     (case wk_at w of
        WTop \<Rightarrow> Some (Inr ([], 0, w\<lparr>wk_at := (if stop then WExit else WIdle)\<rparr>))
      | WIdle \<Rightarrow> Some (Inr ([], 0, w\<lparr>wk_busy := False, wk_at := WPop\<rparr>))
      | WPop \<Rightarrow>
          (case SyncQueue_Pop stop (wk_tasks w) of
             None \<Rightarrow> None
           | Some (Inl e) \<Rightarrow> Some (Inl e)
           | Some (Inr (task_opt, q)) \<Rightarrow> Some (Inr ([], 0, w\<lparr>wk_tasks := q, wk_at := WGot task_opt\<rparr>)))
      | WGot task_opt \<Rightarrow>
          Some (Inr ([], 0, w\<lparr>wk_busy := True, wk_at := (case task_opt of None \<Rightarrow> WTop | Some t \<Rightarrow> WRun t)\<rparr>))
      | WRun t \<Rightarrow> if throws t then Some (Inl Terminate) else Some (Inr ([t], 0, w\<lparr>wk_at := WDone\<rparr>))
      | WDone \<Rightarrow> Some (Inr ([], - 1, w\<lparr>wk_at := WTop\<rparr>))
      | WExit \<Rightarrow> None)"

definition ThreadPool_run :: "('j \<Rightarrow> bool) \<Rightarrow> nat \<Rightarrow> 'j ThreadPool \<Rightarrow> 'j ThreadPool result option" where
  "ThreadPool_run throws i p =
     (case Worker_step throws (tp_stop p) (tp_workers p ! i) of
        None \<Rightarrow> None
      | Some (Inl e) \<Rightarrow> Some (Inl e)
      | Some (Inr (ts, n, w)) \<Rightarrow>
          Some (Inr (p\<lparr>tp_workers := (tp_workers p)[i := w], tp_done := tp_done p @ ts, tp_count := tp_count p + n\<rparr>)))"

subsection \<open>Stopping\<close>

text \<open>
  \<open>Shutdown\<close>: the stop request; then the destruction of the workers one after the other, each of which clears and stops its
  queue and waits for its thread.
\<close>

definition ThreadPool_Shutdown_begin :: "'j ThreadPool \<Rightarrow> 'j ThreadPool option" where
  "ThreadPool_Shutdown_begin p =
     (if \<not> tp_start p then Some p
      else if tp_sub p \<noteq> SIdle \<or> tp_del p \<noteq> DNone then None
      else Some (p\<lparr>tp_stop := True, tp_del := DClear\<rparr>))"

definition ThreadPool_Shutdown_step :: "'j ThreadPool \<Rightarrow> 'j ThreadPool option" where
  "ThreadPool_Shutdown_step p =
     (case tp_workers p of
        [] \<Rightarrow> if tp_del p = DClear then Some (p\<lparr>tp_start := False, tp_del := DNone\<rparr>) else None
      | w # ws \<Rightarrow>
          (case tp_del p of
             DNone \<Rightarrow> None
           | DClear \<Rightarrow>
               Some (p\<lparr>tp_workers := w\<lparr>wk_tasks := SyncQueue_Clear (wk_tasks w)\<rparr> # ws,
                       tp_dropped := tp_dropped p @ sq_queue (wk_tasks w), tp_del := DStop\<rparr>)
           | DStop \<Rightarrow> Some (p\<lparr>tp_workers := w\<lparr>wk_tasks := SyncQueue_Stop (wk_tasks w)\<rparr> # ws, tp_del := DJoin\<rparr>)
           | DJoin \<Rightarrow>
               if wk_at w = WExit
               then Some (p\<lparr>tp_workers := ws, tp_dropped := tp_dropped p @ sq_queue (wk_tasks w), tp_del := DClear\<rparr>)
               else None))"

text \<open>
  \<open>exec\<close> wraps a function into a task that sets a promise and catches every exception, and sets the promise itself when
  \<open>Submit\<close> refuses the task.  A function returns a value or throws an exception, which is known by its text.
\<close>

datatype 'r future = Pending | Value 'r | Exception string

definition exec_task :: "(unit \<Rightarrow> string + 'r) \<Rightarrow> 'r future" where
  "exec_task f = (case f () of Inl e \<Rightarrow> Exception e | Inr v \<Rightarrow> Value v)"

definition ThreadPool_exec :: "bool \<Rightarrow> 'r future" where
  "ThreadPool_exec submitted = (if submitted then Pending else Exception ''submit task failed'')"

text \<open>The steps of a pool.\<close>

inductive tp_step :: "('j \<Rightarrow> bool) \<Rightarrow> 'j ThreadPool \<Rightarrow> 'j ThreadPool \<Rightarrow> bool" for throws where
  submit: "ThreadPool_Submit_begin task p = Some (res, p') \<Longrightarrow> tp_step throws p p'"
| place: "r < length (tp_workers p) \<Longrightarrow> ThreadPool_Submit_step hw r p = Some p' \<Longrightarrow> tp_step throws p p'"
| run: "i < length (tp_workers p) \<Longrightarrow> ThreadPool_run throws i p = Some (Inr p') \<Longrightarrow> tp_step throws p p'"
| shutdown: "ThreadPool_Shutdown_begin p = Some p' \<Longrightarrow> tp_step throws p p'"
| destroy: "ThreadPool_Shutdown_step p = Some p' \<Longrightarrow> tp_step throws p p'"

inductive_cases tp_stepE: "tp_step throws p p'"

inductive tp_steps :: "('j \<Rightarrow> bool) \<Rightarrow> 'j ThreadPool \<Rightarrow> 'j ThreadPool \<Rightarrow> bool" for throws p where
  here: "tp_steps throws p p"
| step: "tp_steps throws p q \<Longrightarrow> tp_step throws q r \<Longrightarrow> tp_steps throws p r"

text \<open>The states of a pool in its whole life, with any number of calls of \<open>Startup\<close>.\<close>

inductive tp_reach :: "('j \<Rightarrow> bool) \<Rightarrow> 'j ThreadPool \<Rightarrow> bool" for throws where
  new: "tp_reach throws ThreadPool_new"
| startup: "tp_reach throws p \<Longrightarrow> tp_reach throws (ThreadPool_Startup n m e p)"
| step: "tp_reach throws p \<Longrightarrow> tp_step throws p q \<Longrightarrow> tp_reach throws q"

subsection \<open>Accounting of tasks\<close>

text \<open>
  The tasks that a worker has: those in its queue and the one that its thread has taken and not finished.  \<open>in_flight\<close> are
  the steps that are under way and already or still counted: a submission between its two statements, and threads
  between the end of a task and the decrement.
\<close>

fun taken :: "'j wphase \<Rightarrow> 'j list" where
  "taken (WGot (Some t)) = [t]"
| "taken (WRun t) = [t]"
| "taken _ = []"

definition held :: "'j Worker \<Rightarrow> 'j multiset" where
  "held w = mset (sq_queue (wk_tasks w)) + mset (taken (wk_at w))"

definition pending :: "'j ThreadPool \<Rightarrow> 'j multiset" where
  "pending p = sum_list (map held (tp_workers p))"

definition finishing :: "'j Worker \<Rightarrow> int" where
  "finishing w = (if wk_at w = WDone then 1 else 0)"

definition counted :: "'j sphase \<Rightarrow> int" where
  "counted s = (case s of SCounted t i \<Rightarrow> 1 | _ \<Rightarrow> 0)"

definition in_flight :: "'j ThreadPool \<Rightarrow> int" where
  "in_flight p = counted (tp_sub p) + sum_list (map finishing (tp_workers p))"

definition place_ok :: "nat \<Rightarrow> 'j sphase \<Rightarrow> bool" where
  "place_ok n s = (case s of SPlace t i \<Rightarrow> i < n | SCounted t i \<Rightarrow> i < n | _ \<Rightarrow> True)"

definition tp_inv :: "'j ThreadPool \<Rightarrow> bool" where
  "tp_inv p \<longleftrightarrow>
     mset (tp_accepted p) = mset (tp_done p) + pending p + mset (tp_dropped p)
     \<and> tp_count p = int (size (pending p) + length (tp_dropped p)) + in_flight p
     \<and> place_ok (length (tp_workers p)) (tp_sub p) \<and> (tp_del p \<noteq> DNone \<longrightarrow> tp_sub p = SIdle)
     \<and> (\<not> tp_stop p \<longrightarrow> tp_dropped p = [] \<and> tp_del p = DNone)"

lemma worker_new_simps [simp]: "held Worker_new = {#}" "finishing Worker_new = 0"
  by (simp_all add: held_def finishing_def Worker_new_def)

lemma sum_update:
  fixes f :: "'a \<Rightarrow> 'b :: comm_monoid_add"
  assumes "i < length ws"
  shows "sum_list (map f (ws[i := w])) + f (ws ! i) = sum_list (map f ws) + f w"
  using assms
proof (induction ws arbitrary: i)
  case (Cons v ws)
  then show ?case by (cases i) (simp_all add: ac_simps)
qed simp

lemma sum_list_zero: "(\<And>x. x \<in> set xs \<Longrightarrow> f x = 0) \<Longrightarrow> sum_list (map f xs) = (0 :: 'b :: comm_monoid_add)"
  by (induction xs) simp_all

lemma finishing_nonneg: "0 \<le> sum_list (map finishing ws)"
  by (induction ws) (simp_all add: finishing_def)

lemma Worker_step_held:
  assumes "Worker_step throws stop w = Some (Inr (ts, n, w'))"
  shows "held w = held w' + mset ts \<and> n = finishing w' - finishing w - int (length ts)"
  using assms
  by (auto simp: Worker_step_def held_def finishing_def elim!: SyncQueue_PopE
      split: wphase.splits option.splits sum.splits if_splits)

lemma begin_inv: "tp_inv p \<Longrightarrow> ThreadPool_Submit_begin t p = Some (res, p') \<Longrightarrow> tp_inv p'"
  by (auto simp: ThreadPool_Submit_begin_def tp_inv_def pending_def in_flight_def counted_def place_ok_def split: if_splits)

lemma place_inv:
  assumes "tp_inv p" "r < length (tp_workers p)" "ThreadPool_Submit_step hw r p = Some p'"
  shows "tp_inv p'"
proof (cases "tp_sub p")
  case (SLoop t i)
  then show ?thesis using assms
    by (auto simp: ThreadPool_Submit_step_def tp_inv_def pending_def in_flight_def counted_def place_ok_def split: if_splits)
next
  case (SPlace t i)
  then show ?thesis using assms
    by (auto simp: ThreadPool_Submit_step_def push_task_count_def tp_inv_def pending_def in_flight_def counted_def place_ok_def)
next
  case (SCounted t i)
  let ?w = "tp_workers p ! i"
  let ?v = "?w\<lparr>wk_tasks := SyncQueue_Push (wk_tasks ?w) t\<rparr>"
  have i: "i < length (tp_workers p)" using assms(1) SCounted by (simp add: tp_inv_def place_ok_def)
  have "held ?v = add_mset t (held ?w)" "finishing ?v = finishing ?w" by (simp_all add: held_def finishing_def)
  then have "sum_list (map held ((tp_workers p)[i := ?v])) = add_mset t (sum_list (map held (tp_workers p)))"
    "sum_list (map finishing ((tp_workers p)[i := ?v])) = sum_list (map finishing (tp_workers p))"
    using sum_update [OF i, of held ?v] sum_update [OF i, of finishing ?v] by simp_all
  then show ?thesis using assms(1,3) SCounted
    by (auto simp: ThreadPool_Submit_step_def push_task_push_def Let_def tp_inv_def pending_def in_flight_def counted_def place_ok_def)
qed (use assms in \<open>simp add: ThreadPool_Submit_step_def\<close>)

lemma run_inv:
  assumes inv: "tp_inv p" and i: "i < length (tp_workers p)" and r: "ThreadPool_run throws i p = Some (Inr p')"
  shows "tp_inv p'"
proof -
  obtain ts n w where w: "Worker_step throws (tp_stop p) (tp_workers p ! i) = Some (Inr (ts, n, w))"
    and p': "p' = p\<lparr>tp_workers := (tp_workers p)[i := w], tp_done := tp_done p @ ts, tp_count := tp_count p + n\<rparr>"
    using r by (auto simp: ThreadPool_run_def split: option.splits sum.splits)
  note h = Worker_step_held [OF w]
  have pend: "pending p = pending p' + mset ts"
    using sum_update [OF i, of held w] h by (simp add: pending_def p' ac_simps)
  have "sum_list (map finishing (tp_workers p')) = sum_list (map finishing (tp_workers p)) + n + int (length ts)"
    using sum_update [OF i, of finishing w] h by (simp add: p')
  moreover have same: "tp_sub p' = tp_sub p" "tp_dropped p' = tp_dropped p" "tp_count p' = tp_count p + n" "tp_done p' = tp_done p @ ts"
    "tp_accepted p' = tp_accepted p" "tp_del p' = tp_del p" "tp_stop p' = tp_stop p" "length (tp_workers p') = length (tp_workers p)"
    by (simp_all add: p')
  moreover have "size (pending p) = size (pending p') + length ts" using pend by simp
  ultimately have "tp_count p' = int (size (pending p') + length (tp_dropped p')) + in_flight p'"
    using inv unfolding tp_inv_def in_flight_def by simp
  moreover have "mset (tp_accepted p') = mset (tp_done p') + pending p' + mset (tp_dropped p')"
    using inv pend unfolding tp_inv_def same by simp
  ultimately show ?thesis using inv unfolding tp_inv_def same by simp
qed

lemma Shutdown_begin_inv: "tp_inv p \<Longrightarrow> ThreadPool_Shutdown_begin p = Some p' \<Longrightarrow> tp_inv p'"
  by (auto simp: ThreadPool_Shutdown_begin_def tp_inv_def pending_def in_flight_def counted_def split: if_splits)

lemma Shutdown_step_inv:
  assumes inv: "tp_inv p" and s: "ThreadPool_Shutdown_step p = Some p'"
  shows "tp_inv p'"
proof (cases "tp_workers p")
  case Nil
  then show ?thesis using assms
    by (auto simp: ThreadPool_Shutdown_step_def tp_inv_def pending_def in_flight_def split: if_splits)
next
  case (Cons w ws)
  have i: "tp_del p \<noteq> DNone \<longrightarrow> tp_sub p = SIdle" "\<not> tp_stop p \<longrightarrow> tp_del p = DNone" using inv by (simp_all add: tp_inv_def)
  show ?thesis
  proof (cases "tp_del p")
    case DClear
    then have "p' = p\<lparr>tp_workers := w\<lparr>wk_tasks := SyncQueue_Clear (wk_tasks w)\<rparr> # ws,
        tp_dropped := tp_dropped p @ sq_queue (wk_tasks w), tp_del := DStop\<rparr>"
      using s Cons by (simp add: ThreadPool_Shutdown_step_def)
    then show ?thesis using inv i DClear Cons
      by (simp add: tp_inv_def pending_def in_flight_def held_def finishing_def counted_def place_ok_def ac_simps)
  next
    case DStop
    then have "p' = p\<lparr>tp_workers := w\<lparr>wk_tasks := SyncQueue_Stop (wk_tasks w)\<rparr> # ws, tp_del := DJoin\<rparr>"
      using s Cons by (simp add: ThreadPool_Shutdown_step_def)
    then show ?thesis using inv i DStop Cons
      by (simp add: tp_inv_def pending_def in_flight_def held_def finishing_def counted_def place_ok_def ac_simps)
  next
    case DJoin
    then have "wk_at w = WExit" "p' = p\<lparr>tp_workers := ws, tp_dropped := tp_dropped p @ sq_queue (wk_tasks w), tp_del := DClear\<rparr>"
      using s Cons by (simp_all add: ThreadPool_Shutdown_step_def split: if_splits)
    then show ?thesis using inv i DJoin Cons
      by (simp add: tp_inv_def pending_def in_flight_def held_def finishing_def counted_def place_ok_def ac_simps)
  qed (use s Cons in \<open>simp add: ThreadPool_Shutdown_step_def\<close>)
qed

lemma tp_step_inv: "tp_step throws p p' \<Longrightarrow> tp_inv p \<Longrightarrow> tp_inv p'"
  by (erule tp_stepE) (auto intro: begin_inv place_inv run_inv Shutdown_begin_inv Shutdown_step_inv)

lemma Startup_inv: "tp_inv p \<Longrightarrow> tp_inv (ThreadPool_Startup n m e p)"
proof -
  assume inv: "tp_inv p"
  have "sum_list (map held (replicate k (Worker_new :: 'j Worker))) = {#}" "sum_list (map finishing (replicate k (Worker_new :: 'j Worker))) = 0" for k
    by (induction k) simp_all
  then show ?thesis using inv
    by (auto simp: ThreadPool_Startup_def tp_inv_def pending_def in_flight_def place_ok_def split: sphase.splits)
qed

lemma tp_reach_inv: "tp_reach throws p \<Longrightarrow> tp_inv p"
proof (induction rule: tp_reach.induct)
  case new
  show ?case by (simp add: tp_inv_def ThreadPool_new_def pending_def in_flight_def counted_def place_ok_def)
qed (auto intro: Startup_inv tp_step_inv)

text \<open>
  C19. In every state that a pool can reach, for every interleaving of the statements of submissions, workers and shutdown, and with
  any number of restarts: each task that was put into a queue has been run once, or is held by exactly one worker, in
  its queue or in its thread, or was discarded by a shutdown, and nothing is discarded before there is one. The task counter is
  the number of the tasks that are held or were discarded, plus one for a submission that has counted and not
  yet pushed and one for each thread that has run a task and not yet decremented; it is never negative.
\<close>

theorem ThreadPool_accounting:
  assumes "tp_reach throws p"
  shows "mset (tp_accepted p) = mset (tp_done p) + pending p + mset (tp_dropped p)
    \<and> (\<not> tp_stop p \<longrightarrow> tp_dropped p = [])
    \<and> tp_count p = int (size (pending p) + length (tp_dropped p)) + counted (tp_sub p)
        + int (length (filter (\<lambda>w. wk_at w = WDone) (tp_workers p)))
    \<and> 0 \<le> tp_count p"
proof -
  have f: "sum_list (map finishing ws) = int (length (filter (\<lambda>w. wk_at w = WDone) ws))" for ws :: "'a Worker list"
    by (induction ws) (simp_all add: finishing_def)
  have "0 \<le> counted (tp_sub p)" by (simp add: counted_def split: sphase.split)
  then show ?thesis using tp_reach_inv [OF assms] by (simp add: tp_inv_def in_flight_def f)
qed

definition bound_inv :: "'j ThreadPool \<Rightarrow> bool" where
  "bound_inv p \<longleftrightarrow> tp_count p \<le> int (tp_max p) + (case tp_sub p of SLoop t i \<Rightarrow> 0 | SPlace t i \<Rightarrow> 0 | _ \<Rightarrow> 1)"

lemma Worker_step_count: "Worker_step throws stop w = Some (Inr (ts, n, w')) \<Longrightarrow> n \<le> 0"
  by (auto simp: Worker_step_def split: wphase.splits option.splits sum.splits if_splits)

lemma tp_step_bound:
  assumes "tp_step throws p p'" "bound_inv p"
  shows "bound_inv p'"
  using assms(1)
proof (cases rule: tp_step.cases)
  case (submit task res)
  then show ?thesis using assms(2) by (auto simp: ThreadPool_Submit_begin_def bound_inv_def split: if_splits)
next
  case (place r hw)
  then show ?thesis using assms(2)
    by (auto simp: ThreadPool_Submit_step_def push_task_count_def push_task_push_def Let_def bound_inv_def split: sphase.splits if_splits)
next
  case (run i)
  then obtain ts n w where "Worker_step throws (tp_stop p) (tp_workers p ! i) = Some (Inr (ts, n, w))"
    and "p' = p\<lparr>tp_workers := (tp_workers p)[i := w], tp_done := tp_done p @ ts, tp_count := tp_count p + n\<rparr>"
    by (auto simp: ThreadPool_run_def split: option.splits sum.splits)
  then show ?thesis using assms(2) Worker_step_count [of throws "tp_stop p" "tp_workers p ! i" ts n w] by (simp add: bound_inv_def)
next
  case shutdown
  then show ?thesis using assms(2) by (auto simp: ThreadPool_Shutdown_begin_def bound_inv_def split: if_splits)
next
  case destroy
  then show ?thesis using assms(2)
    by (auto simp: ThreadPool_Shutdown_step_def bound_inv_def split: list.splits dphase.splits if_splits)
qed

lemma tp_steps_reach: "tp_steps throws p q \<Longrightarrow> tp_reach throws p \<Longrightarrow> tp_reach throws q"
  by (induction rule: tp_steps.induct) (auto intro: tp_reach.step)

text \<open>
  C20. A pool that was started once never has more than \<open>_max_task_count + 1\<close> unfinished tasks: \<open>Submit\<close> refuses only when the
  counter is already above the maximum.
\<close>

theorem ThreadPool_count_bound:
  assumes "tp_steps throws (ThreadPool_Startup n m e ThreadPool_new) p"
  shows "tp_count p \<le> int (tp_max p) + 1 \<and> size (pending p) \<le> tp_max p + 1"
proof -
  have "bound_inv p"
    using assms
  proof (induction rule: tp_steps.induct)
    case here
    show ?case by (simp add: bound_inv_def ThreadPool_Startup_def ThreadPool_new_def)
  qed (rule tp_step_bound)
  then have "tp_count p \<le> int (tp_max p) + 1" by (auto simp: bound_inv_def split: sphase.splits)
  moreover have "int (size (pending p)) \<le> tp_count p"
    using tp_reach_inv [OF tp_steps_reach [OF assms tp_reach.startup [OF tp_reach.new]]] finishing_nonneg [of "tp_workers p"]
    by (auto simp: tp_inv_def in_flight_def counted_def split: sphase.splits)
  ultimately show ?thesis by simp
qed

subsection \<open>Examples of runs\<close>

text \<open>A schedule names the step that is made next.\<close>

datatype 'j tp_label = LSubmit 'j | LPlace nat nat | LRun nat | LShutdown | LDestroy

fun tp_do :: "'j tp_label \<Rightarrow> 'j ThreadPool \<Rightarrow> 'j ThreadPool option" where
  "tp_do (LSubmit t) p = map_option snd (ThreadPool_Submit_begin t p)"
| "tp_do (LPlace hw r) p = (if r < length (tp_workers p) then ThreadPool_Submit_step hw r p else None)"
| "tp_do (LRun i) p =
     (if i < length (tp_workers p) then case ThreadPool_run (\<lambda>_. False) i p of Some (Inr p') \<Rightarrow> Some p' | _ \<Rightarrow> None else None)"
| "tp_do LShutdown p = ThreadPool_Shutdown_begin p"
| "tp_do LDestroy p = ThreadPool_Shutdown_step p"

fun tp_schedule :: "'j tp_label list \<Rightarrow> 'j ThreadPool \<Rightarrow> 'j ThreadPool option" where
  "tp_schedule [] p = Some p"
| "tp_schedule (l # ls) p = (case tp_do l p of None \<Rightarrow> None | Some q \<Rightarrow> tp_schedule ls q)"

lemma tp_do_step: "tp_do l p = Some q \<Longrightarrow> tp_step (\<lambda>_. False) p q"
  by (cases l) (auto intro: tp_step.intros split: if_splits option.splits sum.splits)

lemma tp_steps_trans: "tp_steps throws q r \<Longrightarrow> tp_steps throws p q \<Longrightarrow> tp_steps throws p r"
  by (induction rule: tp_steps.induct) (auto intro: tp_steps.step)

lemma tp_schedule_steps: "tp_schedule ls p = Some q \<Longrightarrow> tp_steps (\<lambda>_. False) p q"
proof (induction ls arbitrary: p)
  case Nil
  then show ?case by (simp add: tp_steps.here)
next
  case (Cons l ls)
  then obtain r where "tp_do l p = Some r" "tp_schedule ls r = Some q" by (auto split: option.splits)
  then show ?case using Cons.IH tp_do_step [of l p r] tp_steps_trans tp_steps.step [OF tp_steps.here] by blast
qed

lemmas tp_defs = ThreadPool_Startup_def ThreadPool_new_def Worker_new_def ThreadPool_Submit_begin_def ThreadPool_Submit_step_def
  push_task_count_def push_task_push_def ThreadPool_run_def Worker_step_def ThreadPool_Shutdown_begin_def ThreadPool_Shutdown_step_def
  SyncQueue_new_def SyncQueue_Push_def SyncQueue_Pop_def SyncQueue_Pop_pred_def SyncQueue_Pop_rest_def

text \<open>A pool with one worker and two submitted tasks, the first of which is running.\<close>

definition pool1 :: "nat ThreadPool" where
  "pool1 = ThreadPool_Startup 1 1 False ThreadPool_new"

definition pool_busy :: "nat ThreadPool" where
  "pool_busy = pool1\<lparr>tp_count := 2, tp_workers := [\<lparr>wk_tasks = \<lparr>sq_queue = [8], sq_stop = False\<rparr>, wk_busy = True, wk_at = WRun 7\<rparr>],
     tp_accepted := [7, 8]\<rparr>"

lemma pool_busy_reached: "tp_steps (\<lambda>_. False) pool1 pool_busy"
  by (rule tp_schedule_steps [of "[LRun 0, LRun 0, LSubmit 7, LPlace 1 0, LPlace 1 0, LPlace 1 0, LRun 0, LRun 0,
      LSubmit 8, LPlace 1 0, LPlace 1 0, LPlace 1 0, LPlace 1 0]"])
    (simp add: pool_busy_def pool1_def tp_defs)

theorem ThreadPool_accounting_witness:
  "mset (tp_accepted pool_busy) = mset (tp_done pool_busy) + pending pool_busy + mset (tp_dropped pool_busy) \<and> tp_count pool_busy = 2"
proof -
  have "tp_reach (\<lambda>_. False) pool_busy"
    by (rule tp_steps_reach [OF pool_busy_reached]) (unfold pool1_def, rule tp_reach.startup, rule tp_reach.new)
  from ThreadPool_accounting [OF this] show ?thesis by (simp add: pool_busy_def pool1_def tp_defs)
qed

text \<open>The bound is attained: here the maximum is 1 and two tasks are unfinished.\<close>

theorem ThreadPool_count_bound_witness:
  "tp_count pool_busy \<le> int (tp_max pool_busy) + 1 \<and> tp_count pool_busy = 2 \<and> tp_max pool_busy = 1"
  using ThreadPool_count_bound [OF pool_busy_reached [unfolded pool1_def]]
  by (simp add: pool_busy_def pool1_def tp_defs)

subsection \<open>Restarting and shutting down\<close>

definition all_ended :: "'j ThreadPool \<Rightarrow> bool" where
  "all_ended p \<longleftrightarrow> tp_stop p \<and> (\<forall>w \<in> set (tp_workers p). wk_at w = WTop \<or> wk_at w = WExit)"

lemma all_ended_upd:
  assumes "all_ended p" "i < length (tp_workers p)" "wk_at w = WTop \<or> wk_at w = WExit" "tp_workers q = (tp_workers p)[i := w]" "tp_stop q"
  shows "all_ended q"
  using assms set_update_subset_insert [of "tp_workers p" i w] by (auto simp: all_ended_def)

lemma all_ended_run:
  assumes "all_ended p" "i < length (tp_workers p)" "ThreadPool_run throws i p = Some (Inr p')"
  shows "all_ended p' \<and> tp_done p' = tp_done p"
proof -
  have w: "wk_at (tp_workers p ! i) = WTop \<or> wk_at (tp_workers p ! i) = WExit" using assms(1,2) by (simp add: all_ended_def)
  then have "p' = p\<lparr>tp_workers := (tp_workers p)[i := (tp_workers p ! i)\<lparr>wk_at := WExit\<rparr>]\<rparr>"
    using assms(1,3) by (auto simp: all_ended_def ThreadPool_run_def Worker_step_def)
  then show ?thesis using assms(1,2) all_ended_upd [OF assms(1,2), of "(tp_workers p ! i)\<lparr>wk_at := WExit\<rparr>" p']
    by (simp add: all_ended_def)
qed

lemma all_ended_place:
  assumes "all_ended p" "tp_inv p" "ThreadPool_Submit_step hw r p = Some p'"
  shows "all_ended p' \<and> tp_done p' = tp_done p"
proof (cases "tp_sub p")
  case (SCounted t i)
  let ?w = "tp_workers p ! i"
  have i: "i < length (tp_workers p)" using assms(2) SCounted by (simp add: tp_inv_def place_ok_def)
  then have "wk_at ?w = WTop \<or> wk_at ?w = WExit" using assms(1) by (simp add: all_ended_def)
  then show ?thesis
    using assms(1,3) SCounted all_ended_upd [OF assms(1) i, of "?w\<lparr>wk_tasks := SyncQueue_Push (wk_tasks ?w) t\<rparr>" p']
    by (auto simp: ThreadPool_Submit_step_def push_task_push_def Let_def all_ended_def)
qed (use assms in \<open>auto simp: ThreadPool_Submit_step_def push_task_count_def all_ended_def Worker_new_def split: if_splits\<close>)

lemma all_ended_step:
  assumes "tp_step throws p p'" "all_ended p" "tp_inv p"
  shows "all_ended p' \<and> tp_done p' = tp_done p"
  using assms(1)
proof (cases rule: tp_step.cases)
  case (submit task res)
  then show ?thesis using assms(2) by (auto simp: ThreadPool_Submit_begin_def all_ended_def split: if_splits)
next
  case destroy
  then show ?thesis using assms(2)
    by (auto simp: ThreadPool_Shutdown_step_def all_ended_def split: list.splits dphase.splits if_splits)
next
  case shutdown
  then show ?thesis using assms(2) by (auto simp: ThreadPool_Shutdown_begin_def all_ended_def split: if_splits)
qed (use assms(2,3) all_ended_run all_ended_place in blast)+

text \<open>
  A pool cannot be restarted: its stop source is never renewed, so after \<open>Shutdown\<close> and another \<open>Startup\<close> no task is ever run,
  whatever happens, although \<open>Submit\<close> accepts tasks.
\<close>

theorem ThreadPool_restart_runs_nothing:
  assumes "tp_reach throws p" "tp_stop p" "tp_workers p = []" "tp_steps throws (ThreadPool_Startup n m e p) q"
  shows "tp_done q = tp_done p"
proof -
  have "all_ended q \<and> tp_done q = tp_done p \<and> tp_inv q"
    using assms(4)
  proof (induction rule: tp_steps.induct)
    case here
    have "all_ended (ThreadPool_Startup n m e p)" "tp_done (ThreadPool_Startup n m e p) = tp_done p"
      using assms(2,3) by (auto simp: all_ended_def ThreadPool_Startup_def Worker_new_def)
    then show ?case using Startup_inv [OF tp_reach_inv [OF assms(1)]] by simp
  next
    case (step q r)
    then show ?case using all_ended_step [OF step.hyps(2)] tp_step_inv [OF step.hyps(2)] by simp
  qed
  then show ?thesis by simp
qed

definition pool_down :: "nat ThreadPool" where
  "pool_down = pool1\<lparr>tp_workers := [], tp_start := False, tp_stop := True\<rparr>"

lemma pool_down_reached: "tp_reach (\<lambda>_. False) pool_down"
proof -
  have "tp_steps (\<lambda>_. False) pool1 pool_down"
    by (rule tp_schedule_steps [of "[LShutdown, LRun 0, LDestroy, LDestroy, LDestroy, LDestroy]"])
      (simp add: pool_down_def pool1_def tp_defs SyncQueue_Clear_def SyncQueue_Stop_def)
  then show ?thesis
    by (rule tp_steps_reach) (unfold pool1_def, rule tp_reach.startup, rule tp_reach.new)
qed

theorem ThreadPool_restart_runs_nothing_witness:
  "\<exists>q. tp_steps (\<lambda>_. False) (ThreadPool_Startup 1 1 False pool_down) q \<and> tp_accepted q = [7] \<and> tp_done q = []"
proof -
  let ?p = "ThreadPool_Startup 1 1 False pool_down"
  obtain q where q: "tp_schedule [LSubmit 7, LPlace 1 0, LPlace 1 0, LPlace 1 0, LRun 0] ?p = Some q" "tp_accepted q = [7]"
    by (simp add: pool_down_def pool1_def tp_defs)
  have "tp_done q = tp_done pool_down"
    by (rule ThreadPool_restart_runs_nothing [OF pool_down_reached _ _ tp_schedule_steps [OF q(1)]]) (simp_all add: pool_down_def)
  then show ?thesis using tp_schedule_steps [OF q(1)] q(2) by (auto simp: pool_down_def pool1_def tp_defs)
qed

text \<open>
  \<open>Shutdown\<close> can make a worker read the front of an empty queue: the condition it passes to \<open>Pop\<close> is the pool's stop token,
  which is set before the queue of the worker is stopped.
\<close>

theorem ThreadPool_Shutdown_undefined:
  "\<exists>p :: nat ThreadPool. tp_reach (\<lambda>_. False) p \<and> ThreadPool_run (\<lambda>_. False) 0 p = Some (Inl Undefined)"
proof -
  obtain p where p: "tp_schedule [LRun 0, LRun 0, LShutdown] pool1 = Some p" "ThreadPool_run (\<lambda>_. False) 0 p = Some (Inl Undefined)"
    by (simp add: pool1_def tp_defs)
  have "tp_reach (\<lambda>_. False) p"
    by (rule tp_steps_reach [OF tp_schedule_steps [OF p(1)]]) (unfold pool1_def, rule tp_reach.startup, rule tp_reach.new)
  with p(2) show ?thesis by blast
qed

end
