(* ===== verification/LogSink.thy ===== *)
theory LogSink
  imports Cpp "HOL-Library.Finite_Map" "HOL-Library.Sublist"
begin

text \<open>
  The log sinks: \<open>src/include/log/message.h\<close>, \<open>src/src/logger/log_file.cpp\<close>, \<open>file_sink.cpp\<close> and \<open>console_sink.cpp\<close>.

  The files of a file sink are \<open>app.log\<close> and \<open>app.N.log\<close> in its directory; a file is known by its number, \<open>0\<close> for \<open>app.log\<close>
  (distinct numbers have distinct paths, lemma \<open>LogFile_path_inj\<close>), and the directory is a finite map from numbers to
  contents.  Files with other names are not touched by the code; names with leading zeros, which the listing accepts,
  do not occur in the model.  What depends on the system are parameters: \<open>env_open i\<close>, whether file \<open>i\<close> can be opened,
  \<open>env_rename i j\<close>, whether the system allows renaming \<open>i\<close> to \<open>j\<close>, and \<open>stamp\<close>, the text of a time.
\<close>

datatype LogLevel = Trace | TraceError | Debug | Info | Warn | Error | Fatal

fun level_int :: "LogLevel \<Rightarrow> nat" where
  "level_int Trace = 0"
| "level_int TraceError = 1"
| "level_int Debug = 2"
| "level_int Info = 3"
| "level_int Warn = 4"
| "level_int Error = 5"
| "level_int Fatal = 6"

instantiation LogLevel :: linorder
begin

definition less_eq_LogLevel :: "LogLevel \<Rightarrow> LogLevel \<Rightarrow> bool" where
  "less_eq_LogLevel a b \<longleftrightarrow> level_int a \<le> level_int b"

definition less_LogLevel :: "LogLevel \<Rightarrow> LogLevel \<Rightarrow> bool" where
  "less_LogLevel a b \<longleftrightarrow> level_int a < level_int b"

instance
proof
  fix x y z :: LogLevel
  show "x < y \<longleftrightarrow> x \<le> y \<and> \<not> y \<le> x" by (auto simp: less_eq_LogLevel_def less_LogLevel_def)
  show "x \<le> x" by (simp add: less_eq_LogLevel_def)
  show "x \<le> y \<Longrightarrow> y \<le> z \<Longrightarrow> x \<le> z" by (simp add: less_eq_LogLevel_def)
  show "x \<le> y \<Longrightarrow> y \<le> x \<Longrightarrow> x = y" by (cases x; cases y) (simp_all add: less_eq_LogLevel_def)
  show "x \<le> y \<or> y \<le> x" by (auto simp: less_eq_LogLevel_def)
qed

end

record Message =
  msg_lvl :: LogLevel
  msg_time :: nat
  msg_thread :: nat
  msg_module :: "string option"
  msg_msg :: string

subsection \<open>Formatting\<close>

function dec_text :: "nat \<Rightarrow> string" where
  "dec_text n = (if n < 10 then [char_of (48 + n)] else dec_text (n div 10) @ [char_of (48 + n mod 10)])"
  by pat_completeness auto
termination by (relation "measure id") auto

declare dec_text.simps [simp del]

text \<open>\<open>{:03}\<close>\<close>

definition pad3 :: "nat \<Rightarrow> string" where
  "pad3 n = replicate (3 - length (dec_text n)) CHR ''0'' @ dec_text n"

text \<open>The name of the level: the cases of \<open>Fatal\<close> and \<open>Trace\<close> have no \<open>break\<close>.\<close>

fun level_str :: "LogLevel \<Rightarrow> string" where
  "level_str Debug = ''DEBUG''"
| "level_str Info = ''INFO''"
| "level_str Warn = ''WARN''"
| "level_str Error = ''ERROR''"
| "level_str Fatal = ''TRACE ERROR''"
| "level_str Trace = ''TRACE ERROR''"
| "level_str TraceError = ''TRACE ERROR''"

definition FileSink_line :: "(nat \<Rightarrow> string) \<Rightarrow> Message \<Rightarrow> string" where
  "FileSink_line stamp msg =
     stamp (msg_time msg) @ ''.'' @ pad3 (msg_time msg mod 1000) @ '' ['' @ dec_text (msg_thread msg) @ ''] ['' @ level_str (msg_lvl msg) @ '']''
     @ (case msg_module msg of None \<Rightarrow> [] | Some m \<Rightarrow> '' ['' @ m @ '']'') @ ''> '' @ msg_msg msg"

subsection \<open>Log files\<close>

type_synonym logdir = "(nat, string) fmap"

record LogFile =
  lf_open :: bool
  lf_cur_size :: nat
  lf_index :: nat

definition LogFile_new :: "nat \<Rightarrow> LogFile" where
  "LogFile_new index = \<lparr>lf_open = False, lf_cur_size = 0, lf_index = index\<rparr>"

definition LogFile_path :: "string \<Rightarrow> string \<Rightarrow> nat \<Rightarrow> string" where
  "LogFile_path log_dir app_name index =
     (if index = 0 then log_dir @ ''/'' @ app_name @ ''.log'' else log_dir @ ''/'' @ app_name @ ''.'' @ dec_text index @ ''.log'')"

text \<open>
  \<open>Open\<close> returns \<open>true\<close> in every case; when the file cannot be opened the position is \<open>-1\<close>, which is converted to
  \<open>size_t\<close>.
\<close>

definition LogFile_Open :: "(nat \<Rightarrow> bool) \<Rightarrow> bool \<Rightarrow> LogFile \<Rightarrow> logdir \<Rightarrow> LogFile \<times> logdir" where
  "LogFile_Open can_open trunc f fs =
     (if lf_open f then (f, fs)
      else if can_open (lf_index f) then
        let content = (if trunc then [] else case fmlookup fs (lf_index f) of None \<Rightarrow> [] | Some c \<Rightarrow> c)
        in (f\<lparr>lf_open := True, lf_cur_size := length content\<rparr>, fmupd (lf_index f) content fs)
      else (f\<lparr>lf_cur_size := 2 ^ 64 - 1\<rparr>, fs))"

definition LogFile_Close :: "LogFile \<Rightarrow> LogFile" where
  "LogFile_Close f = f\<lparr>lf_open := False\<rparr>"

text \<open>The line is followed by a newline, which the size does not count.\<close>

definition LogFile_Write :: "string \<Rightarrow> LogFile \<Rightarrow> logdir \<Rightarrow> LogFile \<times> logdir" where
  "LogFile_Write text f fs =
     (if \<not> lf_open f then (f, fs)
      else (f\<lparr>lf_cur_size := lf_cur_size f + length text\<rparr>,
            fmupd (lf_index f) ((case fmlookup fs (lf_index f) of None \<Rightarrow> [] | Some c \<Rightarrow> c) @ text @ [CHR 0x0A]) fs))"

text \<open>\<open>std::filesystem::rename\<close>: it fails when there is no such file or the system refuses, and replaces an existing target.\<close>

definition fs_rename :: "(nat \<Rightarrow> nat \<Rightarrow> bool) \<Rightarrow> nat \<Rightarrow> nat \<Rightarrow> logdir \<Rightarrow> logdir option" where
  "fs_rename allow i j fs =
     (case fmlookup fs i of
        None \<Rightarrow> None
      | Some c \<Rightarrow> if allow i j then Some (fmupd j c (fmdrop i fs)) else None)"

definition LogFile_RenameIndex :: "(nat \<Rightarrow> nat \<Rightarrow> bool) \<Rightarrow> nat \<Rightarrow> LogFile \<Rightarrow> logdir \<Rightarrow> (LogFile \<times> logdir) option" where
  "LogFile_RenameIndex allow index f fs =
     map_option (\<lambda>fs'. (f\<lparr>lf_index := index\<rparr>, fs')) (fs_rename allow (lf_index f) index fs)"

subsection \<open>The file sink\<close>

datatype FileMode = Append | Truncate

record FileSink =
  fk_max_file_size :: nat
  fk_max_file_count :: nat
  fk_mode :: FileMode
  fk_file :: "LogFile option"

record sink_env =
  env_open :: "nat \<Rightarrow> bool"
  env_rename :: "nat \<Rightarrow> nat \<Rightarrow> bool"
  env_stamp :: "nat \<Rightarrow> string"

text \<open>\<open>dir_exists\<close> and \<open>dir_created\<close> are the results of \<open>exists\<close> and \<open>create_directories\<close>.\<close>

definition FileSink_Init :: "sink_env \<Rightarrow> bool \<Rightarrow> bool \<Rightarrow> FileSink \<Rightarrow> logdir \<Rightarrow> bool \<times> FileSink \<times> logdir" where
  "FileSink_Init env dir_exists dir_created k fs =
     (if \<not> dir_exists \<and> dir_created then (False, k, fs)
      else case LogFile_Open (env_open env) (fk_mode k = Truncate) (LogFile_new 0) fs of
             (f, fs') \<Rightarrow> (lf_open f, k\<lparr>fk_file := Some f\<rparr>, fs'))"

definition FileSink_Uninit :: "FileSink \<Rightarrow> FileSink" where
  "FileSink_Uninit k = (case fk_file k of None \<Rightarrow> k | Some f \<Rightarrow> k\<lparr>fk_file := Some (LogFile_Close f)\<rparr>)"

text \<open>The numbered files in ascending order (a \<open>std::map\<close> by number), without \<open>app.log\<close>.\<close>

definition FileSink_ListLogs :: "logdir \<Rightarrow> nat list" where
  "FileSink_ListLogs fs = filter (\<lambda>i. i \<noteq> 0) (sorted_list_of_fset (fmdom fs))"

text \<open>The loop of \<open>RoutingLogs\<close>, on the numbers in descending order.\<close>

fun rename_loop :: "(nat \<Rightarrow> nat \<Rightarrow> bool) \<Rightarrow> nat list \<Rightarrow> nat \<Rightarrow> logdir \<Rightarrow> bool \<times> logdir" where
  "rename_loop allow [] index fs = (True, fs)"
| "rename_loop allow (i # is) index fs =
     (case fs_rename allow i index fs of
        None \<Rightarrow> (False, fs)
      | Some fs' \<Rightarrow> rename_loop allow is (index - 1) fs')"

definition FileSink_RoutingLogs :: "sink_env \<Rightarrow> FileSink \<Rightarrow> logdir \<Rightarrow> bool \<times> FileSink \<times> logdir" where
  "FileSink_RoutingLogs env k fs =
     (case fk_file k of
        None \<Rightarrow> (False, k, fs)
      | Some f \<Rightarrow>
          if fk_max_file_count k = 1 then
            (case LogFile_Open (env_open env) True (LogFile_Close f) fs of (f', fs') \<Rightarrow> (True, k\<lparr>fk_file := Some f'\<rparr>, fs'))
          else
            let logs = 0 # FileSink_ListLogs fs; n = length logs in
            case rename_loop (env_rename env) (rev logs) n fs of
              (False, fs1) \<Rightarrow> (False, k\<lparr>fk_file := None\<rparr>, fs1)
            | (True, fs1) \<Rightarrow>
                if n < fk_max_file_count k then
                  (case LogFile_Open (env_open env) True (LogFile_new 0) fs1 of (f', fs') \<Rightarrow> (lf_open f', k\<lparr>fk_file := Some f'\<rparr>, fs'))
                else
                  case LogFile_RenameIndex (env_rename env) 0 (LogFile_new n) fs1 of
                    None \<Rightarrow> (False, k\<lparr>fk_file := Some (LogFile_new n)\<rparr>, fs1)
                  | Some (f1, fs2) \<Rightarrow>
                      (case LogFile_Open (env_open env) True f1 fs2 of (f', fs') \<Rightarrow> (True, k\<lparr>fk_file := Some f'\<rparr>, fs')))"

definition FileSink_Log :: "sink_env \<Rightarrow> LogLevel \<Rightarrow> Message \<Rightarrow> FileSink \<Rightarrow> logdir \<Rightarrow> bool \<times> FileSink \<times> logdir" where
  "FileSink_Log env lvl msg k fs =
     (case fk_file k of
        None \<Rightarrow> (False, k, fs)
      | Some f \<Rightarrow>
          if \<not> lf_open f then (False, k, fs)
          else if level_int (msg_lvl msg) < level_int lvl then (True, k, fs)
          else case LogFile_Write (FileSink_line (env_stamp env) msg) f fs of
                 (f1, fs1) \<Rightarrow>
                   if fk_max_file_size k = 0 \<or> lf_cur_size f1 < fk_max_file_size k then (True, k\<lparr>fk_file := Some f1\<rparr>, fs1)
                   else FileSink_RoutingLogs env (k\<lparr>fk_file := Some (LogFile_Close f1)\<rparr>) fs1)"

subsection \<open>The console sink\<close>

datatype console_color = green | blue | yellow | red | magenta | white

datatype console_op = SetColor console_color | Put string

record ConsoleSink =
  ck_color :: bool

fun level_color :: "LogLevel \<Rightarrow> console_color" where
  "level_color Debug = green"
| "level_color Info = blue"
| "level_color Warn = yellow"
| "level_color Error = red"
| "level_color Fatal = red"
| "level_color Trace = magenta"
| "level_color TraceError = red"

fun console_level_str :: "LogLevel \<Rightarrow> string" where
  "console_level_str Debug = ''DEBUG''"
| "console_level_str Info = ''INFO''"
| "console_level_str Warn = ''WARN''"
| "console_level_str Error = ''ERROR''"
| "console_level_str Fatal = ''FATAL''"
| "console_level_str Trace = ''TRACE''"
| "console_level_str TraceError = ''TRACE ERROR''"

definition ConsoleSink_Log :: "sink_env \<Rightarrow> LogLevel \<Rightarrow> Message \<Rightarrow> ConsoleSink \<Rightarrow> console_op list \<Rightarrow> bool \<times> console_op list" where
  "ConsoleSink_Log env lvl msg k out =
     (if level_int (msg_lvl msg) < level_int lvl then (True, out)
      else (True, out
        @ [Put (env_stamp env (msg_time msg) @ ''.'' @ pad3 (msg_time msg mod 1000) @ '' ['' @ dec_text (msg_thread msg) @ '']'' @ '' ['')]
        @ (if ck_color k then [SetColor (level_color (msg_lvl msg))] else [])
        @ [Put (console_level_str (msg_lvl msg))]
        @ (if ck_color k then [SetColor white] else [])
        @ [Put ''] '']
        @ (case msg_module msg of None \<Rightarrow> [] | Some m \<Rightarrow> [Put (''['' @ m @ '']'')])
        @ [Put (''> '' @ msg_msg msg @ [CHR 0x0A])]))"

subsection \<open>Numbers and paths\<close>

definition undec :: "string \<Rightarrow> nat" where
  "undec s = foldl (\<lambda>a c. a * 10 + (of_char c - 48)) 0 s"

lemma undec_dec: "undec (dec_text n) = n"
proof (induction n rule: dec_text.induct)
  case (1 n)
  have d: "of_char (char_of (48 + k)) - 48 = k" if "k < 10" for k :: nat using that by simp
  show ?case
  proof (cases "n < 10")
    case True
    then show ?thesis using d [of n] by (subst dec_text.simps) (simp add: undec_def)
  next
    case False
    then have "undec (dec_text n) = undec (dec_text (n div 10)) * 10 + n mod 10"
      using d [of "n mod 10"] by (subst dec_text.simps) (simp add: undec_def)
    then show ?thesis using 1 False by simp
  qed
qed

lemma LogFile_path_inj: "LogFile_path d a i = LogFile_path d a j \<Longrightarrow> i = j"
proof -
  assume eq: "LogFile_path d a i = LogFile_path d a j"
  consider "i = 0 \<and> j = 0" | "i \<noteq> 0" "j \<noteq> 0" | "(i = 0) \<noteq> (j = 0)" by blast
  then show ?thesis
  proof cases
    case 2
    then have "dec_text i = dec_text j" using eq by (simp add: LogFile_path_def)
    then show ?thesis by (metis undec_dec)
  next
    case 3
    then show ?thesis using arg_cong [OF eq, of length] by (auto simp: LogFile_path_def split: if_splits)
  qed simp
qed

subsection \<open>Rotation\<close>

lemma fs_rename_lookup:
  "fs_rename allow i j fs = Some fs' \<Longrightarrow>
     fmlookup fs' x = (if x = j then fmlookup fs i else if x = i then None else fmlookup fs x)"
  by (auto simp: fs_rename_def split: option.splits if_splits)

lemma fs_rename_some: "i |\<in>| fmdom fs \<Longrightarrow> allow i j \<Longrightarrow> \<exists>fs'. fs_rename allow i j fs = Some fs'"
  by (auto simp: fs_rename_def fmlookup_dom_iff)

lemma rename_loop_shift:
  assumes "\<And>i. i < m \<Longrightarrow> allow i (Suc i)" "\<And>i. i < m \<Longrightarrow> i |\<in>| fmdom fs"
  shows "\<exists>fs'. rename_loop allow (rev [0..<m]) m fs = (True, fs')
    \<and> (\<forall>x. fmlookup fs' x = (if m = 0 \<or> m < x then fmlookup fs x else if x = 0 then None else fmlookup fs (x - 1)))"
  using assms
proof (induction m arbitrary: fs)
  case (Suc m)
  obtain fs1 where r: "fs_rename allow m (Suc m) fs = Some fs1" using fs_rename_some Suc.prems by blast
  have l: "fmlookup fs1 x = (if x = Suc m then fmlookup fs m else if x = m then None else fmlookup fs x)" for x
    using fs_rename_lookup [OF r] .
  have "i |\<in>| fmdom fs1" if "i < m" for i
    using Suc.prems(2) [of i] that l [of i] by (auto simp: fmlookup_dom_iff)
  then obtain fs' where fs': "rename_loop allow (rev [0..<m]) m fs1 = (True, fs')"
    "\<forall>x. fmlookup fs' x = (if m = 0 \<or> m < x then fmlookup fs1 x else if x = 0 then None else fmlookup fs1 (x - 1))"
    using Suc.IH [of fs1] Suc.prems(1) by auto
  then show ?case using r l by (auto simp: less_Suc_eq)
qed simp

lemma ListLogs_contiguous:
  assumes "fset (fmdom fs) = {0..<n}" "0 < n"
  shows "0 # FileSink_ListLogs fs = [0..<n]"
proof -
  have "sorted_list_of_fset (fmdom fs) = [0..<n]"
    using assms(1) by (simp add: sorted_list_of_fset.rep_eq)
  moreover have "[0..<n] = 0 # [1..<n]" using assms(2) by (simp add: upt_conv_Cons)
  ultimately show ?thesis by (simp add: FileSink_ListLogs_def)
qed

lemma Open_truncates:
  "\<not> lf_open f \<Longrightarrow> can_open (lf_index f) \<Longrightarrow>
   LogFile_Open can_open True f fs = (f\<lparr>lf_open := True, lf_cur_size := 0\<rparr>, fmupd (lf_index f) [] fs)"
  by (simp add: LogFile_Open_def)

lemma RoutingLogs_shift:
  assumes "fset (fmdom fs) = {0..<n}" "0 < n" "fk_file k = Some f" "fk_max_file_count k \<noteq> 1"
    and "\<And>i j. env_rename env i j" "env_open env 0"
  shows "\<exists>f' fs'. FileSink_RoutingLogs env k fs = (True, k\<lparr>fk_file := Some f'\<rparr>, fs') \<and> lf_open f' \<and> lf_index f' = 0 \<and> lf_cur_size f' = 0
    \<and> (\<forall>x. fmlookup fs' x = (if x = 0 then Some [] else if x < n \<or> x = n \<and> n < fk_max_file_count k then fmlookup fs (x - 1) else None))"
proof -
  have dom: "i |\<in>| fmdom fs \<longleftrightarrow> i < n" for i using assms(1) by (metis atLeastLessThan_iff le0)
  obtain fs1 where r: "rename_loop (env_rename env) (rev [0..<n]) n fs = (True, fs1)"
    and l: "\<And>x. fmlookup fs1 x = (if n < x then fmlookup fs x else if x = 0 then None else fmlookup fs (x - 1))"
    using rename_loop_shift [of n "env_rename env" fs] assms(2,5) dom by auto
  have out: "fmlookup fs x = None" if "n \<le> x" for x using dom [of x] that by (simp add: fmdom_notD)
  have logs: "0 # FileSink_ListLogs fs = [0..<n]" using ListLogs_contiguous [OF assms(1,2)] .
  show ?thesis
  proof (cases "n < fk_max_file_count k")
    case True
    have "FileSink_RoutingLogs env k fs
        = (True, k\<lparr>fk_file := Some (LogFile_new 0\<lparr>lf_open := True, lf_cur_size := 0\<rparr>)\<rparr>, fmupd 0 [] fs1)"
      using True r assms(3,4,6) by (simp add: FileSink_RoutingLogs_def logs Open_truncates LogFile_new_def)
    then show ?thesis using True l out by (auto simp: LogFile_new_def)
  next
    case False
    have "n |\<in>| fmdom fs1" using l [of n] dom [of "n - 1"] assms(2) by (auto simp: fmlookup_dom_iff)
    then obtain fs2 where r2: "fs_rename (env_rename env) n 0 fs1 = Some fs2" using fs_rename_some assms(5) by blast
    have "FileSink_RoutingLogs env k fs
        = (True, k\<lparr>fk_file := Some ((LogFile_new n)\<lparr>lf_index := 0, lf_open := True, lf_cur_size := 0\<rparr>)\<rparr>, fmupd 0 [] fs2)"
      using False r r2 assms(3,4,6)
      by (simp add: FileSink_RoutingLogs_def logs LogFile_RenameIndex_def Open_truncates LogFile_new_def)
    then show ?thesis using False l out fs_rename_lookup [OF r2] by (auto simp: LogFile_new_def)
  qed
qed

lemma RoutingLogs_single:
  assumes "fset (fmdom fs) = {0..<n}" "fk_file k = Some f" "fk_max_file_count k = 1" "n = 1" "lf_index f = 0" "env_open env 0"
  shows "\<exists>f' fs'. FileSink_RoutingLogs env k fs = (True, k\<lparr>fk_file := Some f'\<rparr>, fs') \<and> lf_open f' \<and> lf_index f' = 0 \<and> lf_cur_size f' = 0
    \<and> (\<forall>x. fmlookup fs' x = (if x = 0 then Some [] else if x < n \<or> x = n \<and> n < fk_max_file_count k then fmlookup fs (x - 1) else None))"
proof -
  have "fmlookup fs x = None" if "x \<noteq> 0" for x
    using assms(1,4) that fmlookup_dom_iff [of x fs] by (cases "fmlookup fs x") auto
  then show ?thesis
    using assms(2-6) by (auto simp: FileSink_RoutingLogs_def LogFile_Close_def Open_truncates intro!: exI [of _ "f\<lparr>lf_open := True, lf_cur_size := 0\<rparr>"])
qed

lemma RoutingLogs_all:
  assumes "fset (fmdom fs) = {0..<n}" "0 < n" "fk_file k = Some f"
    and "fk_max_file_count k = 1 \<longrightarrow> n = 1 \<and> lf_index f = 0" "\<And>i j. env_rename env i j" "env_open env 0"
  shows "\<exists>f' fs'. FileSink_RoutingLogs env k fs = (True, k\<lparr>fk_file := Some f'\<rparr>, fs') \<and> lf_open f' \<and> lf_index f' = 0 \<and> lf_cur_size f' = 0
    \<and> (\<forall>x. fmlookup fs' x = (if x = 0 then Some [] else if x < n \<or> x = n \<and> n < fk_max_file_count k then fmlookup fs (x - 1) else None))"
proof (cases "fk_max_file_count k = 1")
  case True
  then show ?thesis using assms(4) by (intro RoutingLogs_single [OF assms(1,3) _ _ _ assms(6)]) simp_all
qed (rule RoutingLogs_shift [OF assms(1-3) _ assms(5,6)])

text \<open>
  C22. Rotation of files that are numbered \<open>0..n-1\<close> without gaps, when the system renames and opens every file it is asked to: file
  \<open>i\<close> becomes file \<open>i + 1\<close> and a new empty \<open>app.log\<close> is open for writing; when the maximal number of files is reached the
  oldest file is given up.  For the maximum 1 the code takes a path of its own, which expects \<open>app.log\<close> to be the only file.
\<close>

theorem FileSink_rotation:
  assumes "fset (fmdom fs) = {0..<n}" "0 < n" "fk_file k = Some f"
    and "fk_max_file_count k = 1 \<longrightarrow> n = 1 \<and> lf_index f = 0" "\<And>i j. env_rename env i j" "env_open env 0"
  shows "\<exists>f' fs'. FileSink_RoutingLogs env k fs = (True, k\<lparr>fk_file := Some f'\<rparr>, fs') \<and> lf_open f' \<and> lf_index f' = 0 \<and> lf_cur_size f' = 0
    \<and> (\<forall>x. fmlookup fs' x = (if x = 0 then Some [] else if x < n \<or> x = n \<and> n < fk_max_file_count k then fmlookup fs (x - 1) else None))"
  using assms by (rule RoutingLogs_all)

text \<open>A system that allows everything.\<close>

definition env_all :: sink_env where
  "env_all = \<lparr>env_open = \<lambda>_. True, env_rename = \<lambda>_ _. True, env_stamp = \<lambda>_. ''01-02 03:04:05''\<rparr>"

definition sink2 :: FileSink where
  "sink2 = \<lparr>fk_max_file_size = 8, fk_max_file_count = 2, fk_mode = Append, fk_file = Some \<lparr>lf_open = True, lf_cur_size = 0, lf_index = 0\<rparr>\<rparr>"

theorem FileSink_rotation_witness:
  "\<exists>f' fs'. FileSink_RoutingLogs env_all sink2 (fmap_of_list [(0, ''new''), (1, ''old'')]) = (True, sink2\<lparr>fk_file := Some f'\<rparr>, fs')
     \<and> fmlookup fs' 0 = Some [] \<and> fmlookup fs' 1 = Some ''new'' \<and> fmlookup fs' 2 = None"
proof -
  let ?fs = "fmap_of_list [(0, ''new''), (1, ''old'')] :: logdir"
  have "fset (fmdom ?fs) = {0..<2}" by (auto simp: fset_of_list.rep_eq)
  moreover have "fmlookup ?fs 0 = Some ''new''" by (simp add: fmlookup_of_list)
  ultimately show ?thesis
    using FileSink_rotation [of ?fs 2 sink2 _ env_all] by (force simp: sink2_def env_all_def)
qed

subsection \<open>What the files contain\<close>

text \<open>The sink writes to \<open>app.log\<close>, and the files are numbered without gaps up to at most the maximum.\<close>

definition sink_ok :: "FileSink \<Rightarrow> logdir \<Rightarrow> bool" where
  "sink_ok k fs \<longleftrightarrow>
     (\<exists>f n. fk_file k = Some f \<and> lf_open f \<and> lf_index f = 0 \<and> fset (fmdom fs) = {0..<n} \<and> 0 < n \<and> n \<le> fk_max_file_count k)"

lemma fmdom_from_lookup: "(\<And>x. fmlookup fs x \<noteq> None \<longleftrightarrow> x \<in> S) \<Longrightarrow> fset (fmdom fs) = S"
  by (auto simp: fmlookup_dom_iff)

lemma fmdom_upd_0: "fset (fmdom fs) = {0..<n} \<Longrightarrow> 0 < n \<Longrightarrow> fset (fmdom (fmupd 0 c fs)) = {0..<n}" for fs :: logdir
proof -
  assume a: "fset (fmdom fs) = {0..<n}" and "0 < n"
  then have "insert 0 {0..<n} = {0..<n}" by (simp add: insert_absorb)
  then show ?thesis unfolding fmdom_fmupd finsert.rep_eq a .
qed

text \<open>The contents of the files, the newest first, and all that they say, from the oldest to the newest.\<close>

definition log_files :: "logdir \<Rightarrow> string list" where
  "log_files fs = map (\<lambda>i. the (fmlookup fs i)) (sorted_list_of_fset (fmdom fs))"

definition all_text :: "logdir \<Rightarrow> string" where
  "all_text fs = concat (rev (log_files fs))"

definition sink_files :: "FileSink \<Rightarrow> logdir \<Rightarrow> nat \<times> string list" where
  "sink_files k fs = (lf_cur_size (the (fk_file k)), log_files fs)"

text \<open>
  The contract of the sink on the list of contents: a line is appended to the newest file; when the file has its size,
  an empty file is put in front and only \<open>max_count\<close> files are kept.
\<close>

definition append_line :: "nat \<Rightarrow> nat \<Rightarrow> nat \<times> string list \<Rightarrow> string \<Rightarrow> nat \<times> string list" where
  "append_line max_size max_count s line =
     (let size' = fst s + length line; files' = (hd (snd s) @ line @ [CHR 0x0A]) # tl (snd s)
      in if max_size = 0 \<or> size' < max_size then (size', files') else (0, [] # take (max_count - 1) files'))"

lemma log_files_upto: "fset (fmdom fs) = {0..<n} \<Longrightarrow> log_files fs = map (\<lambda>i. the (fmlookup fs i)) [0..<n]"
  by (simp add: log_files_def sorted_list_of_fset.rep_eq)

lemma length_log_files: "length (log_files fs) = fcard (fmdom fs)"
  by (simp add: log_files_def sorted_list_of_fset.rep_eq fcard.rep_eq)

lemma log_files_cons:
  "fset (fmdom fs) = {0..<n} \<Longrightarrow> 0 < n \<Longrightarrow> log_files fs = the (fmlookup fs 0) # map (\<lambda>i. the (fmlookup fs i)) [1..<n]"
  by (simp add: log_files_upto upt_conv_Cons)

lemma RoutingLogs_ok:
  assumes env: "\<And>i j. env_rename env i j" "env_open env 0"
    and k: "fk_file k = Some f" "lf_index f = 0"
    and fs: "fset (fmdom fs) = {0..<n}" "0 < n" "n \<le> fk_max_file_count k"
  shows "\<exists>f' fs'. FileSink_RoutingLogs env k fs = (True, k\<lparr>fk_file := Some f'\<rparr>, fs') \<and> sink_ok (k\<lparr>fk_file := Some f'\<rparr>) fs'
    \<and> lf_cur_size f' = 0 \<and> log_files fs' = [] # take (fk_max_file_count k - 1) (log_files fs)"
proof -
  obtain f' fs' where r: "FileSink_RoutingLogs env k fs = (True, k\<lparr>fk_file := Some f'\<rparr>, fs')" "lf_open f'" "lf_index f' = 0" "lf_cur_size f' = 0"
    and l: "\<And>x. fmlookup fs' x = (if x = 0 then Some [] else if x < n \<or> x = n \<and> n < fk_max_file_count k then fmlookup fs (x - 1) else None)"
    using RoutingLogs_all [OF fs(1,2) k(1) _ env] fs(2,3) k(2) by auto
  have dom: "fmlookup fs x \<noteq> None \<longleftrightarrow> x < n" for x
    using fs(1) fmlookup_dom_iff [of x fs] by (metis atLeastLessThan_iff le0 not_None_eq)
  define m where "m = (if n < fk_max_file_count k then Suc n else n)"
  have t: "take (fk_max_file_count k - 1) [0..<n] = [0..<m - 1]" "0 < m" "\<And>x. Suc x < m \<Longrightarrow> Suc x < n \<or> Suc x = n \<and> n < fk_max_file_count k"
    using fs(2,3) by (auto simp: m_def take_upt split: if_splits)
  have d: "fset (fmdom fs') = {0..<m}"
    using l dom fs(2) by (intro fmdom_from_lookup) (auto simp: m_def)
  then have "sink_ok (k\<lparr>fk_file := Some f'\<rparr>) fs'"
    using r(2,3) fs(2,3) by (auto simp: sink_ok_def m_def intro!: exI [of _ m])
  moreover have "log_files fs' = [] # take (fk_max_file_count k - 1) (log_files fs)"
    unfolding log_files_upto [OF d] log_files_upto [OF fs(1)]
    by (rule nth_equalityI) (use fs(2) t in \<open>auto simp: l nth_Cons take_map split: nat.splits\<close>)
  ultimately show ?thesis using r(1,4) by blast
qed

lemma FileSink_Log_spec:
  assumes env: "\<And>i j. env_rename env i j" "env_open env 0" and ok: "sink_ok k fs"
  shows "\<exists>k' fs'. FileSink_Log env lvl msg k fs = (True, k', fs') \<and> sink_ok k' fs'
    \<and> fk_max_file_count k' = fk_max_file_count k \<and> fk_max_file_size k' = fk_max_file_size k
    \<and> sink_files k' fs' = (if lvl \<le> msg_lvl msg
        then append_line (fk_max_file_size k) (fk_max_file_count k) (sink_files k fs) (FileSink_line (env_stamp env) msg) else sink_files k fs)"
proof (cases "lvl \<le> msg_lvl msg")
  case False
  then show ?thesis using ok by (auto simp: FileSink_Log_def sink_ok_def less_eq_LogLevel_def)
next
  case True
  let ?line = "FileSink_line (env_stamp env) msg"
  obtain f n where f: "fk_file k = Some f" "lf_open f" "lf_index f = 0" and fs: "fset (fmdom fs) = {0..<n}" "0 < n" "n \<le> fk_max_file_count k"
    using ok by (auto simp: sink_ok_def)
  define f1 where "f1 = f\<lparr>lf_cur_size := lf_cur_size f + length ?line\<rparr>"
  define fs1 where "fs1 = fmupd 0 (the (fmlookup fs 0) @ ?line @ [CHR 0x0A]) fs"
  have "fmlookup fs 0 \<noteq> None" using fs fmlookup_dom_iff [of 0 fs] by auto
  then have w: "LogFile_Write ?line f fs = (f1, fs1)" "fset (fmdom fs1) = {0..<n}"
    using f fmdom_upd_0 [OF fs(1,2)] by (auto simp: LogFile_Write_def f1_def fs1_def simp del: fmdom_fmupd)
  have files: "log_files fs1 = (hd (log_files fs) @ ?line @ [CHR 0x0A]) # tl (log_files fs)"
    unfolding log_files_cons [OF w(2) fs(2)] log_files_cons [OF fs(1,2)] by (simp add: fs1_def)
  show ?thesis
  proof (cases "fk_max_file_size k = 0 \<or> lf_cur_size f1 < fk_max_file_size k")
    case small: True
    then have "FileSink_Log env lvl msg k fs = (True, k\<lparr>fk_file := Some f1\<rparr>, fs1)"
      using f w(1) True by (simp add: FileSink_Log_def less_eq_LogLevel_def)
    moreover have "sink_ok (k\<lparr>fk_file := Some f1\<rparr>) fs1"
      unfolding sink_ok_def by (rule exI [of _ f1], rule exI [of _ n]) (simp add: f fs w(2) f1_def)
    ultimately show ?thesis
      using True small f(1) files by (auto simp: sink_files_def append_line_def Let_def f1_def)
  next
    case rot: False
    then have "FileSink_Log env lvl msg k fs = FileSink_RoutingLogs env (k\<lparr>fk_file := Some (LogFile_Close f1)\<rparr>) fs1"
      using f w(1) True by (simp add: FileSink_Log_def less_eq_LogLevel_def)
    moreover have "\<not> (fk_max_file_size k = 0 \<or> lf_cur_size f + length ?line < fk_max_file_size k)"
      using rot by (simp add: f1_def)
    ultimately show ?thesis
      using RoutingLogs_ok [OF env, of "k\<lparr>fk_file := Some (LogFile_Close f1)\<rparr>" "LogFile_Close f1" fs1 n] f fs w(2) True files
      by (auto simp: LogFile_Close_def f1_def sink_files_def append_line_def Let_def)
  qed
qed

fun log_all :: "sink_env \<Rightarrow> LogLevel \<Rightarrow> Message list \<Rightarrow> FileSink \<times> logdir \<Rightarrow> FileSink \<times> logdir" where
  "log_all env lvl [] s = s"
| "log_all env lvl (m # ms) (k, fs) = log_all env lvl ms (snd (FileSink_Log env lvl m k fs))"

lemma sink_ok_fcard: "sink_ok k fs \<Longrightarrow> 0 < fcard (fmdom fs) \<and> fcard (fmdom fs) \<le> fk_max_file_count k"
  by (auto simp: sink_ok_def fcard.rep_eq)

lemma log_all_spec:
  assumes "\<And>i j. env_rename env i j" "env_open env 0" "sink_ok k fs" "log_all env lvl ms (k, fs) = (k', fs')"
  shows "sink_ok k' fs' \<and> fk_max_file_count k' = fk_max_file_count k \<and> sink_files k' fs' =
    foldl (append_line (fk_max_file_size k) (fk_max_file_count k)) (sink_files k fs)
      (map (FileSink_line (env_stamp env)) (filter (\<lambda>m. lvl \<le> msg_lvl m) ms))"
  using assms(3,4)
proof (induction ms arbitrary: k fs)
  case (Cons m ms)
  obtain k1 fs1 where "FileSink_Log env lvl m k fs = (True, k1, fs1)" "sink_ok k1 fs1"
    "fk_max_file_count k1 = fk_max_file_count k" "fk_max_file_size k1 = fk_max_file_size k"
    "sink_files k1 fs1 = (if lvl \<le> msg_lvl m
      then append_line (fk_max_file_size k) (fk_max_file_count k) (sink_files k fs) (FileSink_line (env_stamp env) m) else sink_files k fs)"
    using FileSink_Log_spec [OF assms(1,2) Cons.prems(1)] by blast
  then show ?case using Cons.IH [of k1 fs1] Cons.prems(2) by simp
qed simp

text \<open>What a sequence of lines does to the files: text leaves at the old end only, whole files at a time, and only at the limit.\<close>

definition lines_text :: "string list \<Rightarrow> string" where
  "lines_text ls = concat (map (\<lambda>l. l @ [CHR 0x0A]) ls)"

definition kept :: "nat \<Rightarrow> nat \<Rightarrow> string list \<Rightarrow> string list \<Rightarrow> string list \<Rightarrow> bool" where
  "kept max_size max_count files ls files' \<longleftrightarrow>
     (\<exists>dropped. concat (rev dropped) @ concat (rev files') = concat (rev files) @ lines_text ls
        \<and> (dropped \<noteq> [] \<longrightarrow> max_size \<noteq> 0 \<and> length files' = max_count))
     \<and> files' \<noteq> [] \<and> length files \<le> length files' \<and> length files' \<le> max_count
     \<and> (ls \<noteq> [] \<and> 1 < max_count \<longrightarrow> suffix (last ls @ [CHR 0x0A]) (concat (rev files')))"

lemma append_line_kept:
  assumes "files \<noteq> []" "length files \<le> max_count"
  shows "kept max_size max_count files [l] (snd (append_line max_size max_count (sz, files) l))"
proof -
  let ?new = "(hd files @ l @ [CHR 0x0A]) # tl files"
  have t: "concat (rev ?new) = concat (rev files) @ lines_text [l]" "length ?new = length files"
    using assms(1) by (cases files; simp add: lines_text_def)+
  show ?thesis
  proof (cases "max_size = 0 \<or> sz + length l < max_size")
    case True
    then show ?thesis
      using t assms by (auto simp: kept_def append_line_def Let_def suffix_def lines_text_def intro!: exI [of _ "[]"])
  next
    case False
    define c where "c = max_count - 1"
    have c: "max_count = Suc c" using assms by (cases files) (simp_all add: c_def)
    have "concat (rev (drop c ?new)) @ concat (rev (take c ?new)) = concat (rev ?new)"
      by (metis append_take_drop_id concat_append rev_append)
    moreover have "suffix (l @ [CHR 0x0A]) (concat (rev (take c ?new)))" if "0 < c"
      using that by (cases c) (auto simp: suffix_def)
    moreover have "length (take c ?new) = c" if "drop c ?new \<noteq> []" using that by (simp add: min_def)
    ultimately show ?thesis
      using False t assms by (auto simp: kept_def append_line_def Let_def c min_def lines_text_def intro!: exI [of _ "drop c ?new"])
  qed
qed

lemma kept_trans:
  assumes "kept s c files ls files'" "kept s c files' [l] files''"
  shows "kept s c files (ls @ [l]) files''"
proof -
  obtain d1 d2 where "concat (rev d1) @ concat (rev files') = concat (rev files) @ lines_text ls"
    "d1 \<noteq> [] \<longrightarrow> s \<noteq> 0 \<and> length files' = c" "concat (rev d2) @ concat (rev files'') = concat (rev files') @ lines_text [l]"
    "d2 \<noteq> [] \<longrightarrow> s \<noteq> 0 \<and> length files'' = c"
    using assms by (auto simp: kept_def)
  then have "concat (rev (d2 @ d1)) @ concat (rev files'') = concat (rev files) @ lines_text (ls @ [l])"
    by (simp add: lines_text_def)
  then show ?thesis
    using assms \<open>d1 \<noteq> [] \<longrightarrow> _\<close> \<open>d2 \<noteq> [] \<longrightarrow> _\<close> by (auto simp: kept_def intro!: exI [of _ "d2 @ d1"])
qed

lemma append_lines_kept:
  assumes "files \<noteq> []" "length files \<le> max_count"
  shows "kept max_size max_count files ls (snd (foldl (append_line max_size max_count) (sz, files) ls))"
proof (induction ls rule: rev_induct)
  case Nil
  then show ?case using assms by (auto simp: kept_def lines_text_def intro!: exI [of _ "[]"])
next
  case (snoc l ls)
  obtain size' files' where r: "foldl (append_line max_size max_count) (sz, files) ls = (size', files')" by fastforce
  then have k: "kept max_size max_count files ls files'" using snoc by simp
  then have "files' \<noteq> []" "length files' \<le> max_count" by (auto simp: kept_def)
  from kept_trans [OF k append_line_kept [OF this]] show ?case by (simp add: r)
qed

text \<open>
  Logging any sequence of messages never creates more than \<open>max_file_count\<close> files: the sink keeps writing to \<open>app.log\<close>, and
  the files stay numbered from 0 without gaps.  They hold the lines of the messages at or above the level.
\<close>

theorem FileSink_file_count:
  assumes "\<And>i j. env_rename env i j" "env_open env 0" "sink_ok k fs" "log_all env lvl ms (k, fs) = (k', fs')"
  shows "sink_ok k' fs' \<and> fcard (fmdom fs') \<le> fk_max_file_count k
    \<and> kept (fk_max_file_size k) (fk_max_file_count k) (log_files fs)
        (map (FileSink_line (env_stamp env)) (filter (\<lambda>m. lvl \<le> msg_lvl m) ms)) (log_files fs')"
proof -
  note r = log_all_spec [OF assms]
  have "log_files fs \<noteq> []" "length (log_files fs) \<le> fk_max_file_count k"
    using sink_ok_fcard [OF assms(3)] by (auto simp: length_log_files simp flip: length_greater_0_conv)
  from append_lines_kept [OF this, of "fk_max_file_size k" _ "fst (sink_files k fs)"]
  have "kept (fk_max_file_size k) (fk_max_file_count k) (log_files fs)
      (map (FileSink_line (env_stamp env)) (filter (\<lambda>m. lvl \<le> msg_lvl m) ms)) (snd (sink_files k' fs'))"
    using r by (simp add: sink_files_def)
  then show ?thesis using r sink_ok_fcard [of k' fs'] by (simp add: sink_files_def)
qed

theorem FileSink_file_count_witness:
  "\<exists>k' fs'. log_all env_all Info [\<lparr>msg_lvl = Warn, msg_time = 5, msg_thread = 1, msg_module = None, msg_msg = ''hello''\<rparr>]
      (sink2, fmap_of_list [(0, ''a'')]) = (k', fs') \<and> sink_ok k' fs' \<and> fcard (fmdom fs') \<le> 2"
proof -
  let ?ms = "[\<lparr>msg_lvl = Warn, msg_time = 5, msg_thread = 1, msg_module = None, msg_msg = ''hello''\<rparr>] :: Message list"
  let ?fs = "fmap_of_list [(0, ''a'')] :: logdir"
  have "sink_ok sink2 ?fs" by (auto simp: sink_ok_def sink2_def fset_of_list.rep_eq intro!: exI [of _ 1])
  moreover obtain k' fs' where "log_all env_all Info ?ms (sink2, ?fs) = (k', fs')" by fastforce
  ultimately show ?thesis using FileSink_file_count [of env_all sink2 ?fs Info ?ms k' fs'] by (simp add: env_all_def sink2_def)
qed

text \<open>
  Rotation loses a file when the numbers have gaps: with \<open>app.3.log\<close> and \<open>app.7.log\<close> next to \<open>app.log\<close>, file 7 is renamed
  to 3 before file 3 has been moved away, and its contents are gone although the maximal number of files is not reached.
\<close>

theorem FileSink_rotation_gap_loses_file:
  "\<exists>k' fs'. FileSink_RoutingLogs env_all (sink2\<lparr>fk_max_file_count := 10\<rparr>) (fmupd 0 ''a'' (fmupd 3 ''b'' (fmupd 7 ''c'' fmempty))) = (True, k', fs')
     \<and> ''b'' \<notin> fset (fmran fs')"
proof -
  let ?fs = "fmupd 0 ''a'' (fmupd 3 ''b'' (fmupd 7 ''c'' fmempty)) :: logdir"
  let ?k = "sink2\<lparr>fk_max_file_count := 10\<rparr>"
  have "sorted_list_of_fset (fmdom ?fs) = [0, 3, 7]" by (simp add: sorted_list_of_fset.rep_eq)
  then have logs: "FileSink_ListLogs ?fs = [3, 7]" by (simp add: FileSink_ListLogs_def)
  obtain fs1 where r: "rename_loop (\<lambda>_ _. True) [7, 3, 0] 3 ?fs = (True, fs1)" and l: "\<forall>x. fmlookup fs1 x = (if x = 1 then Some ''a'' else if x = 2 then Some ''c'' else None)"
    by (simp add: fs_rename_def)
  have "FileSink_RoutingLogs env_all ?k ?fs = (True, ?k\<lparr>fk_file := Some (LogFile_new 0\<lparr>lf_open := True, lf_cur_size := 0\<rparr>)\<rparr>, fmupd 0 [] fs1)"
  proof -
    have "rename_loop (env_rename env_all) (rev (0 # [3, 7])) (length (0 # [3 :: nat, 7])) ?fs = (True, fs1)"
      using r by (simp add: env_all_def numeral_3_eq_3 del: rename_loop.simps)
    then show ?thesis
      unfolding FileSink_RoutingLogs_def logs Let_def by (simp add: sink2_def env_all_def Open_truncates LogFile_new_def del: rename_loop.simps)
  qed
  moreover have "''b'' \<notin> fset (fmran (fmupd 0 [] fs1))" by (auto simp: fmlookup_ran_iff l split: if_splits)
  ultimately show ?thesis by blast
qed

end
