(* ===== verification/Logger.thy ===== *)
theory Logger
  imports SyncQueue LogSink
begin

text \<open>
  The logger, \<open>src/src/logger/logger.cpp\<close>: messages go through a \<open>SyncQueue\<close> to a thread that hands each of them to every
  sink.  The logger is a client of the queue interface \<open>fifo_queue\<close> and of the sinks of \<open>LogSink\<close>.
\<close>

datatype Sink = FileS FileSink | ConsoleS ConsoleSink

record log_world =
  lw_fs :: logdir
  lw_console :: "console_op list"

text \<open>The virtual functions of a sink.\<close>

definition Sink_Log :: "sink_env \<Rightarrow> LogLevel \<Rightarrow> Message \<Rightarrow> Sink \<Rightarrow> log_world \<Rightarrow> Sink \<times> log_world" where
  "Sink_Log env lvl msg s w =
     (case s of
        FileS k \<Rightarrow> (case FileSink_Log env lvl msg k (lw_fs w) of (r, k', fs) \<Rightarrow> (FileS k', w\<lparr>lw_fs := fs\<rparr>))
      | ConsoleS k \<Rightarrow> (case ConsoleSink_Log env lvl msg k (lw_console w) of (r, out) \<Rightarrow> (s, w\<lparr>lw_console := out\<rparr>)))"

definition Sink_Init :: "sink_env \<Rightarrow> bool \<Rightarrow> bool \<Rightarrow> Sink \<Rightarrow> log_world \<Rightarrow> bool \<times> Sink \<times> log_world" where
  "Sink_Init env dir_exists dir_created s w =
     (case s of
        FileS k \<Rightarrow> (case FileSink_Init env dir_exists dir_created k (lw_fs w) of (r, k', fs) \<Rightarrow> (r, FileS k', w\<lparr>lw_fs := fs\<rparr>))
      | ConsoleS k \<Rightarrow> (True, s, w))"

definition Sink_Uninit :: "Sink \<Rightarrow> Sink" where
  "Sink_Uninit s = (case s of FileS k \<Rightarrow> FileS (FileSink_Uninit k) | ConsoleS k \<Rightarrow> s)"

fun init_sinks :: "sink_env \<Rightarrow> bool \<Rightarrow> bool \<Rightarrow> Sink list \<Rightarrow> log_world \<Rightarrow> bool \<times> Sink list \<times> log_world" where
  "init_sinks env de dc [] w = (True, [], w)"
| "init_sinks env de dc (s # ss) w =
     (case Sink_Init env de dc s w of
        (r, s', w1) \<Rightarrow> (case init_sinks env de dc ss w1 of (rs, ss', w2) \<Rightarrow> (r \<and> rs, s' # ss', w2)))"

fun log_sinks :: "sink_env \<Rightarrow> LogLevel \<Rightarrow> Message \<Rightarrow> Sink list \<Rightarrow> log_world \<Rightarrow> Sink list \<times> log_world" where
  "log_sinks env lvl msg [] w = ([], w)"
| "log_sinks env lvl msg (s # ss) w =
     (case Sink_Log env lvl msg s w of
        (s', w1) \<Rightarrow> (case log_sinks env lvl msg ss w1 of (ss', w2) \<Rightarrow> (s' # ss', w2)))"

subsection \<open>The logger\<close>

record Logger =
  lg_queue :: "Message SyncQueue"
  lg_sinks :: "Sink list"
  lg_lvl :: LogLevel
  lg_thread :: bool
  lg_stop_requested :: bool
  lg_world :: log_world

definition Logger_Init :: "sink_env \<Rightarrow> bool \<Rightarrow> bool \<Rightarrow> LogLevel \<Rightarrow> Sink list \<Rightarrow> Logger \<Rightarrow> bool \<times> Logger" where
  "Logger_Init env de dc lvl sinks g =
     (if sinks = [] then (False, g)
      else case init_sinks env de dc sinks (lg_world g) of
             (ok, ss, w) \<Rightarrow>
               let g1 = g\<lparr>lg_sinks := ss, lg_lvl := lvl, lg_world := w\<rparr>
               in if \<not> ok then (False, g1) else (True, g1\<lparr>lg_thread := True, lg_stop_requested := False\<rparr>))"

definition Logger_LogIt :: "Logger \<Rightarrow> Message \<Rightarrow> Logger" where
  "Logger_LogIt g msg = g\<lparr>lg_queue := SyncQueue_Push (lg_queue g) msg\<rparr>"

text \<open>The loop of the thread, at most \<open>n\<close> rounds; it ends when it is stopped or has to wait.\<close>

fun logger_thread :: "sink_env \<Rightarrow> nat \<Rightarrow> Logger \<Rightarrow> Logger" where
  "logger_thread env 0 g = g"
| "logger_thread env (Suc n) g =
     (if lg_stop_requested g then g
      else case SyncQueue_Pop False (lg_queue g) of
             None \<Rightarrow> g
           | Some (Inl e) \<Rightarrow> g
           | Some (Inr (None, q)) \<Rightarrow> logger_thread env n (g\<lparr>lg_queue := q\<rparr>)
           | Some (Inr (Some msg, q)) \<Rightarrow>
               (case log_sinks env (lg_lvl g) msg (lg_sinks g) (lg_world g) of
                  (ss, w) \<Rightarrow> logger_thread env n (g\<lparr>lg_queue := q, lg_sinks := ss, lg_world := w\<rparr>)))"

text \<open>
  \<open>Uninit\<close>: the queue is stopped first, then the thread is asked to stop and joined; joining a thread that was never
  started throws.  \<open>n\<close> is the number of rounds the thread still makes between the two.
\<close>

definition Logger_Uninit :: "sink_env \<Rightarrow> nat \<Rightarrow> Logger \<Rightarrow> Logger result" where
  "Logger_Uninit env n g =
     (if \<not> lg_thread g then Inl Bad_state
      else let g1 = logger_thread env n (g\<lparr>lg_queue := SyncQueue_Stop (lg_queue g)\<rparr>)
           in Inr (g1\<lparr>lg_stop_requested := True, lg_thread := False, lg_sinks := map Sink_Uninit (lg_sinks g1)\<rparr>))"

subsection \<open>Messages reach the sinks in order\<close>

abbreviation log_step :: "sink_env \<Rightarrow> LogLevel \<Rightarrow> Sink list \<times> log_world \<Rightarrow> Message \<Rightarrow> Sink list \<times> log_world" where
  "log_step env lvl s msg \<equiv> log_sinks env lvl msg (fst s) (snd s)"

lemma logger_thread_consume:
  assumes "\<not> lg_stop_requested g"
    and "sq.consume (log_step env (lg_lvl g)) n (lg_sinks g, lg_world g) (lg_queue g) = ((ss, w), q)"
  shows "logger_thread env n g = g\<lparr>lg_queue := q, lg_sinks := ss, lg_world := w\<rparr>"
  using assms
proof (induction n arbitrary: g)
  case (Suc n)
  from refl [of "SyncQueue_Pop False (lg_queue g)"] show ?case
  proof (cases rule: SyncQueue_PopE)
    case stopped
    then show ?thesis using Suc.prems Suc.IH [of g] by simp
  next
    case (item v vs)
    obtain ss1 w1 where l: "log_sinks env (lg_lvl g) v (lg_sinks g) (lg_world g) = (ss1, w1)" by fastforce
    let ?g = "g\<lparr>lg_queue := lg_queue g\<lparr>sq_queue := vs\<rparr>, lg_sinks := ss1, lg_world := w1\<rparr>"
    from item l show ?thesis using Suc.prems Suc.IH [of ?g] by simp
  qed (use Suc.prems in simp_all)
qed simp

lemma LogIt_many: "lg_queue (foldl Logger_LogIt g ms) = foldl SyncQueue_Push (lg_queue g) ms"
  and LogIt_rest: "lg_sinks (foldl Logger_LogIt g ms) = lg_sinks g" "lg_world (foldl Logger_LogIt g ms) = lg_world g"
    "lg_lvl (foldl Logger_LogIt g ms) = lg_lvl g" "lg_stop_requested (foldl Logger_LogIt g ms) = lg_stop_requested g"
  by (induction ms arbitrary: g) (simp_all add: Logger_LogIt_def)

lemma logger_thread_all:
  assumes "\<not> lg_stop_requested g" "\<not> sq_stop (lg_queue g)" "sq_queue (lg_queue g) = []" "length ms \<le> n"
  shows "(lg_sinks (logger_thread env n (foldl Logger_LogIt g ms)), lg_world (logger_thread env n (foldl Logger_LogIt g ms)))
    = foldl (log_step env (lg_lvl g)) (lg_sinks g, lg_world g) ms"
proof -
  let ?g = "foldl Logger_LogIt g ms"
  have "\<not> sq_stop (lg_queue ?g)" "sq_queue (lg_queue ?g) = ms"
    using assms(2,3) by (simp_all add: LogIt_many sq.stopped_pushes sq.items_pushes)
  then obtain q where q: "sq.consume (log_step env (lg_lvl g)) n (lg_sinks ?g, lg_world ?g) (lg_queue ?g)
      = (foldl (log_step env (lg_lvl g)) (lg_sinks g, lg_world g) ms, q)"
    using sq.consume_all [of "lg_queue ?g" n "log_step env (lg_lvl g)" "(lg_sinks g, lg_world g)"] assms(4)
    by (auto simp: LogIt_rest)
  obtain ss w where sw: "foldl (log_step env (lg_lvl g)) (lg_sinks g, lg_world g) ms = (ss, w)" by fastforce
  show ?thesis using logger_thread_consume [of ?g env n ss w q] q assms(1) sw by (simp add: LogIt_rest)
qed

lemma logger_thread_empties:
  assumes "\<not> lg_stop_requested g" "\<not> sq_stop (lg_queue g)" "sq_queue (lg_queue g) = []" "length ms \<le> n"
  shows "sq_queue (lg_queue (logger_thread env n (foldl Logger_LogIt g ms))) = []"
proof -
  let ?g = "foldl Logger_LogIt g ms" and ?f = "log_step env (lg_lvl g)"
  have "\<not> sq_stop (lg_queue ?g)" "length (sq_queue (lg_queue ?g)) \<le> n"
    using assms(2-4) by (simp_all add: LogIt_many sq.stopped_pushes sq.items_pushes)
  from sq.consume_all [OF this, of ?f "(lg_sinks ?g, lg_world ?g)"]
  obtain s q where "sq.consume ?f n (lg_sinks ?g, lg_world ?g) (lg_queue ?g) = (s, q)" "sq_queue q = []"
    by blast
  then show ?thesis using logger_thread_consume [of ?g env n "fst s" "snd s" q] assms(1) by (simp add: LogIt_rest)
qed

text \<open>What stands on the console, without the colours, and how many of the sinks write to it.\<close>

fun console_text :: "console_op list \<Rightarrow> string" where
  "console_text [] = []"
| "console_text (Put t # ops) = t @ console_text ops"
| "console_text (SetColor c # ops) = console_text ops"

fun consoles :: "Sink list \<Rightarrow> nat" where
  "consoles [] = 0"
| "consoles (ConsoleS k # ss) = Suc (consoles ss)"
| "consoles (FileS k # ss) = consoles ss"

lemma console_text_append [simp]: "console_text (ops @ ops') = console_text ops @ console_text ops'"
  by (induction ops rule: console_text.induct) simp_all

definition console_line :: "sink_env \<Rightarrow> Message \<Rightarrow> string" where
  "console_line env m =
     env_stamp env (msg_time m) @ ''.'' @ pad3 (msg_time m mod 1000) @ '' ['' @ dec_text (msg_thread m) @ ''] ['' @ console_level_str (msg_lvl m) @ ''] ''
     @ (case msg_module m of None \<Rightarrow> [] | Some n \<Rightarrow> ''['' @ n @ '']'') @ ''> '' @ msg_msg m @ [CHR 0x0A]"

lemma ConsoleSink_Log_text:
  "console_text (snd (ConsoleSink_Log env lvl m k out)) = console_text out @ (if lvl \<le> msg_lvl m then console_line env m else [])"
  by (simp add: ConsoleSink_Log_def console_line_def less_eq_LogLevel_def split: option.splits)

lemma log_sinks_console:
  "console_text (lw_console (snd (log_sinks env lvl m ss w)))
     = console_text (lw_console w) @ (if lvl \<le> msg_lvl m then concat (replicate (consoles ss) (console_line env m)) else [])
   \<and> consoles (fst (log_sinks env lvl m ss w)) = consoles ss"
proof (induction ss arbitrary: w)
  case (Cons s ss)
  show ?case
  proof (cases s)
    case (FileS k)
    then show ?thesis using Cons by (simp add: Sink_Log_def split_beta)
  next
    case (ConsoleS k)
    obtain r out where c: "ConsoleSink_Log env lvl m k (lw_console w) = (r, out)" by fastforce
    have "console_text out = console_text (lw_console w) @ (if lvl \<le> msg_lvl m then console_line env m else [])"
      using ConsoleSink_Log_text [of env lvl m k "lw_console w"] c by simp
    then show ?thesis using Cons [of "w\<lparr>lw_console := out\<rparr>"] ConsoleS c by (simp add: Sink_Log_def split_beta)
  qed
qed simp

lemma log_steps_console:
  "console_text (lw_console (snd (foldl (log_step env lvl) (ss, w) ms)))
     = console_text (lw_console w)
       @ concat (map (\<lambda>m. concat (replicate (consoles ss) (console_line env m))) (filter (\<lambda>m. lvl \<le> msg_lvl m) ms))"
proof (induction ms arbitrary: ss w)
  case (Cons m ms)
  obtain ss1 w1 where "log_sinks env lvl m ss w = (ss1, w1)" by fastforce
  then show ?case using Cons [of ss1 w1] log_sinks_console [of env lvl m ss w] by simp
qed simp

text \<open>The file sink among console sinks.\<close>

lemma log_sinks_append:
  "log_sinks env lvl m (as @ bs) w =
     (case log_sinks env lvl m as w of (as', w1) \<Rightarrow> (case log_sinks env lvl m bs w1 of (bs', w2) \<Rightarrow> (as' @ bs', w2)))"
  by (induction as arbitrary: w) (auto split: prod.splits)

lemma log_sinks_only_consoles:
  assumes "\<forall>s \<in> set ss. \<exists>c. s = ConsoleS c"
  obtains w' where "log_sinks env lvl m ss w = (ss, w')" "lw_fs w' = lw_fs w"
proof -
  have "fst (log_sinks env lvl m ss w) = ss \<and> lw_fs (snd (log_sinks env lvl m ss w)) = lw_fs w"
    using assms by (induction ss arbitrary: w) (auto simp: Sink_Log_def split_beta)
  then show thesis using that by (metis prod.collapse)
qed

lemma log_steps_file:
  assumes "\<forall>s \<in> set (as @ bs). \<exists>c. s = ConsoleS c" "log_all env lvl ms (k, lw_fs w) = (k', fs')"
  shows "fst (foldl (log_step env lvl) (as @ FileS k # bs, w) ms) = as @ FileS k' # bs
    \<and> lw_fs (snd (foldl (log_step env lvl) (as @ FileS k # bs, w) ms)) = fs'"
  using assms(2)
proof (induction ms arbitrary: k w)
  case (Cons m ms)
  have c: "\<forall>s \<in> set as. \<exists>c. s = ConsoleS c" "\<forall>s \<in> set bs. \<exists>c. s = ConsoleS c" using assms(1) by auto
  obtain w1 where w1: "log_sinks env lvl m as w = (as, w1)" "lw_fs w1 = lw_fs w" using log_sinks_only_consoles [OF c(1)] .
  obtain r k1 fs1 where k1: "FileSink_Log env lvl m k (lw_fs w) = (r, k1, fs1)" by (metis prod_cases3)
  obtain w2 where w2: "log_sinks env lvl m bs (w1\<lparr>lw_fs := fs1\<rparr>) = (bs, w2)" "lw_fs w2 = fs1"
    using log_sinks_only_consoles [OF c(2), of env lvl m "w1\<lparr>lw_fs := fs1\<rparr>"] by auto
  have "log_sinks env lvl m (as @ FileS k # bs) w = (as @ FileS k1 # bs, w2)"
    by (simp add: log_sinks_append w1 Sink_Log_def k1 w2)
  then show ?case using Cons.IH [of k1 w2] Cons.prems k1 w2(2) by simp
qed simp

text \<open>
  C21. The logger prints every message at or above its level once on every console sink, in the order of the calls of
  \<open>LogIt\<close>, whatever other sinks it has: after enough rounds of its thread the console has grown by exactly one line for each of these
  messages and each console sink, with the time, the thread, the level, the module and the text of the message, and the queue
  is empty.
\<close>

theorem Logger_logs_in_order:
  assumes "\<not> lg_stop_requested g" "\<not> sq_stop (lg_queue g)" "sq_queue (lg_queue g) = []" "length ms \<le> n"
  shows "console_text (lw_console (lg_world (logger_thread env n (foldl Logger_LogIt g ms))))
      = console_text (lw_console (lg_world g))
        @ concat (map (\<lambda>m. concat (replicate (consoles (lg_sinks g))
            (env_stamp env (msg_time m) @ ''.'' @ pad3 (msg_time m mod 1000) @ '' ['' @ dec_text (msg_thread m)
             @ ''] ['' @ console_level_str (msg_lvl m) @ ''] '' @ (case msg_module m of None \<Rightarrow> [] | Some t \<Rightarrow> ''['' @ t @ '']'')
             @ ''> '' @ msg_msg m @ [CHR 0x0A]))) (filter (\<lambda>m. lg_lvl g \<le> msg_lvl m) ms))
    \<and> sq_queue (lg_queue (logger_thread env n (foldl Logger_LogIt g ms))) = []"
  using log_steps_console [of env "lg_lvl g" "lg_sinks g" "lg_world g" ms] logger_thread_all [OF assms, of env]
    logger_thread_empties [OF assms, of env]
  by (simp add: console_line_def) (metis snd_conv)

text \<open>A console logger, for the examples.\<close>

definition logger_con :: Logger where
  "logger_con = \<lparr>lg_queue = SyncQueue_new, lg_sinks = [ConsoleS \<lparr>ck_color = False\<rparr>], lg_lvl = Info, lg_thread = True,
     lg_stop_requested = False, lg_world = \<lparr>lw_fs = fmempty, lw_console = []\<rparr>\<rparr>"

definition msg_of :: "string \<Rightarrow> Message" where
  "msg_of t = \<lparr>msg_lvl = Warn, msg_time = 1, msg_thread = 2, msg_module = None, msg_msg = t\<rparr>"

theorem Logger_logs_in_order_witness:
  "console_text (lw_console (lg_world (logger_thread env_all 2
      (foldl Logger_LogIt (logger_con\<lparr>lg_sinks := [ConsoleS \<lparr>ck_color = False\<rparr>, FileS sink2, ConsoleS \<lparr>ck_color = True\<rparr>]\<rparr>)
        [msg_of ''a'', (msg_of ''b'')\<lparr>msg_lvl := Debug\<rparr>]))))
   = ''01-02 03:04:05.001 [2] [WARN] > a'' @ [CHR 0x0A] @ ''01-02 03:04:05.001 [2] [WARN] > a'' @ [CHR 0x0A]"
proof -
  have d: "dec_text 2 = ''2''" "pad3 (Suc 0) = ''001''"
    by code_simp+
  show ?thesis
    by (subst Logger_logs_in_order [THEN conjunct1]) (simp_all add: d logger_con_def msg_of_def env_all_def less_eq_LogLevel_def)
qed

text \<open>
  Messages that are still queued when \<open>Uninit\<close> is called are lost: it stops the queue before anything else, and \<open>Pop\<close> on a
  stopped queue returns nothing even when there are elements, so no sink output changes any more.
\<close>

theorem Logger_Uninit_drops_pending:
  assumes "lg_thread g" "\<not> lg_stop_requested g"
  shows "\<exists>g'. Logger_Uninit env n (foldl Logger_LogIt g ms) = Inr g' \<and> lg_world g' = lg_world g"
proof -
  let ?g = "foldl Logger_LogIt g ms"
  let ?h = "?g\<lparr>lg_queue := SyncQueue_Stop (lg_queue ?g)\<rparr>"
  have t: "lg_thread ?g" using assms(1) by (induction ms arbitrary: g) (simp_all add: Logger_LogIt_def)
  have "sq_stop (lg_queue ?h)" by simp
  from sq.consume_stopped [OF this, of "log_step env (lg_lvl ?h)" n "(lg_sinks ?h, lg_world ?h)"]
  have "logger_thread env n ?h = ?h" using logger_thread_consume [of ?h env n] assms(2) by (simp add: LogIt_rest)
  then show ?thesis using t by (simp add: Logger_Uninit_def LogIt_rest)
qed

theorem Logger_Uninit_drops_pending_witness:
  "\<exists>g'. Logger_Uninit env_all 10 (foldl Logger_LogIt logger_con [msg_of ''a'']) = Inr g' \<and> lw_console (lg_world g') = []"
  using Logger_Uninit_drops_pending [of logger_con env_all 10 "[msg_of ''a'']"] by (auto simp: logger_con_def)

end
