(* ===== verification/Str.thy ===== *)
theory Str
  imports Cpp
begin

text \<open>
  The string class, \<open>src/src/string/str.cpp\<close>.  A string is the list of its bytes.  The functions of \<open><cctype>\<close> are those
  of the "C" locale; they are called with a (signed) \<open>char\<close>, so that a byte from \<open>0x80\<close> on is a negative argument,
  which is undefined except for \<open>EOF\<close> (the byte \<open>0xFF\<close>).  \<open>replace\<close> and \<open>split\<close> contain loops that need not end; they are
  partial functions whose value \<open>None\<close> means that the loop runs forever.
\<close>

definition char_defined :: "u8 \<Rightarrow> bool" where
  "char_defined c \<longleftrightarrow> c < 0x80 \<or> c = 0xFF"

definition c_tolower :: "u8 \<Rightarrow> u8" where
  "c_tolower c = (if 0x41 \<le> c \<and> c \<le> 0x5A then c + 0x20 else c)"

definition c_toupper :: "u8 \<Rightarrow> u8" where
  "c_toupper c = (if 0x61 \<le> c \<and> c \<le> 0x7A then c - 0x20 else c)"

definition c_isspace :: "u8 \<Rightarrow> bool" where
  "c_isspace c \<longleftrightarrow> c = 0x20 \<or> 0x09 \<le> c \<and> c \<le> 0x0D"

fun transform :: "(u8 \<Rightarrow> u8) \<Rightarrow> u8 list \<Rightarrow> u8 list result" where
  "transform f [] = Inr []"
| "transform f (c # cs) =
     (if char_defined c
      then case transform f cs of Inl e \<Rightarrow> Inl e | Inr r \<Rightarrow> Inr (f c # r)
      else Inl Undefined)"

definition String_to_lower :: "u8 list \<Rightarrow> u8 list result" where
  "String_to_lower s = transform c_tolower s"

definition String_to_upper :: "u8 list \<Rightarrow> u8 list result" where
  "String_to_upper s = transform c_toupper s"

subsection \<open>Trimming\<close>

text \<open>
  The scan from the front converts to \<open>unsigned char\<close>; the scan from the back does not.  \<open>trim_end\<close> works on the
  reversed string and returns the distance of \<open>end_it\<close> from the beginning.
\<close>

fun trim_start :: "u8 list \<Rightarrow> nat" where
  "trim_start [] = 0"
| "trim_start (c # cs) = (if c_isspace c then Suc (trim_start cs) else 0)"

fun trim_end :: "u8 list \<Rightarrow> nat result" where
  "trim_end [] = Inr 0"
| "trim_end (c # cs) =
     (if char_defined c then (if c_isspace c then trim_end cs else Inr (Suc (length cs))) else Inl Undefined)"

definition String_trim :: "u8 list \<Rightarrow> u8 list result" where
  "String_trim s =
     (case trim_end (rev s) of
        Inl e \<Rightarrow> Inl e
      | Inr j \<Rightarrow> (let i = trim_start s in Inr (if i \<ge> j then [] else take (j - i) (drop i s))))"

subsection \<open>Replacing and splitting\<close>

partial_function (option) replace_loop :: "u8 list \<Rightarrow> u8 list \<Rightarrow> u8 list \<Rightarrow> nat \<Rightarrow> u8 list option" where
  [code]: "replace_loop from to s start_pos =
     (case str_find s from start_pos of
        None \<Rightarrow> Some s
      | Some i \<Rightarrow> replace_loop from to (take i s @ to @ drop (i + length from) s) (i + length to))"

definition String_replace :: "u8 list \<Rightarrow> u8 list \<Rightarrow> u8 list \<Rightarrow> u8 list option" where
  "String_replace s from to = replace_loop from to s 0"

partial_function (option) split_loop :: "u8 list \<Rightarrow> bool \<Rightarrow> u8 list \<Rightarrow> nat \<Rightarrow> u8 list list \<Rightarrow> u8 list list option" where
  [code]: "split_loop delimiter keep_empty s prev tokens =
     (let pos = (case str_find s delimiter prev of None \<Rightarrow> length s | Some i \<Rightarrow> i);
          token = take (pos - prev) (drop prev s);
          tokens' = (if token \<noteq> [] \<or> keep_empty then tokens @ [token] else tokens);
          prev' = pos + length delimiter
      in if pos < length s \<and> prev' < length s
         then split_loop delimiter keep_empty s prev' tokens' else Some tokens')"

definition String_split :: "u8 list \<Rightarrow> u8 list \<Rightarrow> bool \<Rightarrow> u8 list list option" where
  "String_split s delimiter keep_empty = (if s = [] then Some [] else split_loop delimiter keep_empty s 0 [])"

subsection \<open>Wide strings\<close>

text \<open>
  The conversions of the operating system are the parameters \<open>conv\<close>.  Called with a buffer of \<open>cap\<close> units they write the
  converted text when it fits and fail otherwise, leaving unspecified bytes \<open>junk\<close> in the buffer.
\<close>

definition os_convert :: "('a list \<Rightarrow> 'b list) \<Rightarrow> 'b list \<Rightarrow> 'a list \<Rightarrow> nat \<Rightarrow> 'b list \<Rightarrow> 'b list" where
  "os_convert conv junk text cap buffer =
     (if length (conv text) \<le> cap then conv text @ drop (length (conv text)) buffer
      else take (length buffer) (junk @ drop (length junk) buffer))"

definition String_to_wstring :: "(u8 list \<Rightarrow> u16 list) \<Rightarrow> u16 list \<Rightarrow> u8 list \<Rightarrow> u16 list" where
  "String_to_wstring conv junk s =
     (if s = [] then []
      else let size_need = length (conv s) in
           if size_need = 0 then [] else os_convert conv junk s size_need (replicate size_need 0))"

definition String_from_wstring :: "(u16 list \<Rightarrow> u8 list) \<Rightarrow> u8 list \<Rightarrow> u16 list \<Rightarrow> u8 list" where
  "String_from_wstring conv junk wstr =
     (if wstr = [] then []
      else let size_need = length (conv wstr) in
           if size_need = 0 then [] else os_convert conv junk wstr (length wstr) (replicate size_need 0))"

subsection \<open>The pieces of a string\<close>

text \<open>The reference for \<open>replace\<close> and \<open>split\<close>: cutting a string at the leftmost occurrences of a separator.\<close>

lemma str_find_shift: "str_find (a @ t) d (length a + i) = map_option ((+) (length a)) (str_find t d i)"
proof (induction t d i rule: str_find.induct)
  case (1 t d i)
  have o: "occurs_at (a @ t) d (length a + i) \<longleftrightarrow> occurs_at t d i" by (auto simp: occurs_at_def)
  show ?case
  proof (cases "length t < i + length d \<or> occurs_at t d i")
    case True
    then show ?thesis by (auto simp: str_find.simps [of "a @ t" d "length a + i"] str_find.simps [of t d i] o)
  next
    case False
    then have "str_find (a @ t) d (length a + Suc i) = map_option ((+) (length a)) (str_find t d (Suc i))"
      using 1 by blast
    then show ?thesis using False by (simp add: str_find.simps [of "a @ t" d "length a + i"] str_find.simps [of t d i] o)
  qed
qed

lemma str_find_drop: "p \<le> length s \<Longrightarrow> str_find s d p = map_option ((+) p) (str_find (drop p s) d 0)"
  using str_find_shift [of "take p s" "drop p s" d 0] by simp

lemma str_find_bound: "str_find s d i = Some j \<Longrightarrow> j + length d \<le> length s"
  using str_find_Some by (fastforce simp: occurs_at_def)

lemma str_find_shorter: "d \<noteq> [] \<Longrightarrow> str_find s d i = Some j \<Longrightarrow> length s - (j + length d) < length s"
  using str_find_bound [of s d i j] by (cases d) simp_all

function pieces :: "'a list \<Rightarrow> 'a list \<Rightarrow> 'a list list" where
  "pieces d s =
     (if d = [] then [s]
      else case str_find s d 0 of
             None \<Rightarrow> [s]
           | Some i \<Rightarrow> take i s # pieces d (drop (i + length d) s))"
  by pat_completeness auto
termination by (relation "measure (length \<circ> snd)") (auto dest: str_find_shorter)

declare pieces.simps [simp del]

lemma pieces_None: "d \<noteq> [] \<Longrightarrow> str_find s d 0 = None \<Longrightarrow> pieces d s = [s]"
  by (simp add: pieces.simps)

lemma pieces_Some: "d \<noteq> [] \<Longrightarrow> str_find s d 0 = Some i \<Longrightarrow> pieces d s = take i s # pieces d (drop (i + length d) s)"
  by (simp add: pieces.simps)

lemma pieces_not_Nil [simp]: "pieces d s \<noteq> []"
  by (subst pieces.simps) (auto split: option.splits)

fun join :: "'a list \<Rightarrow> 'a list list \<Rightarrow> 'a list" where
  "join d [] = []"
| "join d [p] = p"
| "join d (p # q # ps) = p @ d @ join d (q # ps)"

lemma join_Cons: "ps \<noteq> [] \<Longrightarrow> join d (p # ps) = p @ d @ join d ps"
  by (cases ps) simp_all

lemma join_snoc: "ps \<noteq> [] \<Longrightarrow> join d (ps @ [p]) = join d ps @ d @ p"
  by (induction d ps rule: join.induct) simp_all

lemma join_pieces: "join d (pieces d s) = s"
proof (induction d s rule: pieces.induct)
  case (1 d s)
  show ?case
  proof (cases "d = [] \<or> str_find s d 0 = None")
    case True
    then show ?thesis by (auto simp: pieces.simps [of d s])
  next
    case False
    then obtain i where i: "str_find s d 0 = Some i" by auto
    have "s = take i s @ d @ drop (i + length d) s" using str_find_Some [OF i] occurs_at_split by blast
    then show ?thesis using False i 1 by (simp add: pieces_Some join_Cons)
  qed
qed

lemma occurs_at_take: "occurs_at (take i s) d k \<Longrightarrow> occurs_at s d k \<and> k + length d \<le> i"
  by (auto simp: occurs_at_def drop_take)

lemma pieces_free: "d \<noteq> [] \<Longrightarrow> p \<in> set (pieces d s) \<Longrightarrow> \<not> occurs_at p d k"
proof (induction d s rule: pieces.induct)
  case (1 d s)
  show ?case
  proof (cases "str_find s d 0")
    case None
    then show ?thesis using 1(2,3) str_find_None [OF None, of k] by (simp add: pieces_None)
  next
    case (Some i)
    then have "p = take i s \<or> p \<in> set (pieces d (drop (i + length d) s))" using 1(2,3) by (simp add: pieces_Some)
    then show ?thesis
    proof
      assume "p = take i s"
      then show ?thesis using occurs_at_take [of i s d k] str_find_Some [OF Some] 1(2) by (cases d) auto
    next
      assume "p \<in> set (pieces d (drop (i + length d) s))"
      then show ?thesis using 1(1) Some 1(2) by blast
    qed
  qed
qed

subsection \<open>Replacing\<close>

lemma replace_loop_pieces:
  assumes "from \<noteq> []"
  shows "replace_loop from to (a @ t) (length a) = Some (a @ join to (pieces from t))"
proof (induction "length t" arbitrary: a t rule: less_induct)
  case less
  show ?case
  proof (cases "str_find t from 0")
    case None
    then show ?thesis using str_find_shift [of a t "from" 0] assms
      by (subst replace_loop.simps) (simp add: pieces_None)
  next
    case (Some i)
    let ?t = "drop (i + length from) t" and ?a = "a @ take i t @ to"
    have b: "i + length from \<le> length t" using str_find_bound [OF Some] .
    have "str_find (a @ t) from (length a) = Some (length a + i)"
      using str_find_shift [of a t "from" 0] Some by simp
    then have "replace_loop from to (a @ t) (length a) = replace_loop from to (?a @ ?t) (length ?a)"
      using b by (subst replace_loop.simps) (simp add: ac_simps)
    also have "\<dots> = Some (?a @ join to (pieces from ?t))"
      using b assms by (intro less) (cases "from", simp_all)
    also have "?a @ join to (pieces from ?t) = a @ join to (pieces from t)"
      using assms Some by (simp add: pieces_Some join_Cons)
    finally show ?thesis .
  qed
qed

lemma replace_loop_empty: "start \<le> length s \<Longrightarrow> replace_loop [] to s start = None"
proof (rule ccontr)
  assume le: "start \<le> length s" and "replace_loop [] to s start \<noteq> None"
  then obtain y where y: "replace_loop [] to s start = Some y" by auto
  have "([] :: u8 list) = [] \<longrightarrow> length s < start"
  proof (rule replace_loop.raw_induct [OF _ y, where P = "\<lambda>from to s start y. from = [] \<longrightarrow> length s < start"])
    fix loop and sep repl t :: "u8 list" and pos and y :: "u8 list"
    assume ih: "\<And>sep repl t pos y. loop sep repl t pos = Some y \<Longrightarrow> sep = [] \<longrightarrow> length t < pos"
      and eq: "(case str_find t sep pos of None \<Rightarrow> Some t
        | Some i \<Rightarrow> loop sep repl (take i t @ repl @ drop (i + length sep) t) (i + length repl)) = Some y"
    show "sep = [] \<longrightarrow> length t < pos"
    proof (rule impI, rule ccontr)
      assume e: "sep = []" and n: "\<not> length t < pos"
      then have "loop sep repl (take pos t @ repl @ drop pos t) (pos + length repl) = Some y"
        using eq str_find_empty [of pos t] by simp
      from ih [OF this] e n show False by simp
    qed
  qed
  with le show False by simp
qed

lemma String_replace_eq:
  "String_replace s from to = (if from = [] then None else Some (join to (pieces from s)))"
  using replace_loop_pieces [of "from" to "[]" s] replace_loop_empty [of 0 s to] by (simp add: String_replace_def)

text \<open>
  C23. \<open>String::replace\<close> returns for every non-empty search text, with each leftmost occurrence replaced: the string
  cut at these occurrences is put together again with the replacement between the pieces.  The pieces
  do not contain the search text, so the scan does not stop early; text inserted by the replacement is not
  searched again.  For an empty search text the loop never ends.
\<close>

theorem String_replace_correct:
  assumes "from \<noteq> []"
  shows "String_replace s from to = Some (join to (pieces from s)) \<and> join from (pieces from s) = s
    \<and> (\<forall>p \<in> set (pieces from s). \<forall>k. \<not> occurs_at p from k) \<and> String_replace s [] to = None"
  using assms pieces_free [OF assms] by (simp add: String_replace_eq join_pieces)

theorem String_replace_correct_witness:
  "String_replace [1, 1, 1, 2, 1] [1, 1] [1] = Some [1, 1, 2, 1] \<and> String_replace [1, 1, 1, 2, 1] [] [1] = None"
proof -
  have "pieces [1, 1] [1, 1, 1, 2, 1] = [[], [1, 2, 1 :: u8]]" by code_simp
  then show ?thesis using String_replace_correct [of "[1, 1]" "[1, 1, 1, 2, 1]" "[1]"] by simp
qed

subsection \<open>Splitting\<close>

text \<open>The piece after a final separator is not produced.\<close>

definition drop_final_empty :: "'a list list \<Rightarrow> 'a list list" where
  "drop_final_empty ps = (if last ps = [] then butlast ps else ps)"

lemma drop_final_empty_Cons: "ps \<noteq> [] \<Longrightarrow> drop_final_empty (p # ps) = p # drop_final_empty ps"
  by (simp add: drop_final_empty_def)

lemma split_loop_pieces:
  assumes d: "d \<noteq> []"
  shows "prev < length s \<Longrightarrow> split_loop d keep s prev tokens
    = Some (tokens @ filter (\<lambda>t. t \<noteq> [] \<or> keep) (drop_final_empty (pieces d (drop prev s))))"
proof (induction "length s - prev" arbitrary: prev tokens rule: less_induct)
  case less
  have nd: "drop prev s \<noteq> []" using less.prems by simp
  show ?case
  proof (cases "str_find (drop prev s) d 0")
    case None
    then have f: "str_find s d prev = None" using str_find_drop [of prev s d] less.prems by simp
    have "drop_final_empty (pieces d (drop prev s)) = [drop prev s]"
      using None d nd by (simp add: pieces_None drop_final_empty_def)
    then show ?thesis using f nd by (subst split_loop.simps) simp
  next
    case (Some i)
    then have f: "str_find s d prev = Some (prev + i)" using str_find_drop [of prev s d] less.prems by simp
    have b: "prev + i + length d \<le> length s" using str_find_bound [OF f] .
    have l: "0 < length d" using d by simp
    have lt: "prev + i < length s" using b l by linarith
    let ?p = "prev + i + length d"
    have p: "pieces d (drop prev s) = take i (drop prev s) # pieces d (drop ?p s)"
      using pieces_Some [OF d Some] by (simp add: ac_simps)
    let ?t = "take i (drop prev s)"
    let ?ts = "if ?t \<noteq> [] \<or> keep then tokens @ [?t] else tokens"
    have e: "split_loop d keep s prev tokens = (if ?p < length s then split_loop d keep s ?p ?ts else Some ?ts)"
      using lt by (subst split_loop.simps) (simp only: f Let_def option.case diff_add_inverse simp_thms if_True)
    show ?thesis
    proof (cases "?p < length s")
      case True
      have "split_loop d keep s ?p ?ts
          = Some (?ts @ filter (\<lambda>t. t \<noteq> [] \<or> keep) (drop_final_empty (pieces d (drop ?p s))))"
        using diff_less_mono2 [of prev ?p "length s"] True l less.prems by (intro less.hyps) simp_all
      then show ?thesis using True e p by (simp add: drop_final_empty_Cons)
    next
      case False
      then have "drop ?p s = []" using b by simp
      moreover have "pieces d [] = [[]]" using d by (intro pieces_None) (simp_all add: str_find.simps)
      ultimately show ?thesis using False e p by (simp add: drop_final_empty_def)
    qed
  qed
qed

lemma split_loop_empty: "prev < length s \<Longrightarrow> split_loop [] keep s prev tokens = None"
proof (rule ccontr)
  assume le: "prev < length s" and "split_loop [] keep s prev tokens \<noteq> None"
  then obtain y where y: "split_loop [] keep s prev tokens = Some y" by auto
  have "([] :: u8 list) = [] \<longrightarrow> length s \<le> prev"
  proof (rule split_loop.raw_induct [OF _ y, where P = "\<lambda>d keep s prev tokens y. d = [] \<longrightarrow> length s \<le> prev"])
    fix loop and d t :: "u8 list" and keep pos tokens y
    assume ih: "\<And>d keep t pos tokens y. loop d keep t pos tokens = Some y \<Longrightarrow> d = [] \<longrightarrow> length t \<le> pos"
      and eq: "(let p = case str_find t d pos of None \<Rightarrow> length t | Some i \<Rightarrow> i; token = take (p - pos) (drop pos t);
          tokens' = if token \<noteq> [] \<or> keep then tokens @ [token] else tokens; prev' = p + length d
        in if p < length t \<and> prev' < length t then loop d keep t prev' tokens' else Some tokens') = Some y"
    show "d = [] \<longrightarrow> length t \<le> pos"
    proof (rule impI, rule ccontr)
      assume e: "d = []" and n: "\<not> length t \<le> pos"
      then have "str_find t d pos = Some pos" by (simp add: str_find_empty)
      then have "\<exists>ts. loop d keep t pos ts = Some y" using eq e n by (auto simp: Let_def)
      with ih e n show False by blast
    qed
  qed
  with le show False by simp
qed

text \<open>
  \<open>String::split\<close> returns for every non-empty delimiter, with the pieces of the string between the leftmost
  delimiters, except the empty piece after a final delimiter, and without the empty pieces unless \<open>keep_empty\<close> is set.
  For an empty delimiter and a non-empty string the loop never ends.
\<close>

lemma String_split_eq:
  "String_split s d keep =
     (if s = [] then Some []
      else if d = [] then None
      else Some (filter (\<lambda>t. t \<noteq> [] \<or> keep) (drop_final_empty (pieces d s))))"
  using split_loop_pieces [of d 0 s keep "[]"] split_loop_empty [of 0 s keep "[]"] by (simp add: String_split_def)

text \<open>
  C24. Splitting at a delimiter that is not empty.  With \<open>keep_empty\<close> the tokens are the pieces between the delimiters, except for an
  empty one at the end: no token contains the delimiter, and the tokens joined by it are the string again, up to one delimiter at the
  end.  Without \<open>keep_empty\<close>, the default, they are the same tokens without the empty ones.  For an empty delimiter the
  loop never ends, unless the string is empty.
\<close>

theorem String_split_join:
  assumes "d \<noteq> []"
  shows "\<exists>ts. String_split s d True = Some ts \<and> String_split s d False = Some (filter (\<lambda>t. t \<noteq> []) ts)
    \<and> ts = (if last (pieces d s) = [] then butlast (pieces d s) else pieces d s)
    \<and> (join d ts = s \<or> join d ts @ d = s) \<and> (\<forall>t \<in> set ts. \<forall>k. \<not> occurs_at t d k)
    \<and> (\<forall>keep. String_split s [] keep = (if s = [] then Some [] else None))"
proof -
  let ?ps = "pieces d s"
  have nil: "pieces d [] = [[]]" using assms by (intro pieces_None) (simp_all add: str_find.simps)
  have "String_split s d keep = Some (filter (\<lambda>t. t \<noteq> [] \<or> keep) (drop_final_empty ?ps))" for keep
    using String_split_eq [of s d keep] assms nil by (cases "s = []") (simp_all add: String_split_def drop_final_empty_def)
  moreover have "String_split s [] keep = (if s = [] then Some [] else None)" for keep
    using split_loop_empty [of 0 s keep "[]"] by (simp add: String_split_def)
  moreover have "join d (drop_final_empty ?ps) = s \<or> join d (drop_final_empty ?ps) @ d = s"
  proof (cases "last ?ps = [] \<and> s \<noteq> []")
    case True
    then have l: "?ps = butlast ?ps @ [[]]" by (metis append_butlast_last_id pieces_not_Nil)
    have "butlast ?ps \<noteq> []" using l True join_pieces [of d s] by (metis append_Nil join.simps(2))
    then have "join d ?ps = join d (butlast ?ps) @ d" using join_snoc [of "butlast ?ps" d "[]"] l by simp
    then show ?thesis using True join_pieces [of d s] by (simp add: drop_final_empty_def)
  next
    case False
    then show ?thesis using nil join_pieces [of d s] by (auto simp: drop_final_empty_def)
  qed
  moreover have "set (drop_final_empty ?ps) \<subseteq> set ?ps" by (auto simp: drop_final_empty_def dest: in_set_butlastD)
  ultimately show ?thesis using pieces_free [OF assms, of _ s] by (auto simp: drop_final_empty_def)
qed

theorem String_split_join_witness:
  "String_split (cstring ''a,,b,'') (cstring '','') False = Some [cstring ''a'', cstring ''b'']
   \<and> String_split (cstring ''a,,b,'') (cstring '','') True = Some [cstring ''a'', [], cstring ''b'']"
proof -
  have "pieces (cstring '','') (cstring ''a,,b,'') = [cstring ''a'', [], cstring ''b'', []]" by code_simp
  then show ?thesis using String_split_join [of "cstring '',''" "cstring ''a,,b,''"] by (auto simp: cstring_def)
qed

subsection \<open>Trimming and case\<close>

lemma trim_start_eq: "trim_start s = length (takeWhile c_isspace s)"
  by (induction s) simp_all

lemma trim_end_eq:
  "list_all char_defined (takeWhile c_isspace r) \<Longrightarrow> dropWhile c_isspace r \<noteq> [] \<longrightarrow> char_defined (hd (dropWhile c_isspace r))
   \<Longrightarrow> trim_end r = Inr (length (dropWhile c_isspace r))"
  by (induction r) auto

lemma space_defined: "c_isspace c \<Longrightarrow> char_defined c"
  by (auto simp: c_isspace_def char_defined_def word_le_nat_alt word_less_nat_alt)

lemma trim_end_undefined:
  "dropWhile c_isspace r \<noteq> [] \<Longrightarrow> \<not> char_defined (hd (dropWhile c_isspace r)) \<Longrightarrow> trim_end r = Inl Undefined"
  by (induction r) (auto simp: space_defined split: if_splits)

definition trimmed :: "u8 list \<Rightarrow> u8 list" where
  "trimmed s = rev (dropWhile c_isspace (rev (dropWhile c_isspace s)))"

lemma spaces_defined: "list_all char_defined (takeWhile c_isspace r)"
  by (auto simp: list_all_iff intro!: space_defined dest: set_takeWhileD)

lemma trimmed_empty: "dropWhile c_isspace (rev s) = [] \<Longrightarrow> trimmed s = []"
proof -
  assume "dropWhile c_isspace (rev s) = []"
  then have "dropWhile c_isspace s = []" by simp
  then show ?thesis unfolding trimmed_def by (simp only: rev.simps dropWhile.simps)
qed

lemma trimmed_split:
  assumes "dropWhile c_isspace (rev s) \<noteq> []"
  shows "trimmed s \<noteq> []" "dropWhile c_isspace (rev s) = rev (trimmed s) @ rev (takeWhile c_isspace s)"
    "take (length (trimmed s)) (dropWhile c_isspace s) = trimmed s"
proof -
  obtain c where c: "c \<in> set s" "\<not> c_isspace c" using assms by auto
  define w where "w = takeWhile c_isspace s"
  define u where "u = dropWhile c_isspace s"
  define v where "v = dropWhile c_isspace (rev u)"
  have s: "s = w @ u" by (simp add: w_def u_def)
  have "\<forall>x \<in> set w. c_isspace x" by (auto simp: w_def dest: set_takeWhileD)
  then have cu: "c \<in> set u" using c s by auto
  have t: "trimmed s = rev v" by (simp add: trimmed_def u_def v_def)
  have "v \<noteq> []" using cu c(2) by (auto simp: v_def dropWhile_eq_Nil_conv)
  then show "trimmed s \<noteq> []" by (simp add: t)
  have "dropWhile c_isspace (rev s) = v @ rev w"
    using c(2) cu unfolding s rev_append v_def by (subst dropWhile_append1 [of c]) auto
  then show "dropWhile c_isspace (rev s) = rev (trimmed s) @ rev (takeWhile c_isspace s)" by (simp add: t w_def)
  have "rev u = takeWhile c_isspace (rev u) @ v" by (simp add: v_def)
  then have "u = rev v @ rev (takeWhile c_isspace (rev u))" by (metis rev_append rev_rev_ident)
  then show "take (length (trimmed s)) (dropWhile c_isspace s) = trimmed s"
    by (metis append_eq_conv_conj t u_def)
qed

text \<open>
  \<open>String::trim\<close> removes exactly the white space at both ends, except that it is undefined when the last byte that
  is not white space is outside ASCII: the scan from the end passes a negative \<open>char\<close> to \<open>isspace\<close>.
\<close>

theorem String_trim_correct:
  "String_trim s = (if trimmed s \<noteq> [] \<and> \<not> char_defined (last (trimmed s)) then Inl Undefined else Inr (trimmed s))"
proof (cases "dropWhile c_isspace (rev s) = []")
  case True
  then have "trim_end (rev s) = Inr 0" using trim_end_eq [OF spaces_defined, of "rev s"] by simp
  then show ?thesis using trimmed_empty [OF True] by (simp add: String_trim_def)
next
  case False
  note t = trimmed_split [OF False]
  have hd: "hd (dropWhile c_isspace (rev s)) = last (trimmed s)" using t(1) by (simp add: t(2) hd_rev)
  show ?thesis
  proof (cases "char_defined (last (trimmed s))")
    case True
    then have "trim_end (rev s) = Inr (length (trimmed s) + length (takeWhile c_isspace s))"
      using trim_end_eq [OF spaces_defined, of "rev s"] hd t(2) by simp
    moreover have "drop (length (takeWhile c_isspace s)) s = dropWhile c_isspace s"
      by (metis append_eq_conv_conj takeWhile_dropWhile_id)
    ultimately show ?thesis using True t(1,3) by (simp add: String_trim_def trim_start_eq)
  next
    case ndef: False
    then have "trim_end (rev s) = Inl Undefined" using trim_end_undefined [OF False] hd by simp
    then show ?thesis using ndef t(1) by (simp add: String_trim_def)
  qed
qed

lemma transform_defined: "list_all char_defined s \<Longrightarrow> transform f s = Inr (map f s)"
  by (induction s) simp_all

lemma transform_undefined: "\<not> list_all char_defined s \<Longrightarrow> transform f s = Inl Undefined"
  by (induction s) (auto split: sum.splits)

subsection \<open>Converting from wide strings\<close>

text \<open>
  \<open>String::to_wstring\<close> is the conversion of the operating system.  \<open>String::from_wstring\<close> is so only when the
  converted text has no more bytes than the wide string has units, because the second call is given the length of
  the source as the size of the destination; otherwise the call fails and the string holds whatever is left in the buffer.
\<close>

theorem String_wide_conversions:
  "String_to_wstring to_w junk_w s = (if s = [] then [] else to_w s)
   \<and> String_from_wstring to_n junk_n w =
       (if w = [] then []
        else if length (to_n w) \<le> length w then to_n w
        else take (length (to_n w)) (junk_n @ drop (length junk_n) (replicate (length (to_n w)) 0)))"
  by (auto simp: String_to_wstring_def String_from_wstring_def os_convert_def Let_def)

end
