(* ===== verification/Native.thy ===== *)
theory Native
  imports Str
begin

text \<open>
  The parts of the Windows layer that compute (\<open>src/src/native/win32/\<close>) and the clock (\<open>src/include/time/clock.h\<close>).  What the
  operating system returns is a parameter: the path of the executable (already converted from wide characters), the list of
  the running processes, the description of a monitor, the time.
\<close>

subsection \<open>Paths of the process\<close>

definition backslash :: u8 where "backslash = 0x5C"
definition slash :: u8 where "slash = 0x2F"

text \<open>\<open>find_last_of\<close> a character; \<open>None\<close> is \<open>npos\<close>.\<close>

fun find_last_of :: "u8 \<Rightarrow> u8 list \<Rightarrow> nat option" where
  "find_last_of c [] = None"
| "find_last_of c (x # xs) =
     (case find_last_of c xs of Some i \<Rightarrow> Some (Suc i) | None \<Rightarrow> if x = c then Some 0 else None)"

text \<open>\<open>npos + 1\<close> is \<open>0\<close>.\<close>

definition GetProcName :: "u8 list \<Rightarrow> u8 list" where
  "GetProcName module_file = drop (case find_last_of backslash module_file of None \<Rightarrow> 0 | Some i \<Rightarrow> i + 1) module_file"

definition GetProcPath :: "u8 list \<Rightarrow> u8 list option" where
  "GetProcPath module_file = String_replace module_file [backslash] [slash]"

definition GetProcDir :: "u8 list \<Rightarrow> u8 list option" where
  "GetProcDir module_file =
     map_option (\<lambda>path. case find_last_of slash path of None \<Rightarrow> path | Some i \<Rightarrow> take i path) (GetProcPath module_file)"

text \<open>The first process of the snapshot with the name, 0 when there is none.\<close>

fun GetProcByName_loop :: "u16 list \<Rightarrow> (u16 list \<times> u32) list \<Rightarrow> u32" where
  "GetProcByName_loop wname [] = 0"
| "GetProcByName_loop wname ((exe, pid) # es) = (if exe = wname then pid else GetProcByName_loop wname es)"

definition GetProcByName :: "(u8 list \<Rightarrow> u16 list) \<Rightarrow> u16 list \<Rightarrow> u8 list \<Rightarrow> (u16 list \<times> u32) list \<Rightarrow> u32" where
  "GetProcByName conv junk name entries = GetProcByName_loop (String_to_wstring conv junk name) entries"

text \<open>\<open>Exists\<close> and \<open>CreateDirecties\<close>; the argument is the result of \<open>std::filesystem\<close>.\<close>

definition fs_Exists :: "u8 list \<Rightarrow> (u8 list \<Rightarrow> bool) \<Rightarrow> bool" where
  "fs_Exists path ex = (if path = [] then False else ex path)"

definition fs_CreateDirecties :: "u8 list \<Rightarrow> (u8 list \<Rightarrow> bool) \<Rightarrow> bool" where
  "fs_CreateDirecties path create = (if path = [] then False else create path)"

subsection \<open>Screens\<close>

datatype TaskbarSide = Unknown | Left | Top | Right | Bottom

record rect =
  r_left :: int
  r_top :: int
  r_right :: int
  r_bottom :: int

record MonitorInfo =
  mi_device :: string
  mi_monitor :: rect
  mi_work :: rect
  mi_flags :: u32

record ScreenInfo =
  si_name :: string
  si_x :: int
  si_y :: int
  si_width :: int
  si_height :: int
  si_dpi :: nat
  si_primary :: bool
  si_taskbar_side :: TaskbarSide
  si_taskbar_height :: int

definition taskbar :: "rect \<Rightarrow> rect \<Rightarrow> TaskbarSide \<times> int" where
  "taskbar mon work =
     (if r_top work > r_top mon then (Top, r_top work - r_top mon)
      else if r_bottom work < r_bottom mon then (Bottom, r_bottom mon - r_bottom work)
      else if r_left work > r_left mon then (Left, r_left work - r_left mon)
      else if r_right work < r_right mon then (Right, r_right mon - r_right work)
      else (Unknown, 0))"

text \<open>\<open>GetMonitorDPI\<close>: the effective resolution, or that of the device context when it is not available.\<close>

definition GetMonitorDPI :: "nat option \<Rightarrow> nat \<Rightarrow> nat" where
  "GetMonitorDPI effective logpixels = (case effective of Some dpi \<Rightarrow> dpi | None \<Rightarrow> logpixels)"

definition ScreenInfo_of :: "MonitorInfo \<Rightarrow> nat \<Rightarrow> ScreenInfo" where
  "ScreenInfo_of mi dpi =
     (case taskbar (mi_monitor mi) (mi_work mi) of
        (side, height) \<Rightarrow>
          \<lparr>si_name = mi_device mi, si_x = r_left (mi_monitor mi), si_y = r_top (mi_monitor mi),
           si_width = r_right (mi_monitor mi) - r_left (mi_monitor mi), si_height = r_bottom (mi_monitor mi) - r_top (mi_monitor mi),
           si_dpi = dpi, si_primary = bit (mi_flags mi) 0, si_taskbar_side = side, si_taskbar_height = height\<rparr>)"

text \<open>\<open>MonitorEnumProc\<close> for one monitor (\<open>None\<close> when its description is not available, which ends the enumeration), and \<open>GetScreens\<close>.\<close>

fun GetScreens_loop :: "(MonitorInfo option \<times> nat) list \<Rightarrow> (string \<Rightarrow> ScreenInfo option) \<Rightarrow> string \<Rightarrow> ScreenInfo option" where
  "GetScreens_loop [] screens = screens"
| "GetScreens_loop ((None, dpi) # ms) screens = screens"
| "GetScreens_loop ((Some mi, dpi) # ms) screens = GetScreens_loop ms (screens(mi_device mi \<mapsto> ScreenInfo_of mi dpi))"

definition GetScreens :: "(MonitorInfo option \<times> nat) list \<Rightarrow> string \<Rightarrow> ScreenInfo option" where
  "GetScreens monitors = GetScreens_loop monitors Map.empty"

subsection \<open>The clock\<close>

text \<open>
  A time point counts ticks of the system clock since the epoch; \<open>duration_cast\<close> to a unit of \<open>per\<close> ticks truncates towards
  zero, and the count is returned as a \<open>size_t\<close>.
\<close>

definition duration_cast :: "nat \<Rightarrow> int \<Rightarrow> int" where
  "duration_cast per ticks = cdiv ticks (int per)"

definition clock_Now :: "nat \<Rightarrow> int \<Rightarrow> u64" where
  "clock_Now per now = of_int (duration_cast per now)"

definition Clock_End :: "nat \<Rightarrow> int \<Rightarrow> int \<Rightarrow> u64" where
  "Clock_End ticks_per_ms start now = of_int (duration_cast ticks_per_ms (now - start))"

subsection \<open>Name and directory of the executable\<close>

lemma find_last_of_None: "find_last_of c s = None \<longleftrightarrow> c \<notin> set s"
  by (induction s) (auto split: option.splits)

lemma find_last_of_Some: "find_last_of c s = Some i \<Longrightarrow> i < length s \<and> s ! i = c \<and> c \<notin> set (drop (Suc i) s)"
  by (induction s arbitrary: i) (auto simp: find_last_of_None split: option.splits if_splits)

lemma nth_in_drop: "k < length s \<Longrightarrow> i < k \<Longrightarrow> s ! k \<in> set (drop (Suc i) s)"
proof -
  assume "k < length s" "i < k"
  then have "drop (Suc i) s ! (k - Suc i) = s ! k" "k - Suc i < length (drop (Suc i) s)" by simp_all
  then show ?thesis by (metis nth_mem)
qed

text \<open>Replacing one character by another is a map.\<close>

definition swap_char :: "u8 \<Rightarrow> u8 \<Rightarrow> u8 \<Rightarrow> u8" where
  "swap_char a b x = (if x = a then b else x)"

lemma occurs_single: "occurs_at s [a] i \<longleftrightarrow> i < length s \<and> s ! i = a"
proof (cases "i < length s")
  case True
  then have "take (Suc 0) (drop i s) = [s ! i]" by (simp add: take_Suc hd_drop_conv_nth)
  then show ?thesis using True by (simp add: occurs_at_def)
qed (simp add: occurs_at_def)

lemma map_swap_absent: "a \<notin> set s \<Longrightarrow> map (swap_char a b) s = s"
  by (induction s) (auto simp: swap_char_def)

lemma join_pieces_single: "join [b] (pieces [a] s) = map (swap_char a b) s"
proof (induction "length s" arbitrary: s rule: less_induct)
  case less
  show ?case
  proof (cases "str_find s [a] 0")
    case None
    then have "a \<notin> set s" using str_find_None [OF None] by (auto simp: occurs_single in_set_conv_nth)
    then show ?thesis using None by (simp add: pieces_None map_swap_absent)
  next
    case (Some i)
    have f: "i < length s" "s ! i = a" "\<forall>k < i. s ! k \<noteq> a"
      using str_find_Some [OF Some] by (auto simp: occurs_single)
    have "a \<notin> set (take i s)" using f by (auto simp: in_set_conv_nth)
    then have t: "map (swap_char a b) (take i s) = take i s" by (rule map_swap_absent)
    have s: "s = take i s @ a # drop (Suc i) s" using f id_take_nth_drop by metis
    have "map (swap_char a b) s = take i s @ b # map (swap_char a b) (drop (Suc i) s)"
      by (subst s) (simp add: t swap_char_def)
    moreover have "join [b] (pieces [a] (drop (Suc i) s)) = map (swap_char a b) (drop (Suc i) s)" using less f by simp
    ultimately show ?thesis using Some by (simp add: pieces_Some join_Cons)
  qed
qed

text \<open>
  For the path of an executable inside a directory (at least one backslash), with no slash in it, \<open>GetProcDir\<close> always returns, and
  the directory, a slash and \<open>GetProcName\<close> make up \<open>GetProcPath\<close>, the path with its backslashes turned into slashes; the
  name contains no separator.
\<close>

theorem GetProcPath_splits:
  assumes "backslash \<in> set p" "slash \<notin> set p"
  shows "\<exists>dir. GetProcDir p = Some dir \<and> GetProcPath p = Some (dir @ [slash] @ GetProcName p)
    \<and> backslash \<notin> set (GetProcName p) \<and> slash \<notin> set (GetProcName p)"
proof -
  let ?m = "map (swap_char backslash slash)"
  obtain i where i: "find_last_of backslash p = Some i" using assms(1) find_last_of_None [of backslash p] by fastforce
  have f: "i < length p" "p ! i = backslash" "backslash \<notin> set (drop (Suc i) p)" using find_last_of_Some [OF i] by auto
  have name: "GetProcName p = drop (Suc i) p" by (simp add: GetProcName_def i)
  have path: "GetProcPath p = Some (?m p)"
    by (simp add: GetProcPath_def String_replace_eq join_pieces_single)
  have nm: "?m (drop (Suc i) p) = drop (Suc i) p" using f(3) by (rule map_swap_absent)
  have ns: "slash \<notin> set (drop (Suc i) p)" using assms(2) by (meson in_set_dropD)
  have p: "?m p = ?m (take i p) @ slash # drop (Suc i) p"
  proof -
    have "p = take i p @ backslash # drop (Suc i) p" using f id_take_nth_drop by metis
    then have "?m p = ?m (take i p @ backslash # drop (Suc i) p)" by simp
    then show ?thesis by (simp add: nm swap_char_def)
  qed
  have "find_last_of slash (?m p) = Some i"
  proof (cases "find_last_of slash (?m p)")
    case None
    then show ?thesis using p by (simp add: find_last_of_None)
  next
    case (Some j)
    note j = find_last_of_Some [OF Some]
    have "?m p ! i = slash" using f by (simp add: swap_char_def)
    have "\<not> i < j"
    proof
      assume "i < j"
      then have "slash \<in> set (drop (Suc i) (?m p))" using j nth_in_drop [of j "?m p" i] by simp
      then show False using ns nm by (simp add: drop_map)
    qed
    moreover have "\<not> j < i"
    proof
      assume "j < i"
      then have "slash \<in> set (drop (Suc j) (?m p))"
        using f \<open>?m p ! i = slash\<close> nth_in_drop [of i "?m p" j] by simp
      with j show False by simp
    qed
    ultimately show ?thesis using Some by simp
  qed
  then have "GetProcDir p = Some (take i (?m p))" by (simp add: GetProcDir_def path)
  moreover have "take i (?m p) = ?m (take i p)" by (simp add: take_map)
  ultimately show ?thesis using path p name f(3) ns by simp
qed

theorem GetProcPath_splits_witness:
  "\<exists>dir. GetProcDir (cstring [CHR ''C'', CHR '':'', CHR 0x5C, CHR ''a'']) = Some dir
     \<and> GetProcPath (cstring [CHR ''C'', CHR '':'', CHR 0x5C, CHR ''a'']) = Some (dir @ [slash] @ GetProcName (cstring [CHR ''C'', CHR '':'', CHR 0x5C, CHR ''a'']))
     \<and> backslash \<notin> set (GetProcName (cstring [CHR ''C'', CHR '':'', CHR 0x5C, CHR ''a'']))
     \<and> slash \<notin> set (GetProcName (cstring [CHR ''C'', CHR '':'', CHR 0x5C, CHR ''a'']))"
  by (rule GetProcPath_splits) (simp_all add: cstring_def ch_def backslash_def slash_def)

subsection \<open>Taskbars and time\<close>

lemma taskbar_height: "taskbar mon work = (side, h) \<Longrightarrow> 0 \<le> h \<and> (h = 0 \<longleftrightarrow> side = Unknown)"
  by (auto simp: taskbar_def split: if_splits)

text \<open>Elapsed time is rounded down as long as the clock does not run backwards.\<close>

lemma Clock_End_elapsed:
  assumes "start \<le> now" "now - start < 2 ^ 64" "0 < per"
  shows "uint (Clock_End per start now) = (now - start) div int per"
proof -
  have c: "duration_cast per (now - start) = (now - start) div int per"
    using assms by (cases "now = start") (simp_all add: duration_cast_def cdiv_def sgn_if)
  have "0 \<le> (now - start) div int per" using assms by (simp add: pos_imp_zdiv_nonneg_iff)
  moreover have "(now - start) div int per \<le> now - start" using zdiv_mono2 [of "now - start" 1 "int per"] assms by simp
  ultimately show ?thesis using assms(2) by (simp add: Clock_End_def c uint_word_of_int_eq take_bit_int_eq_self)
qed

end
