(* ===== verification/Sqlite3cpp.thy ===== *)
theory Sqlite3cpp
  imports Complex_Main Cpp
begin

text \<open>
  The database wrapper, \<open>src/include/db/sqlite3/sqlite3.h\<close>, \<open>src/src/db/sqlite3/sqlite3_impl.cpp\<close> and \<open>src/include/bit_mask.h\<close>.

  The SQLite interface that the wrapper calls is the parameter \<open>api\<close>, a record of functions on the state \<open>'c\<close> of the
  engine; the theorems hold for every such engine.  \<open>im_db\<close> says whether \<open>db_\<close> is not null and \<open>im_freed\<close> whether the object
  it points to has been given to \<open>sqlite3_free\<close>, after which every use of it is undefined.
\<close>

unbundle bit_operations_syntax

subsection \<open>Flags\<close>

text \<open>The operators that \<open>BIT_MASK\<close> declares for an enumeration with an \<open>int\<close> underneath.\<close>

type_synonym bitmask = u32

definition bitmask_and :: "bitmask \<Rightarrow> bitmask \<Rightarrow> bitmask" where
  "bitmask_and l r = (l AND r)"

definition bitmask_or :: "bitmask \<Rightarrow> bitmask \<Rightarrow> bitmask" where
  "bitmask_or l r = (l OR r)"

definition bitmask_xor :: "bitmask \<Rightarrow> bitmask \<Rightarrow> bitmask" where
  "bitmask_xor l r = (l XOR r)"

definition bitmask_not :: "bitmask \<Rightarrow> bitmask" where
  "bitmask_not l = NOT l"

definition Bitmask_includes_any :: "bitmask \<Rightarrow> bitmask \<Rightarrow> bool" where
  "Bitmask_includes_any l elements \<longleftrightarrow> bitmask_and l elements \<noteq> 0"

definition Bitmask_includes_all :: "bitmask \<Rightarrow> bitmask \<Rightarrow> bool" where
  "Bitmask_includes_all l elements \<longleftrightarrow> bitmask_and l elements = elements"

text \<open>\<open>Sqlite3OpenFlags\<close>, in the order of the source.\<close>

definition Sqlite3OpenFlags :: "bitmask list" where
  "Sqlite3OpenFlags =
    [0x00000001, 0x00000002, 0x00000004, 0x00000008, 0x00000010, 0x00000020, 0x00000040, 0x00000080,
     0x00000100, 0x00000200, 0x00000400, 0x00000800, 0x00001000, 0x00002000, 0x00004000, 0x00008000,
     0x00010000, 0x00020000, 0x00040000, 0x00080000, 0x00100000, 0x00200000]"

subsection \<open>Values\<close>

text \<open>A blob is the pointer to a copy of its bytes (\<open>None\<close> when null) and its size.\<close>

datatype Sqlite3Value =
    VInt int
  | VDouble real
  | VText "u8 list"
  | VBlob "u8 list option" nat
  | VNull

type_synonym Sqlite3Columns = "string \<Rightarrow> Sqlite3Value option"

type_synonym Sqlite3Result = "bool \<times> string"

text \<open>
  \<open>MakeValue\<close>: a type that converts to \<open>long long\<close> is stored as such, and floating-point types do; the conversion
  discards the fractional part.
\<close>

datatype cpp_value = CInt int | CDouble real | CString "u8 list" | CBlob "u8 list option" nat | COther

definition truncate :: "real \<Rightarrow> int" where
  "truncate x = (if x \<ge> 0 then \<lfloor>x\<rfloor> else \<lceil>x\<rceil>)"

fun MakeValue :: "cpp_value \<Rightarrow> Sqlite3Value" where
  "MakeValue (CInt i) = VInt i"
| "MakeValue (CDouble x) = VInt (truncate x)"
| "MakeValue (CString s) = VText s"
| "MakeValue (CBlob d n) = VBlob d n"
| "MakeValue COther = VNull"

subsection \<open>The interface of SQLite\<close>

definition SQLITE_LOCKED :: int where "SQLITE_LOCKED = 6"
definition SQLITE_MISUSE :: int where "SQLITE_MISUSE = 21"
definition SQLITE_ROW :: int where "SQLITE_ROW = 100"
definition SQLITE_DONE :: int where "SQLITE_DONE = 101"

text \<open>
  A column as the \<open>sqlite3_column_\<close> functions present it: its name and its value of one of the five types, or a type code
  that is none of them.
\<close>

datatype column_value = ColInt int | ColFloat real | ColText "u8 list" | ColBlob "u8 list" | ColNull | ColOther

record 'c sqlite_api =
  api_open :: "string \<Rightarrow> bitmask \<Rightarrow> 'c \<Rightarrow> int \<times> bool \<times> 'c"
  api_close :: "'c \<Rightarrow> 'c"
  api_errcode :: "'c \<Rightarrow> int"
  api_errstr :: "int \<Rightarrow> string"
  api_exec :: "string \<Rightarrow> 'c \<Rightarrow> int \<times> 'c"
  api_prepare :: "string \<Rightarrow> 'c \<Rightarrow> int \<times> nat option \<times> 'c"
  api_step :: "nat \<Rightarrow> 'c \<Rightarrow> int \<times> 'c"
  api_columns :: "nat \<Rightarrow> 'c \<Rightarrow> (string \<times> column_value) list"
  api_bind :: "nat \<Rightarrow> nat \<Rightarrow> Sqlite3Value \<Rightarrow> 'c \<Rightarrow> int \<times> 'c"
  api_finalize :: "nat \<Rightarrow> 'c \<Rightarrow> int \<times> 'c"

record 'c Impl =
  im_db :: bool
  im_freed :: bool
  im_c :: 'c


subsection \<open>The wrapper\<close>

text \<open>\<open>Error\<close> gives the connection object to \<open>sqlite3_free\<close> and keeps the pointer.\<close>

definition Impl_Error :: "'c sqlite_api \<Rightarrow> 'c Impl \<Rightarrow> (string \<times> 'c Impl) result" where
  "Impl_Error api m =
     (if \<not> im_db m then Inr ([], m)
      else if im_freed m then Inl Undefined
      else let code = api_errcode api (im_c m) in
           if code = SQLITE_OK then Inr ([], m) else Inr (api_errstr api code, m\<lparr>im_freed := True\<rparr>))"

definition result_of :: "'c sqlite_api \<Rightarrow> int \<Rightarrow> 'c Impl \<Rightarrow> (Sqlite3Result \<times> 'c Impl) result" where
  "result_of api code m =
     (if code = SQLITE_OK then Inr ((True, []), m)
      else case Impl_Error api m of Inl e \<Rightarrow> Inl e | Inr (s, m') \<Rightarrow> Inr ((False, s), m'))"







text \<open>
  The value of a column: text ends at its first zero byte, a blob is copied into a new block when \<open>malloc\<close> (the argument
  \<open>ok\<close>) succeeds, and an unknown type leaves the default value of the variant.
\<close>

definition column_to_value :: "bool \<Rightarrow> column_value \<Rightarrow> Sqlite3Value" where
  "column_to_value ok v =
     (case v of
        ColInt i \<Rightarrow> VInt i
      | ColFloat x \<Rightarrow> VDouble x
      | ColText s \<Rightarrow> VText (takeWhile (\<lambda>b. b \<noteq> 0) s)
      | ColBlob b \<Rightarrow> VBlob (if b \<noteq> [] \<and> ok then Some b else None) (length b)
      | ColNull \<Rightarrow> VNull
      | ColOther \<Rightarrow> VInt 0)"

definition read_columns :: "bool \<Rightarrow> (string \<times> column_value) list \<Rightarrow> Sqlite3Columns" where
  "read_columns ok cols = foldl (\<lambda>m (name, v). m(name \<mapsto> column_to_value ok v)) Map.empty cols"

text \<open>
  The loop of \<open>Exec\<close>: the statement is stepped once, before it, and \<open>code\<close> never changes.  Text without a statement gives a
  null pointer, for which \<open>sqlite3_step\<close> returns \<open>SQLITE_MISUSE\<close>.
\<close>

partial_function (option) Exec_loop :: "int \<Rightarrow> Sqlite3Columns \<Rightarrow> Sqlite3Columns list \<Rightarrow> Sqlite3Columns list option" where
  [code]: "Exec_loop code columns rows =
     (if code = SQLITE_LOCKED \<or> code = SQLITE_BUSY then Exec_loop code columns rows
      else if code = SQLITE_DONE then Some rows
      else if code = SQLITE_ROW then Exec_loop code columns (rows @ [columns])
      else Exec_loop code columns rows)"

definition Impl_Exec :: "'c sqlite_api \<Rightarrow> bool \<Rightarrow> string \<Rightarrow> 'c Impl \<Rightarrow> (Sqlite3Result \<times> Sqlite3Columns list \<times> 'c Impl) result option" where
  "Impl_Exec api ok sql m =
     (if sql = [] then Some (Inr ((False, ''invalid sql''), [], m))
      else if \<not> im_db m then Some (Inr ((False, ''invalid db''), [], m))
      else if im_freed m then Some (Inl Undefined)
      else case api_prepare api sql (im_c m) of
             (code, stmt, c) \<Rightarrow>
               if code \<noteq> SQLITE_OK then
                 Some (case Impl_Error api (m\<lparr>im_c := c\<rparr>) of Inl e \<Rightarrow> Inl e | Inr (s, m') \<Rightarrow> Inr ((False, s), [], m'))
               else case stmt of
                      None \<Rightarrow> map_option (\<lambda>rows. Inr ((True, []), rows, m\<lparr>im_c := c\<rparr>)) (Exec_loop SQLITE_MISUSE Map.empty [])
                    | Some st \<Rightarrow>
                        (case api_step api st c of
                           (code, c1) \<Rightarrow>
                             map_option (\<lambda>rows. Inr ((True, []), rows, m\<lparr>im_c := snd (api_finalize api st c1)\<rparr>))
                               (Exec_loop code (read_columns ok (api_columns api st c1)) [])))"


definition Impl_BindValue :: "'c sqlite_api \<Rightarrow> nat option \<Rightarrow> Sqlite3Value \<Rightarrow> 'c Impl \<Rightarrow> (Sqlite3Result \<times> 'c Impl) result" where
  "Impl_BindValue api ctx v m =
     (case ctx of
        None \<Rightarrow> Inr ((False, ''invalid context''), m)
      | Some st \<Rightarrow>
          if im_freed m then Inl Undefined
          else case api_bind api st 1 v (im_c m) of (code, c) \<Rightarrow> result_of api code (m\<lparr>im_c := c\<rparr>))"

fun Impl_BindValues :: "'c sqlite_api \<Rightarrow> nat option \<Rightarrow> Sqlite3Value list \<Rightarrow> 'c Impl \<Rightarrow> (Sqlite3Result \<times> 'c Impl) result" where
  "Impl_BindValues api ctx [] m = Inr ((True, []), m)"
| "Impl_BindValues api ctx (v # vs) m =
     (case Impl_BindValue api ctx v m of
        Inl e \<Rightarrow> Inl e
      | Inr (r, m') \<Rightarrow> if \<not> fst r then Inr (r, m') else Impl_BindValues api ctx vs m')"



subsection \<open>Flags behave as sets\<close>

definition bits_of :: "bitmask \<Rightarrow> nat set" where
  "bits_of m = {i. i < 32 \<and> bit m i}"

lemma bits_of_eq_iff: "bits_of a = bits_of b \<longleftrightarrow> a = b"
proof
  assume eq: "bits_of a = bits_of b"
  show "a = b"
  proof (rule bit_word_eqI)
    fix i assume "i < LENGTH(32)"
    then show "bit a i = bit b i" using eq by (auto simp: bits_of_def set_eq_iff)
  qed
qed simp

lemma bits_of_0: "bits_of 0 = {}"
  by (simp add: bits_of_def)

lemma bits_of_and: "bits_of (bitmask_and a b) = bits_of a \<inter> bits_of b"
  by (auto simp: bits_of_def bitmask_and_def bit_simps)

text \<open>
  The flag operators are the set operations on the bits of a mask (union, intersection, symmetric difference,
  complement), and the two tests are those for a common element and for inclusion.
\<close>

theorem bitmask_operators_are_set_operations:
  "bits_of (bitmask_and a b) = bits_of a \<inter> bits_of b \<and> bits_of (bitmask_or a b) = bits_of a \<union> bits_of b
   \<and> bits_of (bitmask_xor a b) = (bits_of a - bits_of b) \<union> (bits_of b - bits_of a) \<and> bits_of (bitmask_not a) = {..<32} - bits_of a
   \<and> Bitmask_includes_any a b = (bits_of a \<inter> bits_of b \<noteq> {}) \<and> Bitmask_includes_all a b = (bits_of b \<subseteq> bits_of a)"
proof (intro conjI)
  show "bits_of (bitmask_or a b) = bits_of a \<union> bits_of b"
    by (auto simp: bits_of_def bitmask_or_def bit_simps)
  show "bits_of (bitmask_xor a b) = (bits_of a - bits_of b) \<union> (bits_of b - bits_of a)"
    by (auto simp: bits_of_def bitmask_xor_def bit_simps)
  show "bits_of (bitmask_not a) = {..<32} - bits_of a"
    by (auto simp: bits_of_def bitmask_not_def bit_simps)
  show "Bitmask_includes_any a b = (bits_of a \<inter> bits_of b \<noteq> {})"
    by (simp add: Bitmask_includes_any_def bits_of_eq_iff [symmetric] bits_of_and bits_of_0)
  show "Bitmask_includes_all a b = (bits_of b \<subseteq> bits_of a)"
    by (auto simp: Bitmask_includes_all_def bits_of_eq_iff [symmetric] bits_of_and)
qed (rule bits_of_and)

text \<open>Distinct flags are distinct bits.\<close>

lemma Sqlite3OpenFlags_bits: "Sqlite3OpenFlags = map (\<lambda>i. 2 ^ i) [0..<22]"
  by code_simp

subsection \<open>Executing statements\<close>

lemma Exec_loop_returns: "Exec_loop code columns rows = Some ys \<Longrightarrow> code = SQLITE_DONE"
proof -
  assume a: "Exec_loop code columns rows = Some ys"
  show ?thesis
  proof (rule Exec_loop.raw_induct [OF _ a, where P = "\<lambda>code columns rows ys. code = SQLITE_DONE"])
    fix loop :: "int \<Rightarrow> Sqlite3Columns \<Rightarrow> Sqlite3Columns list \<Rightarrow> Sqlite3Columns list option" and code cols rs ys
    assume ih: "\<And>code cols rs ys. loop code cols rs = Some ys \<Longrightarrow> code = SQLITE_DONE"
      and eq: "(if code = SQLITE_LOCKED \<or> code = SQLITE_BUSY then loop code cols rs
        else if code = SQLITE_DONE then Some rs
        else if code = SQLITE_ROW then loop code cols (rs @ [cols]) else loop code cols rs) = Some ys"
    then show "code = SQLITE_DONE" by (auto split: if_splits)
  qed
qed

lemma Exec_loop_eq: "Exec_loop code columns rows = (if code = SQLITE_DONE then Some rows else None)"
proof (cases "code = SQLITE_DONE")
  case True
  then show ?thesis by (subst Exec_loop.simps) (simp add: SQLITE_DONE_def SQLITE_LOCKED_def SQLITE_BUSY_def)
next
  case False
  then show ?thesis using Exec_loop_returns [of code columns rows] by (cases "Exec_loop code columns rows") auto
qed

text \<open>
  C37. For a statement that SQLite can prepare, \<open>Exec\<close> returns exactly when the first step is \<open>SQLITE_DONE\<close>, and then without any
  row; a statement that produces a row, finds the database busy or locked, or fails makes it loop forever, because the
  loop never steps the statement again.
\<close>

theorem Impl_Exec_returns_iff_done:
  assumes "sql \<noteq> []" "im_db m" "\<not> im_freed m"
    and "api_prepare api sql (im_c m) = (SQLITE_OK, Some st, c)" "api_step api st c = (code, c1)"
  shows "Impl_Exec api ok sql m =
    (if code = SQLITE_DONE then Some (Inr ((True, []), [], m\<lparr>im_c := snd (api_finalize api st c1)\<rparr>)) else None)"
  using assms by (simp add: Impl_Exec_def Exec_loop_eq)

text \<open>An engine for the examples: it counts nothing, prepares everything, and its statements give one row.\<close>

definition toy_api :: "(nat \<Rightarrow> Sqlite3Value option) sqlite_api" where
  "toy_api = \<lparr>api_open = \<lambda>_ _ c. (0, True, c), api_close = id, api_errcode = \<lambda>_. 1, api_errstr = \<lambda>_. ''SQL logic error'',
     api_exec = \<lambda>_ c. (1, c), api_prepare = \<lambda>_ c. (0, Some 0, c), api_step = \<lambda>_ c. (100, c), api_columns = \<lambda>_ _. [(''x'', ColInt 1)],
     api_bind = \<lambda>_ i v c. (0, c(i \<mapsto> v)), api_finalize = \<lambda>_ c. (0, c)\<rparr>"

definition toy_impl :: "(nat \<Rightarrow> Sqlite3Value option) Impl" where
  "toy_impl = \<lparr>im_db = True, im_freed = False, im_c = Map.empty\<rparr>"

theorem Impl_Exec_returns_iff_done_witness: "Impl_Exec toy_api True ''SELECT 1'' toy_impl = None"
proof -
  have "Impl_Exec toy_api True ''SELECT 1'' toy_impl =
    (if 100 = SQLITE_DONE then Some (Inr ((True, []), [], toy_impl\<lparr>im_c := snd (api_finalize toy_api 0 Map.empty)\<rparr>)) else None)"
    by (rule Impl_Exec_returns_iff_done) (simp_all add: toy_api_def toy_impl_def SQLITE_OK_def)
  then show ?thesis by (simp add: SQLITE_DONE_def)
qed

subsection \<open>Errors\<close>




text \<open>
  A reply reports an error of SQLite when it is negative and its text is not one of those of the wrapper itself.
  \<open>sqlite3_errstr\<close> never returns these (\<open>errstr_ok\<close>).
\<close>

definition wrapper_messages :: "string set" where
  "wrapper_messages = {'''', ''invalid file'', ''invalid db'', ''invalid sql'', ''invalid context''}"







lemma wrapper_messages_mem [simp]:
  "'''' \<in> wrapper_messages" "''invalid file'' \<in> wrapper_messages" "''invalid db'' \<in> wrapper_messages"
  "''invalid sql'' \<in> wrapper_messages" "''invalid context'' \<in> wrapper_messages"
  by (simp_all add: wrapper_messages_def)


















subsection \<open>Binding\<close>

lemma result_of_c: "result_of api code m = Inr (r, m') \<Longrightarrow> im_c m' = im_c m"
  by (auto simp: result_of_def Impl_Error_def Let_def split: if_splits)

lemma BindValue_keeps:
  assumes "\<And>v c. obs (snd (api_bind api st 1 v c)) = obs c" "Impl_BindValue api (Some st) v m = Inr (r, m')"
  shows "obs (im_c m') = obs (im_c m)"
proof -
  obtain code c where b: "api_bind api st 1 v (im_c m) = (code, c)" by fastforce
  then have "im_c m' = c" using assms(2) result_of_c [of api code "m\<lparr>im_c := c\<rparr>"] by (simp add: Impl_BindValue_def split: if_splits)
  then show ?thesis using assms(1) [of v "im_c m"] b by simp
qed

text \<open>
  \<open>BindValues\<close> never touches a parameter other than the first: whatever a binding of parameter 1 leaves unchanged is unchanged
  after binding any list of values, so of several values only the last is bound and the other parameters stay \<open>NULL\<close>.
\<close>

theorem BindValues_only_first_parameter:
  assumes "\<And>v c. obs (snd (api_bind api st 1 v c)) = obs c" "Impl_BindValues api (Some st) vs m = Inr (r, m')"
  shows "obs (im_c m') = obs (im_c m)"
  using assms(2)
proof (induction vs arbitrary: m)
  case (Cons v vs)
  obtain r1 m1 where b: "Impl_BindValue api (Some st) v m = Inr (r1, m1)"
    using Cons.prems by (auto split: sum.splits)
  then have "obs (im_c m1) = obs (im_c m)" using BindValue_keeps [OF assms(1)] by blast
  then show ?case using b Cons by (auto split: if_splits)
qed simp

theorem BindValues_only_first_parameter_witness:
  "\<exists>r m'. Impl_BindValues toy_api (Some 0) [VInt 1, VInt 2] toy_impl = Inr (r, m') \<and> im_c m' 2 = None"
proof -
  have "\<exists>r m'. Impl_BindValues toy_api (Some 0) [VInt 1, VInt 2] toy_impl = Inr (r, m')"
    by (auto simp: Impl_BindValue_def result_of_def toy_api_def toy_impl_def SQLITE_OK_def)
  then obtain r m' where b: "Impl_BindValues toy_api (Some 0) [VInt 1, VInt 2] toy_impl = Inr (r, m')" by blast
  have "(\<lambda>c. c 2) (im_c m') = (\<lambda>c. c 2) (im_c toy_impl)"
    by (rule BindValues_only_first_parameter [OF _ b]) (simp add: toy_api_def)
  with b show ?thesis by (simp add: toy_impl_def)
qed

text \<open>No value of floating point is ever made: such arguments convert to \<open>long long\<close>, which is tried first.\<close>

lemma MakeValue_no_double: "MakeValue v \<noteq> VDouble x"
  by (cases v) simp_all

end
