(* ===== verification/Checked_Arith.thy ===== *)
theory Checked_Arith
  imports Prelude
begin

text \<open>
  The overflow-checked 64-bit arithmetic and the logarithmic estimates of SQLite's \<open>util.c\<close>
  (\<open>src/src/db/sqlite3/core/sqlite3.c\<close>, lines 33463 to 33610). The portable branch of each
  \<open>#if\<close> is modelled: it is the one the supported compilers of the build (MSVC, and Apple clang, which
  reports itself as GCC 4.2) select.

  A routine that updates \<open>*pA\<close> returns the pair of its return code and the new \<open>*pA\<close>; the value
  \<open>None\<close> stands for a signed overflow in one of its own intermediate expressions.
\<close>

subsection \<open>Addition, subtraction, multiplication and absolute value\<close>

definition sqlite3AddInt64 :: "int \<Rightarrow> int \<Rightarrow> (int \<times> int) option" where
  "sqlite3AddInt64 iA iB =
     do {
       overflow \<leftarrow>
         (if 0 \<le> iB
          then (if 0 < iA
                then do { room \<leftarrow> i64 (LARGEST_INT64 - iA); Some (room < iB) }
                else Some False)
          else (if iA < 0
                then do {
                  s \<leftarrow> i64 (iA + LARGEST_INT64);
                  m \<leftarrow> i64 (- s);
                  b1 \<leftarrow> i64 (iB + 1);
                  Some (b1 < m) }
                else Some False));
       if overflow then Some (1, iA)
       else do { s \<leftarrow> i64 (iA + iB); Some (0, s) }
     }"

definition sqlite3SubInt64 :: "int \<Rightarrow> int \<Rightarrow> (int \<times> int) option" where
  "sqlite3SubInt64 iA iB =
     (if iB = SMALLEST_INT64
      then if 0 \<le> iA then Some (1, iA)
           else do { d \<leftarrow> i64 (iA - iB); Some (0, d) }
      else do { nB \<leftarrow> i64 (- iB); sqlite3AddInt64 iA nB })"

definition sqlite3MulInt64 :: "int \<Rightarrow> int \<Rightarrow> (int \<times> int) option" where
  "sqlite3MulInt64 iA iB =
     do {
       overflow \<leftarrow>
         (if 0 < iB
          then do {
            hi \<leftarrow> i64_div LARGEST_INT64 iB;
            if hi < iA then Some True
            else do { lo \<leftarrow> i64_div SMALLEST_INT64 iB; Some (iA < lo) } }
          else if iB < 0
          then (if 0 < iA
                then do { lo \<leftarrow> i64_div SMALLEST_INT64 iA; Some (iB < lo) }
                else if iA < 0
                then (if iB = SMALLEST_INT64 then Some True
                      else if iA = SMALLEST_INT64 then Some True
                      else do {
                        nA \<leftarrow> i64 (- iA);
                        nB \<leftarrow> i64 (- iB);
                        hi \<leftarrow> i64_div LARGEST_INT64 nB;
                        Some (hi < nA) })
                else Some False)
          else Some False);
       if overflow then Some (1, iA)
       else do { m \<leftarrow> i64 (iA * iB); Some (0, m) }
     }"

definition sqlite3AbsInt32 :: "int \<Rightarrow> int option" where
  "sqlite3AbsInt32 x =
     (if 0 \<le> x then Some x
      else if x = - 2147483648 then Some 2147483647
      else i32 (- x))"

text \<open>What the three checked operations promise: the exact result, or a refusal.\<close>

definition checked :: "int \<Rightarrow> int \<Rightarrow> (int \<times> int) option" where
  "checked iA r = Some (if in_i64 r then (0, r) else (1, iA))"

lemma sqlite3AddInt64_checked:
  "in_i64 iA \<Longrightarrow> in_i64 iB \<Longrightarrow> sqlite3AddInt64 iA iB = checked iA (iA + iB)"
  by (auto simp: sqlite3AddInt64_def checked_def i64_def in_i64_def i64_bounds)

lemma sqlite3SubInt64_checked:
  "in_i64 iA \<Longrightarrow> in_i64 iB \<Longrightarrow> sqlite3SubInt64 iA iB = checked iA (iA - iB)"
  by (auto simp: sqlite3SubInt64_def sqlite3AddInt64_checked checked_def i64_def in_i64_def i64_bounds)

text \<open>Division bounds multiplication exactly: the arithmetic core of the multiplication check.\<close>

lemma mult_le_iff_le_div:
  fixes a b c :: int
  assumes "0 < b"
  shows "a * b \<le> c \<longleftrightarrow> a \<le> c div b"
proof
  assume "a * b \<le> c"
  then have "(a * b) div b \<le> c div b" using assms by (rule zdiv_mono1)
  with assms show "a \<le> c div b" by simp
next
  assume "a \<le> c div b"
  then have "a * b \<le> c div b * b" using assms by simp
  also have "\<dots> \<le> c" using assms by (simp add: minus_mod_eq_div_mult [symmetric])
  finally show "a * b \<le> c" .
qed

lemma div_bounds:
  fixes a b :: int
  assumes "0 \<le> a" "0 < b"
  shows "0 \<le> a div b" "a div b \<le> a"
  using assms zdiv_mono2 [of a 1 b] by (simp_all add: pos_imp_zdiv_nonneg_iff)

lemma i64_div_pos:
  assumes "0 \<le> a" "a \<le> LARGEST_INT64" "0 < b"
  shows "i64_div a b = Some (a div b)"
  using assms div_bounds [of a b] by (simp add: i64_div_def cdiv_pos i64_def in_i64_def i64_bounds)

lemma i64_div_smallest:
  assumes "0 < b"
  shows "i64_div SMALLEST_INT64 b = Some (- (9223372036854775808 div b))"
  using assms div_bounds [of 9223372036854775808 b]
  by (simp add: i64_div_def cdiv_neg_pos i64_def in_i64_def i64_bounds)

lemma mul_check_pos:
  assumes A: "in_i64 iA" and B: "in_i64 iB" and "0 < iB"
  shows "sqlite3MulInt64 iA iB = checked iA (iA * iB)"
proof -
  have hi: "iA * iB \<le> LARGEST_INT64 \<longleftrightarrow> iA \<le> LARGEST_INT64 div iB"
    using \<open>0 < iB\<close> by (rule mult_le_iff_le_div)
  have "(- iA) * iB \<le> 9223372036854775808 \<longleftrightarrow> - iA \<le> 9223372036854775808 div iB"
    using \<open>0 < iB\<close> by (rule mult_le_iff_le_div)
  then have lo: "SMALLEST_INT64 \<le> iA * iB \<longleftrightarrow> - (9223372036854775808 div iB) \<le> iA"
    by (simp add: i64_bounds) linarith
  have "i64_div LARGEST_INT64 iB = Some (LARGEST_INT64 div iB)"
    using \<open>0 < iB\<close> by (intro i64_div_pos) (simp_all add: i64_bounds)
  then show ?thesis
    using \<open>0 < iB\<close> hi lo
    by (auto simp: sqlite3MulInt64_def i64_div_smallest checked_def i64_def in_i64_def not_le)
qed

lemma mul_check_neg_pos:
  assumes A: "in_i64 iA" and B: "in_i64 iB" and "iB < 0" "0 < iA"
  shows "sqlite3MulInt64 iA iB = checked iA (iA * iB)"
proof -
  have "(- iB) * iA \<le> 9223372036854775808 \<longleftrightarrow> - iB \<le> 9223372036854775808 div iA"
    using \<open>0 < iA\<close> by (rule mult_le_iff_le_div)
  then have lo: "SMALLEST_INT64 \<le> iA * iB \<longleftrightarrow> - (9223372036854775808 div iA) \<le> iB"
    by (simp add: i64_bounds mult.commute) linarith
  have "iA * iB \<le> 0" using assms by (simp add: mult_nonneg_nonpos)
  then have "iA * iB \<le> LARGEST_INT64" by (simp add: i64_bounds)
  then show ?thesis
    using \<open>iB < 0\<close> \<open>0 < iA\<close> lo
    by (auto simp: sqlite3MulInt64_def i64_div_smallest checked_def i64_def in_i64_def not_le)
qed

lemma mul_check_neg_neg:
  assumes A: "in_i64 iA" and B: "in_i64 iB" and "iB < 0" "iA < 0"
  shows "sqlite3MulInt64 iA iB = checked iA (iA * iB)"
proof (cases "iA = SMALLEST_INT64 \<or> iB = SMALLEST_INT64")
  case True
  have "1 * 9223372036854775808 \<le> (- iA) * (- iB)"
  proof (cases "iB = SMALLEST_INT64")
    case True
    with \<open>iA < 0\<close> show ?thesis by (intro mult_mono) (simp_all add: i64_bounds)
  next
    case False
    with \<open>iA = SMALLEST_INT64 \<or> iB = SMALLEST_INT64\<close> \<open>iB < 0\<close>
    have "9223372036854775808 * 1 \<le> (- iA) * (- iB)" by (intro mult_mono) (simp_all add: i64_bounds)
    then show ?thesis by simp
  qed
  then have "\<not> in_i64 (iA * iB)" by (simp add: in_i64_def i64_bounds)
  with True assms(3,4) show ?thesis by (auto simp: sqlite3MulInt64_def checked_def)
next
  case False
  with A B have neg: "i64 (- iA) = Some (- iA)" "i64 (- iB) = Some (- iB)" "- iB \<le> LARGEST_INT64"
    by (auto simp: i64_def in_i64_def i64_bounds)
  have "(- iA) * (- iB) \<le> LARGEST_INT64 \<longleftrightarrow> - iA \<le> LARGEST_INT64 div (- iB)"
    using \<open>iB < 0\<close> by (intro mult_le_iff_le_div) simp
  moreover have "0 \<le> iA * iB" using assms by (simp add: mult_nonpos_nonpos)
  moreover have "i64_div LARGEST_INT64 (- iB) = Some (LARGEST_INT64 div (- iB))"
    using \<open>iB < 0\<close> by (intro i64_div_pos) (simp_all add: i64_bounds)
  ultimately show ?thesis
    using False assms(3,4) neg
    by (auto simp: sqlite3MulInt64_def checked_def i64_def in_i64_def not_le SMALLEST_INT64_def)
qed

lemma sqlite3MulInt64_checked:
  assumes A: "in_i64 iA" and B: "in_i64 iB"
  shows "sqlite3MulInt64 iA iB = checked iA (iA * iB)"
proof -
  consider "0 < iB" | "iB < 0" "0 < iA" | "iB < 0" "iA < 0" | "iB = 0" | "iB < 0" "iA = 0" by linarith
  then show ?thesis
    using mul_check_pos [OF A B] mul_check_neg_pos [OF A B] mul_check_neg_neg [OF A B]
    by cases (auto simp: sqlite3MulInt64_def checked_def i64_def in_i64_def i64_bounds)
qed

text \<open>
  The checked 64-bit operations are exact: for all operands in range, no intermediate expression
  of the routine overflows, the routine returns 0 and stores the mathematical result when that
  result fits in 64 bits, and otherwise returns 1 and leaves \<open>*pA\<close> unchanged.
\<close>

theorem checked_int64_exact:
  assumes "in_i64 iA" and "in_i64 iB"
  shows "sqlite3AddInt64 iA iB = Some (if in_i64 (iA + iB) then (0, iA + iB) else (1, iA))
    \<and> sqlite3SubInt64 iA iB = Some (if in_i64 (iA - iB) then (0, iA - iB) else (1, iA))
    \<and> sqlite3MulInt64 iA iB = Some (if in_i64 (iA * iB) then (0, iA * iB) else (1, iA))"
  using sqlite3AddInt64_checked [OF assms] sqlite3SubInt64_checked [OF assms]
    sqlite3MulInt64_checked [OF assms]
  by (simp add: checked_def)

theorem checked_int64_exact_witness:
  "sqlite3MulInt64 (- 9223372036854775808) (- 1) = Some (1, - 9223372036854775808)
   \<and> sqlite3AddInt64 (- 9223372036854775808) (- 1) = Some (1, - 9223372036854775808)
   \<and> sqlite3SubInt64 (- 9223372036854775808) (- 1) = Some (0, - 9223372036854775807)"
proof -
  have "in_i64 (- 9223372036854775808)" "in_i64 (- 1)" by (simp_all add: in_i64_def i64_bounds)
  from checked_int64_exact [OF this] show ?thesis by (simp add: in_i64_def i64_bounds)
qed

lemma sqlite3AbsInt32_saturates:
  "in_i32 x \<Longrightarrow> sqlite3AbsInt32 x = Some (min \<bar>x\<bar> 2147483647)"
  by (auto simp: sqlite3AbsInt32_def i32_def in_i32_def)

subsection \<open>Logarithmic estimates\<close>

text \<open>
  A \<open>LogEst\<close> is a 16-bit signed integer; \<open>to_i16\<close> is the conversion of an \<open>int\<close> to it. The two
  loops that normalise the argument of \<open>sqlite3LogEst\<close> are functions of the pair \<open>(x, y)\<close>.
\<close>

definition to_i16 :: "int \<Rightarrow> int" where
  "to_i16 x = (x + 32768) mod 65536 - 32768"

definition LogEstAdd_x :: "int list" where
  "LogEstAdd_x =
    [10, 10, 9, 9, 8, 8, 7, 7, 7, 6, 6, 6, 5, 5, 5, 4, 4, 4, 4, 3, 3, 3, 3, 3, 3,
     2, 2, 2, 2, 2, 2, 2]"

definition sqlite3LogEstAdd :: "int \<Rightarrow> int \<Rightarrow> int" where
  "sqlite3LogEstAdd a b =
     to_i16
      (if b \<le> a
       then if b + 49 < a then a
            else if b + 31 < a then a + 1
            else a + LogEstAdd_x ! nat (a - b)
       else if a + 49 < b then b
            else if a + 31 < b then b + 1
            else b + LogEstAdd_x ! nat (b - a))"

definition LogEst_a :: "int list" where
  "LogEst_a = [0, 2, 3, 5, 6, 7, 8, 9]"

function LogEst_up :: "u64 \<Rightarrow> int \<Rightarrow> u64 \<times> int" where
  "LogEst_up x y = (if 2 \<le> x \<and> x < 8 then LogEst_up (push_bit 1 x) (y - 10) else (x, y))"
  by pat_completeness auto
termination
  by (relation "measure (\<lambda>(x, y). 8 - unat x)")
    (auto simp: word_less_nat_alt word_le_nat_alt unat_word_ariths push_bit_eq_mult)

function LogEst_down4 :: "u64 \<Rightarrow> int \<Rightarrow> u64 \<times> int" where
  "LogEst_down4 x y = (if 255 < x then LogEst_down4 (drop_bit 4 x) (y + 40) else (x, y))"
  by pat_completeness auto
termination
  by (relation "measure (\<lambda>(x, y). unat x)")
    (auto simp: word_less_nat_alt drop_bit_eq_div unat_div)

function LogEst_down1 :: "u64 \<Rightarrow> int \<Rightarrow> u64 \<times> int" where
  "LogEst_down1 x y = (if 15 < x then LogEst_down1 (drop_bit 1 x) (y + 10) else (x, y))"
  by pat_completeness auto
termination
  by (relation "measure (\<lambda>(x, y). unat x)")
    (auto simp: word_less_nat_alt drop_bit_eq_div unat_div)

declare LogEst_up.simps [simp del] LogEst_down4.simps [simp del] LogEst_down1.simps [simp del]

definition sqlite3LogEst :: "u64 \<Rightarrow> int" where
  "sqlite3LogEst x =
     (if x < 2 then 0
      else let (x', y) = (if x < 8 then LogEst_up x 40
                          else let (x4, y4) = LogEst_down4 x 40 in LogEst_down1 x4 y4)
           in to_i16 (LogEst_a ! unat (x' AND 7) + y - 10))"

lemma LogEstAdd_x_bounds: "k < 32 \<Longrightarrow> 2 \<le> LogEstAdd_x ! k \<and> LogEstAdd_x ! k \<le> 10"
proof -
  assume "k < 32"
  then have "LogEstAdd_x ! k \<in> set LogEstAdd_x" by (intro nth_mem) (simp add: LogEstAdd_x_def)
  then show ?thesis by (auto simp: LogEstAdd_x_def)
qed

lemma to_i16_id: "- 32768 \<le> x \<Longrightarrow> x \<le> 32767 \<Longrightarrow> to_i16 x = x"
  by (simp add: to_i16_def)

text \<open>One step of each loop keeps the relation between the argument and the pair \<open>(x, y)\<close>.\<close>

lemma LogEst_down1_spec:
  assumes "8 \<le> x"
  shows "\<exists>i. LogEst_down1 x y = (of_nat (unat x div 2 ^ i), y + 10 * int i)
           \<and> 8 \<le> unat x div 2 ^ i \<and> unat x div 2 ^ i \<le> 15"
  using assms
proof (induction x y rule: LogEst_down1.induct)
  case (1 x y)
  show ?case
  proof (cases "15 < x")
    case True
    have half: "unat (drop_bit 1 x) = unat x div 2"
      by (simp add: drop_bit_eq_div unat_div)
    have "8 \<le> drop_bit 1 x"
      using True half by (simp add: word_le_nat_alt word_less_nat_alt)
    from "1.IH" [OF True this] obtain i where
      i: "LogEst_down1 (drop_bit 1 x) (y + 10) = (of_nat (unat x div 2 div 2 ^ i), y + 10 + 10 * int i)"
        "8 \<le> unat x div 2 div 2 ^ i" "unat x div 2 div 2 ^ i \<le> 15"
      unfolding half by auto
    show ?thesis
      by (rule exI [of _ "Suc i"])
        (use True i in \<open>simp add: LogEst_down1.simps [of x y] div_mult2_eq [symmetric] mult.commute\<close>)
  next
    case False
    with "1.prems" show ?thesis
      by (intro exI [of _ 0])
        (simp add: LogEst_down1.simps [of x y] word_le_nat_alt word_less_nat_alt)
  qed
qed

lemma LogEst_down4_spec:
  assumes "8 \<le> x"
  shows "\<exists>i. LogEst_down4 x y = (of_nat (unat x div 2 ^ (4 * i)), y + 40 * int i)
           \<and> 8 \<le> unat x div 2 ^ (4 * i)"
  using assms
proof (induction x y rule: LogEst_down4.induct)
  case (1 x y)
  show ?case
  proof (cases "255 < x")
    case True
    have part: "unat (drop_bit 4 x) = unat x div 16"
      by (simp add: drop_bit_eq_div unat_div)
    have "8 \<le> drop_bit 4 x"
      using True part by (simp add: word_le_nat_alt word_less_nat_alt)
    from "1.IH" [OF True this] obtain i where
      i: "LogEst_down4 (drop_bit 4 x) (y + 40) = (of_nat (unat x div 16 div 2 ^ (4 * i)), y + 40 + 40 * int i)"
        "8 \<le> unat x div 16 div 2 ^ (4 * i)"
      unfolding part by auto
    show ?thesis
      by (rule exI [of _ "Suc i"])
        (use True i in \<open>simp add: LogEst_down4.simps [of x y] power_add div_mult2_eq [symmetric] mult.commute\<close>)
  next
    case False
    with "1.prems" show ?thesis
      by (intro exI [of _ 0]) (simp add: LogEst_down4.simps [of x y] word_le_nat_alt)
  qed
qed

lemma LogEst_normal:
  assumes "8 \<le> x"
  shows "\<exists>i. (let (x4, y4) = LogEst_down4 x 40 in LogEst_down1 x4 y4)
           = (of_nat (unat x div 2 ^ i), 40 + 10 * int i)
         \<and> 8 \<le> unat x div 2 ^ i \<and> unat x div 2 ^ i \<le> 15"
proof -
  from LogEst_down4_spec [OF assms] obtain j where
    j: "LogEst_down4 x 40 = (of_nat (unat x div 2 ^ (4 * j)), 40 + 40 * int j)"
      "8 \<le> unat x div 2 ^ (4 * j)"
    by blast
  let ?x4 = "of_nat (unat x div 2 ^ (4 * j)) :: u64"
  have ux4: "unat ?x4 = unat x div 2 ^ (4 * j)"
  proof (rule unat_of_nat_less)
    have "unat x div 2 ^ (4 * j) \<le> unat x" by simp
    also have "\<dots> < 2 ^ LENGTH(64)" by (rule unsigned_less)
    finally show "unat x div 2 ^ (4 * j) < 2 ^ LENGTH(64)" .
  qed
  have "8 \<le> ?x4" using j(2) ux4 by (simp add: word_le_nat_alt)
  from LogEst_down1_spec [OF this, of "40 + 40 * int j"] obtain i where
    "LogEst_down1 ?x4 (40 + 40 * int j) = (of_nat (unat ?x4 div 2 ^ i), 40 + 40 * int j + 10 * int i)"
    "8 \<le> unat ?x4 div 2 ^ i" "unat ?x4 div 2 ^ i \<le> 15"
    by blast
  moreover have "unat x div 2 ^ (4 * j) div 2 ^ i = unat x div 2 ^ (4 * j + i)"
    by (simp add: power_add div_mult2_eq)
  ultimately show ?thesis by (intro exI [of _ "4 * j + i"]) (simp add: j ux4)
qed

lemma scaled_power_bounds:
  fixes X m i L :: nat
  assumes m: "m = X div 2 ^ i" and L: "L = k + 10 * i"
    and lo: "2 ^ k \<le> 2 * m ^ 10" and hi: "(m + 1) ^ 10 \<le> 4 * 2 ^ k"
  shows "2 ^ L \<le> 2 * X ^ 10 \<and> X ^ 10 < 4 * 2 ^ L"
proof
  have pow: "(2 ^ L :: nat) = 2 ^ k * (2 ^ i) ^ 10"
    by (simp add: L power_add power_mult [symmetric] mult.commute)
  have "2 ^ L \<le> 2 * m ^ 10 * (2 ^ i) ^ 10" using lo by (simp add: pow)
  also have "\<dots> = 2 * (m * 2 ^ i) ^ 10" by (simp add: power_mult_distrib)
  also have "\<dots> \<le> 2 * X ^ 10" by (simp add: m power_mono)
  finally show "2 ^ L \<le> 2 * X ^ 10" .
  have "X < (m + 1) * 2 ^ i"
    by (simp add: m) (metis add.commute dividend_less_div_times mult.commute zero_less_numeral zero_less_power)
  then have "X ^ 10 < ((m + 1) * 2 ^ i) ^ 10" by (simp add: power_strict_mono)
  also have "\<dots> = (m + 1) ^ 10 * (2 ^ i) ^ 10" by (rule power_mult_distrib)
  also have "\<dots> \<le> 4 * 2 ^ k * (2 ^ i) ^ 10" using hi by simp
  finally show "X ^ 10 < 4 * 2 ^ L" by (simp add: pow)
qed

lemma small_logest:
  assumes "1 \<le> x" "x < (8::u64)"
  shows "(unat x, sqlite3LogEst x) \<in> {(1, 0), (2, 10), (3, 16), (4, 20), (5, 23), (6, 26), (7, 28)}"
proof -
  have "unat x \<in> {1, 2, 3, 4, 5, 6, 7}" using assms by (auto simp: word_le_nat_alt word_less_nat_alt)
  then have "x \<in> {1, 2, 3, 4, 5, 6, 7}" by (simp add: word_unat_eq_iff)
  then consider "x = 1" | "x = 2" | "x = 3" | "x = 4" | "x = 5" | "x = 6" | "x = 7" by blast
  then show ?thesis
    by cases (simp_all add: sqlite3LogEst_def LogEst_up.simps LogEst_a_def to_i16_def)
qed

lemma LogEst_table_bounds:
  assumes "8 \<le> m" "m \<le> (15::nat)"
  shows "0 \<le> LogEst_a ! (m - 8) \<and> LogEst_a ! (m - 8) \<le> 9
    \<and> 2 ^ nat (LogEst_a ! (m - 8) + 30) \<le> 2 * m ^ 10
    \<and> (m + 1) ^ 10 \<le> 4 * 2 ^ nat (LogEst_a ! (m - 8) + 30)"
proof -
  from assms have "m \<in> {8, 9, 10, 11, 12, 13, 14, 15}" by auto
  then show ?thesis by (auto simp: LogEst_a_def)
qed

lemma and_7_shift: "8 \<le> m \<Longrightarrow> m \<le> 15 \<Longrightarrow> unat ((of_nat m :: u64) AND 7) = m - 8"
proof -
  assume "8 \<le> m" "m \<le> 15"
  then have "m \<in> {8, 9, 10, 11, 12, 13, 14, 15}" by auto
  then show ?thesis by auto
qed

lemma large_logest:
  assumes "8 \<le> x"
  shows "0 \<le> sqlite3LogEst x \<and> 2 ^ nat (sqlite3LogEst x) \<le> 2 * unat x ^ 10
    \<and> unat x ^ 10 < 4 * 2 ^ nat (sqlite3LogEst x)"
proof -
  from LogEst_normal [OF assms] obtain i where
    i: "(let (x4, y4) = LogEst_down4 x 40 in LogEst_down1 x4 y4)
          = (of_nat (unat x div 2 ^ i), 40 + 10 * int i)"
    and m: "8 \<le> unat x div 2 ^ i" "unat x div 2 ^ i \<le> 15"
    by blast
  define m where "m = unat x div 2 ^ i"
  define k where "k = nat (LogEst_a ! (m - 8) + 30)"
  note tab = LogEst_table_bounds [OF m, folded m_def]
  have "i < 64"
  proof (rule ccontr)
    assume "\<not> i < 64"
    then have "(2::nat) ^ 64 \<le> 2 ^ i" by (intro power_increasing) simp_all
    then have "unat x div 2 ^ i = 0" using unsigned_less [of x, where ?'a = nat] by simp
    with m show False by simp
  qed
  moreover have "\<not> x < 2" "\<not> x < 8" using assms by (auto simp: word_le_nat_alt word_less_nat_alt)
  ultimately have val: "sqlite3LogEst x = LogEst_a ! (m - 8) + 30 + 10 * int i"
    using tab by (simp add: sqlite3LogEst_def i and_7_shift [OF m, folded m_def] flip: m_def)
      (simp add: to_i16_def)
  then have "nat (sqlite3LogEst x) = k + 10 * i" using tab by (simp add: k_def nat_add_distrib)
  from scaled_power_bounds [OF m_def this] tab val show ?thesis by (simp add: k_def)
qed

text \<open>
  \<open>sqlite3LogEst\<close> is an integer approximation of ten times the binary logarithm, at the
  accuracy the query planner relies on: for every non-zero 64-bit \<open>x\<close> the estimate \<open>L\<close> is
  non-negative and satisfies \<open>10 log2 x - 2 < L\<close> and \<open>L \<le> 10 log2 x + 1\<close> (stated without logarithms).
\<close>

theorem LogEst_accuracy:
  assumes "x \<noteq> 0"
  shows "0 \<le> sqlite3LogEst x
    \<and> 2 ^ nat (sqlite3LogEst x) \<le> 2 * unat x ^ 10
    \<and> unat x ^ 10 < 4 * 2 ^ nat (sqlite3LogEst x)"
proof (cases "8 \<le> x")
  case True
  then show ?thesis by (rule large_logest)
next
  case False
  then have "x < 8" by (simp add: not_le)
  moreover have "1 \<le> x" using assms by (simp add: word_le_nat_alt Suc_le_eq unat_gt_0)
  ultimately have "1 \<le> x" "x < 8" by simp_all
  from small_logest [OF this] show ?thesis by auto
qed

theorem LogEst_accuracy_witness:
  "sqlite3LogEst 1000 = 99 \<and> 2 ^ 99 \<le> 2 * (1000::nat) ^ 10 \<and> (1000::nat) ^ 10 < 4 * 2 ^ 99"
proof -
  have v: "sqlite3LogEst 1000 = 99"
    by (simp add: sqlite3LogEst_def LogEst_down4.simps LogEst_down1.simps LogEst_a_def to_i16_def)
  have "(1000::u64) \<noteq> 0" by simp
  from LogEst_accuracy [OF this] show ?thesis by (simp add: v)
qed

text \<open>
  \<open>sqlite3LogEstAdd\<close> adds two estimates: it is symmetric and its result lies between the larger
  argument and the larger argument plus ten (the estimate of doubling), for all 16-bit arguments
  whose maximum leaves room for ten; adding two equal estimates gains exactly ten.
\<close>

theorem LogEstAdd_bounds:
  assumes "- 32768 \<le> a" "- 32768 \<le> b" "max a b \<le> 32757"
  shows "sqlite3LogEstAdd a b = sqlite3LogEstAdd b a
    \<and> max a b \<le> sqlite3LogEstAdd a b
    \<and> sqlite3LogEstAdd a b \<le> max a b + 10
    \<and> sqlite3LogEstAdd a a = a + 10"
proof -
  have tab: "2 \<le> LogEstAdd_x ! nat d \<and> LogEstAdd_x ! nat d \<le> 10" if "0 \<le> d" "d \<le> 31" for d
    using that LogEstAdd_x_bounds [of "nat d"] by simp
  have "LogEstAdd_x ! 0 = 10" by (simp add: LogEstAdd_x_def)
  then show ?thesis
    using assms tab [of "a - b"] tab [of "b - a"]
    by (auto simp: sqlite3LogEstAdd_def to_i16_id)
qed

theorem LogEstAdd_bounds_witness: "sqlite3LogEstAdd 33 40 = sqlite3LogEstAdd 40 33
  \<and> 40 \<le> sqlite3LogEstAdd 33 40 \<and> sqlite3LogEstAdd 33 40 \<le> 50 \<and> sqlite3LogEstAdd 33 33 = 43"
  using LogEstAdd_bounds [of 33 40] by simp

end
