(* ===== verification/Varint.thy ===== *)
theory Varint
  imports Prelude
begin

text \<open>
  The variable-length integers of SQLite's record format: the writer, the two hand-unrolled
  readers and the length function of \<open>util.c\<close>, with the big-endian 4-byte accessors
  (\<open>src/src/db/sqlite3/core/sqlite3.c\<close>, lines 32921 to 33361).

  A writer takes the memory at its pointer and returns the updated memory and the number of bytes
  written; a reader returns the value and the number of bytes read. \<open>varint_ref\<close> is the
  byte-at-a-time reference decoder that the format's description in the source gives.
\<close>

unbundle bit_operations_syntax

subsection \<open>Writing\<close>

fun putVarint9_loop :: "mem \<Rightarrow> u64 \<Rightarrow> nat \<Rightarrow> mem" where
  "putVarint9_loop p v 0 = p"
| "putVarint9_loop p v (Suc i) =
     putVarint9_loop (p(i := ucast ((v AND 0x7f) OR 0x80))) (drop_bit 7 v) i"

function putVarint_buf :: "u64 \<Rightarrow> u8 list" where
  "putVarint_buf v =
     ucast ((v AND 0x7f) OR 0x80) #
       (if drop_bit 7 v \<noteq> 0 then putVarint_buf (drop_bit 7 v) else [])"
  by pat_completeness auto
termination
  by (relation "measure unat")
    (simp_all add: unat_drop_bit_less)

declare putVarint_buf.simps [simp del]

definition putVarint64 :: "mem \<Rightarrow> u64 \<Rightarrow> mem \<times> nat" where
  "putVarint64 p v =
     (if v AND push_bit 32 0xff000000 \<noteq> 0
      then (putVarint9_loop (p(8 := ucast v)) (drop_bit 8 v) 8, 9)
      else let buf = putVarint_buf v;
               buf = buf[0 := hd buf AND 0x7f]
           in (mem_write p 0 (rev buf), length buf))"

definition sqlite3PutVarint :: "mem \<Rightarrow> u64 \<Rightarrow> mem \<times> nat" where
  "sqlite3PutVarint p v =
     (if v \<le> 0x7f then (p(0 := ucast (v AND 0x7f)), 1)
      else if v \<le> 0x3fff
      then (p(0 := ucast ((drop_bit 7 v AND 0x7f) OR 0x80), 1 := ucast (v AND 0x7f)), 2)
      else putVarint64 p v)"

function sqlite3VarintLen_loop :: "u64 \<Rightarrow> nat \<Rightarrow> nat" where
  "sqlite3VarintLen_loop v i =
     (let v' = drop_bit 7 v in if v' \<noteq> 0 then sqlite3VarintLen_loop v' (i + 1) else i)"
  by pat_completeness auto
termination
  by (relation "measure (\<lambda>(v, i). unat v)")
    (simp_all add: unat_drop_bit_less)

declare sqlite3VarintLen_loop.simps [simp del]

definition sqlite3VarintLen :: "u64 \<Rightarrow> nat" where
  "sqlite3VarintLen v = sqlite3VarintLen_loop v 1"

subsection \<open>Reading\<close>

definition SLOT_2_0 :: u32 where "SLOT_2_0 = 0x001fc07f"
definition SLOT_4_2_0 :: u32 where "SLOT_4_2_0 = 0xf01fc07f"

definition join64 :: "u32 \<Rightarrow> u32 \<Rightarrow> u64" where
  "join64 s a = push_bit 32 (ucast s) OR ucast a"

definition sqlite3GetVarint :: "mem \<Rightarrow> u64 \<times> nat" where
  "sqlite3GetVarint p =
    (if 0 \<le> sint (p 0) then (ucast (p 0), 1)
     else if 0 \<le> sint (p 1) then (ucast (push_bit 7 (ucast (p 0 AND 0x7f) :: u32) OR ucast (p 1)), 2)
     else let a = push_bit 14 (ucast (p 0)) :: u32; b = ucast (p 1) :: u32;
              a = a OR ucast (p 2) in
     if a AND 0x80 = 0
     then let a = a AND SLOT_2_0; b = b AND 0x7f; b = push_bit 7 b; a = a OR b in (ucast a, 3)
     else let a = a AND SLOT_2_0; b = push_bit 14 b; b = b OR ucast (p 3) in
     if b AND 0x80 = 0
     then let b = b AND SLOT_2_0; a = push_bit 7 a; a = a OR b in (ucast a, 4)
     else let b = b AND SLOT_2_0; s = a; a = push_bit 14 a; a = a OR ucast (p 4) in
     if a AND 0x80 = 0
     then let b = push_bit 7 b; a = a OR b; s = drop_bit 18 s in (join64 s a, 5)
     else let s = push_bit 7 s; s = s OR b; b = push_bit 14 b; b = b OR ucast (p 5) in
     if b AND 0x80 = 0
     then let a = a AND SLOT_2_0; a = push_bit 7 a; a = a OR b; s = drop_bit 18 s in (join64 s a, 6)
     else let a = push_bit 14 a; a = a OR ucast (p 6) in
     if a AND 0x80 = 0
     then let a = a AND SLOT_4_2_0; b = b AND SLOT_2_0; b = push_bit 7 b; a = a OR b;
              s = drop_bit 11 s in (join64 s a, 7)
     else let a = a AND SLOT_2_0; b = push_bit 14 b; b = b OR ucast (p 7) in
     if b AND 0x80 = 0
     then let b = b AND SLOT_4_2_0; a = push_bit 7 a; a = a OR b; s = drop_bit 4 s in (join64 s a, 8)
     else let a = push_bit 15 a; a = a OR ucast (p 8);
              b = b AND SLOT_2_0; b = push_bit 8 b; a = a OR b;
              s = push_bit 4 s; b = ucast (p 4); b = b AND 0x7f; b = drop_bit 3 b; s = s OR b
          in (join64 s a, 9))"

definition sqlite3GetVarint32 :: "mem \<Rightarrow> u32 \<times> nat" where
  "sqlite3GetVarint32 p =
    (let a = ucast (p 0) :: u32 in
     let b = ucast (p 1) :: u32 in
     if b AND 0x80 = 0 then (push_bit 7 (a AND 0x7f) OR b, 2)
     else let a = push_bit 14 a; a = a OR ucast (p 2) in
     if a AND 0x80 = 0
     then let a = a AND (push_bit 14 0x7f OR 0x7f); b = b AND 0x7f; b = push_bit 7 b in (a OR b, 3)
     else let (v64, n) = sqlite3GetVarint p in
       (if v64 AND 0xffffffff \<noteq> v64 then 0xffffffff else ucast v64, n))"

text \<open>The macro \<open>getVarint32\<close> handles the single-byte case in line and calls the function otherwise.\<close>

definition getVarint32 :: "mem \<Rightarrow> u32 \<times> nat" where
  "getVarint32 p = (if p 0 < 0x80 then (ucast (p 0), 1) else sqlite3GetVarint32 p)"

definition sqlite3Get4byte :: "mem \<Rightarrow> u32" where
  "sqlite3Get4byte p =
     push_bit 24 (ucast (p 0)) OR push_bit 16 (ucast (p 1)) OR push_bit 8 (ucast (p 2)) OR ucast (p 3)"

definition sqlite3Put4byte :: "mem \<Rightarrow> u32 \<Rightarrow> mem" where
  "sqlite3Put4byte p v =
     p(0 := ucast (drop_bit 24 v), 1 := ucast (drop_bit 16 v), 2 := ucast (drop_bit 8 v), 3 := ucast v)"

text \<open>
  The format as its description in the source gives it, one byte at a time: \<open>k\<close> bytes have been
  read and \<open>acc\<close> holds their bits.
\<close>

fun varint_ref :: "nat \<Rightarrow> u64 \<Rightarrow> u8 list \<Rightarrow> u64 \<times> nat" where
  "varint_ref k acc [] = (acc, k)"
| "varint_ref k acc (b # bs) =
     (if k = 8 then (push_bit 8 acc OR ucast b, 9)
      else if bit b 7 then varint_ref (Suc k) (push_bit 7 acc OR ucast (b AND 0x7f)) bs
      else (push_bit 7 acc OR ucast b, Suc k))"

subsection \<open>The unrolled readers compute the format\<close>

lemma sint_u8_nonneg: "0 \<le> sint (x::u8) \<longleftrightarrow> \<not> bit x 7"
  by (simp add: sint_uint signed_take_bit_nonnegative_iff bit_uint_iff)

lemma and_128_eq_0: "(a::u32) AND 0x80 = 0 \<longleftrightarrow> \<not> bit a 7"
  using bit_iff_and_push_bit_not_eq_0 [of a 7] by simp

lemma mem_bytes_9: "mem_bytes p 9 = [p 0, p 1, p 2, p 3, p 4, p 5, p 6, p 7, p 8]"
proof -
  have "[0..<9] = [0, 1, 2, 3, 4, 5, 6, 7, 8]" by code_simp
  then show ?thesis by (simp add: mem_bytes_def)
qed

lemmas varint_unfold =
  mem_bytes_9 sqlite3GetVarint_def Let_def sint_u8_nonneg and_128_eq_0 join64_def SLOT_2_0_def
  SLOT_4_2_0_def bit_or_iff bit_and_iff bit_push_bit_iff bit_unsigned_iff bit_drop_bit_eq

text \<open>
  The nine branches of the unrolled reader, each an identity of 64-bit words in the bytes read,
  decided bit by bit.
\<close>

lemma GetVarint_ref_1: "\<not> bit (p 0) 7 \<Longrightarrow> sqlite3GetVarint p = varint_ref 0 0 (mem_bytes p 9)"
  by (simp add: varint_unfold word64_eq_bits u8_bit_high)

lemma GetVarint_ref_2:
  "bit (p 0) 7 \<Longrightarrow> \<not> bit (p 1) 7 \<Longrightarrow> sqlite3GetVarint p = varint_ref 0 0 (mem_bytes p 9)"
  by (simp add: varint_unfold word64_eq_bits u8_bit_high)

lemma GetVarint_ref_3:
  "bit (p 0) 7 \<Longrightarrow> bit (p 1) 7 \<Longrightarrow> \<not> bit (p 2) 7 \<Longrightarrow>
   sqlite3GetVarint p = varint_ref 0 0 (mem_bytes p 9)"
  by (simp add: varint_unfold word64_eq_bits u8_bit_high)

lemma GetVarint_ref_4:
  "bit (p 0) 7 \<Longrightarrow> bit (p 1) 7 \<Longrightarrow> bit (p 2) 7 \<Longrightarrow> \<not> bit (p 3) 7 \<Longrightarrow>
   sqlite3GetVarint p = varint_ref 0 0 (mem_bytes p 9)"
  by (simp add: varint_unfold word64_eq_bits u8_bit_high)

lemma GetVarint_ref_5:
  "bit (p 0) 7 \<Longrightarrow> bit (p 1) 7 \<Longrightarrow> bit (p 2) 7 \<Longrightarrow> bit (p 3) 7 \<Longrightarrow> \<not> bit (p 4) 7 \<Longrightarrow>
   sqlite3GetVarint p = varint_ref 0 0 (mem_bytes p 9)"
  by (simp add: varint_unfold word64_eq_bits u8_bit_high)

lemma GetVarint_ref_6:
  "bit (p 0) 7 \<Longrightarrow> bit (p 1) 7 \<Longrightarrow> bit (p 2) 7 \<Longrightarrow> bit (p 3) 7 \<Longrightarrow> bit (p 4) 7 \<Longrightarrow>
   \<not> bit (p 5) 7 \<Longrightarrow> sqlite3GetVarint p = varint_ref 0 0 (mem_bytes p 9)"
  by (simp add: varint_unfold word64_eq_bits u8_bit_high)

lemma GetVarint_ref_7:
  "bit (p 0) 7 \<Longrightarrow> bit (p 1) 7 \<Longrightarrow> bit (p 2) 7 \<Longrightarrow> bit (p 3) 7 \<Longrightarrow> bit (p 4) 7 \<Longrightarrow>
   bit (p 5) 7 \<Longrightarrow> \<not> bit (p 6) 7 \<Longrightarrow> sqlite3GetVarint p = varint_ref 0 0 (mem_bytes p 9)"
  by (simp add: varint_unfold word64_eq_bits u8_bit_high)

lemma GetVarint_ref_8:
  "bit (p 0) 7 \<Longrightarrow> bit (p 1) 7 \<Longrightarrow> bit (p 2) 7 \<Longrightarrow> bit (p 3) 7 \<Longrightarrow> bit (p 4) 7 \<Longrightarrow>
   bit (p 5) 7 \<Longrightarrow> bit (p 6) 7 \<Longrightarrow> \<not> bit (p 7) 7 \<Longrightarrow>
   sqlite3GetVarint p = varint_ref 0 0 (mem_bytes p 9)"
  by (simp add: varint_unfold word64_eq_bits u8_bit_high)

lemma GetVarint_ref_9:
  "bit (p 0) 7 \<Longrightarrow> bit (p 1) 7 \<Longrightarrow> bit (p 2) 7 \<Longrightarrow> bit (p 3) 7 \<Longrightarrow> bit (p 4) 7 \<Longrightarrow>
   bit (p 5) 7 \<Longrightarrow> bit (p 6) 7 \<Longrightarrow> bit (p 7) 7 \<Longrightarrow>
   sqlite3GetVarint p = varint_ref 0 0 (mem_bytes p 9)"
  by (simp add: varint_unfold word64_eq_bits u8_bit_high)

lemma GetVarint_ref: "sqlite3GetVarint p = varint_ref 0 0 (mem_bytes p 9)"
  using GetVarint_ref_1 [of p] GetVarint_ref_2 [of p] GetVarint_ref_3 [of p] GetVarint_ref_4 [of p]
    GetVarint_ref_5 [of p] GetVarint_ref_6 [of p] GetVarint_ref_7 [of p] GetVarint_ref_8 [of p]
    GetVarint_ref_9 [of p]
  by blast

subsection \<open>What the writer stores\<close>

lemma groups_join: "push_bit 7 (drop_bit 7 v) OR (v AND 0x7f) = (v::u64)"
  by (simp add: word64_eq_bits bit_or_iff bit_and_iff bit_push_bit_iff bit_drop_bit_eq)

lemma ucast_group: "bit (ucast ((v AND 0x7f) OR 0x80 :: u64) :: u8) 7"
  by (simp add: bit_simps)

lemma ucast_group_value:
  "(ucast ((ucast ((v AND 0x7f) OR 0x80 :: u64) :: u8) AND 0x7f) :: u64) = v AND 0x7f"
  by (simp add: word64_eq_bits bit_or_iff bit_and_iff bit_unsigned_iff)

lemma ucast_last: "(ucast (ucast (v AND 0x7f :: u64) :: u8) :: u64) = v AND 0x7f"
  by (simp add: word64_eq_bits bit_and_iff bit_unsigned_iff)

lemma last_bit_clear: "\<not> bit (ucast (v AND 0x7f :: u64) :: u8) 7"
  by (simp add: bit_simps)

lemma varint_ref_groups:
  assumes "k + length (putVarint_buf w) \<le> 8"
  shows "varint_ref k acc (rev (putVarint_buf w) @ xs) =
    varint_ref (k + length (putVarint_buf w)) (push_bit (7 * length (putVarint_buf w)) acc OR w) xs"
  using assms
proof (induction w arbitrary: xs rule: putVarint_buf.induct)
  case (1 w)
  let ?b = "ucast ((w AND 0x7f) OR 0x80) :: u8"
  show ?case
  proof (cases "drop_bit 7 w = 0")
    case True
    then have "w AND 0x7f = w" using groups_join [of w] by simp
    with True 1(2) show ?thesis
      using ucast_group [of w] ucast_group_value [of w]
      by (simp add: putVarint_buf.simps [of w])
  next
    case False
    let ?n = "length (putVarint_buf (drop_bit 7 w))"
    have n: "length (putVarint_buf w) = Suc ?n"
      using False by (simp add: putVarint_buf.simps [of w])
    have "varint_ref k acc (rev (putVarint_buf w) @ xs) =
        varint_ref k acc (rev (putVarint_buf (drop_bit 7 w)) @ ?b # xs)"
      using False by (simp add: putVarint_buf.simps [of w])
    also have "\<dots> = varint_ref (k + ?n) (push_bit (7 * ?n) acc OR drop_bit 7 w) (?b # xs)"
      using 1 False n by simp
    also have "\<dots> = varint_ref (Suc (k + ?n))
        (push_bit 7 (push_bit (7 * ?n) acc OR drop_bit 7 w) OR (w AND 0x7f)) xs"
      using "1.prems" n by (simp add: ucast_group ucast_group_value)
    also have "push_bit 7 (push_bit (7 * ?n) acc OR drop_bit 7 w) OR (w AND 0x7f)
        = push_bit (7 * Suc ?n) acc OR w"
      using groups_join [of w] by (simp add: push_bit_or or.assoc)
    finally show ?thesis by (simp add: n)
  qed
qed

lemma length_putVarint_buf:
  "unat v < 2 ^ (7 * n) \<Longrightarrow> 0 < n \<Longrightarrow> length (putVarint_buf v) \<le> n"
proof (induction v arbitrary: n rule: putVarint_buf.induct)
  case (1 v)
  show ?case
  proof (cases "drop_bit 7 v = 0")
    case True
    with "1.prems" show ?thesis by (simp add: putVarint_buf.simps [of v] Suc_le_eq)
  next
    case False
    then have "0 < unat (drop_bit 7 v)" by (simp only: unat_gt_0) simp
    then have "128 \<le> unat v" by (simp add: unat_drop_bit div_greater_zero_iff)
    then obtain m where m: "n = Suc m" "0 < m"
      using "1.prems" by (cases n; cases "n - 1") simp_all
    have "unat (drop_bit 7 v) < 2 ^ (7 * m)"
      using "1.prems"(1) m by (simp add: unat_drop_bit less_mult_imp_div_less power_add mult.commute)
    from "1.IH" [OF False this m(2)] False show ?thesis
      by (simp add: putVarint_buf.simps [of v] m)
  qed
qed

lemma mem_bytes_mem_write:
  "length bs \<le> n \<Longrightarrow> mem_bytes (mem_write p 0 bs) n = bs @ map p [length bs..<n]"
  by (rule nth_equalityI) (auto simp: mem_write_apply nth_append mem_bytes_def)

lemma small_group: "unat v < 128 \<Longrightarrow> v AND 0x7f = (v::u64)"
  using groups_join [of v] drop_bit_eq_0 [of 7 v] by simp

lemma last_group:
  "(ucast ((v AND 0x7f) OR 0x80 :: u64) :: u8) AND 0x7f = ucast (v AND 0x7f)"
  by (simp add: word8_eq_bits bit_or_iff bit_and_iff bit_unsigned_iff)

lemma putVarint_bytes:
  "rev ((putVarint_buf v)[0 := hd (putVarint_buf v) AND 0x7f]) =
     (if drop_bit 7 v = 0 then [] else rev (putVarint_buf (drop_bit 7 v))) @ [ucast (v AND 0x7f)]"
  by (simp add: putVarint_buf.simps [of v] last_group)

text \<open>The reader decodes any memory that starts with the groups of \<open>v\<close>.\<close>

lemma varint_ref_encoded:
  assumes "unat v < 2 ^ 56"
  shows "varint_ref 0 0 (rev ((putVarint_buf v)[0 := hd (putVarint_buf v) AND 0x7f]) @ xs)
    = (v, length (putVarint_buf v))"
proof (cases "drop_bit 7 v = 0")
  case True
  then have "v AND 0x7f = v" using groups_join [of v] by simp
  with True show ?thesis
    using ucast_last [of v] last_bit_clear [of v] putVarint_buf.simps [of v]
    unfolding putVarint_bytes by simp
next
  case False
  let ?w = "drop_bit 7 v"
  have "unat ?w < 2 ^ (7 * 7)" using assms by (simp add: unat_drop_bit less_mult_imp_div_less)
  then have len: "length (putVarint_buf ?w) \<le> 7" by (rule length_putVarint_buf) simp
  then have "varint_ref 0 0 (rev (putVarint_buf ?w) @ ucast (v AND 0x7f) # xs) =
      varint_ref (length (putVarint_buf ?w)) ?w (ucast (v AND 0x7f) # xs)"
    using varint_ref_groups [of 0 ?w 0] by simp
  also have "\<dots> = (v, Suc (length (putVarint_buf ?w)))"
    using len by (simp add: last_bit_clear ucast_last groups_join)
  finally show ?thesis
    using False putVarint_buf.simps [of v] unfolding putVarint_bytes by simp
qed

lemma putVarint9_loop_apply:
  "putVarint9_loop p v n j =
     (if j < n then ucast ((drop_bit (7 * (n - 1 - j)) v AND 0x7f) OR 0x80) else p j)"
proof (induction n arbitrary: p v)
  case 0
  then show ?case by simp
next
  case (Suc n)
  then show ?case
    by (cases "j < n") (auto simp: less_Suc_eq drop_bit_drop_bit Suc_diff_Suc algebra_simps)
qed

lemma GetVarint_9_bytes:
  "sqlite3GetVarint (putVarint9_loop (p(8 := ucast v)) (drop_bit 8 v) 8) = (v, 9)"
  by (simp add: GetVarint_ref mem_bytes_9 putVarint9_loop_apply word64_eq_bits bit_or_iff bit_and_iff
      bit_unsigned_iff bit_push_bit_iff bit_drop_bit_eq u8_bit_high)

lemma top_byte_clear: "v AND push_bit 32 0xff000000 = 0 \<longleftrightarrow> unat (v::u64) < 2 ^ 56"
proof -
  have "v AND push_bit 32 0xff000000 = push_bit 56 (drop_bit 56 v)"
    by (simp add: word64_eq_bits bit_and_iff bit_push_bit_iff bit_drop_bit_eq)
  moreover have "push_bit 56 (drop_bit 56 v) = 0 \<longleftrightarrow> drop_bit 56 v = 0"
    by (simp add: word64_eq_bits bit_push_bit_iff bit_drop_bit_eq u64_bit_high)
  ultimately show ?thesis by (simp add: drop_bit_eq_0)
qed

lemma GetVarint_mem_write:
  assumes "length bs \<le> 9"
  shows "sqlite3GetVarint (mem_write p 0 bs) = varint_ref 0 0 (bs @ map p [length bs..<9])"
  using assms by (simp add: GetVarint_ref mem_bytes_mem_write)

lemma putVarint64_roundtrip:
  "case putVarint64 p v of (q, n) \<Rightarrow>
     sqlite3GetVarint q = (v, n) \<and> 1 \<le> n \<and> n \<le> 9 \<and> (\<forall>j \<ge> n. q j = p j)"
proof (cases "unat v < 2 ^ 56")
  case True
  let ?bs = "rev ((putVarint_buf v)[0 := hd (putVarint_buf v) AND 0x7f])"
  have len: "1 \<le> length (putVarint_buf v)" "length (putVarint_buf v) \<le> 8"
    using True length_putVarint_buf [of v 8] by (simp_all add: putVarint_buf.simps [of v])
  have "sqlite3GetVarint (mem_write p 0 ?bs) = (v, length (putVarint_buf v))"
    using len varint_ref_encoded [OF True] by (subst GetVarint_mem_write) simp_all
  with True len show ?thesis
    using top_byte_clear [of v] by (simp add: putVarint64_def Let_def mem_write_apply)
next
  case False
  then show ?thesis
    using top_byte_clear [of v]
    by (simp add: putVarint64_def GetVarint_9_bytes putVarint9_loop_apply)
qed

lemma PutVarint_1: "v \<le> 0x7f \<Longrightarrow> sqlite3PutVarint p v = (mem_write p 0 [ucast (v AND 0x7f)], 1)"
  by (simp add: sqlite3PutVarint_def)

lemma PutVarint_2:
  "\<not> v \<le> 0x7f \<Longrightarrow> v \<le> 0x3fff \<Longrightarrow> sqlite3PutVarint p v =
     (mem_write p 0 [ucast ((drop_bit 7 v AND 0x7f) OR 0x80), ucast (v AND 0x7f)], 2)"
  by (simp add: sqlite3PutVarint_def)

lemma PutVarint_roundtrip:
  "case sqlite3PutVarint p v of (q, n) \<Rightarrow>
     sqlite3GetVarint q = (v, n) \<and> 1 \<le> n \<and> n \<le> 9 \<and> (\<forall>j \<ge> n. q j = p j)"
proof -
  consider "v \<le> 0x7f" | "\<not> v \<le> 0x7f" "v \<le> 0x3fff" | "\<not> v \<le> 0x7f" "\<not> v \<le> 0x3fff" by blast
  then show ?thesis
  proof cases
    case 1
    then have "v AND 0x7f = v" by (intro small_group) (simp add: word_le_nat_alt)
    then show ?thesis
      using 1 ucast_last [of v] last_bit_clear [of v]
      by (simp add: PutVarint_1 GetVarint_mem_write mem_write_apply del: mem_write.simps)
  next
    case 2
    then have "drop_bit 7 v AND 0x7f = drop_bit 7 v"
      by (intro small_group) (simp add: word_le_nat_alt unat_drop_bit)
    then show ?thesis
      using 2 ucast_group [of "drop_bit 7 v"] ucast_group_value [of "drop_bit 7 v"]
        last_bit_clear [of v] ucast_last [of v] groups_join [of v]
      by (simp add: PutVarint_2 GetVarint_mem_write mem_write_apply del: mem_write.simps)
  next
    case 3
    then show ?thesis using putVarint64_roundtrip [where p = p and v = v] by (simp add: sqlite3PutVarint_def)
  qed
qed

lemma length_putVarint_buf_lower:
  "2 ^ (7 * n) \<le> unat v \<Longrightarrow> n < length (putVarint_buf v)"
proof (induction n arbitrary: v)
  case 0
  then show ?case by (simp add: putVarint_buf.simps [of v])
next
  case (Suc n)
  have le: "2 ^ (7 * n) \<le> unat (drop_bit 7 v)"
    using Suc.prems by (simp add: unat_drop_bit less_eq_div_iff_mult_less_eq power_add mult.commute)
  then have "drop_bit 7 v \<noteq> 0"
    using less_le_trans [of 0 "2 ^ (7 * n)" "unat (drop_bit 7 v)"] by auto
  with Suc.IH [OF le] show ?case by (simp add: putVarint_buf.simps [of v])
qed

lemma VarintLen_buf: "sqlite3VarintLen v = length (putVarint_buf v)"
proof -
  have "sqlite3VarintLen_loop v i + 1 = i + length (putVarint_buf v)" for v i
  proof (induction v i rule: sqlite3VarintLen_loop.induct)
    case (1 v i)
    then show ?case
      by (simp add: sqlite3VarintLen_loop.simps [of v i] putVarint_buf.simps [of v] Let_def)
  qed
  from this [of v 1] show ?thesis by (simp add: sqlite3VarintLen_def)
qed

lemma PutVarint_len:
  "snd (sqlite3PutVarint p v) = (if unat v < 2 ^ 56 then length (putVarint_buf v) else 9)"
proof -
  consider "unat v < 2 ^ 7" | "2 ^ 7 \<le> unat v" "unat v < 2 ^ 14" | "2 ^ 14 \<le> unat v" by linarith
  then show ?thesis
  proof cases
    case 1
    then show ?thesis
      using length_putVarint_buf [of v 1] length_putVarint_buf_lower [of 0 v]
      by (simp add: sqlite3PutVarint_def word_le_nat_alt putVarint_buf.simps [of v])
  next
    case 2
    then show ?thesis
      using length_putVarint_buf [of v 2] length_putVarint_buf_lower [of 1 v]
      by (simp add: sqlite3PutVarint_def word_le_nat_alt)
  next
    case 3
    then show ?thesis
      using top_byte_clear [of v]
      by (simp add: sqlite3PutVarint_def word_le_nat_alt putVarint64_def Let_def)
  qed
qed

subsection \<open>Properties\<close>

text \<open>
  C33. Every 64-bit value survives a store and a load: writing \<open>v\<close> at \<open>p\<close> with
  \<open>sqlite3PutVarint\<close> uses between one and nine bytes, leaves all later bytes alone, and
  \<open>sqlite3GetVarint\<close> on the resulting memory, whatever follows the encoding, reads back exactly \<open>v\<close> and consumes
  exactly the bytes written.
\<close>

theorem varint_roundtrip:
  "\<exists>q n. sqlite3PutVarint p v = (q, n) \<and> sqlite3GetVarint q = (v, n)
     \<and> 1 \<le> n \<and> n \<le> 9 \<and> (\<forall>j. n \<le> j \<longrightarrow> q j = p j)"
  using PutVarint_roundtrip [where p = p and v = v] by (cases "sqlite3PutVarint p v") simp

theorem varint_roundtrip_witness:
  "fst (sqlite3GetVarint (fst (sqlite3PutVarint (\<lambda>_. 255) 300))) = 300"
  using varint_roundtrip [of "\<lambda>_. 255" 300] by auto

text \<open>
  The unrolled reader \<open>sqlite3GetVarint\<close>, which works on two 32-bit accumulators with
  precomputed masks, computes the format as it is described in the source (seven bits per byte,
  most significant group first, eight bits in a ninth byte), on every memory content.
\<close>

theorem GetVarint_computes_format:
  "sqlite3GetVarint p = varint_ref 0 0 (mem_bytes p 9)"
  by (rule GetVarint_ref)

lemma fits_u32: "v AND 0xffffffff = v \<longleftrightarrow> unat (v::u64) < 2 ^ 32"
proof -
  have "v AND 0xffffffff = v \<longleftrightarrow> drop_bit 32 v = 0"
    by (simp add: word64_eq_bits bit_and_iff bit_drop_bit_eq u64_bit_high)
  then show ?thesis by (simp add: drop_bit_eq_0)
qed

lemma u8_less_128: "(x::u8) < 0x80 \<longleftrightarrow> \<not> bit x 7"
proof -
  have "drop_bit 7 x = 0 \<longleftrightarrow> \<not> bit x 7"
    by (simp add: word8_eq_bits bit_drop_bit_eq u8_bit_high)
  then show ?thesis by (simp add: drop_bit_eq_0 word_less_nat_alt)
qed

text \<open>A varint of at most three bytes is below \<open>2 ^ 21\<close>, so that the 32-bit reader does not clamp it.\<close>

lemma GetVarint_short:
  assumes "\<not> (bit (p 0) 7 \<and> bit (p 1) 7 \<and> bit (p 2) 7)"
  shows "fst (sqlite3GetVarint p) AND 0xffffffff = fst (sqlite3GetVarint p)"
  using assms
  by (cases "bit (p 0) 7"; cases "bit (p 1) 7")
    (simp_all add: varint_unfold word64_eq_bits u8_bit_high)

lemma getVarint32_short:
  assumes "\<not> (bit (p 0) 7 \<and> bit (p 1) 7 \<and> bit (p 2) 7)"
  shows "getVarint32 p = (ucast (fst (sqlite3GetVarint p)), snd (sqlite3GetVarint p))"
  using assms
  by (cases "bit (p 0) 7"; cases "bit (p 1) 7")
    (simp_all add: getVarint32_def u8_less_128 sqlite3GetVarint32_def varint_unfold word32_eq_bits
      u8_bit_high)

lemma getVarint32_long:
  assumes "bit (p 0) 7" "bit (p 1) 7" "bit (p 2) 7"
  shows "getVarint32 p = (case sqlite3GetVarint p of (v, n) \<Rightarrow>
     (if v AND 0xffffffff \<noteq> v then 0xffffffff else ucast v, n))"
  using assms
  by (simp add: getVarint32_def u8_less_128 sqlite3GetVarint32_def Let_def and_128_eq_0 bit_or_iff
      bit_push_bit_iff bit_unsigned_iff)

text \<open>
  The 32-bit reader, through its macro, agrees with the 64-bit reader: it consumes the same
  number of bytes, and returns the value when it fits in 32 bits and \<open>0xffffffff\<close> otherwise.
\<close>

theorem getVarint32_clamps:
  "getVarint32 p =
     (case sqlite3GetVarint p of (v, n) \<Rightarrow>
        (if unat v < 2 ^ 32 then ucast v else 0xffffffff, n))"
proof (cases "bit (p 0) 7 \<and> bit (p 1) 7 \<and> bit (p 2) 7")
  case True
  then show ?thesis using getVarint32_long [of p] by (simp add: fits_u32 split: prod.splits)
next
  case False
  then show ?thesis
    using getVarint32_short [of p] GetVarint_short [of p]
    by (cases "sqlite3GetVarint p") (simp add: fits_u32)
qed

text \<open>
  \<open>sqlite3VarintLen\<close> against the writer: it predicts the number of bytes that
  \<open>sqlite3PutVarint\<close> stores for every value below \<open>2 ^ 63\<close>, and is one too large from \<open>2 ^ 63\<close> on,
  where it answers 10 although the ninth byte carries eight bits.
\<close>

theorem VarintLen_predicts:
  "sqlite3VarintLen v = snd (sqlite3PutVarint p v) + (if unat v < 2 ^ 63 then 0 else 1)"
proof -
  have "unat v < 2 ^ 70" using unsigned_less [of v, where ?'a = nat] by simp
  then have "length (putVarint_buf v) \<le> 10" using length_putVarint_buf [of v 10] by simp
  then show ?thesis
    using length_putVarint_buf [of v 9] length_putVarint_buf_lower [of 8 v]
      length_putVarint_buf_lower [of 9 v]
    by (auto simp: VarintLen_buf PutVarint_len not_less)
qed

text \<open>
  The big-endian 4-byte accessors are inverse to each other in both directions, and the store touches
  exactly the four bytes at its pointer.
\<close>

theorem four_byte_roundtrip:
  "sqlite3Get4byte (sqlite3Put4byte p v) = v
   \<and> sqlite3Put4byte p (sqlite3Get4byte p) = p
   \<and> (\<forall>j. 4 \<le> j \<longrightarrow> sqlite3Put4byte p v j = p j)"
proof (intro conjI)
  show "sqlite3Get4byte (sqlite3Put4byte p v) = v"
    by (simp add: sqlite3Get4byte_def sqlite3Put4byte_def word32_eq_bits bit_or_iff bit_push_bit_iff
        bit_unsigned_iff bit_drop_bit_eq u32_bit_high)
  have "ucast (drop_bit 24 (sqlite3Get4byte p)) = p 0" "ucast (drop_bit 16 (sqlite3Get4byte p)) = p 1"
    "ucast (drop_bit 8 (sqlite3Get4byte p)) = p 2" "ucast (sqlite3Get4byte p) = p 3"
    by (simp_all add: sqlite3Get4byte_def word8_eq_bits bit_or_iff bit_push_bit_iff
        bit_unsigned_iff bit_drop_bit_eq u8_bit_high)
  then show "sqlite3Put4byte p (sqlite3Get4byte p) = p"
    by (auto simp: sqlite3Put4byte_def)
qed (simp add: sqlite3Put4byte_def)

theorem four_byte_roundtrip_witness:
  "sqlite3Put4byte (\<lambda>_. 7) 65537 9 = (7::u8) \<and> sqlite3Get4byte (sqlite3Put4byte (\<lambda>_. 7) 65537) = 65537"
  using four_byte_roundtrip [of "\<lambda>_. 7" 65537] by simp

end
