(* ===== verification/CString.thy ===== *)
theory CString
  imports Prelude
begin

text \<open>
  Character classes and string helpers of SQLite: the two 256-entry tables of \<open>global.c\<close>, the
  macros over them (\<open>sqliteInt.h\<close>), and the comparison, hashing, quoting and hexadecimal routines of
  \<open>util.c\<close> and \<open>func.c\<close> (\<open>src/src/db/sqlite3/core/sqlite3.c\<close>).
\<close>

unbundle bit_operations_syntax

subsection \<open>Tables and character classes\<close>

definition UpperToLower_tab :: "nat list" where
  "UpperToLower_tab =
    [0, 1, 2, 3, 4, 5, 6, 7, 8, 9, 10, 11, 12, 13, 14, 15, 16, 17, 18, 19, 20, 21, 22, 23,
     24, 25, 26, 27, 28, 29, 30, 31, 32, 33, 34, 35, 36, 37, 38, 39, 40, 41, 42, 43, 44, 45,
     46, 47, 48, 49, 50, 51, 52, 53, 54, 55, 56, 57, 58, 59, 60, 61, 62, 63, 64, 97, 98, 99,
     100, 101, 102, 103, 104, 105, 106, 107, 108, 109, 110, 111, 112, 113, 114, 115, 116,
     117, 118, 119, 120, 121, 122, 91, 92, 93, 94, 95, 96, 97, 98, 99, 100, 101, 102, 103,
     104, 105, 106, 107, 108, 109, 110, 111, 112, 113, 114, 115, 116, 117, 118, 119, 120,
     121, 122, 123, 124, 125, 126, 127, 128, 129, 130, 131, 132, 133, 134, 135, 136, 137,
     138, 139, 140, 141, 142, 143, 144, 145, 146, 147, 148, 149, 150, 151, 152, 153, 154,
     155, 156, 157, 158, 159, 160, 161, 162, 163, 164, 165, 166, 167, 168, 169, 170, 171,
     172, 173, 174, 175, 176, 177, 178, 179, 180, 181, 182, 183, 184, 185, 186, 187, 188,
     189, 190, 191, 192, 193, 194, 195, 196, 197, 198, 199, 200, 201, 202, 203, 204, 205,
     206, 207, 208, 209, 210, 211, 212, 213, 214, 215, 216, 217, 218, 219, 220, 221, 222,
     223, 224, 225, 226, 227, 228, 229, 230, 231, 232, 233, 234, 235, 236, 237, 238, 239,
     240, 241, 242, 243, 244, 245, 246, 247, 248, 249, 250, 251, 252, 253, 254, 255]"

definition CtypeMap_tab :: "nat list" where
  "CtypeMap_tab =
    [0x00, 0x00, 0x00, 0x00, 0x00, 0x00, 0x00, 0x00, 0x00, 0x01, 0x01, 0x01, 0x01, 0x01,
     0x00, 0x00, 0x00, 0x00, 0x00, 0x00, 0x00, 0x00, 0x00, 0x00, 0x00, 0x00, 0x00, 0x00,
     0x00, 0x00, 0x00, 0x00, 0x01, 0x00, 0x80, 0x00, 0x40, 0x00, 0x00, 0x80, 0x00, 0x00,
     0x00, 0x00, 0x00, 0x00, 0x00, 0x00, 0x0c, 0x0c, 0x0c, 0x0c, 0x0c, 0x0c, 0x0c, 0x0c,
     0x0c, 0x0c, 0x00, 0x00, 0x00, 0x00, 0x00, 0x00, 0x00, 0x0a, 0x0a, 0x0a, 0x0a, 0x0a,
     0x0a, 0x02, 0x02, 0x02, 0x02, 0x02, 0x02, 0x02, 0x02, 0x02, 0x02, 0x02, 0x02, 0x02,
     0x02, 0x02, 0x02, 0x02, 0x02, 0x02, 0x02, 0x80, 0x00, 0x00, 0x00, 0x40, 0x80, 0x2a,
     0x2a, 0x2a, 0x2a, 0x2a, 0x2a, 0x22, 0x22, 0x22, 0x22, 0x22, 0x22, 0x22, 0x22, 0x22,
     0x22, 0x22, 0x22, 0x22, 0x22, 0x22, 0x22, 0x22, 0x22, 0x22, 0x22, 0x00, 0x00, 0x00,
     0x00, 0x00, 0x40, 0x40, 0x40, 0x40, 0x40, 0x40, 0x40, 0x40, 0x40, 0x40, 0x40, 0x40,
     0x40, 0x40, 0x40, 0x40, 0x40, 0x40, 0x40, 0x40, 0x40, 0x40, 0x40, 0x40, 0x40, 0x40,
     0x40, 0x40, 0x40, 0x40, 0x40, 0x40, 0x40, 0x40, 0x40, 0x40, 0x40, 0x40, 0x40, 0x40,
     0x40, 0x40, 0x40, 0x40, 0x40, 0x40, 0x40, 0x40, 0x40, 0x40, 0x40, 0x40, 0x40, 0x40,
     0x40, 0x40, 0x40, 0x40, 0x40, 0x40, 0x40, 0x40, 0x40, 0x40, 0x40, 0x40, 0x40, 0x40,
     0x40, 0x40, 0x40, 0x40, 0x40, 0x40, 0x40, 0x40, 0x40, 0x40, 0x40, 0x40, 0x40, 0x40,
     0x40, 0x40, 0x40, 0x40, 0x40, 0x40, 0x40, 0x40, 0x40, 0x40, 0x40, 0x40, 0x40, 0x40,
     0x40, 0x40, 0x40, 0x40, 0x40, 0x40, 0x40, 0x40, 0x40, 0x40, 0x40, 0x40, 0x40, 0x40,
     0x40, 0x40, 0x40, 0x40, 0x40, 0x40, 0x40, 0x40, 0x40, 0x40, 0x40, 0x40, 0x40, 0x40,
     0x40, 0x40, 0x40, 0x40]"

definition sqlite3UpperToLower :: "u8 \<Rightarrow> u8" where
  "sqlite3UpperToLower c = of_nat (UpperToLower_tab ! unat c)"

definition sqlite3CtypeMap :: "u8 \<Rightarrow> u8" where
  "sqlite3CtypeMap c = of_nat (CtypeMap_tab ! unat c)"

definition sqlite3Isspace :: "u8 \<Rightarrow> bool" where
  "sqlite3Isspace x \<longleftrightarrow> sqlite3CtypeMap x AND 0x01 \<noteq> 0"

definition sqlite3Isalpha :: "u8 \<Rightarrow> bool" where
  "sqlite3Isalpha x \<longleftrightarrow> sqlite3CtypeMap x AND 0x02 \<noteq> 0"

definition sqlite3Isdigit :: "u8 \<Rightarrow> bool" where
  "sqlite3Isdigit x \<longleftrightarrow> sqlite3CtypeMap x AND 0x04 \<noteq> 0"

definition sqlite3Isalnum :: "u8 \<Rightarrow> bool" where
  "sqlite3Isalnum x \<longleftrightarrow> sqlite3CtypeMap x AND 0x06 \<noteq> 0"

definition sqlite3Isxdigit :: "u8 \<Rightarrow> bool" where
  "sqlite3Isxdigit x \<longleftrightarrow> sqlite3CtypeMap x AND 0x08 \<noteq> 0"

definition sqlite3Isquote :: "u8 \<Rightarrow> bool" where
  "sqlite3Isquote x \<longleftrightarrow> sqlite3CtypeMap x AND 0x80 \<noteq> 0"

definition IdChar :: "u8 \<Rightarrow> bool" where
  "IdChar c \<longleftrightarrow> sqlite3CtypeMap c AND 0x46 \<noteq> 0"

definition sqlite3Toupper :: "u8 \<Rightarrow> u8" where
  "sqlite3Toupper x = x AND NOT (sqlite3CtypeMap x AND 0x20)"

definition sqlite3Tolower :: "u8 \<Rightarrow> u8" where
  "sqlite3Tolower x = sqlite3UpperToLower x"

text \<open>
  What the tables say, established by running over all 256 bytes: the lower-case map moves exactly
  \<open>A\<close> to \<open>Z\<close>, and each class bit marks exactly the ASCII characters its comment names.
\<close>

lemma UpperToLower_tab_eq:
  "UpperToLower_tab = map (\<lambda>n. nat (if 65 \<le> n \<and> n \<le> 90 then n + 32 else n)) [0..255]"
  by code_simp

definition ctype_class :: "int \<Rightarrow> nat" where
  "ctype_class n =
     (if 9 \<le> n \<and> n \<le> 13 \<or> n = 32 then 0x01
      else if n = 34 \<or> n = 39 \<or> n = 91 \<or> n = 96 then 0x80
      else if n = 36 \<or> n = 95 \<or> 128 \<le> n then 0x40
      else if 48 \<le> n \<and> n \<le> 57 then 0x0c
      else if 65 \<le> n \<and> n \<le> 70 then 0x0a
      else if 71 \<le> n \<and> n \<le> 90 then 0x02
      else if 97 \<le> n \<and> n \<le> 102 then 0x2a
      else if 103 \<le> n \<and> n \<le> 122 then 0x22
      else 0)"

lemma CtypeMap_tab_eq: "CtypeMap_tab = map ctype_class [0..255]"
  by code_simp

lemma unat_u8_less: "unat (c::u8) < 256"
  using unsigned_less [of c, where ?'a = nat] by simp

lemma UpperToLower_tab_nth:
  "n < 256 \<Longrightarrow> UpperToLower_tab ! n = (if 65 \<le> n \<and> n \<le> 90 then n + 32 else n)"
  by (simp add: UpperToLower_tab_eq nat_add_distrib)

lemma UpperToLower_eq:
  "sqlite3UpperToLower c = (if 65 \<le> c \<and> c \<le> 90 then c + 32 else c)"
  using unat_u8_less [of c]
  by (simp add: sqlite3UpperToLower_def UpperToLower_tab_nth word_le_nat_alt)

definition ctype_nat :: "nat \<Rightarrow> nat" where
  "ctype_nat n = ctype_class (int n)"

lemma CtypeMap_eq: "sqlite3CtypeMap c = of_nat (ctype_nat (unat c))"
proof -
  have "CtypeMap_tab ! n = ctype_nat n" if "n < 256" for n
    using that by (simp add: CtypeMap_tab_eq ctype_nat_def)
  then show ?thesis using unat_u8_less [of c] by (simp add: sqlite3CtypeMap_def)
qed

lemma ctype_nat_eq:
  "ctype_nat n =
     (if 9 \<le> n \<and> n \<le> 13 \<or> n = 32 then 0x01
      else if n = 34 \<or> n = 39 \<or> n = 91 \<or> n = 96 then 0x80
      else if n = 36 \<or> n = 95 \<or> 128 \<le> n then 0x40
      else if 48 \<le> n \<and> n \<le> 57 then 0x0c
      else if 65 \<le> n \<and> n \<le> 70 then 0x0a
      else if 71 \<le> n \<and> n \<le> 90 then 0x02
      else if 97 \<le> n \<and> n \<le> 102 then 0x2a
      else if 103 \<le> n \<and> n \<le> 122 then 0x22
      else 0)"
  by (simp add: ctype_nat_def ctype_class_def)

lemma Isspace_iff: "sqlite3Isspace c \<longleftrightarrow> unat c \<in> {9..13} \<or> unat c = 32"
  by (simp add: sqlite3Isspace_def CtypeMap_eq ctype_nat_eq)

lemma Isdigit_iff: "sqlite3Isdigit c \<longleftrightarrow> unat c \<in> {48..57}"
  by (auto simp: sqlite3Isdigit_def CtypeMap_eq ctype_nat_eq)

lemma Isxdigit_iff:
  "sqlite3Isxdigit c \<longleftrightarrow> unat c \<in> {48..57} \<or> unat c \<in> {65..70} \<or> unat c \<in> {97..102}"
  by (auto simp: sqlite3Isxdigit_def CtypeMap_eq ctype_nat_eq)

lemma Isquote_iff: "sqlite3Isquote c \<longleftrightarrow> unat c \<in> {34, 39, 91, 96}"
  by (auto simp: sqlite3Isquote_def CtypeMap_eq ctype_nat_eq)

lemma IdChar_iff:
  "IdChar c \<longleftrightarrow> unat c \<in> {48..57} \<or> unat c \<in> {65..90} \<or> unat c \<in> {97..122}
     \<or> unat c = 36 \<or> unat c = 95 \<or> 128 \<le> unat c"
  by (auto simp: IdChar_def CtypeMap_eq ctype_nat_eq)

lemma UpperToLower_0 [simp]: "sqlite3UpperToLower 0 = 0"
  by (simp add: UpperToLower_eq)

lemma UpperToLower_eq_0 [simp]: "sqlite3UpperToLower c = 0 \<longleftrightarrow> c = 0"
proof (cases "65 \<le> c \<and> c \<le> 90")
  case True
  then have "unat (c + 32) = unat c + 32"
    by (simp add: unat_word_ariths word_le_nat_alt)
  with True show ?thesis
    by (simp add: UpperToLower_eq word_unat_eq_iff) (auto simp: word_le_nat_alt)
next
  case False
  then show ?thesis by (auto simp: UpperToLower_eq)
qed

subsection \<open>Comparison and hashing\<close>

definition sqlite3Strlen30 :: "cstr \<Rightarrow> nat" where
  "sqlite3Strlen30 z = unat (0x3fffffff AND (of_nat (length z) :: u32))"

definition lowdiff :: "u8 \<Rightarrow> u8 \<Rightarrow> int" where
  "lowdiff c x = uint (sqlite3UpperToLower c) - uint (sqlite3UpperToLower x)"

function sqlite3StrICmp :: "cstr \<Rightarrow> cstr \<Rightarrow> int" where
  "sqlite3StrICmp a b =
     (let c = cat a 0; x = cat b 0 in
      if c = x then (if c = 0 then 0 else sqlite3StrICmp (tl a) (tl b))
      else if lowdiff c x \<noteq> 0 then lowdiff c x
      else sqlite3StrICmp (tl a) (tl b))"
  by pat_completeness auto
termination
proof (relation "measure (\<lambda>(a, b). length a)", goal_cases)
  case (2 a b c x)
  then show ?case by (cases a) auto
next
  case (3 a b c x)
  then show ?case by (cases a) (auto simp: lowdiff_def uint_0_iff)
qed simp

declare sqlite3StrICmp.simps [simp del]

text \<open>The public entry points accept null pointers (\<open>None\<close>).\<close>

fun sqlite3_stricmp :: "cstr option \<Rightarrow> cstr option \<Rightarrow> int" where
  "sqlite3_stricmp None None = 0"
| "sqlite3_stricmp None (Some _) = -1"
| "sqlite3_stricmp (Some _) None = 1"
| "sqlite3_stricmp (Some a) (Some b) = sqlite3StrICmp a b"

text \<open>The loop \<open>while( N-- > 0 && ... )\<close>: \<open>N\<close> is decremented by the failing test too.\<close>

fun strnicmp_loop :: "cstr \<Rightarrow> cstr \<Rightarrow> nat \<Rightarrow> int" where
  "strnicmp_loop a b 0 = 0"
| "strnicmp_loop a b (Suc n) =
     (if cat a 0 \<noteq> 0 \<and> sqlite3UpperToLower (cat a 0) = sqlite3UpperToLower (cat b 0)
      then strnicmp_loop (tl a) (tl b) n
      else lowdiff (cat a 0) (cat b 0))"

fun sqlite3_strnicmp :: "cstr option \<Rightarrow> cstr option \<Rightarrow> int \<Rightarrow> int" where
  "sqlite3_strnicmp None None N = 0"
| "sqlite3_strnicmp None (Some _) N = -1"
| "sqlite3_strnicmp (Some _) None N = 1"
| "sqlite3_strnicmp (Some a) (Some b) N = strnicmp_loop a b (nat N)"

fun sqlite3StrIHash_loop :: "cstr \<Rightarrow> u8 \<Rightarrow> u8" where
  "sqlite3StrIHash_loop [] h = h"
| "sqlite3StrIHash_loop (c # z) h = sqlite3StrIHash_loop z (h + sqlite3UpperToLower c)"

definition sqlite3StrIHash :: "cstr option \<Rightarrow> u8" where
  "sqlite3StrIHash z = (case z of None \<Rightarrow> 0 | Some z \<Rightarrow> sqlite3StrIHash_loop z 0)"

text \<open>Case folding of a whole string: two strings are equal for SQLite iff their foldings are.\<close>

definition fold_case :: "cstr \<Rightarrow> cstr" where
  "fold_case z = map sqlite3UpperToLower z"

lemma fold_case_simps [simp]:
  "fold_case [] = []" "fold_case (c # z) = sqlite3UpperToLower c # fold_case z"
  by (simp_all add: fold_case_def)

lemma lowdiff_0 [simp]: "lowdiff c x = 0 \<longleftrightarrow> sqlite3UpperToLower c = sqlite3UpperToLower x"
  by (simp add: lowdiff_def word_uint_eq_iff)

lemma lowdiff_self [simp]: "lowdiff c c = 0"
  by simp

lemma lowdiff_antisym: "lowdiff x c = - lowdiff c x"
  by (simp add: lowdiff_def)

lemma StrICmp_Nil [simp]:
  "sqlite3StrICmp [] [] = 0"
  "x \<noteq> 0 \<Longrightarrow> sqlite3StrICmp [] (x # b) = lowdiff 0 x"
  "c \<noteq> 0 \<Longrightarrow> sqlite3StrICmp (c # a) [] = lowdiff c 0"
  by (simp_all add: sqlite3StrICmp.simps [of _ "[]"] sqlite3StrICmp.simps [of "[]"])

lemma StrICmp_Cons [simp]:
  "c \<noteq> 0 \<Longrightarrow> sqlite3StrICmp (c # a) (x # b) =
     (if lowdiff c x = 0 then sqlite3StrICmp a b else lowdiff c x)"
  by (simp add: sqlite3StrICmp.simps [of "c # a" "x # b"] Let_def)

lemma StrICmp_eq_0:
  "cstr_ok a \<Longrightarrow> cstr_ok b \<Longrightarrow> sqlite3StrICmp a b = 0 \<longleftrightarrow> fold_case a = fold_case b"
proof (induction a arbitrary: b)
  case Nil
  then show ?case by (cases b) auto
next
  case (Cons c a)
  then show ?case by (cases b) auto
qed

lemma StrICmp_antisym:
  "cstr_ok a \<Longrightarrow> cstr_ok b \<Longrightarrow> sqlite3StrICmp b a = - sqlite3StrICmp a b"
proof (induction a arbitrary: b)
  case Nil
  then show ?case by (cases b) (auto simp: lowdiff_def)
next
  case (Cons c a)
  then show ?case by (cases b) (auto simp: lowdiff_antisym [of c] lowdiff_def)
qed

lemma strnicmp_prefix:
  "cstr_ok a \<Longrightarrow> cstr_ok b \<Longrightarrow>
     strnicmp_loop a b n = sqlite3StrICmp (take n a) (take n b)"
proof (induction n arbitrary: a b)
  case 0
  then show ?case by simp
next
  case (Suc n)
  then show ?case by (cases a; cases b) simp_all
qed

lemma StrIHash_fold: "fold_case a = fold_case b \<Longrightarrow> sqlite3StrIHash_loop a h = sqlite3StrIHash_loop b h"
proof (induction a arbitrary: b h)
  case Nil
  then show ?case by (cases b) auto
next
  case (Cons c a)
  obtain x b' where b: "b = x # b'" "sqlite3UpperToLower x = sqlite3UpperToLower c"
      "fold_case a = fold_case b'"
    using Cons.prems by (cases b) auto
  show ?case using Cons.IH [OF b(3), of "h + sqlite3UpperToLower c"] b(1,2) by simp
qed

text \<open>
  SQLite's case-insensitive string comparison decides equality after folding ASCII letters
  to lower case: for strings without interior NUL bytes the result of \<open>sqlite3StrICmp\<close> is zero exactly
  when the foldings agree; swapping the arguments negates it; \<open>sqlite3_strnicmp\<close> is the same comparison on
  the first \<open>N\<close> bytes; and strings that compare equal have the same \<open>sqlite3StrIHash\<close>, on which the
  lookups by hash in the schema depend.\<close>

theorem StrICmp_correct:
  assumes "cstr_ok a" "cstr_ok b"
  shows "(sqlite3StrICmp a b = 0 \<longleftrightarrow> fold_case a = fold_case b)
    \<and> sqlite3StrICmp b a = - sqlite3StrICmp a b
    \<and> sqlite3_strnicmp (Some a) (Some b) N = sqlite3StrICmp (take (nat N) a) (take (nat N) b)
    \<and> (sqlite3StrICmp a b \<noteq> 0 \<or> sqlite3StrIHash (Some a) = sqlite3StrIHash (Some b))"
  using StrICmp_eq_0 [OF assms] StrICmp_antisym [OF assms] strnicmp_prefix [OF assms]
    StrIHash_fold [of a b 0]
  by (auto simp: sqlite3StrIHash_def)

theorem StrICmp_correct_witness:
  "sqlite3StrICmp (cstring ''TaBLe'') (cstring ''tABle'') = 0
   \<and> sqlite3StrIHash (Some (cstring ''TaBLe'')) = sqlite3StrIHash (Some (cstring ''tABle''))"
proof -
  have ok: "cstr_ok (cstring ''TaBLe'')" "cstr_ok (cstring ''tABle'')"
    by (simp_all add: cstring_def ch_def)
  have "fold_case (cstring ''TaBLe'') = fold_case (cstring ''tABle'')"
    by (simp add: cstring_def ch_def UpperToLower_eq)
  then show ?thesis using StrICmp_correct [OF ok] by simp
qed

end
