(* ===== verification/Quoting.thy ===== *)
theory Quoting
  imports CString
begin

text \<open>
  SQL quoting and hexadecimal text: \<open>sqlite3Dequote\<close> and the hexadecimal routines of \<open>util.c\<close>, the quoting
  conversions of \<open>sqlite3_str_vappendf\<close> (\<open>printf.c\<close>) and the SQL function \<open>hex\<close> (\<open>func.c\<close>).
\<close>

unbundle bit_operations_syntax

subsection \<open>Removing and adding SQL quotes\<close>

text \<open>
  \<open>sqlite3Dequote\<close> works in place: the loop below reads at \<open>i\<close> and writes at \<open>j\<close> of the same buffer.
  \<open>None\<close> is the failing assertion \<open>z[i] \<noteq> 0\<close> (there is no closing quote, and the C code would read on
  past the terminator).
\<close>

function dequote_loop :: "cstr \<Rightarrow> u8 \<Rightarrow> nat \<Rightarrow> nat \<Rightarrow> cstr option" where
  "dequote_loop z quote i j =
     (if cat z i = 0 then None
      else if cat z i = quote then
        (if cat z (i + 1) = quote then dequote_loop (z[j := quote]) quote (i + 2) (j + 1)
         else Some (take j z))
      else dequote_loop (z[j := cat z i]) quote (i + 1) (j + 1))"
  by pat_completeness auto
termination
  by (relation "measure (\<lambda>(z, q, i, j). length z - i)") (auto simp: cat_def split: if_splits)

declare dequote_loop.simps [simp del]

definition closing_quote :: "u8 \<Rightarrow> u8" where
  "closing_quote q = (if q = ch CHR ''['' then ch CHR '']'' else q)"

text \<open>A null pointer and a string that does not start with a quote are left alone.\<close>

fun sqlite3Dequote :: "cstr option \<Rightarrow> cstr option option" where
  "sqlite3Dequote None = Some None"
| "sqlite3Dequote (Some z) =
     (if \<not> sqlite3Isquote (cat z 0) then Some (Some z)
      else map_option Some (dequote_loop z (closing_quote (cat z 0)) 1 0))"

record Token =
  tz :: cstr
  tn :: nat

definition sqlite3DequoteToken :: "Token \<Rightarrow> Token" where
  "sqlite3DequoteToken p =
     (if tn p < 2 then p
      else if \<not> sqlite3Isquote (cat (tz p) 0) then p
      else if list_ex (\<lambda>i. sqlite3Isquote (cat (tz p) i)) [1..<tn p - 1] then p
      else p\<lparr>tz := tl (tz p), tn := tn p - 2\<rparr>)"

definition sqlite3TokenInit :: "cstr \<Rightarrow> Token" where
  "sqlite3TokenInit z = \<lparr>tz = z, tn = sqlite3Strlen30 z\<rparr>"

text \<open>
  The conversions \<open>%q\<close>, \<open>%Q\<close> and \<open>%w\<close> of \<open>sqlite3_str_vappendf\<close>: a first pass counts the bytes to use
  (\<open>i\<close>) and the size of the buffer (\<open>n\<close>), a second one copies them, doubling the quotes.  \<open>k\<close> is the
  precision, negative when there is none.
\<close>

datatype etype = etSQLESCAPE | etSQLESCAPE2 | etSQLESCAPE3

function skip_continuation :: "cstr \<Rightarrow> nat \<Rightarrow> nat" where
  "skip_continuation z i =
     (if cat z (i + 1) AND 0xc0 = 0x80 then skip_continuation z (i + 1) else i)"
  by pat_completeness auto
termination
  by (relation "measure (\<lambda>(z, i). length z - i)") (auto simp: cat_def split: if_splits)

declare skip_continuation.simps [simp del]

lemma skip_continuation_ge: "i \<le> skip_continuation z i"
proof (induction z i rule: skip_continuation.induct)
  case (1 z i)
  then show ?case by (subst skip_continuation.simps) auto
qed

lemma skip_continuation_less: "i < length z \<Longrightarrow> skip_continuation z i < length z"
proof (induction z i rule: skip_continuation.induct)
  case (1 z i)
  then show ?case by (subst skip_continuation.simps) (auto simp: cat_def split: if_splits)
qed

function escape_scan :: "u8 \<Rightarrow> bool \<Rightarrow> cstr \<Rightarrow> int \<Rightarrow> nat \<Rightarrow> nat \<Rightarrow> nat \<times> nat" where
  "escape_scan q flag_altform2 escarg k i n =
     (if k = 0 \<or> cat escarg i = 0 then (i, n)
      else escape_scan q flag_altform2 escarg (k - 1)
        ((if flag_altform2 \<and> cat escarg i AND 0xc0 = 0xc0
          then skip_continuation escarg i else i) + 1)
        (if cat escarg i = q then n + 1 else n))"
  by pat_completeness auto
termination
proof (relation "measure (\<lambda>(q, f, z, k, i, n). length z - i)", goal_cases)
  case (2 q f z k i n)
  then show ?case using skip_continuation_ge [of i z] by (auto simp: cat_def split: if_splits)
qed simp

declare escape_scan.simps [simp del]

fun escape_copy :: "u8 \<Rightarrow> cstr \<Rightarrow> cstr" where
  "escape_copy q [] = []"
| "escape_copy q (c # z) = (if c = q then [c, c] else [c]) @ escape_copy q z"

text \<open>The result: the number of bytes the buffer has, and the bytes put into it.\<close>

definition printf_sqlescape :: "etype \<Rightarrow> int \<Rightarrow> bool \<Rightarrow> cstr option \<Rightarrow> nat \<times> cstr" where
  "printf_sqlescape xtype precision flag_altform2 arg =
     (let q = (if xtype = etSQLESCAPE3 then 34 else 39);
          isnull = (arg = None);
          escarg = (case arg of Some z \<Rightarrow> z
                    | None \<Rightarrow> if xtype = etSQLESCAPE2 then cstring ''NULL'' else cstring ''(NULL)'');
          (k, n) = escape_scan q flag_altform2 escarg precision 0 0;
          needQuote = (\<not> isnull \<and> xtype = etSQLESCAPE2);
          quotes = (if needQuote then [q] else [])
      in (n + k + 3, quotes @ escape_copy q (take k escarg) @ quotes))"

text \<open>Reference: reading a quoted string as a list.\<close>

fun unquote :: "u8 \<Rightarrow> cstr \<Rightarrow> cstr option" where
  "unquote q [] = None"
| "unquote q [c] = (if c = q then Some [] else None)"
| "unquote q (c # d # z) =
     (if c = q then (if d = q then map_option (Cons q) (unquote q z) else Some [])
      else map_option (Cons c) (unquote q (d # z)))"

lemma unquote_Cons_other: "c \<noteq> q \<Longrightarrow> unquote q (c # z) = map_option (Cons c) (unquote q z)"
  by (cases z) auto

lemma dequote_loop_unquote:
  assumes "cstr_ok (drop i z)" "q \<noteq> 0" "j < i"
  shows "dequote_loop z q i j = map_option ((@) (take j z)) (unquote q (drop i z))"
  using assms
proof (induction z q i j rule: dequote_loop.induct)
  case (1 z q i j)
  show ?case
  proof (cases "i < length z")
    case False
    then show ?thesis by (subst dequote_loop.simps) (simp add: cat_def)
  next
    case True
    let ?c = "z ! i"
    have d: "drop i z = ?c # drop (Suc i) z" using True by (simp add: Cons_nth_drop_Suc)
    have nz: "?c \<noteq> 0" and ok: "cstr_ok (drop (Suc i) z)" using "1.prems"(1) d by simp_all
    have upd: "take (Suc j) (z[j := x]) = take j z @ [x]" for x
      using True "1.prems"(3) by (simp add: take_Suc_conv_app_nth)
    have cati: "cat z i = ?c" using True by (simp add: cat_def)
    have app: "(@) (take j z @ [x]) = (\<lambda>r. take j z @ x # r)" for x by auto
    show ?thesis
    proof (cases "?c = q")
      case False
      have "dequote_loop z q i j = dequote_loop (z[j := ?c]) q (i + 1) (j + 1)"
        using False nz by (subst dequote_loop.simps) (simp add: cati)
      also have "\<dots> = map_option ((@) (take (j + 1) (z[j := ?c]))) (unquote q (drop (i + 1) (z[j := ?c])))"
        using "1.IH"(2) False nz ok "1.prems" by (simp add: cati)
      finally show ?thesis
        using False d "1.prems"(3)
        by (simp add: upd app unquote_Cons_other option.map_comp comp_def)
    next
      case True
      note cq = True
      show ?thesis
      proof (cases "drop (Suc i) z")
        case Nil
        then show ?thesis using d cq nz "1.prems"(2)
          by (subst dequote_loop.simps) (simp add: cati cat_def [of z "Suc i"])
      next
        case (Cons c' r)
        have c1: "cat z (Suc i) = c'" "drop (Suc (Suc i)) z = r"
          using drop_eq_ConsD [OF Cons] by (simp_all add: cat_def)
        have okr: "cstr_ok r" using ok Cons by simp
        show ?thesis
        proof (cases "c' = q")
          case True
          have "dequote_loop z q i j = dequote_loop (z[j := q]) q (i + 2) (j + 1)"
            using True nz cq by (subst dequote_loop.simps) (simp add: cati c1)
          also have "\<dots> = map_option ((@) (take (j + 1) (z[j := q]))) (unquote q (drop (i + 2) (z[j := q])))"
            using "1.IH"(1) True nz okr cq c1 "1.prems" by (simp add: cati)
          finally show ?thesis
            using cq True d Cons c1 "1.prems"(3)
            by (simp add: upd app option.map_comp comp_def)
        next
          case False
          then show ?thesis using d Cons cq nz
            by (subst dequote_loop.simps) (simp add: cati c1)
        qed
      qed
    qed
  qed
qed

lemma unquote_escape: "unquote q (escape_copy q z @ [q]) = Some z"
proof (induction z)
  case Nil
  then show ?case by simp
next
  case (Cons c z)
  then show ?case by (cases "c = q") (auto simp: unquote_Cons_other)
qed

lemma escape_scan_whole:
  assumes "cstr_ok z" "k < 0" "i \<le> length z"
  shows "escape_scan q f z k i n = (length z, snd (escape_scan q f z k i n))"
  using assms
proof (induction q f z k i n rule: escape_scan.induct)
  case (1 q f z k i n)
  show ?case
  proof (cases "i < length z")
    case True
    then have "cat z i \<noteq> 0" using "1.prems"(1) by (simp add: cat_def cstr_ok_def)
    with 1 True skip_continuation_less [OF True] show ?thesis
      by (subst (1 2) escape_scan.simps) auto
  next
    case False
    then show ?thesis using "1.prems" by (subst (1 2) escape_scan.simps) (simp add: cat_def)
  qed
qed

lemma skip_continuation_count:
  assumes "i < length z" "q AND 0xc0 \<noteq> 0x80"
  shows "count_list (take (Suc (skip_continuation z i)) z) q = count_list (take (Suc i) z) q"
  using assms
proof (induction z i rule: skip_continuation.induct)
  case (1 z i)
  show ?case
  proof (cases "cat z (i + 1) AND 0xc0 = 0x80")
    case True
    then have l: "Suc i < length z" by (auto simp: cat_def split: if_splits)
    have "z ! Suc i \<noteq> q" using True 1 l by (auto simp: cat_def)
    then have "count_list (take (Suc (Suc i)) z) q = count_list (take (Suc i) z) q"
      using l by (simp add: take_Suc_conv_app_nth)
    then show ?thesis using 1 True l by (subst skip_continuation.simps) simp
  next
    case False
    then show ?thesis by (subst skip_continuation.simps) simp
  qed
qed

lemma escape_scan_count:
  assumes "escape_scan q f z k i n = (k', n')" "i \<le> length z" "q AND 0xc0 \<noteq> 0x80"
  shows "k' \<le> length z \<and> n' + count_list (take i z) q = n + count_list (take k' z) q"
  using assms
proof (induction q f z k i n rule: escape_scan.induct)
  case (1 q f z k i n)
  show ?case
  proof (cases "k = 0 \<or> cat z i = 0")
    case True
    then show ?thesis using "1.prems" by (simp add: escape_scan.simps [of q f z k i n])
  next
    case False
    then have l: "i < length z" by (auto simp: cat_def split: if_splits)
    define i' where "i' = (if f \<and> cat z i AND 0xc0 = 0xc0 then skip_continuation z i else i)"
    define m where "m = (if cat z i = q then n + 1 else n)"
    have e: "escape_scan q f z (k - 1) (i' + 1) m = (k', n')"
      using "1.prems"(1) False by (simp add: escape_scan.simps [of q f z k i n] i'_def m_def)
    have "i' < length z" using l skip_continuation_less [OF l] by (simp add: i'_def)
    then have "k' \<le> length z \<and> n' + count_list (take (i' + 1) z) q = m + count_list (take k' z) q"
      using "1.IH" [OF False] e "1.prems"(3) by (simp add: i'_def m_def)
    moreover have "count_list (take (i' + 1) z) q = count_list (take (Suc i) z) q"
      using skip_continuation_count [OF l "1.prems"(3)] by (simp add: i'_def)
    moreover have "count_list (take (Suc i) z) q = count_list (take i z) q + (m - n)"
      using l by (simp add: take_Suc_conv_app_nth m_def cat_def)
    moreover have "n \<le> m" by (simp add: m_def)
    ultimately show ?thesis by linarith
  qed
qed

lemma length_escape_copy: "length (escape_copy q z) = length z + count_list z q"
  by (induction z) auto

text \<open>
  The temporary buffer of the \<open>%q\<close>, \<open>%Q\<close> and \<open>%w\<close> conversions is large enough: for every
  argument, precision and flag, the bytes the second pass puts into the buffer, and the terminating
  NUL, fit into the \<open>n\<close> bytes the first pass asks for.\<close>

theorem sqlescape_fits:
  "length (snd (printf_sqlescape xtype precision flag_altform2 arg)) + 1
     \<le> fst (printf_sqlescape xtype precision flag_altform2 arg)"
proof -
  define q :: u8 where "q = (if xtype = etSQLESCAPE3 then 34 else 39)"
  define z where "z = (case arg of Some z \<Rightarrow> z
                    | None \<Rightarrow> if xtype = etSQLESCAPE2 then cstring ''NULL'' else cstring ''(NULL)'')"
  obtain k n where s: "escape_scan q flag_altform2 z precision 0 0 = (k, n)" by fastforce
  have "q AND 0xc0 \<noteq> 0x80" by (simp add: q_def)
  then have "k \<le> length z \<and> n = count_list (take k z) q"
    using escape_scan_count [OF s] by simp
  then have "length (escape_copy q (take k z)) = k + n"
    by (simp add: length_escape_copy min_absorb2)
  then show ?thesis
    using s by (simp add: printf_sqlescape_def q_def [symmetric] z_def [symmetric])
qed

lemma printf_Q_eq:
  assumes "cstr_ok z"
  shows "snd (printf_sqlescape etSQLESCAPE2 (-1) flag_altform2 (Some z)) = 39 # escape_copy 39 z @ [39]"
proof -
  obtain n where "escape_scan 39 flag_altform2 z (-1) 0 0 = (length z, n)"
    using escape_scan_whole [of z "-1" 0 39 flag_altform2 0] assms by auto
  then show ?thesis by (simp add: printf_sqlescape_def)
qed

text \<open>
  C36. \<open>sqlite3Dequote\<close> undoes \<open>%Q\<close>: for every string \<open>z\<close> without NUL bytes, rendering it as an SQL string
  literal and removing the quotes in place gives \<open>z\<close> back.  In particular the in-place loop finds the
  closing quote, so it does not run past the end of the buffer.\<close>

theorem dequote_printf_roundtrip:
  assumes "cstr_ok z"
  shows "sqlite3Dequote (Some (snd (printf_sqlescape etSQLESCAPE2 (-1) flag_altform2 (Some z)))) = Some (Some z)"
proof -
  note out = printf_Q_eq [OF assms, of flag_altform2]
  have "cstr_ok (escape_copy 39 z)" using assms by (induction z) auto
  then have "dequote_loop (39 # escape_copy 39 z @ [39]) 39 1 0 = Some z"
    by (subst dequote_loop_unquote) (simp_all add: unquote_escape)
  moreover have "sqlite3Isquote 39" by (simp add: Isquote_iff)
  moreover have "closing_quote 39 = 39" by (simp add: closing_quote_def ch_def)
  ultimately show ?thesis by (simp add: out)
qed

theorem dequote_printf_roundtrip_witness:
  "sqlite3Dequote (Some (snd (printf_sqlescape etSQLESCAPE2 (-1) False (Some (cstring ''it is 5 o'clock'')))))
   = Some (Some (cstring ''it is 5 o'clock''))"
  by (rule dequote_printf_roundtrip) (simp add: cstring_def ch_def)

subsection \<open>Hexadecimal\<close>

text \<open>A \<open>char\<close> argument reaches the \<open>int\<close> parameter \<open>h\<close> sign-extended.\<close>

definition sqlite3HexToInt :: "int \<Rightarrow> u8" where
  "sqlite3HexToInt h = word_of_int ((h + 9 * (1 AND drop_bit 6 h)) AND 0xf)"

definition hexdigits :: cstr where
  "hexdigits = cstring ''0123456789ABCDEF''"

definition hex_value :: "u8 \<Rightarrow> u8" where
  "hex_value c = sqlite3HexToInt (sint c)"

text \<open>
  The loop of \<open>sqlite3HexToBlob\<close>: \<open>i\<close> runs in steps of two up to \<open>n - 1\<close>, and the terminator follows.
  \<open>oom\<close> says that the allocation fails.
\<close>

function HexToBlob_loop :: "cstr \<Rightarrow> int \<Rightarrow> nat \<Rightarrow> u8 list" where
  "HexToBlob_loop z n i =
     (if int i < n then
        (push_bit 4 (hex_value (cat z i)) OR hex_value (cat z (i + 1))) # HexToBlob_loop z n (i + 2)
      else [0])"
  by pat_completeness auto
termination by (relation "measure (\<lambda>(z, n, i). nat (n - int i))") auto

declare HexToBlob_loop.simps [simp del]

definition sqlite3HexToBlob :: "bool \<Rightarrow> cstr \<Rightarrow> int \<Rightarrow> u8 list option" where
  "sqlite3HexToBlob oom z n = (if oom then None else Some (HexToBlob_loop z (n - 1) 0))"

fun hexFunc_loop :: "u8 list \<Rightarrow> cstr" where
  "hexFunc_loop [] = []"
| "hexFunc_loop (c # b) =
     hexdigits ! unat (drop_bit 4 c AND 0xf) # hexdigits ! unat (c AND 0xf) # hexFunc_loop b"

definition hexFunc :: "bool \<Rightarrow> u8 list \<Rightarrow> cstr option" where
  "hexFunc oom pBlob = (if oom then None else Some (hexFunc_loop pBlob))"

lemma hex_digit_value: "n < 16 \<Longrightarrow> hex_value (hexdigits ! n) = of_nat n"
proof -
  have "[0..<16] = [0, 1, 2, 3, 4, 5, 6, 7, 8, 9, 10, 11, 12, 13, 14, 15]" by code_simp
  then have "list_all (\<lambda>n. hex_value (hexdigits ! n) = of_nat n) [0..<16]"
    by (simp add: hexdigits_def cstring_def ch_def hex_value_def sqlite3HexToInt_def)
  then show "n < 16 \<Longrightarrow> ?thesis" by (simp add: list_all_iff)
qed

lemma nibbles: "push_bit 4 (drop_bit 4 c AND 0xf) OR (c AND 0xf) = (c::u8)"
  by (simp add: word8_eq_bits bit_simps)

lemma nibble_less: "unat (c AND 0xf :: u8) < 16"
  using word_and_le1 [where a = "0xf :: u8" and y = c] by (simp add: word_le_nat_alt)

lemma HexToBlob_hexFunc_loop:
  "HexToBlob_loop (p @ hexFunc_loop b) (int (length p) + 2 * int (length b) - 1) (length p) = b @ [0]"
proof (induction b arbitrary: p)
  case Nil
  then show ?case by (simp add: HexToBlob_loop.simps)
next
  case (Cons c b)
  let ?x = "hexdigits ! unat (drop_bit 4 c AND 0xf)" and ?y = "hexdigits ! unat (c AND 0xf)"
  have "HexToBlob_loop ((p @ [?x, ?y]) @ hexFunc_loop b)
      (int (length (p @ [?x, ?y])) + 2 * int (length b) - 1) (length (p @ [?x, ?y])) = b @ [0]"
    by (rule Cons.IH)
  moreover have "push_bit 4 (hex_value ?x) OR hex_value ?y = c"
    by (simp only: hex_digit_value nibble_less nibbles of_nat_unat ucast_id)
  ultimately show ?case
    by (subst HexToBlob_loop.simps) (simp add: cat_def nth_append algebra_simps)
qed

text \<open>
  Hexadecimal text round trip: the blob that \<open>sqlite3HexToBlob\<close> decodes from the digits the SQL
  function \<open>hex\<close> writes for a byte string is that byte string, followed by the terminating zero byte.\<close>

theorem hex_roundtrip:
  "hexFunc False b = Some z \<Longrightarrow> sqlite3HexToBlob False z (int (length z)) = Some (b @ [0])"
proof -
  have l: "length (hexFunc_loop b) = 2 * length b" by (induction b) auto
  assume "hexFunc False b = Some z"
  then show ?thesis using HexToBlob_hexFunc_loop [of "[]" b]
    by (auto simp: hexFunc_def sqlite3HexToBlob_def l)
qed

theorem hex_roundtrip_witness:
  "\<exists>z. hexFunc False [0, 0x5a, 0xff] = Some z
     \<and> sqlite3HexToBlob False z (int (length z)) = Some [0, 0x5a, 0xff, 0]"
  using hex_roundtrip [of "[0, 0x5a, 0xff]"] by (simp add: hexFunc_def)

end
