(* ===== verification/NumText.thy ===== *)
theory NumText
  imports Quoting
begin

text \<open>
  Conversions between integers and text of \<open>util.c\<close> (\<open>src/src/db/sqlite3/core/sqlite3.c\<close>): rendering a
  64-bit integer, reading 64-bit integers from UTF-8 and UTF-16 text, hexadecimal literals, and the
  32-bit readers.  Text whose length is passed separately is a memory block \<open>mem\<close>; NUL-terminated text
  is a \<open>cstr\<close>.
\<close>

unbundle bit_operations_syntax

subsection \<open>Rendering\<close>

text \<open>
  The loop that fills \<open>zTemp\<close> from the right.  \<open>None\<close> stands for a store in front of the buffer.
\<close>

function Int64ToText_loop :: "u64 \<Rightarrow> int \<Rightarrow> u8 list \<Rightarrow> (int \<times> u8 list) option" where
  "Int64ToText_loop x i zTemp =
     (if i < 0 then None
      else let zTemp' = zTemp[nat i := ucast (x mod 10) + 48] in
        if x div 10 \<noteq> 0 then Int64ToText_loop (x div 10) (i - 1) zTemp' else Some (i - 1, zTemp'))"
  by pat_completeness auto
termination
  by (relation "measure (\<lambda>(x, i, t). nat (i + 1))") auto

declare Int64ToText_loop.simps [simp del]

definition sqlite3Int64ToText :: "int \<Rightarrow> u8 list option" where
  "sqlite3Int64ToText v =
     (let x = (if v < 0 then (if v = SMALLEST_INT64 then push_bit 63 1 else word_of_int (- v))
               else word_of_int v);
          zTemp = (replicate 22 0)[21 := 0]
      in case Int64ToText_loop x 20 zTemp of
           None \<Rightarrow> None
         | Some (i, zTemp) \<Rightarrow>
             if v < 0 then (if i < 0 then None else Some (drop (nat i) (zTemp[nat i := 45])))
             else Some (drop (nat (i + 1)) zTemp))"

subsection \<open>Reading\<close>

datatype enc = SQLITE_UTF8 | SQLITE_UTF16LE | SQLITE_UTF16BE

text \<open>The stride \<open>incr\<close> is 1 for UTF-8 and 2 for UTF-16; positions are offsets from \<open>zNum\<close>.\<close>

definition stride :: "bool \<Rightarrow> nat" where
  "stride wide = (if wide then 2 else 1)"

lemma stride_pos [simp]: "0 < stride wide" "stride wide \<noteq> 0"
  by (simp_all add: stride_def)

function skip_while :: "(u8 \<Rightarrow> bool) \<Rightarrow> mem \<Rightarrow> bool \<Rightarrow> nat \<Rightarrow> nat \<Rightarrow> nat" where
  "skip_while P z wide p zEnd =
     (if p < zEnd \<and> P (z p) then skip_while P z wide (p + stride wide) zEnd else p)"
  by pat_completeness auto
termination
  by (relation "measure (\<lambda>(P, z, w, p, e). e - p)") (simp_all add: diff_less_mono2)

declare skip_while.simps [simp del]

definition isdig :: "u8 \<Rightarrow> bool" where
  "isdig c \<longleftrightarrow> 48 \<le> c \<and> c \<le> 57"

function Atoi64_digits :: "mem \<Rightarrow> bool \<Rightarrow> nat \<Rightarrow> nat \<Rightarrow> nat \<Rightarrow> u64 \<Rightarrow> nat \<times> u64" where
  "Atoi64_digits z wide zNum zEnd i u =
     (if zNum + i < zEnd \<and> isdig (z (zNum + i))
      then Atoi64_digits z wide zNum zEnd (i + stride wide) (u * 10 + ucast (z (zNum + i)) - 48)
      else (i, u))"
  by pat_completeness auto
termination
  by (relation "measure (\<lambda>(z, w, p, e, i, u). e - (p + i))") (simp_all add: diff_less_mono2)

declare Atoi64_digits.simps [simp del]

definition pow63 :: cstr where
  "pow63 = cstring ''922337203685477580''"

fun compare2pow63_loop :: "mem \<Rightarrow> bool \<Rightarrow> nat list \<Rightarrow> int \<Rightarrow> int" where
  "compare2pow63_loop z wide [] c = c"
| "compare2pow63_loop z wide (i # is) c =
     (if c = 0 then compare2pow63_loop z wide is ((sint (z (i * stride wide)) - sint (pow63 ! i)) * 10)
      else c)"

definition compare2pow63 :: "mem \<Rightarrow> bool \<Rightarrow> int" where
  "compare2pow63 z wide =
     (let c = compare2pow63_loop z wide [0..<18] 0
      in if c = 0 then sint (z (18 * stride wide)) - 56 else c)"

text \<open>
  The part of \<open>sqlite3Atoi64\<close> behind the sign: leading zeros, digits, the return code and the range
  check.  \<open>Atoi64_body\<close> is the part behind the handling of the encoding: the text consists of
  \<open>z p0\<close>, \<open>z (p0 + incr)\<close> and so on up to \<open>zEnd\<close>.
\<close>

definition Atoi64_number :: "mem \<Rightarrow> bool \<Rightarrow> bool \<Rightarrow> nat \<Rightarrow> nat \<Rightarrow> bool \<Rightarrow> int \<times> int" where
  "Atoi64_number z wide neg zStart zEnd nonNum =
     (let incr = stride wide;
          zNum = skip_while (\<lambda>c. c = 48) z wide zStart zEnd;
          (i, u) = Atoi64_digits z wide zNum zEnd 0 0;
          clamp = (if neg then SMALLEST_INT64 else LARGEST_INT64);
          num = (if u > 0x7fffffffffffffff then clamp else if neg then - uint u else uint u);
          rc = (if i = 0 \<and> zStart = zNum then -1
                else if nonNum then 1
                else if zNum + i < zEnd \<and> skip_while sqlite3Isspace z wide (zNum + i) zEnd < zEnd then 1
                else 0)
      in if i < 19 * incr then (rc, num)
         else let c = (if i > 19 * incr then 1 else compare2pow63 (mem_at z zNum) wide) in
           if c < 0 then (rc, num)
           else if c > 0 then (2, clamp)
           else (if neg then rc else 3, clamp))"

definition Atoi64_body :: "mem \<Rightarrow> bool \<Rightarrow> nat \<Rightarrow> nat \<Rightarrow> bool \<Rightarrow> int \<times> int" where
  "Atoi64_body z wide p0 zEnd nonNum =
     (let p = skip_while sqlite3Isspace z wide p0 zEnd in
      if p < zEnd \<and> z p = 45 then Atoi64_number z wide True (p + stride wide) zEnd nonNum
      else if p < zEnd \<and> z p = 43 then Atoi64_number z wide False (p + stride wide) zEnd nonNum
      else Atoi64_number z wide False p zEnd nonNum)"

text \<open>
  \<open>sqlite3Atoi64\<close>: the return code and the value stored through \<open>pNum\<close>.  For UTF-16 the scan over the
  high-order bytes finds the first character outside Latin-1, which ends the text.
\<close>

definition sqlite3Atoi64 :: "mem \<Rightarrow> nat \<Rightarrow> enc \<Rightarrow> int \<times> int" where
  "sqlite3Atoi64 z length0 e =
     (case e of
        SQLITE_UTF8 \<Rightarrow> Atoi64_body z False 0 length0 False
      | SQLITE_UTF16LE \<Rightarrow>
          (let len = 2 * (length0 div 2);
               i = skip_while (\<lambda>c. c = 0) z True 1 len
           in Atoi64_body z True 0 (i XOR 1) (i < len))
      | SQLITE_UTF16BE \<Rightarrow>
          (let len = 2 * (length0 div 2);
               i = skip_while (\<lambda>c. c = 0) z True 0 len
           in Atoi64_body z True 1 (i XOR 1) (i < len)))"

fun hex_digits :: "cstr \<Rightarrow> u64 \<Rightarrow> nat \<Rightarrow> u64 \<times> nat \<times> cstr" where
  "hex_digits [] u k = (u, k, [])"
| "hex_digits (c # z) u k =
     (if sqlite3Isxdigit c then hex_digits z (u * 16 + ucast (hex_value c)) (k + 1) else (u, k, c # z))"

definition sqlite3DecOrHexToI64 :: "cstr \<Rightarrow> int \<times> int" where
  "sqlite3DecOrHexToI64 z =
     (if cat z 0 = 48 \<and> (cat z 1 = 120 \<or> cat z 1 = 88) then
        (let (u, k, rest) = hex_digits (dropWhile (\<lambda>c. c = 48) (drop 2 z)) 0 0
         in (if cat rest 0 = 0 \<and> k \<le> 16 then 0 else 2, sint u))
      else sqlite3Atoi64 (cat z) (sqlite3Strlen30 z) SQLITE_UTF8)"

text \<open>
  \<open>sqlite3GetInt32\<close>: \<open>Some v\<close> is the return value 1 with \<open>*pValue = v\<close>; \<open>None\<close> is the return value 0,
  which leaves \<open>*pValue\<close> alone.
\<close>

fun GetInt32_hex :: "cstr \<Rightarrow> nat \<Rightarrow> u32 \<Rightarrow> u32 \<times> cstr" where
  "GetInt32_hex z 0 u = (u, z)"
| "GetInt32_hex z (Suc n) u =
     (if sqlite3Isxdigit (cat z 0) then GetInt32_hex (tl z) n (u * 16 + ucast (hex_value (cat z 0)))
      else (u, z))"

fun GetInt32_dec :: "cstr \<Rightarrow> nat \<Rightarrow> nat \<Rightarrow> int \<Rightarrow> nat \<times> int" where
  "GetInt32_dec z 0 i v = (i, v)"
| "GetInt32_dec z (Suc n) i v =
     (let c = sint (cat z 0) - 48 in
      if 0 \<le> c \<and> c \<le> 9 then GetInt32_dec (tl z) n (i + 1) (v * 10 + c) else (i, v))"

definition GetInt32_tail :: "cstr \<Rightarrow> bool \<Rightarrow> int option" where
  "GetInt32_tail z neg =
     (if \<not> sqlite3Isdigit (cat z 0) then None
      else let (i, v) = GetInt32_dec (dropWhile (\<lambda>c. c = 48) z) 11 0 0 in
        if i > 10 then None
        else if v - (if neg then 1 else 0) > 2147483647 then None
        else Some (if neg then - v else v))"

definition sqlite3GetInt32 :: "cstr \<Rightarrow> int option" where
  "sqlite3GetInt32 z =
     (if cat z 0 = 45 then GetInt32_tail (tl z) True
      else if cat z 0 = 43 then GetInt32_tail (tl z) False
      else if cat z 0 = 48 \<and> (cat z 1 = 120 \<or> cat z 1 = 88) \<and> sqlite3Isxdigit (cat z 2) then
        (let (u, rest) = GetInt32_hex (dropWhile (\<lambda>c. c = 48) (drop 2 z)) 8 0 in
         if u AND 0x80000000 = 0 \<and> \<not> sqlite3Isxdigit (cat rest 0) then Some (sint u) else None)
      else GetInt32_tail z False)"

definition sqlite3Atoi :: "cstr \<Rightarrow> int" where
  "sqlite3Atoi z = (case sqlite3GetInt32 z of Some x \<Rightarrow> x | None \<Rightarrow> 0)"

text \<open>\<open>sqlite3GetUInt32\<close>: the return value and what is stored through \<open>pI\<close>.\<close>

fun GetUInt32_loop :: "cstr \<Rightarrow> nat \<Rightarrow> u64 \<Rightarrow> bool \<times> u32" where
  "GetUInt32_loop z i v =
     (if sqlite3Isdigit (cat z 0) then
        (case z of [] \<Rightarrow> (False, 0)
         | c # z' \<Rightarrow>
             (let v' = v * 10 + ucast c - 48 in
              if v' > 4294967296 then (False, 0) else GetUInt32_loop z' (i + 1) v'))
      else if i = 0 \<or> cat z 0 \<noteq> 0 then (False, 0)
      else (True, ucast v))"

definition sqlite3GetUInt32 :: "cstr \<Rightarrow> bool \<times> u32" where
  "sqlite3GetUInt32 z = GetUInt32_loop z 0 0"

subsection \<open>Decimal numerals\<close>

definition dig_val :: "u8 \<Rightarrow> nat" where
  "dig_val c = unat c - 48"

definition dec :: "cstr \<Rightarrow> nat" where
  "dec ds = foldl (\<lambda>a c. a * 10 + dig_val c) 0 ds"

fun dtext :: "nat \<Rightarrow> cstr" where
  "dtext n = (if n < 10 then [of_nat (n + 48)] else dtext (n div 10) @ [of_nat (n mod 10 + 48)])"

declare dtext.simps [simp del]

lemma isdig_iff: "isdig c \<longleftrightarrow> unat c \<in> {48..57}"
  by (auto simp: isdig_def word_le_nat_alt)

lemma isdig_val: "isdig c \<Longrightarrow> dig_val c < 10"
  by (auto simp: isdig_iff dig_val_def)

lemma unat_digit: "k < 10 \<Longrightarrow> unat (of_nat (k + 48) :: u8) = k + 48"
  by (rule unat_of_nat_less) simp

lemma isdig_digit [simp]: "k < 10 \<Longrightarrow> isdig (of_nat (k + 48))" "k < 10 \<Longrightarrow> dig_val (of_nat (k + 48)) = k"
  by (simp_all add: isdig_iff dig_val_def unat_digit del: of_nat_add)

lemma dec_Nil [simp]: "dec [] = 0"
  by (simp add: dec_def)

lemma dec_snoc [simp]: "dec (ds @ [c]) = dec ds * 10 + dig_val c"
  by (simp add: dec_def)

lemma dec_foldl: "foldl (\<lambda>a c. a * 10 + dig_val c) a ds = a * 10 ^ length ds + dec ds"
proof (induction ds rule: rev_induct)
  case Nil
  then show ?case by simp
next
  case (snoc c ds)
  then show ?case by (simp add: algebra_simps)
qed

lemma dec_Cons: "dec (c # ds) = dig_val c * 10 ^ length ds + dec ds"
  using dec_foldl [of "dig_val c" ds] by (simp add: dec_def)

lemma dec_less: "list_all isdig ds \<Longrightarrow> dec ds < 10 ^ length ds"
proof (induction ds rule: rev_induct)
  case Nil
  then show ?case by simp
next
  case (snoc c ds)
  then have "dec ds * 10 + dig_val c < dec ds * 10 + 10" by (simp add: isdig_val)
  also have "\<dots> \<le> 10 ^ length ds * 10" using snoc by simp
  finally show ?case by simp
qed

lemma dec_ge: "isdig c \<Longrightarrow> c \<noteq> 48 \<Longrightarrow> 10 ^ length ds \<le> dec (c # ds)"
proof -
  assume "isdig c" "c \<noteq> 48"
  then have "1 \<le> dig_val c" by (auto simp: isdig_iff dig_val_def word_unat_eq_iff)
  then have "1 * 10 ^ length ds \<le> dig_val c * (10 ^ length ds :: nat)" by (rule mult_le_mono1)
  then show ?thesis unfolding dec_Cons by linarith
qed

lemma dec_skip_zeros: "dec (takeWhile (\<lambda>c. c = 48) ds) = 0"
  by (induction ds) (auto simp: dec_Cons dig_val_def)

lemma dec_append: "dec (a @ b) = dec a * 10 ^ length b + dec b"
  using dec_foldl [of "dec a" b] by (simp add: dec_def)

lemma dec_dropWhile_zeros [simp]: "dec (dropWhile (\<lambda>c. c = 48) ds) = dec ds"
  using dec_append [of "takeWhile (\<lambda>c. c = 48) ds" "dropWhile (\<lambda>c. c = 48) ds"]
  by (simp add: dec_skip_zeros)

lemma dtext_digits: "list_all isdig (dtext n)"
proof (induction n rule: dtext.induct)
  case (1 n)
  then show ?case by (subst dtext.simps) (auto simp del: of_nat_add)
qed

lemma dec_dtext [simp]: "dec (dtext n) = n"
proof (induction n rule: dtext.induct)
  case (1 n)
  then show ?case
    by (subst dtext.simps) (auto simp: dec_def dec_snoc [unfolded dec_def] simp del: of_nat_add)
qed

lemma dtext_nonempty [simp]: "dtext n \<noteq> []"
  by (subst dtext.simps) auto

lemma length_dtext: "n < 10 ^ k \<Longrightarrow> 0 < k \<Longrightarrow> length (dtext n) \<le> k"
proof (induction n arbitrary: k rule: dtext.induct)
  case (1 n)
  show ?case
  proof (cases "n < 10")
    case True
    then show ?thesis using 1 by (subst dtext.simps) simp
  next
    case False
    then obtain k' where k: "k = Suc k'" "0 < k'" using 1 by (cases k; cases "k - 1") auto
    then have "n div 10 < 10 ^ k'" using "1.prems" by (simp add: div_less_iff_less_mult mult.commute)
    then show ?thesis using "1.IH" [OF False, of k'] k False by (subst dtext.simps) simp
  qed
qed

lemma Int64ToText_loop_dtext:
  assumes "length (dtext (unat x)) \<le> Suc i" "i < length t"
  shows "\<exists>t'. Int64ToText_loop x (int i) t = Some (int i - int (length (dtext (unat x))), t')
    \<and> length t' = length t
    \<and> drop (Suc i - length (dtext (unat x))) t' = dtext (unat x) @ drop (Suc i) t"
  using assms
proof (induction "unat x" arbitrary: x i t rule: less_induct)
  case less
  let ?t = "t[i := ucast (x mod 10) + 48]"
  have um: "unat (x mod 10) = unat x mod 10" and ud: "unat (x div 10) = unat x div 10"
    by (simp_all add: unat_mod_distrib unat_div_distrib)
  have c: "ucast (x mod 10) + 48 = (of_nat (unat x mod 10 + 48) :: u8)"
    by (simp add: um [symmetric])
  have d: "drop i ?t = of_nat (unat x mod 10 + 48) # drop (Suc i) t"
    using less.prems(2) by (simp add: c drop_update_swap Cons_nth_drop_Suc [symmetric])
  have z: "x div 10 = 0 \<longleftrightarrow> unat x < 10"
    by (simp add: word_unat_eq_iff ud div_eq_0_iff)
  show ?case
  proof (cases "unat x < 10")
    case True
    then show ?thesis using d z
      by (subst Int64ToText_loop.simps) (simp add: dtext.simps [of "unat x"] del: of_nat_add)
  next
    case False
    then have dt: "dtext (unat x) = dtext (unat (x div 10)) @ [of_nat (unat x mod 10 + 48)]"
      by (subst dtext.simps) (simp add: ud del: of_nat_add)
    then have l: "length (dtext (unat (x div 10))) \<le> i" using less.prems(1) by simp
    moreover have "0 < length (dtext (unat (x div 10)))" by simp
    ultimately obtain i' where i: "i = Suc i'" by (cases i) (simp_all del: length_greater_0_conv)
    have i1: "int i - 1 = int i'" using i by simp
    have lt: "unat (x div 10) < unat x" using False by (simp add: ud)
    obtain t' where t': "Int64ToText_loop (x div 10) (int i') ?t = Some (int i' - int (length (dtext (unat (x div 10)))), t')"
        "length t' = length t"
        "drop (Suc i' - length (dtext (unat (x div 10)))) t' = dtext (unat (x div 10)) @ drop (Suc i') ?t"
      using less.hyps [OF lt, of i' ?t] l i less.prems by auto
    have "Int64ToText_loop x (int i) t = Int64ToText_loop (x div 10) (int i') ?t"
      using False z i1 by (subst Int64ToText_loop.simps) (simp add: Let_def)
    then show ?thesis using t' d i by (simp add: dt del: of_nat_add)
  qed
qed

lemma Int64ToText_eq:
  assumes "in_i64 v"
  shows "sqlite3Int64ToText v = Some ((if v < 0 then [45] else []) @ dtext (nat \<bar>v\<bar>) @ [0])"
proof -
  define x :: u64 where "x = (if v < 0 then (if v = SMALLEST_INT64 then push_bit 63 1 else word_of_int (- v))
               else word_of_int v)"
  have ux: "unat x = nat \<bar>v\<bar>"
  proof (cases "v = SMALLEST_INT64")
    case True
    then show ?thesis by (simp add: x_def i64_bounds)
  next
    case False
    then have x: "x = word_of_int \<bar>v\<bar>" by (simp add: x_def)
    have "\<bar>v\<bar> < 2 ^ 64" using assms by (auto simp: in_i64_def i64_bounds)
    then have "uint (word_of_int \<bar>v\<bar> :: u64) = \<bar>v\<bar>" by (simp add: uint_word_of_int)
    then show ?thesis unfolding x unat_eq_nat_uint by simp
  qed
  have b: "nat \<bar>v\<bar> \<le> 9223372036854775808" using assms by (auto simp: in_i64_def i64_bounds)
  then have l: "length (dtext (unat x)) \<le> 19"
    unfolding ux by (intro length_dtext) simp_all
  define t :: "u8 list" where "t = (replicate 22 0)[21 := 0]"
  have lt: "length t = 22" by (simp add: t_def)
  have t21: "drop 21 t = [0]" unfolding t_def by code_simp
  obtain t' where t': "Int64ToText_loop x 20 t = Some (20 - int (length (dtext (unat x))), t')"
      "length t' = 22" "drop (21 - length (dtext (unat x))) t' = dtext (unat x) @ [0]"
    using Int64ToText_loop_dtext [of x 20 t] l lt t21 by auto
  define n where "n = length (dtext (unat x))"
  have n: "n \<le> 19" using l by (simp add: n_def)
  have neg: "drop (nat (20 - int n)) (t'[nat (20 - int n) := 45]) = 45 # dtext (unat x) @ [0]"
  proof -
    have e: "nat (20 - int n) = 20 - n" by simp
    have s: "21 - n = Suc (20 - n)" using n by simp
    have "drop (20 - n) (t'[20 - n := 45]) = 45 # drop (Suc (20 - n)) t'"
      using t'(2) n Cons_nth_drop_Suc [of "20 - n" "t'[20 - n := 45]"] by simp
    then show ?thesis using t'(3) by (simp add: e n_def [symmetric] s)
  qed
  have pos: "nat (20 - int n + 1) = 21 - n" using n by simp
  have "sqlite3Int64ToText v = (case Int64ToText_loop x 20 t of
           None \<Rightarrow> None
         | Some (i, zTemp) \<Rightarrow>
             if v < 0 then (if i < 0 then None else Some (drop (nat i) (zTemp[nat i := 45])))
             else Some (drop (nat (i + 1)) zTemp))"
    unfolding sqlite3Int64ToText_def Let_def x_def t_def by (rule refl)
  then show ?thesis
    using t' neg pos n by (simp add: n_def [symmetric] ux [symmetric])
qed

subsection \<open>Reading, as a function of the text\<close>

text \<open>The characters a stride apart, and what each loop of \<open>sqlite3Atoi64\<close> computes from them.\<close>

definition chars :: "mem \<Rightarrow> bool \<Rightarrow> nat \<Rightarrow> nat \<Rightarrow> cstr" where
  "chars z wide p n = map (\<lambda>k. z (p + k * stride wide)) [0..<n]"

lemma length_chars [simp]: "length (chars z w p n) = n"
  by (simp add: chars_def)

lemma chars_0 [simp]: "chars z w p 0 = []"
  by (simp add: chars_def)

lemma chars_eq_Nil [simp]: "chars z w p n = [] \<longleftrightarrow> n = 0"
  by (simp add: chars_def)

lemma chars_Suc: "chars z w p (Suc n) = z p # chars z w (p + stride w) n"
proof -
  have "[0..<Suc n] = 0 # map Suc [0..<n]" by (simp add: map_Suc_upt upt_conv_Cons)
  then show ?thesis by (simp add: chars_def comp_def add.assoc add.left_commute)
qed

lemma chars_nth: "k < n \<Longrightarrow> chars z w p n ! k = z (p + k * stride w)"
  by (simp add: chars_def)

lemma drop_chars: "k \<le> n \<Longrightarrow> drop k (chars z w p n) = chars z w (p + k * stride w) (n - k)"
  by (rule nth_equalityI) (simp_all add: chars_nth algebra_simps)

lemma skip_while_chars:
  "skip_while P z w p (p + n * stride w) = p + length (takeWhile P (chars z w p n)) * stride w"
proof (induction n arbitrary: p)
  case 0
  then show ?case by (subst skip_while.simps) simp
next
  case (Suc n)
  have "p + Suc n * stride w = (p + stride w) + n * stride w" by simp
  moreover have "p < p + Suc n * stride w" using stride_pos(1) [of w] by simp
  ultimately show ?case using Suc.IH [of "p + stride w"]
    by (subst skip_while.simps) (simp add: chars_Suc add.assoc)
qed

lemma Atoi64_digits_chars:
  "Atoi64_digits z w p (p + i + n * stride w) i u =
     (let ds = takeWhile isdig (chars z w (p + i) n)
      in (i + length ds * stride w, foldl (\<lambda>u c. u * 10 + ucast c - 48) u ds))"
proof (induction n arbitrary: i u)
  case 0
  then show ?case by (subst Atoi64_digits.simps) simp
next
  case (Suc n)
  have "p + i + Suc n * stride w = p + (i + stride w) + n * stride w" by simp
  moreover have "p + i < p + i + Suc n * stride w" using stride_pos(1) [of w] by simp
  ultimately show ?case using Suc.IH [of "i + stride w"]
    by (subst Atoi64_digits.simps) (simp add: chars_Suc Let_def add.assoc)
qed

lemma word_dec:
  "list_all isdig ds \<Longrightarrow> foldl (\<lambda>u c. u * 10 + ucast c - 48) (0::u64) ds = of_nat (dec ds)"
proof (induction ds rule: rev_induct)
  case Nil
  then show ?case by simp
next
  case (snoc c ds)
  have "48 \<le> unat c" using snoc.prems by (simp add: isdig_iff)
  then have "(ucast c :: u64) - 48 = of_nat (dig_val c)"
    by (simp add: dig_val_def of_nat_diff)
  then have "of_nat (dec ds) * 10 + ucast c - 48 = (of_nat (dec ds) * 10 + of_nat (dig_val c) :: u64)"
    by (simp add: add_diff_eq [symmetric])
  then show ?case using snoc by simp
qed

lemma sint_digit: "isdig c \<Longrightarrow> sint c - 48 = int (dig_val c)"
proof -
  assume d: "isdig c"
  define k where "k = unat c - 48"
  have k: "k < 10" "c = of_nat (k + 48)" using d by (auto simp: isdig_iff k_def)
  from k(1) have "k = 0 \<or> k = 1 \<or> k = 2 \<or> k = 3 \<or> k = 4 \<or> k = 5 \<or> k = 6 \<or> k = 7 \<or> k = 8 \<or> k = 9"
    by arith
  then show ?thesis unfolding k(2) by (elim disjE) (simp_all add: dig_val_def)
qed

text \<open>Comparing the digits with those of \<open>2\<^sup>6\<^sup>3\<close> from the left.\<close>

definition digits_2pow63 :: cstr where
  "digits_2pow63 = pow63 @ [56]"

lemma digits_2pow63_facts:
  "list_all isdig digits_2pow63" "length digits_2pow63 = 19" "dec digits_2pow63 = 9223372036854775808"
  by (simp_all add: digits_2pow63_def pow63_def cstring_def ch_def isdig_iff dec_def dig_val_def)

lemma compare2pow63_loop_nonzero [simp]: "c \<noteq> 0 \<Longrightarrow> compare2pow63_loop z w is c = c"
  by (cases "is") auto

lemma dec_compare_head:
  assumes "length as = length bs" "list_all isdig as" "list_all isdig bs"
  shows "dig_val a < dig_val b \<Longrightarrow> dec (a # as) < dec (b # bs)"
proof -
  assume "dig_val a < dig_val b"
  then have "Suc (dig_val a) * 10 ^ length as \<le> dig_val b * 10 ^ length as" by (intro mult_le_mono1) simp
  then show ?thesis using dec_less [OF assms(2)] assms(1) by (simp add: dec_Cons)
qed

lemma compare2pow63_suffix:
  assumes "list_all isdig (chars z w 0 19)" "k \<le> 18"
  shows "sgn (let c = compare2pow63_loop z w [k..<18] 0
              in if c = 0 then sint (z (18 * stride w)) - 56 else c)
       = sgn (int (dec (drop k (chars z w 0 19))) - int (dec (drop k digits_2pow63)))"
  using assms(2)
proof (induction "18 - k" arbitrary: k)
  case 0
  then have k: "k = 18" by simp
  have "isdig (z (18 * stride w))"
    using assms(1) by (simp add: list_all_length chars_nth)
  then have d: "sint (z (18 * stride w)) - 48 = int (dig_val (z (18 * stride w)))" by (rule sint_digit)
  have "drop 18 (chars z w 0 19) = [z (18 * stride w)]" by (simp add: drop_chars chars_Suc)
  moreover have "drop 18 digits_2pow63 = [56]" by (simp add: digits_2pow63_def pow63_def cstring_def)
  moreover have "sint (z (18 * stride w)) - 56 = int (dig_val (z (18 * stride w))) - int (dig_val 56)"
    using d by (simp add: dig_val_def [of 56])
  ultimately show ?case by (simp add: k dec_Cons)
next
  case (Suc n)
  then have k: "k < 18" by simp
  let ?A = "chars z w 0 19" and ?B = digits_2pow63
  let ?a = "?A ! k" and ?b = "?B ! k"
  have A: "drop k ?A = ?a # drop (Suc k) ?A" and B: "drop k ?B = ?b # drop (Suc k) ?B"
    using k digits_2pow63_facts(2) by (simp_all add: Cons_nth_drop_Suc)
  have az: "?a = z (k * stride w)" using k by (simp add: chars_nth)
  have bz: "?b = pow63 ! k" using k digits_2pow63_facts(2) by (simp add: digits_2pow63_def nth_append)
  have da: "isdig ?a" "list_all isdig (drop (Suc k) ?A)"
    using assms(1) k by (simp_all add: list_all_length)
  have db: "isdig ?b" "list_all isdig (drop (Suc k) ?B)"
    using digits_2pow63_facts(1,2) k by (simp_all only: list_all_length) simp_all
  have l: "length (drop (Suc k) ?A) = length (drop (Suc k) ?B)"
    using digits_2pow63_facts(2) by (simp only: length_drop length_chars)
  have diff: "sint ?a - sint ?b = int (dig_val ?a) - int (dig_val ?b)"
    using sint_digit [OF da(1)] sint_digit [OF db(1)] by simp
  have step: "compare2pow63_loop z w [k..<18] 0 =
      compare2pow63_loop z w [Suc k..<18] ((sint ?a - sint ?b) * 10)"
    using k by (simp add: upt_conv_Cons az bz)
  show ?case
  proof (cases "dig_val ?a" "dig_val ?b" rule: linorder_cases)
    case equal
    then show ?thesis using Suc.hyps(1) [of "Suc k"] Suc.hyps(2) k
      unfolding step A B by (simp add: diff dec_Cons digits_2pow63_facts(2))
  next
    case less
    then show ?thesis using dec_compare_head [OF l da(2) db(2) less]
      unfolding step A B by (simp add: diff Let_def sgn_if)
  next
    case greater
    then show ?thesis using dec_compare_head [OF l [symmetric] db(2) da(2) greater]
      unfolding step A B by (simp add: diff Let_def sgn_if)
  qed
qed

lemma compare2pow63_sgn:
  "list_all isdig (chars z w 0 19) \<Longrightarrow>
     sgn (compare2pow63 z w) = sgn (int (dec (chars z w 0 19)) - 9223372036854775808)"
  using compare2pow63_suffix [of z w 0] digits_2pow63_facts(3)
  by (simp add: compare2pow63_def)

text \<open>
  The specification: the value and return code as functions of the text.  Behind spaces and an optional
  sign the longest run of decimal digits is the number, whatever its length.
\<close>

definition atoi_number :: "bool \<Rightarrow> cstr \<Rightarrow> bool \<Rightarrow> int \<times> int" where
  "atoi_number neg xs nonNum =
     (let ds = takeWhile isdig xs;
          v = (if neg then - int (dec ds) else int (dec ds));
          rc = (if ds = [] then -1
                else if nonNum \<or> \<not> list_all sqlite3Isspace (dropWhile isdig xs) then 1 else 0)
      in if in_i64 v then (rc, v)
         else if v = 9223372036854775808 then (3, LARGEST_INT64)
         else (2, if neg then SMALLEST_INT64 else LARGEST_INT64))"

fun atoi_sign :: "cstr \<Rightarrow> bool \<Rightarrow> int \<times> int" where
  "atoi_sign [] nonNum = atoi_number False [] nonNum"
| "atoi_sign (c # xs) nonNum =
     (if c = 45 then atoi_number True xs nonNum
      else if c = 43 then atoi_number False xs nonNum
      else atoi_number False (c # xs) nonNum)"

definition atoi_spec :: "cstr \<Rightarrow> bool \<Rightarrow> int \<times> int" where
  "atoi_spec xs nonNum = atoi_sign (dropWhile sqlite3Isspace xs) nonNum"

lemma skip_view:
  obtains k n' where "k + n' = n" "skip_while P z w p (p + n * stride w) = p + k * stride w"
    "p + n * stride w = (p + k * stride w) + n' * stride w"
    "chars z w (p + k * stride w) n' = dropWhile P (chars z w p n)"
    "takeWhile P (chars z w p n) = take k (chars z w p n)"
proof -
  let ?k = "length (takeWhile P (chars z w p n))"
  have le: "?k \<le> n" using length_takeWhile_le [of P "chars z w p n"] by simp
  show ?thesis
  proof (rule that [of ?k "n - ?k"])
    show "?k + (n - ?k) = n" using le by simp
    then have "(?k + (n - ?k)) * stride w = n * stride w" by (simp only:)
    then show "p + n * stride w = (p + ?k * stride w) + (n - ?k) * stride w"
      unfolding add_mult_distrib by simp
    show "chars z w (p + ?k * stride w) (n - ?k) = dropWhile P (chars z w p n)"
      using le by (simp add: drop_chars dropWhile_eq_drop)
  qed (simp add: skip_while_chars, rule takeWhile_eq_take)
qed

lemma zeros_digits:
  "takeWhile isdig xs = takeWhile (\<lambda>c. c = 48) xs @ takeWhile isdig (dropWhile (\<lambda>c. c = 48) xs)"
  "dropWhile isdig xs = dropWhile isdig (dropWhile (\<lambda>c. c = 48) xs)"
  by (induction xs) (auto simp: isdig_def)

lemma skip_while_all:
  "skip_while P z w p (p + n * stride w) < p + n * stride w \<longleftrightarrow> \<not> list_all P (chars z w p n)"
proof -
  have "length (takeWhile P xs) < length xs \<longleftrightarrow> \<not> list_all P xs" for xs :: cstr
    using length_takeWhile_le [of P xs]
    by (induction xs) auto
  from this [of "chars z w p n"] show ?thesis by (simp add: skip_while_chars)
qed

lemma big_number:
  assumes "list_all isdig ds" "ds \<noteq> []" "hd ds \<noteq> 48" "19 < length ds"
  shows "9223372036854775808 < dec ds"
proof -
  obtain d es where ds: "ds = d # es" "isdig d" "d \<noteq> 48" using assms by (cases ds) auto
  have "(10::nat) ^ 19 \<le> 10 ^ length es" using assms(4) ds by (intro power_increasing) auto
  also have "\<dots> \<le> dec ds" using dec_ge ds by simp
  finally show ?thesis by simp
qed

lemma number_cases:
  fixes ds :: cstr
  assumes dig: "list_all isdig ds" and nz: "ds = [] \<or> hd ds \<noteq> 48"
    and c: "length ds = 19 \<Longrightarrow> sgn c = sgn (int (dec ds) - 9223372036854775808)"
    and clamp: "clamp = (if neg then SMALLEST_INT64 else LARGEST_INT64)"
    and u: "u = (of_nat (dec ds) :: u64)"
    and v: "v = (if neg then - int (dec ds) else int (dec ds))"
    and num: "num = (if u > 0x7fffffffffffffff then clamp else if neg then - uint u else uint u)"
  shows "(if length ds < 19 then (rc, num)
          else let c = (if length ds > 19 then 1 else c) in
            if c < 0 then (rc, num) else if c > 0 then (2, clamp) else (if neg then rc else 3, clamp))
      = (if in_i64 v then (rc, v) else if v = 9223372036854775808 then (3, LARGEST_INT64)
         else (2::int, clamp))"
proof -
  have fits: "num = v \<and> in_i64 v" if "dec ds < 9223372036854775808"
  proof -
    have "unat u = dec ds" unfolding u using that by (intro unat_of_nat_less) simp
    then have "uint u = int (dec ds)" by (metis uint_nat)
    then show ?thesis using that by (auto simp: num v word_less_def in_i64_def i64_bounds)
  qed
  show ?thesis
  proof (cases "length ds" "19::nat" rule: linorder_cases)
    case less
    have "dec ds < 10 ^ length ds" by (rule dec_less [OF dig])
    also have "\<dots> \<le> (10::nat) ^ 18" using less by (intro power_increasing) simp_all
    finally show ?thesis using less fits by simp
  next
    case equal
    consider "dec ds < 9223372036854775808" | "dec ds = 9223372036854775808" | "9223372036854775808 < dec ds"
      by linarith
    then show ?thesis
    proof cases
      case 1
      then have "c < 0" using c [OF equal] by (simp add: sgn_if split: if_splits)
      with 1 equal fits show ?thesis by simp
    next
      case 2
      then have "c = 0" using c [OF equal] by (simp add: sgn_if split: if_splits)
      with 2 equal show ?thesis by (simp add: v clamp in_i64_def i64_bounds)
    next
      case 3
      then have "0 < c" using c [OF equal] by (simp add: sgn_if split: if_splits)
      with 3 equal show ?thesis by (simp add: v clamp in_i64_def i64_bounds)
    qed
  next
    case greater
    then have "ds \<noteq> []" by auto
    then have "9223372036854775808 < dec ds" using big_number [OF dig] nz greater by blast
    with greater show ?thesis by (simp add: v clamp in_i64_def i64_bounds)
  qed
qed

lemma Atoi64_number_spec:
  "Atoi64_number z w neg p (p + n * stride w) nonNum = atoi_number neg (chars z w p n) nonNum"
proof -
  let ?xs = "chars z w p n" and ?e = "p + n * stride w"
  obtain k m where kn: "k + m = n" and sk: "skip_while (\<lambda>c. c = 48) z w p ?e = p + k * stride w"
      and e: "?e = (p + k * stride w) + m * stride w"
      and r: "chars z w (p + k * stride w) m = dropWhile (\<lambda>c. c = 48) ?xs"
      and zs: "takeWhile (\<lambda>c. c = 48) ?xs = take k ?xs"
    by (rule skip_view)
  define q where "q = p + k * stride w"
  define ys where "ys = chars z w q m"
  define ds where "ds = takeWhile isdig ys"
  have dig: "list_all isdig ds" by (auto simp: ds_def list_all_iff dest: set_takeWhileD)
  have dgs: "Atoi64_digits z w q ?e 0 0 = (length ds * stride w, of_nat (dec ds))"
    using Atoi64_digits_chars [of z w q 0 m 0] word_dec [OF dig] e
    by (simp add: q_def ds_def ys_def Let_def add.assoc)
  have ds_xs: "takeWhile isdig ?xs = take k ?xs @ ds" "dropWhile isdig ?xs = dropWhile isdig ys"
    using zeros_digits [of ?xs] zs r by (simp_all add: ds_def ys_def q_def)
  have dec: "dec (takeWhile isdig ?xs) = dec ds"
    using dec_skip_zeros [of ?xs] zs by (simp add: ds_xs dec_append)
  have len: "length ds \<le> m" using length_takeWhile_le [of isdig ys] by (simp add: ds_def ys_def)
  have tail: "dropWhile isdig ys = chars z w (q + length ds * stride w) (m - length ds)"
    using len by (simp add: ys_def drop_chars dropWhile_eq_drop ds_def)
  have e2: "?e = (q + length ds * stride w) + (m - length ds) * stride w"
    using e len by (simp add: q_def diff_mult_distrib mult_le_mono1)
  have more: "q + length ds * stride w < ?e \<and> skip_while sqlite3Isspace z w (q + length ds * stride w) ?e < ?e
      \<longleftrightarrow> \<not> list_all sqlite3Isspace (dropWhile isdig ys)"
  proof -
    have "skip_while sqlite3Isspace z w (q + length ds * stride w) ?e < ?e
      \<longleftrightarrow> \<not> list_all sqlite3Isspace (dropWhile isdig ys)"
      unfolding tail e2 by (rule skip_while_all)
    moreover have "list_all sqlite3Isspace (dropWhile isdig ys)" if "\<not> q + length ds * stride w < ?e"
    proof -
      have "m - length ds = 0" using that e2 stride_pos(1) [of w] by simp
      then show ?thesis unfolding tail by (simp only: chars_0 list.pred_inject)
    qed
    ultimately show ?thesis by blast
  qed
  have none: "length ds * stride w = 0 \<and> p = q \<longleftrightarrow> takeWhile isdig ?xs = []"
  proof -
    have "k \<le> n" using kn by simp
    then show ?thesis using stride_pos(1) [of w] by (auto simp: ds_xs q_def) 
  qed
  have cmp: "sgn (compare2pow63 (mem_at z q) w) = sgn (int (dec ds) - 9223372036854775808)"
    if l: "length ds = 19"
  proof -
    have "take 19 ys = ds" using l by (metis ds_def takeWhile_eq_take)
    moreover have "take 19 ys = chars (mem_at z q) w 0 19"
      using len l by (intro nth_equalityI) (simp_all add: ys_def chars_nth)
    ultimately show ?thesis using compare2pow63_sgn [of "mem_at z q" w] dig by simp
  qed
  have nz: "ds = [] \<or> hd ds \<noteq> 48"
  proof -
    have "ys = [] \<or> hd ys \<noteq> 48" using r hd_dropWhile [of "\<lambda>c. c = 48" ?xs] by (auto simp: ys_def q_def)
    then show ?thesis by (cases ys) (auto simp: ds_def)
  qed
  have s19: "length ds * stride w < 19 * stride w \<longleftrightarrow> length ds < 19"
    "19 * stride w < length ds * stride w \<longleftrightarrow> 19 < length ds"
    using stride_pos(1) [of w] by simp_all
  show ?thesis
    unfolding Atoi64_number_def atoi_number_def sk q_def [symmetric] dgs Let_def prod.case s19 more none
      ds_xs(2) dec
    using number_cases [OF dig nz cmp refl refl refl refl, unfolded Let_def]
    by (auto simp: Let_def)
qed

lemma Atoi64_body_spec:
  "Atoi64_body z w p (p + n * stride w) nonNum = atoi_spec (chars z w p n) nonNum"
proof -
  let ?e = "p + n * stride w"
  obtain k m where sk: "skip_while sqlite3Isspace z w p ?e = p + k * stride w"
      and e: "?e = (p + k * stride w) + m * stride w"
      and r: "chars z w (p + k * stride w) m = dropWhile sqlite3Isspace (chars z w p n)"
    by (rule skip_view)
  show ?thesis
  proof (cases m)
    case 0
    then show ?thesis
      using Atoi64_number_spec [of z w False "p + k * stride w" 0 nonNum] r e
      unfolding Atoi64_body_def Let_def sk atoi_spec_def by simp
  next
    case (Suc m')
    let ?q = "p + k * stride w"
    have lt: "?q < ?e" using e Suc by simp
    have e': "?e = (?q + stride w) + m' * stride w" using e Suc by simp
    have "dropWhile sqlite3Isspace (chars z w p n) = z ?q # chars z w (?q + stride w) m'"
      using r Suc by (simp add: chars_Suc)
    then show ?thesis
      using Atoi64_number_spec [of z w _ "?q + stride w" m' nonNum, folded e']
        Atoi64_number_spec [of z w False ?q m nonNum, folded e] r lt
      by (simp add: Atoi64_body_def atoi_spec_def sk Let_def)
  qed
qed

text \<open>
  The characters the three encodings present: for UTF-16 the low bytes up to the first code unit whose
  high byte is not zero, and whether there is one.
\<close>

definition latin_text :: "mem \<Rightarrow> nat \<Rightarrow> enc \<Rightarrow> cstr \<times> bool" where
  "latin_text z len e =
     (case e of
        SQLITE_UTF8 \<Rightarrow> (mem_bytes z len, False)
      | SQLITE_UTF16LE \<Rightarrow>
          (let k = length (takeWhile (\<lambda>j. z (2 * j + 1) = 0) [0..<len div 2])
           in (map (\<lambda>j. z (2 * j)) [0..<k], k < len div 2))
      | SQLITE_UTF16BE \<Rightarrow>
          (let k = length (takeWhile (\<lambda>j. z (2 * j) = 0) [0..<len div 2])
           in (map (\<lambda>j. z (2 * j + 1)) [0..<k], k < len div 2)))"

lemma skip_while_odd: "odd p \<Longrightarrow> skip_while P z True p (2 * n) = skip_while P z True p (1 + n * stride True)"
proof (induction P z True p "2 * n" rule: skip_while.induct)
  case (1 P z p)
  have "p < 2 * n \<longleftrightarrow> p < 1 + n * stride True" using 1(2) by (auto simp: stride_def elim!: oddE)
  then show ?case using 1 by (subst (1 2) skip_while.simps) (auto simp: stride_def)
qed

lemma length_takeWhile_chars:
  "length (takeWhile P (chars z w p n)) = length (takeWhile (\<lambda>j. P (z (p + j * stride w))) [0..<n])"
  by (simp add: chars_def takeWhile_map comp_def)

lemma Atoi64_spec_eq:
  "sqlite3Atoi64 z len e = atoi_spec (fst (latin_text z len e)) (snd (latin_text z len e))"
proof (cases e)
  case SQLITE_UTF8
  have "mem_bytes z len = chars z False 0 len"
    by (simp add: mem_bytes_def chars_def stride_def)
  then show ?thesis using Atoi64_body_spec [of z False 0 len False] SQLITE_UTF8
    by (simp add: sqlite3Atoi64_def latin_text_def stride_def)
next
  case SQLITE_UTF16LE
  let ?n = "len div 2" and ?k = "length (takeWhile (\<lambda>c. c = 0) (chars z True 1 (len div 2)))"
  have i: "skip_while (\<lambda>c. c = 0) z True 1 (2 * ?n) = Suc (2 * ?k)"
    using skip_while_odd [of 1 "\<lambda>c. c = 0" z ?n] skip_while_chars [of "\<lambda>c. c = 0" z True 1 ?n]
    by (simp add: stride_def)
  have "Suc (2 * ?k) XOR 1 = 2 * ?k" by (simp add: xor_Suc_0_eq)
  moreover have "Suc (2 * ?k) < 2 * ?n \<longleftrightarrow> ?k < ?n" by linarith
  ultimately have "sqlite3Atoi64 z len e = Atoi64_body z True 0 (2 * ?k) (?k < ?n)"
    using SQLITE_UTF16LE unfolding sqlite3Atoi64_def Let_def i by simp
  also have "\<dots> = atoi_spec (chars z True 0 ?k) (?k < ?n)"
    using Atoi64_body_spec [of z True 0 ?k] by (simp add: stride_def mult.commute)
  finally show ?thesis
    using SQLITE_UTF16LE
    by (simp add: latin_text_def length_takeWhile_chars chars_def [of _ _ _ "length _"] stride_def Let_def mult.commute)
next
  case SQLITE_UTF16BE
  let ?n = "len div 2" and ?k = "length (takeWhile (\<lambda>c. c = 0) (chars z True 0 (len div 2)))"
  have i: "skip_while (\<lambda>c. c = 0) z True 0 (2 * ?n) = 2 * ?k"
    using skip_while_chars [of "\<lambda>c. c = 0" z True 0 ?n] by (simp add: stride_def mult.commute)
  have "2 * ?k XOR 1 = 1 + 2 * ?k" by (simp add: xor_Suc_0_eq)
  then have "sqlite3Atoi64 z len e = Atoi64_body z True 1 (1 + 2 * ?k) (?k < ?n)"
    using SQLITE_UTF16BE unfolding sqlite3Atoi64_def Let_def i by simp
  also have "\<dots> = atoi_spec (chars z True 1 ?k) (?k < ?n)"
    using Atoi64_body_spec [of z True 1 ?k] by (simp add: stride_def mult.commute)
  finally show ?thesis
    using SQLITE_UTF16BE
    by (simp add: latin_text_def length_takeWhile_chars chars_def [of _ _ _ "length _"] stride_def Let_def mult.commute)
qed

text \<open>
  C35. \<open>sqlite3Atoi64\<close> computes its specification for UTF-8, UTF-16le and UTF-16be text of any length and
  content: leading spaces and a sign, then a run of digits of any length read as an unbounded
  decimal number.  The value and code 0 or 1 are returned exactly when the signed number fits in 64 bits;
  code 3 is exactly the text of 9223372036854775808; larger magnitudes give code 2 with the value clamped;
  no digits give -1.  In particular the 64-bit accumulator, which wraps, never leaks a wrong value.\<close>

theorem Atoi64_correct:
  "sqlite3Atoi64 z len e = atoi_spec (fst (latin_text z len e)) (snd (latin_text z len e))"
  by (rule Atoi64_spec_eq)

lemma takeWhile_dtext: "takeWhile isdig (dtext n) = dtext n" "dropWhile isdig (dtext n) = []"
  using dtext_digits [of n] by (simp_all add: list_all_iff)

lemma atoi_number_dtext:
  "in_i64 (if neg then - int n else int n) \<Longrightarrow>
     atoi_number neg (dtext n) False = (0, if neg then - int n else int n)"
  by (cases neg) (auto simp: atoi_number_def takeWhile_dtext Let_def)

lemma atoi_spec_dtext: "in_i64 (int n) \<Longrightarrow> atoi_spec (dtext n) False = (0, int n)"
proof -
  assume r: "in_i64 (int n)"
  obtain c r' where d: "dtext n = c # r'" by (cases "dtext n") simp_all
  then have "isdig c" using dtext_digits [of n] by simp
  then have "\<not> sqlite3Isspace c" "c \<noteq> 45" "c \<noteq> 43" by (auto simp: isdig_iff Isspace_iff)
  then show ?thesis using atoi_number_dtext [of False n] r by (simp add: atoi_spec_def d)
qed

lemma mem_bytes_cat [simp]: "mem_bytes (cat t) (length t) = t"
  by (rule nth_equalityI) (simp_all add: cat_def)

text \<open>The text of an integer.\<close>

definition int_text :: "int \<Rightarrow> cstr" where
  "int_text v = (if v < 0 then [45] else []) @ dtext (nat \<bar>v\<bar>)"

lemma int_text_chars: "list_all (\<lambda>c. isdig c \<or> c = 45) (int_text v)"
  using dtext_digits [of "nat \<bar>v\<bar>"] by (auto simp: int_text_def list_all_iff)

lemma length_int_text: "in_i64 v \<Longrightarrow> length (int_text v) \<le> 20"
  using length_dtext [of "nat \<bar>v\<bar>"] by (auto simp: int_text_def in_i64_def i64_bounds)

lemma atoi_spec_int_text:
  assumes "in_i64 v"
  shows "atoi_spec (int_text v) False = (0, v)"
proof (cases "v < 0")
  case True
  have "in_i64 (- int (nat \<bar>v\<bar>))" using True assms by simp
  moreover have "\<not> sqlite3Isspace 45" by (simp add: Isspace_iff)
  ultimately show ?thesis using True atoi_number_dtext [of True "nat \<bar>v\<bar>"]
    by (simp add: atoi_spec_def int_text_def)
next
  case False
  then show ?thesis using atoi_spec_dtext [of "nat \<bar>v\<bar>"] assms by (simp add: int_text_def)
qed

text \<open>
  Integer text round trip: for every 64-bit integer, \<open>sqlite3Int64ToText\<close> stays inside its 22-byte
  scratch buffer and produces at most 20 characters and the terminator, and \<open>sqlite3Atoi64\<close> reads the same
  integer back with return code 0.\<close>

theorem int64_text_roundtrip:
  assumes "in_i64 v"
  shows "\<exists>t. sqlite3Int64ToText v = Some (t @ [0]) \<and> length t \<le> 20
           \<and> sqlite3Atoi64 (cat t) (length t) SQLITE_UTF8 = (0, v)"
proof -
  have "mem_bytes (cat (int_text v)) (length (int_text v)) = int_text v" by (rule mem_bytes_cat)
  then have "sqlite3Atoi64 (cat (int_text v)) (length (int_text v)) SQLITE_UTF8 = (0, v)"
    using atoi_spec_int_text [OF assms] by (simp add: Atoi64_spec_eq latin_text_def)
  then show ?thesis using length_int_text [OF assms] Int64ToText_eq [OF assms] by (auto simp: int_text_def)
qed

theorem int64_text_roundtrip_witness:
  "in_i64 SMALLEST_INT64 \<and> (\<exists>t. sqlite3Int64ToText SMALLEST_INT64 = Some (t @ [0]) \<and> length t \<le> 20
           \<and> sqlite3Atoi64 (cat t) (length t) SQLITE_UTF8 = (0, SMALLEST_INT64))"
proof -
  have r: "in_i64 SMALLEST_INT64" by (simp add: in_i64_def i64_bounds)
  show ?thesis using int64_text_roundtrip [OF r] r by blast
qed

subsection \<open>The 32-bit readers\<close>

lemma Isdigit_isdig: "sqlite3Isdigit c \<longleftrightarrow> isdig c"
  by (simp add: Isdigit_iff isdig_iff)

lemma sint_isdig: "0 \<le> sint c - 48 \<and> sint c - 48 \<le> 9 \<longleftrightarrow> isdig (c::u8)"
proof
  assume "isdig c"
  then show "0 \<le> sint c - 48 \<and> sint c - 48 \<le> 9"
    using sint_digit [of c] isdig_val [of c] by simp
next
  assume a: "0 \<le> sint c - 48 \<and> sint c - 48 \<le> 9"
  have "uint c = sint c mod 256" using uint_sint [of c] by (simp add: take_bit_eq_mod)
  then have "uint c = sint c" using a by simp
  then show "isdig c" using a by (auto simp: isdig_iff unat_eq_nat_uint)
qed

lemma GetInt32_dec_spec:
  "GetInt32_dec z n i v =
     (i + length (take n (takeWhile isdig z)), foldl (\<lambda>a c. a * 10 + int (dig_val c)) v (take n (takeWhile isdig z)))"
proof (induction z n i v rule: GetInt32_dec.induct)
  case (1 z i v)
  then show ?case by simp
next
  case (2 z n i v)
  show ?case
  proof (cases z)
    case Nil
    then show ?thesis by simp
  next
    case (Cons c z')
    then show ?thesis using 2 sint_isdig [of c] sint_digit [of c] by (auto simp: Let_def)
  qed
qed

lemma foldl_dec_int: "foldl (\<lambda>a c. a * 10 + int (dig_val c)) (int a) ds = int (foldl (\<lambda>a c. a * 10 + dig_val c) a ds)"
proof (induction ds arbitrary: a)
  case Nil
  then show ?case by simp
next
  case (Cons c ds)
  then show ?case using Cons [of "a * 10 + dig_val c"] by simp
qed

definition int32_spec :: "cstr \<Rightarrow> bool \<Rightarrow> int option" where
  "int32_spec z neg =
     (let ds = takeWhile isdig z; v = (if neg then - int (dec ds) else int (dec ds))
      in if ds \<noteq> [] \<and> in_i32 v then Some v else None)"

lemma dec_big:
  assumes "list_all isdig ds" "ds = [] \<or> hd ds \<noteq> 48" "10 < length ds"
  shows "10000000000 \<le> dec ds"
proof -
  obtain d es where ds: "ds = d # es" "isdig d" "d \<noteq> 48" using assms by (cases ds) auto
  have "(10::nat) ^ 10 \<le> 10 ^ length es" using assms(3) ds by (intro power_increasing) auto
  also have "\<dots> \<le> dec ds" using dec_ge ds by simp
  finally show ?thesis by simp
qed

lemma GetInt32_tail_spec: "GetInt32_tail z neg = int32_spec z neg"
proof (cases "takeWhile isdig z = []")
  case True
  then have "\<not> isdig (cat z 0)" by (cases z) (auto simp: isdig_iff)
  then show ?thesis using True by (simp add: GetInt32_tail_def int32_spec_def Isdigit_isdig)
next
  case False
  then have h: "isdig (cat z 0)" by (cases z) (auto split: if_splits)
  define ds where "ds = takeWhile isdig (dropWhile (\<lambda>c. c = 48) z)"
  have dd: "dec (takeWhile isdig z) = dec ds"
    using zeros_digits(1) [of z] dec_skip_zeros [of z] by (simp add: ds_def dec_append)
  have dig: "list_all isdig ds" by (auto simp: ds_def list_all_iff dest: set_takeWhileD)
  have nz: "ds = [] \<or> hd ds \<noteq> 48"
  proof (cases "dropWhile (\<lambda>c. c = 48) z")
    case (Cons c r)
    then have "c \<noteq> 48" by (simp add: dropWhile_eq_Cons_conv)
    then show ?thesis by (simp add: ds_def Cons)
  next
    case Nil
    then show ?thesis unfolding ds_def by (simp only: takeWhile.simps simp_thms)
  qed
  have fold: "foldl (\<lambda>a c. a * 10 + int (dig_val c)) 0 xs = int (dec xs)" for xs
    using foldl_dec_int [of 0 xs] by (simp add: dec_def)
  show ?thesis
  proof (cases "10 < length ds")
    case True
    then show ?thesis using dec_big [OF dig nz True] False h
      by (simp add: GetInt32_tail_def GetInt32_dec_spec ds_def [symmetric] int32_spec_def dd
          Isdigit_isdig in_i32_def Let_def)
  next
    case short: False
    then show ?thesis using False h
      by (auto simp: GetInt32_tail_def GetInt32_dec_spec ds_def [symmetric] int32_spec_def dd
          Isdigit_isdig in_i32_def Let_def fold)
  qed
qed

text \<open>
  \<open>sqlite3GetInt32\<close> on decimal text: it succeeds exactly when an optional sign is followed by at least
  one digit and the number the digits denote, of whatever length, is in the range of a signed 32-bit
  integer; it then stores that number.  The text behind the digits is ignored.  The hypothesis excludes
  the hexadecimal prefix.\<close>

theorem GetInt32_decimal:
  assumes "cat z 0 \<noteq> 48 \<or> cat z 1 \<notin> {120, 88}"
  shows "sqlite3GetInt32 z =
    (if cat z 0 = 45 then int32_spec (tl z) True
     else if cat z 0 = 43 then int32_spec (tl z) False
     else int32_spec z False)"
  using assms by (auto simp: sqlite3GetInt32_def GetInt32_tail_spec)

theorem GetInt32_decimal_witness:
  "sqlite3GetInt32 (cstring ''-2147483648 pages'') = Some (-2147483648)
   \<and> sqlite3GetInt32 (cstring ''2147483648'') = None"
proof -
  have "cat (cstring ''-2147483648 pages'') 0 \<noteq> 48" "cat (cstring ''2147483648'') 0 \<noteq> 48"
    by (simp_all add: cstring_def ch_def)
  then show ?thesis
    using GetInt32_decimal [of "cstring ''-2147483648 pages''"] GetInt32_decimal [of "cstring ''2147483648''"]
    by (simp add: cstring_def ch_def int32_spec_def isdig_iff dec_def dig_val_def in_i32_def)
qed

lemma GetUInt32_loop_spec:
  assumes "list_all isdig ds" "unat v \<le> 4294967296" "0 < i \<or> ds \<noteq> []"
  shows "GetUInt32_loop ds i v =
    (let n = foldl (\<lambda>a c. a * 10 + dig_val c) (unat v) ds
     in if n \<le> 4294967296 then (True, of_nat n) else (False, 0))"
  using assms
proof (induction ds arbitrary: i v)
  case Nil
  then show ?case by (simp add: Isdigit_isdig isdig_iff)
next
  case (Cons c ds)
  have c: "isdig c" "48 \<le> unat c" using Cons.prems(1) by (simp_all add: isdig_iff)
  have e: "v * 10 + ucast c - 48 = of_nat (unat v * 10 + dig_val c)"
  proof -
    have "(ucast c :: u64) - 48 = of_nat (dig_val c)" using c by (simp add: dig_val_def of_nat_diff)
    then show ?thesis by (simp add: add_diff_eq [symmetric])
  qed
  have u: "unat (v * 10 + ucast c - 48) = unat v * 10 + dig_val c"
    unfolding e using Cons.prems(2) isdig_val [OF c(1)] by (intro unat_of_nat_less) simp
  have ge: "unat v * 10 + dig_val c \<le> foldl (\<lambda>a c. a * 10 + dig_val c) (unat v * 10 + dig_val c) ds"
    by (simp add: dec_foldl trans_le_add1)
  show ?case
    using Cons.IH [of "v * 10 + ucast c - 48" "i + 1"] Cons.prems c u ge
    by (simp add: Isdigit_isdig word_less_nat_alt Let_def)
qed

text \<open>
  \<open>sqlite3GetUInt32\<close> on a string of decimal digits: it accepts every number up to \<open>2\<^sup>3\<^sup>2\<close> inclusive,
  one more than an unsigned 32-bit integer can hold, and stores the number modulo \<open>2\<^sup>3\<^sup>2\<close>; so the text
  4294967296 is accepted as 0, and every other accepted number is stored exactly.\<close>

theorem GetUInt32_digits:
  assumes "list_all isdig ds" "ds \<noteq> []"
  shows "sqlite3GetUInt32 ds =
    (if dec ds < 4294967296 then (True, of_nat (dec ds))
     else if dec ds = 4294967296 then (True, 0) else (False, 0))"
proof -
  have "(of_nat 4294967296 :: u32) = 0" by simp
  then show ?thesis
    using GetUInt32_loop_spec [OF assms(1), of 0 0] assms(2)
    by (auto simp: sqlite3GetUInt32_def dec_def Let_def)
qed

theorem GetUInt32_digits_witness:
  "sqlite3GetUInt32 (cstring ''4294967295'') = (True, 4294967295)
   \<and> sqlite3GetUInt32 (cstring ''4294967296'') = (True, 0)
   \<and> sqlite3GetUInt32 (cstring ''4294967297'') = (False, 0)"
  using GetUInt32_digits [of "cstring ''4294967295''"] GetUInt32_digits [of "cstring ''4294967296''"]
    GetUInt32_digits [of "cstring ''4294967297''"]
  by (simp add: cstring_def ch_def isdig_iff dec_def dig_val_def)

end
