(* ===== verification/Bitvec.thy ===== *)
theory Bitvec
  imports Prelude
begin

text \<open>
  The sparse bitmap of \<open>bitvec.c\<close> (\<open>src/src/db/sqlite3/core/sqlite3.c\<close>), which the pager uses to remember
  which pages are in the journal.  A \<open>Bitvec\<close> is a straight bitmap, an open-addressing hash table or an
  array of pointers to smaller bitvecs; \<open>sqlite3BitvecSet\<close> converts a crowded hash table to the recursive
  form.  Sub-bitvecs are owned by their parent, so the pointer structure is a datatype; the union is the
  datatype of its active member.

  Sizes are those of a platform with 8-byte pointers.  The fields are natural numbers below \<open>2\<^sup>3\<^sup>2\<close>; the only
  wrap-around the code relies on is \<open>i--\<close> at 0 (\<open>dec32\<close>).  \<open>None\<close> as the result of an operation stands for
  what C leaves undefined: reading an inactive member of the union, an index out of bounds, or a probe
  that never ends.  The theorems show that it does not occur.
\<close>

unbundle bit_operations_syntax

subsection \<open>Representation\<close>

definition BITVEC_USIZE :: nat where "BITVEC_USIZE = (512 - 3 * 4) div 8 * 8"
definition BITVEC_NELEM :: nat where "BITVEC_NELEM = BITVEC_USIZE div 1"
definition BITVEC_NBIT :: nat where "BITVEC_NBIT = BITVEC_NELEM * 8"
definition BITVEC_NINT :: nat where "BITVEC_NINT = BITVEC_USIZE div 4"
definition BITVEC_MXHASH :: nat where "BITVEC_MXHASH = BITVEC_NINT div 2"
definition BITVEC_NPTR :: nat where "BITVEC_NPTR = BITVEC_USIZE div 8"

definition BITVEC_HASH :: "nat \<Rightarrow> nat" where
  "BITVEC_HASH X = (X * 1) mod BITVEC_NINT"

lemma bitvec_consts:
  "BITVEC_USIZE = 496" "BITVEC_NELEM = 496" "BITVEC_NBIT = 3968" "BITVEC_NINT = 124"
  "BITVEC_MXHASH = 62" "BITVEC_NPTR = 62"
  by (simp_all add: BITVEC_USIZE_def BITVEC_NELEM_def BITVEC_NBIT_def BITVEC_NINT_def
      BITVEC_MXHASH_def BITVEC_NPTR_def)

datatype Bitvec = Bitvec (iSize: nat) (nSet: nat) (iDivisor: nat) (bvu: BitvecU)
and BitvecU = aBitmap "u8 list" | aHash "nat list" | apSub "Bitvec option list"

definition dec32 :: "nat \<Rightarrow> nat" where
  "dec32 i = (i + 4294967295) mod 4294967296"

subsection \<open>Operations\<close>

text \<open>The memory is zeroed, so the new object is an empty bitmap or an empty hash table.\<close>

definition bitvec_new :: "nat \<Rightarrow> Bitvec" where
  "bitvec_new n = Bitvec n 0 0
     (if n \<le> BITVEC_NBIT then aBitmap (replicate BITVEC_NELEM 0) else aHash (replicate BITVEC_NINT 0))"

text \<open>
  Allocations are numbered; \<open>mok k\<close> says whether the \<open>k\<close>-th one succeeds.  Operations that allocate take
  the number of the next allocation and return it.
\<close>

definition sqlite3BitvecCreate :: "(nat \<Rightarrow> bool) \<Rightarrow> nat \<Rightarrow> nat \<Rightarrow> Bitvec option \<times> nat" where
  "sqlite3BitvecCreate mok k n = (if mok k then Some (bitvec_new n) else None, k + 1)"

text \<open>
  Linear probing from slot \<open>h\<close> for the value \<open>v\<close>: whether it is found, and the slot at which the search
  ends.  After \<open>BITVEC_NINT\<close> steps the search is back where it started.
\<close>

fun hash_probe :: "nat list \<Rightarrow> nat \<Rightarrow> nat \<Rightarrow> nat \<Rightarrow> (bool \<times> nat) option" where
  "hash_probe a v h 0 = None"
| "hash_probe a v h (Suc n) =
     (if a ! h = 0 then Some (False, h)
      else if a ! h = v then Some (True, h)
      else hash_probe a v ((h + 1) mod BITVEC_NINT) n)"

lemma size_apSub [simp]:
  "bvu p = apSub a \<Longrightarrow> b < length a \<Longrightarrow> a ! b = Some q \<Longrightarrow> size q < size p"
proof -
  assume a: "bvu p = apSub a" "b < length a" "a ! b = Some q"
  then have "Some q \<in> set a" by (metis nth_mem)
  then have "size q < size_list (size_option size) a"
    by (induction a) auto
  then show ?thesis using a(1) by (cases p) auto
qed

function BitvecTest_loop :: "Bitvec \<Rightarrow> nat \<Rightarrow> bool option" where
  "BitvecTest_loop p i =
     (if iDivisor p \<noteq> 0 then
        (case bvu p of
           apSub a \<Rightarrow>
             if i div iDivisor p < length a then
               (case a ! (i div iDivisor p) of
                  None \<Rightarrow> Some False
                | Some q \<Rightarrow> BitvecTest_loop q (i mod iDivisor p))
             else None
         | _ \<Rightarrow> None)
      else if iSize p \<le> BITVEC_NBIT then
        (case bvu p of
           aBitmap b \<Rightarrow> if i div 8 < length b then Some (bit (b ! (i div 8)) (i mod 8)) else None
         | _ \<Rightarrow> None)
      else
        (case bvu p of
           aHash a \<Rightarrow> map_option fst (hash_probe a (i + 1) (BITVEC_HASH i) BITVEC_NINT)
         | _ \<Rightarrow> None))"
  by pat_completeness auto
termination by (relation "measure (size \<circ> fst)") simp_all

declare BitvecTest_loop.simps [simp del]

definition sqlite3BitvecTestNotNull :: "Bitvec \<Rightarrow> nat \<Rightarrow> bool option" where
  "sqlite3BitvecTestNotNull p i =
     (if dec32 i \<ge> iSize p then Some False else BitvecTest_loop p (dec32 i))"

definition sqlite3BitvecTest :: "Bitvec option \<Rightarrow> nat \<Rightarrow> bool option" where
  "sqlite3BitvecTest p i = (case p of None \<Rightarrow> Some False | Some p \<Rightarrow> sqlite3BitvecTestNotNull p i)"

text \<open>
  \<open>sqlite3BitvecSet\<close>.  \<open>BitvecSet_at\<close> is the routine behind the decrement \<open>i--\<close>; the loop that walks down
  to a leaf and the recursive calls of the re-hashing are both calls of it, with less fuel.
  \<open>BitvecSet_all\<close> is the re-insertion loop, which collects the return codes with bitwise or.
\<close>

type_synonym set_result = "(int \<times> Bitvec \<times> nat) option"

fun BitvecSet_all ::
  "(nat \<Rightarrow> Bitvec \<Rightarrow> nat \<Rightarrow> set_result) \<Rightarrow> nat \<Rightarrow> Bitvec \<Rightarrow> nat list \<Rightarrow> int \<Rightarrow> set_result" where
  "BitvecSet_all setf k p [] rc = Some (rc, p, k)"
| "BitvecSet_all setf k p (v # vs) rc =
     (if v = 0 then BitvecSet_all setf k p vs rc
      else case setf k p (dec32 v) of
        None \<Rightarrow> None
      | Some (rc', p', k') \<Rightarrow> BitvecSet_all setf k' p' vs (rc OR rc'))"

definition hash_store :: "Bitvec \<Rightarrow> nat list \<Rightarrow> nat \<Rightarrow> nat \<Rightarrow> Bitvec" where
  "hash_store p a h v = Bitvec (iSize p) (nSet p + 1) (iDivisor p) (aHash (a[h := v]))"

definition BitvecSet_rehash ::
  "(nat \<Rightarrow> Bitvec \<Rightarrow> nat \<Rightarrow> set_result) \<Rightarrow> (nat \<Rightarrow> bool) \<Rightarrow> nat \<Rightarrow> Bitvec \<Rightarrow> nat list \<Rightarrow> nat \<Rightarrow> nat
   \<Rightarrow> set_result" where
  "BitvecSet_rehash setf mok k p a h v =
     (if nSet p \<ge> BITVEC_MXHASH then
        if \<not> mok k then Some (SQLITE_NOMEM, p, k + 1)
        else (let p' = Bitvec (iSize p) (nSet p) ((iSize p + BITVEC_NPTR - 1) div BITVEC_NPTR)
                         (apSub (replicate BITVEC_NPTR None))
              in case setf (k + 1) p' (dec32 v) of
                   None \<Rightarrow> None
                 | Some (rc, p'', k') \<Rightarrow> BitvecSet_all setf k' p'' a rc)
      else Some (SQLITE_OK, hash_store p a h v, k))"

primrec BitvecSet_at :: "nat \<Rightarrow> (nat \<Rightarrow> bool) \<Rightarrow> nat \<Rightarrow> Bitvec \<Rightarrow> nat \<Rightarrow> set_result" where
  "BitvecSet_at 0 = (\<lambda>mok k p i. None)"
| "BitvecSet_at (Suc f) = (\<lambda>mok k p i.
     if iSize p > BITVEC_NBIT \<and> iDivisor p \<noteq> 0 then
       (case bvu p of
          apSub a \<Rightarrow>
            (let bin = i div iDivisor p in
             if bin < length a then
               (case (case a ! bin of Some q \<Rightarrow> (Some q, k)
                      | None \<Rightarrow> sqlite3BitvecCreate mok k (iDivisor p)) of
                  (None, k') \<Rightarrow> Some (SQLITE_NOMEM, p, k')
                | (Some q, k') \<Rightarrow>
                    (case BitvecSet_at f mok k' q (i mod iDivisor p) of
                       None \<Rightarrow> None
                     | Some (rc, q', k'') \<Rightarrow>
                         Some (rc, Bitvec (iSize p) (nSet p) (iDivisor p) (apSub (a[bin := Some q'])), k'')))
             else None)
        | _ \<Rightarrow> None)
     else if iSize p \<le> BITVEC_NBIT then
       (case bvu p of
          aBitmap b \<Rightarrow>
            if i div 8 < length b then
              Some (SQLITE_OK,
                Bitvec (iSize p) (nSet p) (iDivisor p)
                  (aBitmap (b[i div 8 := b ! (i div 8) OR push_bit (i mod 8) 1])), k)
            else None
        | _ \<Rightarrow> None)
     else
       (case bvu p of
          aHash a \<Rightarrow>
            (let h = BITVEC_HASH i; v = i + 1 in
             if a ! h = 0 then
               if nSet p < BITVEC_NINT - 1 then Some (SQLITE_OK, hash_store p a h v, k)
               else BitvecSet_rehash (BitvecSet_at f mok) mok k p a h v
             else (case hash_probe a v h BITVEC_NINT of
                     None \<Rightarrow> None
                   | Some (True, _) \<Rightarrow> Some (SQLITE_OK, p, k)
                   | Some (False, h') \<Rightarrow> BitvecSet_rehash (BitvecSet_at f mok) mok k p a h' v))
        | _ \<Rightarrow> None))"

text \<open>
  Every level of the recursion divides the size by 62 (rounded up); from \<open>2\<^sup>3\<^sup>2 - 1\<close> the fourth division
  reaches a straight bitmap.  A level costs one unit of fuel to walk down and one to re-hash, so 12 is ample.
\<close>

definition BITVEC_FUEL :: nat where "BITVEC_FUEL = 12"

definition sqlite3BitvecSet ::
  "(nat \<Rightarrow> bool) \<Rightarrow> nat \<Rightarrow> Bitvec option \<Rightarrow> nat \<Rightarrow> (int \<times> Bitvec option \<times> nat) option" where
  "sqlite3BitvecSet mok k p i =
     (case p of
        None \<Rightarrow> Some (SQLITE_OK, None, k)
      | Some p \<Rightarrow> map_option (\<lambda>(rc, p', k'). (rc, Some p', k')) (BitvecSet_at BITVEC_FUEL mok k p (dec32 i)))"

text \<open>\<open>sqlite3BitvecClear\<close> rebuilds the hash table without the value.\<close>

fun BitvecClear_loop :: "nat \<Rightarrow> nat list \<Rightarrow> nat list \<times> nat \<Rightarrow> (nat list \<times> nat) option" where
  "BitvecClear_loop i [] s = Some s"
| "BitvecClear_loop i (v # vs) (a, n) =
     (if v \<noteq> 0 \<and> v \<noteq> i + 1 then
        (case hash_probe a 0 (BITVEC_HASH (dec32 v)) BITVEC_NINT of
           None \<Rightarrow> None
         | Some (_, h) \<Rightarrow> BitvecClear_loop i vs (a[h := v], n + 1))
      else BitvecClear_loop i vs (a, n))"

function BitvecClear_at :: "Bitvec \<Rightarrow> nat \<Rightarrow> Bitvec option" where
  "BitvecClear_at p i =
     (if iDivisor p \<noteq> 0 then
        (case bvu p of
           apSub a \<Rightarrow>
             if i div iDivisor p < length a then
               (case a ! (i div iDivisor p) of
                  None \<Rightarrow> Some p
                | Some q \<Rightarrow>
                    map_option (\<lambda>q'. Bitvec (iSize p) (nSet p) (iDivisor p)
                        (apSub (a[i div iDivisor p := Some q'])))
                      (BitvecClear_at q (i mod iDivisor p)))
             else None
         | _ \<Rightarrow> None)
      else if iSize p \<le> BITVEC_NBIT then
        (case bvu p of
           aBitmap b \<Rightarrow>
             if i div 8 < length b then
               Some (Bitvec (iSize p) (nSet p) (iDivisor p)
                 (aBitmap (b[i div 8 := b ! (i div 8) AND NOT (push_bit (i mod 8) 1)])))
             else None
         | _ \<Rightarrow> None)
      else
        (case bvu p of
           aHash a \<Rightarrow>
             map_option (\<lambda>(a', n). Bitvec (iSize p) n (iDivisor p) (aHash a'))
               (BitvecClear_loop i a (replicate BITVEC_NINT 0, 0))
         | _ \<Rightarrow> None))"
  by pat_completeness auto
termination by (relation "measure (size \<circ> fst)") simp_all

declare BitvecClear_at.simps [simp del]

definition sqlite3BitvecClear :: "Bitvec option \<Rightarrow> nat \<Rightarrow> Bitvec option option" where
  "sqlite3BitvecClear p i =
     (case p of None \<Rightarrow> Some None | Some p \<Rightarrow> map_option Some (BitvecClear_at p (dec32 i)))"

definition sqlite3BitvecSize :: "Bitvec \<Rightarrow> nat" where
  "sqlite3BitvecSize p = iSize p"

subsection \<open>Linear probing\<close>

lemma dec32_eq: "0 < i \<Longrightarrow> i \<le> 4294967296 \<Longrightarrow> dec32 i = i - 1"
proof -
  assume i: "0 < i" "i \<le> 4294967296"
  have "i + 4294967295 = (i - 1) + 4294967296" using i by simp
  then have "dec32 i = (i - 1) mod 4294967296" by (simp only: dec32_def mod_add_self2)
  also have "\<dots> = i - 1" using i by (intro mod_less) simp
  finally show ?thesis .
qed

lemma NINT_pos [simp]: "0 < BITVEC_NINT"
  by (simp add: bitvec_consts)

definition slot :: "nat \<Rightarrow> nat \<Rightarrow> nat" where
  "slot h k = (h + k) mod BITVEC_NINT"

lemma slot_less [simp]: "slot h k < BITVEC_NINT"
  by (simp add: slot_def bitvec_consts)

lemma slot_0 [simp]: "h < BITVEC_NINT \<Longrightarrow> slot h 0 = h"
  by (simp add: slot_def)

lemma slot_Suc: "slot ((h + 1) mod BITVEC_NINT) k = slot h (Suc k)"
  by (simp add: slot_def mod_add_left_eq)

lemma slot_onto: "j < BITVEC_NINT \<Longrightarrow> h < BITVEC_NINT \<Longrightarrow> \<exists>k < BITVEC_NINT. slot h k = j"
proof -
  assume a: "j < BITVEC_NINT" "h < BITVEC_NINT"
  have "slot h ((j + BITVEC_NINT - h) mod BITVEC_NINT) = (j + BITVEC_NINT) mod BITVEC_NINT"
    using a by (simp add: slot_def mod_add_right_eq)
  then show ?thesis using a
    by (intro exI [of _ "(j + BITVEC_NINT - h) mod BITVEC_NINT"]) (simp add: bitvec_consts)
qed

lemma HASH_less [simp]: "BITVEC_HASH x < BITVEC_NINT"
  by (simp add: BITVEC_HASH_def bitvec_consts)

lemma hash_probe_Some:
  assumes "hash_probe a v h n = Some (r, j)" "h < BITVEC_NINT"
  shows "\<exists>k<n. j = slot h k \<and> (\<forall>l<k. a ! slot h l \<noteq> 0 \<and> a ! slot h l \<noteq> v)
           \<and> (if r then a ! j = v \<and> v \<noteq> 0 else a ! j = 0)"
  using assms
proof (induction n arbitrary: h)
  case 0
  then show ?case by simp
next
  case (Suc n)
  show ?case
  proof (cases "a ! h = 0 \<or> a ! h = v")
    case True
    then show ?thesis using Suc.prems by (intro exI [of _ 0]) (auto split: if_splits)
  next
    case False
    then obtain k where k: "k < n" "j = slot h (Suc k)"
        "\<forall>l<k. a ! slot h (Suc l) \<noteq> 0 \<and> a ! slot h (Suc l) \<noteq> v"
        "if r then a ! j = v \<and> v \<noteq> 0 else a ! j = 0"
      using Suc.IH [of "(h + 1) mod BITVEC_NINT"] Suc.prems
      by (auto simp: slot_Suc simp del: One_nat_def)
    have "\<forall>l < Suc k. a ! slot h l \<noteq> 0 \<and> a ! slot h l \<noteq> v"
    proof (intro allI impI)
      fix l assume "l < Suc k"
      then show "a ! slot h l \<noteq> 0 \<and> a ! slot h l \<noteq> v"
        using k(3) False Suc.prems(2) by (cases l) auto
    qed
    then show ?thesis using k by (intro exI [of _ "Suc k"]) simp
  qed
qed

lemma hash_probe_zero: "a ! h = 0 \<Longrightarrow> 0 < n \<Longrightarrow> hash_probe a v h n = Some (False, h)"
  by (cases n) simp_all

lemma hash_probe_None:
  "hash_probe a v h n = None \<Longrightarrow> h < BITVEC_NINT \<Longrightarrow> k < n \<Longrightarrow> a ! slot h k \<noteq> 0"
proof (induction n arbitrary: h k)
  case 0
  then show ?case by simp
next
  case (Suc n)
  then show ?case
    using Suc.IH [of "(h + 1) mod BITVEC_NINT" "k - 1"]
    by (cases k) (auto simp: slot_Suc split: if_splits simp del: One_nat_def)
qed

lemma hash_probe_total:
  assumes "length a = BITVEC_NINT" "0 \<in> set a" "h < BITVEC_NINT"
  obtains r j where "hash_probe a v h BITVEC_NINT = Some (r, j)"
proof (cases "hash_probe a v h BITVEC_NINT")
  case None
  obtain j where "j < BITVEC_NINT" "a ! j = 0" using assms(1,2) by (metis in_set_conv_nth)
  then show ?thesis using None hash_probe_None [OF None assms(3)] slot_onto [of j h] assms(3) by metis
next
  case (Some x)
  then show ?thesis using that by (cases x) auto
qed

text \<open>Every stored value is reachable by probing from its hash slot.\<close>

definition reachable_slot :: "nat list \<Rightarrow> nat \<Rightarrow> bool" where
  "reachable_slot a j \<longleftrightarrow>
     (\<exists>k<BITVEC_NINT. j = slot (BITVEC_HASH (a ! j - 1)) k
        \<and> (\<forall>l<k. a ! slot (BITVEC_HASH (a ! j - 1)) l \<noteq> 0))"

definition hash_inv :: "nat list \<Rightarrow> bool" where
  "hash_inv a \<longleftrightarrow> length a = BITVEC_NINT
     \<and> (\<forall>j<BITVEC_NINT. a ! j \<noteq> 0 \<longrightarrow> reachable_slot a j)"

lemma hash_inv_length: "hash_inv a \<Longrightarrow> length a = BITVEC_NINT"
  by (simp add: hash_inv_def)

lemma hash_inv_empty: "hash_inv (replicate BITVEC_NINT 0)"
  by (simp add: hash_inv_def)

lemma hash_inv_insert:
  assumes inv: "hash_inv a" and j: "j = slot (BITVEC_HASH (v - 1)) k" "k < BITVEC_NINT" "a ! j = 0"
    and l: "\<forall>l<k. a ! slot (BITVEC_HASH (v - 1)) l \<noteq> 0" and v: "v \<noteq> 0"
  shows "hash_inv (a[j := v])"
proof -
  have len: "length a = BITVEC_NINT" using inv by (simp add: hash_inv_def)
  have keep: "a ! m \<noteq> 0 \<Longrightarrow> a[j := v] ! m \<noteq> 0" for m using j(3) v by (metis nth_list_update_eq nth_list_update_neq list_update_beyond not_le)
  have jl: "j < length a" using j(1) len by simp
  have "reachable_slot (a[j := v]) m" if m: "m < BITVEC_NINT" "a[j := v] ! m \<noteq> 0" for m
  proof (cases "m = j")
    case True
    then show ?thesis unfolding reachable_slot_def using jl j l keep by auto
  next
    case False
    then have am: "a[j := v] ! m = a ! m" by simp
    then have "reachable_slot a m" using inv m by (simp add: hash_inv_def)
    then show ?thesis unfolding reachable_slot_def am using keep by blast
  qed
  then show ?thesis using len by (simp add: hash_inv_def)
qed

lemma hash_probe_finds:
  assumes inv: "hash_inv a" and z: "0 \<in> set a" and v: "v \<noteq> 0"
    and p: "hash_probe a v (BITVEC_HASH (v - 1)) BITVEC_NINT = Some (r, j)"
  shows "r \<longleftrightarrow> v \<in> set a"
proof -
  let ?h = "BITVEC_HASH (v - 1)"
  obtain k where k: "k < BITVEC_NINT" "j = slot ?h k" "\<forall>l<k. a ! slot ?h l \<noteq> 0 \<and> a ! slot ?h l \<noteq> v"
      "if r then a ! j = v \<and> v \<noteq> 0 else a ! j = 0"
    using hash_probe_Some [OF p] by auto
  have len: "length a = BITVEC_NINT" using inv by (simp add: hash_inv_def)
  show ?thesis
  proof
    assume r
    then show "v \<in> set a" using k len by (metis nth_mem slot_less)
  next
    assume "v \<in> set a"
    then obtain m where m: "m < BITVEC_NINT" "a ! m = v" using len by (metis in_set_conv_nth)
    then have "reachable_slot a m" using inv v by (simp add: hash_inv_def)
    then obtain k' where k': "m = slot ?h k'" "\<forall>l<k'. a ! slot ?h l \<noteq> 0"
      using m by (auto simp: reachable_slot_def)
    have "\<not> k' < k" using k(3) k'(1) m by blast
    moreover have "a ! j \<noteq> 0" if "k < k'" using that k'(2) k(2) by simp
    moreover have "a ! j \<noteq> 0" if "k = k'" using that k'(1) k(2) m v by simp
    ultimately show r using k(4) by (metis nat_neq_iff)
  qed
qed

lemma hash_probe_free:
  assumes "hash_probe a v (BITVEC_HASH (v - 1)) BITVEC_NINT = Some (False, j)"
    and "hash_inv a" "v \<noteq> 0"
  shows "hash_inv (a[j := v]) \<and> a ! j = 0 \<and> j < length a"
proof -
  obtain k where "k < BITVEC_NINT" "j = slot (BITVEC_HASH (v - 1)) k"
      "\<forall>l<k. a ! slot (BITVEC_HASH (v - 1)) l \<noteq> 0" "a ! j = 0"
    using hash_probe_Some [OF assms(1)] by auto
  then show ?thesis using hash_inv_insert [OF assms(2) _ _ _ _ assms(3)] assms(2)
    by (simp add: hash_inv_def)
qed

subsection \<open>Abstraction and well-formedness\<close>

text \<open>\<open>bv_mem p j\<close>: the bit with the zero-based number \<open>j\<close> is set.\<close>

function bv_mem :: "Bitvec \<Rightarrow> nat \<Rightarrow> bool" where
  "bv_mem p j =
     (case bvu p of
        aBitmap b \<Rightarrow> j div 8 < length b \<and> bit (b ! (j div 8)) (j mod 8)
      | aHash a \<Rightarrow> j + 1 \<in> set a
      | apSub a \<Rightarrow>
          if j div iDivisor p < length a then
            (case a ! (j div iDivisor p) of None \<Rightarrow> False | Some q \<Rightarrow> bv_mem q (j mod iDivisor p))
          else False)"
  by pat_completeness auto
termination by (relation "measure (size \<circ> fst)") simp_all

declare bv_mem.simps [simp del]

lemma bv_mem_node [simp]:
  "bv_mem (Bitvec n s d (aBitmap b)) j \<longleftrightarrow> j div 8 < length b \<and> bit (b ! (j div 8)) (j mod 8)"
  "bv_mem (Bitvec n s d (aHash a)) j \<longleftrightarrow> j + 1 \<in> set a"
  "bv_mem (Bitvec n s d (apSub c)) j \<longleftrightarrow>
     j div d < length c \<and> (case c ! (j div d) of None \<Rightarrow> False | Some q \<Rightarrow> bv_mem q (j mod d))"
  by (simp_all add: bv_mem.simps [of "Bitvec _ _ _ _"] split: option.split)

definition bv_set :: "Bitvec \<Rightarrow> nat set" where
  "bv_set p = {i. 0 < i \<and> i \<le> iSize p \<and> bv_mem p (i - 1)}"

definition sub_size :: "nat \<Rightarrow> nat" where
  "sub_size n = (n + BITVEC_NPTR - 1) div BITVEC_NPTR"

inductive bv_ok :: "Bitvec \<Rightarrow> bool" where
  bitmap: "n \<le> BITVEC_NBIT \<Longrightarrow> length b = BITVEC_NELEM \<Longrightarrow> bv_ok (Bitvec n s 0 (aBitmap b))"
| hash: "BITVEC_NBIT < n \<Longrightarrow> n < 4294967296 \<Longrightarrow> hash_inv a \<Longrightarrow> s = length (filter (\<lambda>v. v \<noteq> 0) a) \<Longrightarrow>
     s < BITVEC_NINT \<Longrightarrow> (\<forall>v\<in>set a. v \<le> n) \<Longrightarrow> bv_ok (Bitvec n s 0 (aHash a))"
| sub: "BITVEC_NBIT < n \<Longrightarrow> n < 4294967296 \<Longrightarrow> d = sub_size n \<Longrightarrow> length a = BITVEC_NPTR \<Longrightarrow>
     (\<And>q. Some q \<in> set a \<Longrightarrow> iSize q = d \<and> bv_ok q) \<Longrightarrow> bv_ok (Bitvec n s d (apSub a))"

lemma bv_ok_size: "bv_ok p \<Longrightarrow> iSize p < 4294967296"
  by (induction rule: bv_ok.induct) (simp_all add: bitvec_consts)

lemma bv_ok_new: "n < 4294967296 \<Longrightarrow> bv_ok (bitvec_new n)"
  unfolding bitvec_new_def
  by (cases "n \<le> BITVEC_NBIT")
    (simp_all add: bv_ok.bitmap bv_ok.hash hash_inv_empty not_le)

lemma bv_mem_new: "\<not> bv_mem (bitvec_new n) j"
  by (auto simp: bitvec_new_def)

lemma iSize_new [simp]: "iSize (bitvec_new n) = n" "iDivisor (bitvec_new n) = 0"
  by (simp_all add: bitvec_new_def)

lemma sub_size_pos: "BITVEC_NBIT < n \<Longrightarrow> 0 < sub_size n"
  by (simp add: sub_size_def bitvec_consts div_greater_zero_iff)

lemma sub_size_bin: "BITVEC_NBIT < n \<Longrightarrow> j < n \<Longrightarrow> j div sub_size n < BITVEC_NPTR"
proof -
  assume "BITVEC_NBIT < n" "j < n"
  then have "j < BITVEC_NPTR * sub_size n" by (simp add: sub_size_def bitvec_consts)
  then show ?thesis by (simp add: less_mult_imp_div_less)
qed

lemma zero_in_hash: "length (filter (\<lambda>v. v \<noteq> 0) a) < length a \<Longrightarrow> (0::nat) \<in> set a"
  by (induction a) (auto split: if_splits)

lemma filter_update:
  "j < length a \<Longrightarrow> a ! j = 0 \<Longrightarrow> v \<noteq> 0 \<Longrightarrow>
     length (filter (\<lambda>v. v \<noteq> 0) (a[j := v])) = Suc (length (filter (\<lambda>v. v \<noteq> (0::nat)) a))"
proof (induction a arbitrary: j)
  case Nil
  then show ?case by simp
next
  case (Cons x a)
  then show ?case by (cases j) auto
qed

lemma set_update_zero:
  "j < length a \<Longrightarrow> a ! j = 0 \<Longrightarrow> v \<noteq> 0 \<Longrightarrow> x \<noteq> 0 \<Longrightarrow> x \<in> set (a[j := v]) \<longleftrightarrow> x = v \<or> x \<in> set (a::nat list)"
proof (induction a arbitrary: j)
  case Nil
  then show ?case by simp
next
  case (Cons y a)
  then show ?case by (cases j) auto
qed

lemma BitvecTest_loop_correct:
  "bv_ok p \<Longrightarrow> j < iSize p \<Longrightarrow> BitvecTest_loop p j = Some (bv_mem p j)"
proof (induction p arbitrary: j rule: bv_ok.induct)
  case (bitmap n b s)
  then have "j div 8 < length b" by (simp add: bitvec_consts)
  then show ?case using bitmap by (simp add: BitvecTest_loop.simps)
next
  case (hash n a s)
  have len: "length a = BITVEC_NINT" using hash by (simp add: hash_inv_def)
  have z: "0 \<in> set a" using zero_in_hash [of a] hash len by simp
  obtain r m where p: "hash_probe a (j + 1) (BITVEC_HASH (j + 1 - 1)) BITVEC_NINT = Some (r, m)"
    by (rule hash_probe_total [OF len z HASH_less])
  have "r \<longleftrightarrow> j + 1 \<in> set a" using hash_probe_finds [OF hash(3) z _ p] by simp
  then show ?case using p hash by (simp add: BitvecTest_loop.simps not_le)
next
  case (sub n d a s)
  have bin: "j div d < length a" using sub sub_size_bin [of n j] by simp
  have d: "0 < d" using sub sub_size_pos by simp
  show ?case
  proof (cases "a ! (j div d)")
    case None
    then show ?thesis using bin d by (simp add: BitvecTest_loop.simps)
  next
    case (Some q)
    then have "Some q \<in> set a" using bin by (metis nth_mem)
    then have "BitvecTest_loop q (j mod d) = Some (bv_mem q (j mod d))" using sub.IH d by simp
    then show ?thesis using bin d Some
      by (simp add: BitvecTest_loop.simps [of "Bitvec n s d (apSub a)"])
  qed
qed

lemma bv_mem_range:
  "bv_ok p \<Longrightarrow> i < 4294967296 \<Longrightarrow> sqlite3BitvecTestNotNull p i = Some (i \<in> bv_set p)"
proof (cases "0 < i \<and> i \<le> iSize p")
  case True
  assume "bv_ok p"
  moreover have "dec32 i = i - 1" using True dec32_eq bv_ok_size [OF \<open>bv_ok p\<close>] by simp
  moreover have "i - 1 < iSize p" using True by auto
  ultimately show ?thesis using True BitvecTest_loop_correct [of p "i - 1"]
    by (simp add: sqlite3BitvecTestNotNull_def bv_set_def)
next
  case False
  assume "bv_ok p" "i < 4294967296"
  then have "iSize p \<le> dec32 i"
    using False dec32_eq [of i] bv_ok_size [of p] by (cases "i = 0") (auto simp: dec32_def)
  then show ?thesis using False by (auto simp: sqlite3BitvecTestNotNull_def bv_set_def)
qed

subsection \<open>Clearing a bit\<close>

lemma BitvecClear_loop_correct:
  assumes "hash_inv a" "n = length (filter (\<lambda>v. v \<noteq> 0) a)" "n + length (filter (\<lambda>v. v \<noteq> 0) vs) < BITVEC_NINT"
    "\<forall>v\<in>set vs. v \<le> 4294967296"
  shows "\<exists>a' n'. BitvecClear_loop i vs (a, n) = Some (a', n') \<and> hash_inv a'
    \<and> n' = length (filter (\<lambda>v. v \<noteq> 0) a') \<and> n' < BITVEC_NINT
    \<and> (\<forall>x. x \<noteq> 0 \<longrightarrow> (x \<in> set a' \<longleftrightarrow> x \<in> set a \<or> (x \<in> set vs \<and> x \<noteq> i + 1)))"
  using assms
proof (induction vs arbitrary: a n)
  case Nil
  then show ?case by simp
next
  case (Cons v vs)
  show ?case
  proof (cases "v \<noteq> 0 \<and> v \<noteq> i + 1")
    case False
    then show ?thesis using Cons.IH [of a n] Cons.prems by (auto split: if_splits)
  next
    case True
    have len: "length a = BITVEC_NINT" using Cons.prems by (simp add: hash_inv_def)
    have z: "0 \<in> set a" using zero_in_hash [of a] Cons.prems len by simp
    have dv: "dec32 v = v - 1" using True dec32_eq [of v] Cons.prems(4) by simp
    obtain r j where p: "hash_probe a 0 (BITVEC_HASH (v - 1)) BITVEC_NINT = Some (r, j)"
      by (rule hash_probe_total [OF len z HASH_less])
    obtain k where k: "k < BITVEC_NINT" "j = slot (BITVEC_HASH (v - 1)) k"
        "\<forall>l<k. a ! slot (BITVEC_HASH (v - 1)) l \<noteq> 0" "a ! j = 0"
      using hash_probe_Some [OF p] by (auto split: if_splits)
    have j: "j < length a" using k(2) len by simp
    have inv: "hash_inv (a[j := v])"
      using hash_inv_insert [OF Cons.prems(1) k(2,1,4,3)] True by simp
    have cnt: "n + 1 = length (filter (\<lambda>v. v \<noteq> 0) (a[j := v]))"
      using filter_update [OF j k(4)] True Cons.prems(2) by simp
    obtain a' n' where r: "BitvecClear_loop i vs (a[j := v], n + 1) = Some (a', n')" "hash_inv a'"
        "n' = length (filter (\<lambda>v. v \<noteq> 0) a')" "n' < BITVEC_NINT"
        "\<forall>x. x \<noteq> 0 \<longrightarrow> (x \<in> set a' \<longleftrightarrow> x \<in> set (a[j := v]) \<or> (x \<in> set vs \<and> x \<noteq> i + 1))"
      using Cons.IH [OF inv cnt] Cons.prems(3,4) True by auto
    have "\<forall>x. x \<noteq> 0 \<longrightarrow> (x \<in> set a' \<longleftrightarrow> x \<in> set a \<or> (x \<in> set (v # vs) \<and> x \<noteq> i + 1))"
      using r(5) set_update_zero [OF j k(4)] True by auto
    moreover have "BitvecClear_loop i (v # vs) (a, n) = Some (a', n')"
      using True r(1) p by (simp add: dv)
    ultimately show ?thesis using r by blast
  qed
qed

lemma BitvecClear_at_correct:
  "bv_ok p \<Longrightarrow> i < iSize p \<Longrightarrow>
     \<exists>p'. BitvecClear_at p i = Some p' \<and> bv_ok p' \<and> iSize p' = iSize p
       \<and> (\<forall>j<iSize p. bv_mem p' j \<longleftrightarrow> j \<noteq> i \<and> bv_mem p j)"
proof (induction p arbitrary: i rule: bv_ok.induct)
  case (bitmap n b s)
  let ?b = "b[i div 8 := b ! (i div 8) AND NOT (push_bit (i mod 8) 1)]"
  have il: "i div 8 < length b" using bitmap by (simp add: bitvec_consts)
  have "bit (?b ! (j div 8)) (j mod 8) \<longleftrightarrow> j \<noteq> i \<and> bit (b ! (j div 8)) (j mod 8)" for j
  proof (cases "j div 8 = i div 8")
    case True
    then have "j = i \<longleftrightarrow> j mod 8 = i mod 8" by (metis div_mult_mod_eq)
    moreover have "j mod 8 < 8" "i mod 8 < 8" by simp_all
    ultimately show ?thesis using True il by (auto simp: bit_simps)
  next
    case False
    then show ?thesis by auto
  qed
  then show ?case using il bitmap
    by (auto simp: BitvecClear_at.simps bv_ok.bitmap)
next
  case (hash n a s)
  have le: "\<forall>v\<in>set a. v \<le> 4294967296" using hash(2,6) by auto
  obtain a' n' where r: "BitvecClear_loop i a (replicate BITVEC_NINT 0, 0) = Some (a', n')"
      "hash_inv a'" "n' = length (filter (\<lambda>v. v \<noteq> 0) a')" "n' < BITVEC_NINT"
      "\<forall>x. x \<noteq> 0 \<longrightarrow> (x \<in> set a' \<longleftrightarrow> x \<in> set a \<and> x \<noteq> i + 1)"
    using BitvecClear_loop_correct [OF hash_inv_empty, of 0 a i] hash(4,5) le by auto
  have "\<forall>v\<in>set a'. v \<le> n" using r(5) hash(6) by (metis zero_le)
  then have "bv_ok (Bitvec n n' 0 (aHash a'))" using hash r by (intro bv_ok.hash)
  then show ?case using r hash
    by (auto simp: BitvecClear_at.simps not_le)
next
  case (sub n d a s)
  have bin: "i div d < length a" using sub sub_size_bin [of n i] by simp
  have d: "0 < d" using sub sub_size_pos by simp
  show ?case
  proof (cases "a ! (i div d)")
    case None
    moreover have "bv_ok (Bitvec n s d (apSub a))" using sub by (intro bv_ok.sub) auto
    moreover have "\<not> bv_mem (Bitvec n s d (apSub a)) i" using None by simp
    ultimately show ?thesis using bin d
      by (auto simp: BitvecClear_at.simps [of "Bitvec n s d (apSub a)"])
  next
    case (Some q)
    then have q: "Some q \<in> set a" using bin by (metis nth_mem)
    obtain q' where q': "BitvecClear_at q (i mod d) = Some q'" "bv_ok q'" "iSize q' = iSize q"
        "\<forall>j<iSize q. bv_mem q' j \<longleftrightarrow> j \<noteq> i mod d \<and> bv_mem q j"
      using sub.IH [OF q] d by (metis mod_less_divisor)
    let ?p' = "Bitvec n s d (apSub (a[i div d := Some q']))"
    have ok: "bv_ok ?p'"
    proof (rule bv_ok.sub [OF sub(1-3)])
      show "length (a[i div d := Some q']) = BITVEC_NPTR" using sub by simp
      fix x assume "Some x \<in> set (a[i div d := Some q'])"
      then have "x = q' \<or> Some x \<in> set a" using set_update_subset_insert [of a "i div d" "Some q'"] by auto
      then show "iSize x = d \<and> bv_ok x" using sub.IH q q' by auto
    qed
    have "bv_mem ?p' j \<longleftrightarrow> j \<noteq> i \<and> bv_mem (Bitvec n s d (apSub a)) j" for j
    proof (cases "j div d = i div d")
      case True
      then have "j = i \<longleftrightarrow> j mod d = i mod d" by (metis div_mult_mod_eq)
      then show ?thesis using True bin Some q'(4) sub.IH [OF q] d
        by simp
    next
      case False
      then show ?thesis by auto
    qed
    then show ?thesis using ok bin d Some q'(1)
      by (simp add: BitvecClear_at.simps [of "Bitvec n s d (apSub a)"])
  qed
qed

subsection \<open>Setting a bit\<close>

text \<open>The fuel a bitvec of size \<open>n\<close> needs, and that it is at most nine for every 32-bit size.\<close>

lemma sub_size_less: "BITVEC_NBIT < n \<Longrightarrow> sub_size n < n"
  by (simp add: sub_size_def bitvec_consts)

function fuel_need :: "nat \<Rightarrow> nat" where
  "fuel_need n = (if n \<le> BITVEC_NBIT then 1 else 2 + fuel_need (sub_size n))"
  by pat_completeness auto
termination by (relation "measure id") (simp_all add: sub_size_less)

declare fuel_need.simps [simp del]

definition fuel_need_bv :: "Bitvec \<Rightarrow> nat" where
  "fuel_need_bv p = (if iDivisor p \<noteq> 0 then 1 + fuel_need (iDivisor p) else fuel_need (iSize p))"

lemma fuel_need_pos: "0 < fuel_need n"
  by (subst fuel_need.simps) simp

lemma fuel_need_le:
  assumes "n < 4294967296"
  shows "fuel_need n \<le> 9"
proof -
  have s: "sub_size m = (m + 61) div 62" for m by (simp add: sub_size_def bitvec_consts)
  have 1: "fuel_need m \<le> 1" if "m \<le> 3968" for m
    using that by (subst fuel_need.simps) (simp add: bitvec_consts)
  have 2: "fuel_need m \<le> 3" if "m \<le> 246016" for m
    using that 1 [of "sub_size m"] 1 [of m] by (subst fuel_need.simps) (auto simp: bitvec_consts s)
  have 3: "fuel_need m \<le> 5" if "m \<le> 15252992" for m
    using that 2 [of "sub_size m"] by (subst fuel_need.simps) (auto simp: bitvec_consts s)
  have 4: "fuel_need m \<le> 7" if "m \<le> 945685504" for m
    using that 3 [of "sub_size m"] by (subst fuel_need.simps) (auto simp: bitvec_consts s)
  show ?thesis
    using assms 4 [of "sub_size n"] by (subst fuel_need.simps) (auto simp: bitvec_consts s)
qed

definition set_post :: "(nat \<Rightarrow> bool) \<Rightarrow> Bitvec \<Rightarrow> nat set \<Rightarrow> int \<Rightarrow> Bitvec \<Rightarrow> bool" where
  "set_post mok p I rc p' \<longleftrightarrow> bv_ok p' \<and> iSize p' = iSize p
     \<and> (iDivisor p \<noteq> 0 \<longrightarrow> iDivisor p' = iDivisor p)
     \<and> (rc = SQLITE_OK \<or> rc = SQLITE_NOMEM)
     \<and> ((\<forall>k. mok k) \<longrightarrow> rc = SQLITE_OK)
     \<and> (\<forall>j<iSize p. bv_mem p' j \<longrightarrow> j \<in> I \<or> bv_mem p j)
     \<and> (rc = SQLITE_OK \<longrightarrow> (\<forall>j<iSize p. bv_mem p' j \<longleftrightarrow> j \<in> I \<or> bv_mem p j))"

lemma set_postI:
  assumes "bv_ok p'" "iSize p' = iSize p" "iDivisor p \<noteq> 0 \<Longrightarrow> iDivisor p' = iDivisor p"
    "rc = SQLITE_OK \<or> rc = SQLITE_NOMEM" "(\<forall>k. mok k) \<Longrightarrow> rc = SQLITE_OK"
    "\<And>j. j < iSize p \<Longrightarrow> bv_mem p' j \<Longrightarrow> j \<in> I \<or> bv_mem p j"
    "\<And>j. rc = SQLITE_OK \<Longrightarrow> j < iSize p \<Longrightarrow> j \<in> I \<or> bv_mem p j \<Longrightarrow> bv_mem p' j"
  shows "set_post mok p I rc p'"
  unfolding set_post_def using assms by blast

lemma set_postD:
  assumes "set_post mok p I rc p'"
  shows "bv_ok p'" "iSize p' = iSize p" "iDivisor p \<noteq> 0 \<Longrightarrow> iDivisor p' = iDivisor p"
    "rc = SQLITE_OK \<or> rc = SQLITE_NOMEM" "(\<forall>k. mok k) \<Longrightarrow> rc = SQLITE_OK"
    "\<And>j. j < iSize p \<Longrightarrow> bv_mem p' j \<Longrightarrow> j \<in> I \<or> bv_mem p j"
    "\<And>j. rc = SQLITE_OK \<Longrightarrow> j < iSize p \<Longrightarrow> bv_mem p' j \<longleftrightarrow> j \<in> I \<or> bv_mem p j"
  using assms unfolding set_post_def by blast+

lemma rc_or:
  "(a = SQLITE_OK \<or> a = SQLITE_NOMEM) \<Longrightarrow> (b = SQLITE_OK \<or> b = SQLITE_NOMEM) \<Longrightarrow>
     a OR b = (if a = SQLITE_OK \<and> b = SQLITE_OK then SQLITE_OK else SQLITE_NOMEM)"
  by (auto simp: SQLITE_OK_def SQLITE_NOMEM_def)

lemma NOMEM_not_OK [simp]: "SQLITE_NOMEM \<noteq> SQLITE_OK"
  by (simp add: SQLITE_OK_def SQLITE_NOMEM_def)

definition all_post :: "(nat \<Rightarrow> bool) \<Rightarrow> Bitvec \<Rightarrow> nat list \<Rightarrow> int \<Rightarrow> int \<Rightarrow> Bitvec \<Rightarrow> bool" where
  "all_post mok p vs rc rc' p' \<longleftrightarrow> bv_ok p' \<and> iSize p' = iSize p
     \<and> (rc' = SQLITE_OK \<or> rc' = SQLITE_NOMEM)
     \<and> (rc' = SQLITE_OK \<longrightarrow> rc = SQLITE_OK)
     \<and> ((\<forall>k. mok k) \<longrightarrow> rc = SQLITE_OK \<longrightarrow> rc' = SQLITE_OK)
     \<and> (\<forall>j<iSize p. bv_mem p' j \<longrightarrow> j + 1 \<in> set vs \<or> bv_mem p j)
     \<and> (rc' = SQLITE_OK \<longrightarrow> (\<forall>j<iSize p. bv_mem p' j \<longleftrightarrow> j + 1 \<in> set vs \<or> bv_mem p j))"

lemma all_postI:
  assumes "bv_ok p'" "iSize p' = iSize p" "rc' = SQLITE_OK \<or> rc' = SQLITE_NOMEM"
    "rc' = SQLITE_OK \<Longrightarrow> rc = SQLITE_OK" "(\<forall>k. mok k) \<Longrightarrow> rc = SQLITE_OK \<Longrightarrow> rc' = SQLITE_OK"
    "\<And>j. j < iSize p \<Longrightarrow> bv_mem p' j \<Longrightarrow> j + 1 \<in> set vs \<or> bv_mem p j"
    "\<And>j. rc' = SQLITE_OK \<Longrightarrow> j < iSize p \<Longrightarrow> j + 1 \<in> set vs \<or> bv_mem p j \<Longrightarrow> bv_mem p' j"
  shows "all_post mok p vs rc rc' p'"
  unfolding all_post_def using assms by blast

lemma all_postD:
  assumes "all_post mok p vs rc rc' p'"
  shows "bv_ok p'" "iSize p' = iSize p" "rc' = SQLITE_OK \<or> rc' = SQLITE_NOMEM"
    "rc' = SQLITE_OK \<Longrightarrow> rc = SQLITE_OK" "(\<forall>k. mok k) \<Longrightarrow> rc = SQLITE_OK \<Longrightarrow> rc' = SQLITE_OK"
    "\<And>j. j < iSize p \<Longrightarrow> bv_mem p' j \<Longrightarrow> j + 1 \<in> set vs \<or> bv_mem p j"
    "\<And>j. rc' = SQLITE_OK \<Longrightarrow> j < iSize p \<Longrightarrow> bv_mem p' j \<longleftrightarrow> j + 1 \<in> set vs \<or> bv_mem p j"
  using assms unfolding all_post_def by blast+

lemma BitvecSet_all_correct:
  assumes step: "\<And>k p i. bv_ok p \<Longrightarrow> i < iSize p \<Longrightarrow> iDivisor p \<noteq> 0 \<Longrightarrow> iSize p = n \<Longrightarrow>
      \<exists>rc p' k'. setf k p i = Some (rc, p', k') \<and> set_post mok p {i} rc p'"
    and "bv_ok p" "iDivisor p \<noteq> 0" "iSize p = n" "\<forall>v\<in>set vs. v \<le> n"
    and "rc = SQLITE_OK \<or> rc = SQLITE_NOMEM"
  shows "\<exists>rc' p' k'. BitvecSet_all setf k p vs rc = Some (rc', p', k') \<and> all_post mok p vs rc rc' p'"
  using assms(2-)
proof (induction vs arbitrary: k p rc)
  case Nil
  then show ?case by (auto simp: all_post_def)
next
  case (Cons v vs)
  show ?case
  proof (cases "v = 0")
    case True
    then show ?thesis using Cons.IH [OF Cons.prems(1-3) _ Cons.prems(5), of k] Cons.prems
      by (auto simp: all_post_def)
  next
    case False
    have n: "n < 4294967296" using bv_ok_size [OF Cons.prems(1)] Cons.prems by simp
    have vn: "v - 1 < n" "v \<le> n" using Cons.prems False by auto
    have dv: "dec32 v = v - 1" using dec32_eq [of v] False vn n by simp
    obtain rc1 p1 k1 where s: "setf k p (v - 1) = Some (rc1, p1, k1)" "set_post mok p {v - 1} rc1 p1"
      using step [of p "v - 1" k] Cons.prems vn by auto
    note post = set_postD [OF s(2)]
    have rc: "rc OR rc1 = (if rc = SQLITE_OK \<and> rc1 = SQLITE_OK then SQLITE_OK else SQLITE_NOMEM)"
      by (rule rc_or [OF Cons.prems(5) post(4)])
    have p1: "bv_ok p1" "iDivisor p1 \<noteq> 0" "iSize p1 = n" "\<forall>v\<in>set vs. v \<le> n"
        "rc OR rc1 = SQLITE_OK \<or> rc OR rc1 = SQLITE_NOMEM"
      using post(1-3) Cons.prems rc by simp_all
    obtain rc2 p2 k2 where r: "BitvecSet_all setf k1 p1 vs (rc OR rc1) = Some (rc2, p2, k2)"
        "all_post mok p1 vs (rc OR rc1) rc2 p2"
      using Cons.IH [OF p1, of k1] by blast
    note post2 = all_postD [OF r(2)]
    have e: "BitvecSet_all setf k p (v # vs) rc = Some (rc2, p2, k2)"
      using False s(1) r(1) by (simp add: dv)
    have j1: "j = v - 1 \<longleftrightarrow> j + 1 = v" for j using False by auto
    have sz: "iSize p1 = iSize p" by (rule post(2))
    have "all_post mok p (v # vs) rc rc2 p2"
    proof (rule all_postI)
      show "bv_ok p2" "iSize p2 = iSize p" "rc2 = SQLITE_OK \<or> rc2 = SQLITE_NOMEM"
        using post2(1-3) sz by simp_all
      show "rc2 = SQLITE_OK \<Longrightarrow> rc = SQLITE_OK" using post2(4) rc by (simp split: if_splits)
      show "\<forall>k. mok k \<Longrightarrow> rc = SQLITE_OK \<Longrightarrow> rc2 = SQLITE_OK" using post2(5) post(5) rc by simp
    next
      fix j assume "j < iSize p" "bv_mem p2 j"
      then show "j + 1 \<in> set (v # vs) \<or> bv_mem p j"
        using post2(6) [of j] post(6) [of j] sz j1 [of j] by auto
    next
      fix j assume j: "rc2 = SQLITE_OK" "j < iSize p" "j + 1 \<in> set (v # vs) \<or> bv_mem p j"
      then have "rc1 = SQLITE_OK" using post2(4) rc by (simp split: if_splits)
      then show "bv_mem p2 j"
        using post2(7) [of j] post(7) [of j] j sz j1 [of j] by auto
    qed
    then show ?thesis using e by blast
  qed
qed

text \<open>The three kinds of node one by one: bitmap, hash table (with its re-hashing), array of sub-bitvecs.\<close>

lemma set_bitmap:
  assumes "n \<le> BITVEC_NBIT" "length b = BITVEC_NELEM" "i < n"
  shows "set_post mok (Bitvec n s 0 (aBitmap b)) {i} SQLITE_OK
    (Bitvec n s 0 (aBitmap (b[i div 8 := b ! (i div 8) OR push_bit (i mod 8) 1])))"
proof -
  let ?b = "b[i div 8 := b ! (i div 8) OR push_bit (i mod 8) 1]"
  have il: "i div 8 < length b" using assms by (simp add: bitvec_consts)
  have "bit (?b ! (j div 8)) (j mod 8) \<longleftrightarrow> j = i \<or> bit (b ! (j div 8)) (j mod 8)" for j
  proof (cases "j div 8 = i div 8")
    case True
    then have "j = i \<longleftrightarrow> j mod 8 = i mod 8" by (metis div_mult_mod_eq)
    moreover have "j mod 8 < 8" by simp
    ultimately show ?thesis using True il by (auto simp: bit_simps)
  next
    case False
    then show ?thesis by auto
  qed
  then show ?thesis using il assms by (auto simp: set_post_def bv_ok.bitmap)
qed

lemma set_hash_store:
  assumes ok: "bv_ok (Bitvec n s 0 (aHash a))" and i: "i < n"
    and p: "hash_probe a (i + 1) (BITVEC_HASH i) BITVEC_NINT = Some (False, h)" and s: "s < BITVEC_NINT - 1"
  shows "set_post mok (Bitvec n s 0 (aHash a)) {i} SQLITE_OK (hash_store (Bitvec n s 0 (aHash a)) a h (i + 1))"
proof -
  from ok have a: "BITVEC_NBIT < n" "n < 4294967296" "hash_inv a" "s = length (filter (\<lambda>v. v \<noteq> 0) a)"
      "\<forall>v\<in>set a. v \<le> n"
    by (auto elim: bv_ok.cases)
  have f: "hash_inv (a[h := i + 1])" "a ! h = 0" "h < length a"
    using hash_probe_free [of a "i + 1" h] p a(3) by simp_all
  have cnt: "length (filter (\<lambda>v. v \<noteq> 0) (a[h := i + 1])) = s + 1"
    using filter_update [OF f(3,2), of "i + 1"] a(4) by simp
  have "bv_ok (Bitvec n (s + 1) 0 (aHash (a[h := i + 1])))"
  proof (rule bv_ok.hash [OF a(1,2) f(1) cnt [symmetric]])
    show "s + 1 < BITVEC_NINT" using s by simp
    show "\<forall>v\<in>set (a[h := i + 1]). v \<le> n"
      using a(5) i set_update_subset_insert [of a h "i + 1"] by auto
  qed
  moreover have "j + 1 \<in> set (a[h := i + 1]) \<longleftrightarrow> j = i \<or> j + 1 \<in> set a" for j
    using set_update_zero [OF f(3,2), of "i + 1" "j + 1"] by simp
  ultimately show ?thesis by (simp add: set_post_def hash_store_def)
qed

lemma set_rehash:
  assumes step: "\<And>k p i. bv_ok p \<Longrightarrow> i < iSize p \<Longrightarrow> iDivisor p \<noteq> 0 \<Longrightarrow> iSize p = n \<Longrightarrow>
      \<exists>rc p' k'. setf k p i = Some (rc, p', k') \<and> set_post mok p {i} rc p'"
    and ok: "bv_ok (Bitvec n s 0 (aHash a))" and i: "i < n" and s: "s \<ge> BITVEC_MXHASH"
  shows "\<exists>rc p' k'. BitvecSet_rehash setf mok k (Bitvec n s 0 (aHash a)) a h (i + 1) = Some (rc, p', k')
      \<and> set_post mok (Bitvec n s 0 (aHash a)) {i} rc p'"
proof (cases "mok k")
  case False
  then show ?thesis using s ok by (auto simp: BitvecSet_rehash_def set_post_def)
next
  case True
  from ok have a: "BITVEC_NBIT < n" "n < 4294967296" "\<forall>v\<in>set a. v \<le> n"
    by (auto elim: bv_ok.cases)
  let ?q = "Bitvec n s (sub_size n) (apSub (replicate BITVEC_NPTR None))"
  have q: "bv_ok ?q" by (rule bv_ok.sub [OF a(1,2)]) simp_all
  have qm: "\<not> bv_mem ?q j" for j by simp
  have d: "sub_size n \<noteq> 0" using sub_size_pos [OF a(1)] by simp
  have dv: "dec32 (i + 1) = i" using dec32_eq [of "i + 1"] i a by simp
  obtain rc1 p1 k1 where s1: "setf (k + 1) ?q i = Some (rc1, p1, k1)" "set_post mok ?q {i} rc1 p1"
    using step [OF q, of i "k + 1"] i d by auto
  note post = set_postD [OF s1(2)]
  have p1: "bv_ok p1" "iDivisor p1 \<noteq> 0" "iSize p1 = n" using post(1-3) d by simp_all
  obtain rc2 p2 k2 where r: "BitvecSet_all setf k1 p1 a rc1 = Some (rc2, p2, k2)"
      "all_post mok p1 a rc1 rc2 p2"
    using BitvecSet_all_correct [of n setf mok p1 a rc1 k1, OF step p1 a(3) post(4)] by blast
  note post2 = all_postD [OF r(2)]
  have e: "BitvecSet_rehash setf mok k (Bitvec n s 0 (aHash a)) a h (i + 1) = Some (rc2, p2, k2)"
    using s True s1(1) r(1) dv by (simp add: BitvecSet_rehash_def Let_def sub_size_def)
  have "set_post mok (Bitvec n s 0 (aHash a)) {i} rc2 p2"
  proof (rule set_postI)
    show "bv_ok p2" "iSize p2 = iSize (Bitvec n s 0 (aHash a))" "rc2 = SQLITE_OK \<or> rc2 = SQLITE_NOMEM"
      using post2(1-3) p1 by simp_all
    show "\<forall>k. mok k \<Longrightarrow> rc2 = SQLITE_OK" using post2(5) post(5) by simp
  next
    fix j assume "j < iSize (Bitvec n s 0 (aHash a))" "bv_mem p2 j"
    then show "j \<in> {i} \<or> bv_mem (Bitvec n s 0 (aHash a)) j"
      using post2(6) [of j] post(6) [of j] p1(3) qm [of j] by auto
  next
    fix j assume j: "rc2 = SQLITE_OK" "j < iSize (Bitvec n s 0 (aHash a))"
        "j \<in> {i} \<or> bv_mem (Bitvec n s 0 (aHash a)) j"
    then show "bv_mem p2 j" using post2(4,7) post(7) [of j] p1(3) by auto
  qed simp
  then show ?thesis using e by blast
qed

lemma set_hash:
  assumes step: "\<And>k p i. bv_ok p \<Longrightarrow> i < iSize p \<Longrightarrow> iDivisor p \<noteq> 0 \<Longrightarrow> iSize p = n \<Longrightarrow>
      \<exists>rc p' k'. BitvecSet_at f mok k p i = Some (rc, p', k') \<and> set_post mok p {i} rc p'"
    and ok: "bv_ok (Bitvec n s 0 (aHash a))" and i: "i < n"
  shows "\<exists>rc p' k'. BitvecSet_at (Suc f) mok k (Bitvec n s 0 (aHash a)) i = Some (rc, p', k')
      \<and> set_post mok (Bitvec n s 0 (aHash a)) {i} rc p'"
proof -
  let ?p = "Bitvec n s 0 (aHash a)"
  from ok have a: "BITVEC_NBIT < n" "hash_inv a" "s = length (filter (\<lambda>v. v \<noteq> 0) a)" "s < BITVEC_NINT"
    by (auto elim: bv_ok.cases)
  have z: "0 \<in> set a" using zero_in_hash [of a] a hash_inv_length [OF a(2)] by simp
  obtain r h where p: "hash_probe a (i + 1) (BITVEC_HASH i) BITVEC_NINT = Some (r, h)"
    by (rule hash_probe_total [OF hash_inv_length [OF a(2)] z HASH_less])
  have re: "\<exists>rc p' k'. BitvecSet_rehash (BitvecSet_at f mok) mok k ?p a h (i + 1) = Some (rc, p', k')
      \<and> set_post mok ?p {i} rc p'" if "\<not> r"
  proof (cases "s \<ge> BITVEC_MXHASH")
    case True
    show ?thesis by (rule set_rehash [OF _ ok i True]) (rule step)
  next
    case False
    then show ?thesis using set_hash_store [OF ok i, of h mok] p that
      by (simp add: BitvecSet_rehash_def bitvec_consts)
  qed
  show ?thesis
  proof (cases "a ! BITVEC_HASH i = 0")
    case True
    have rh: "\<not> r" "h = BITVEC_HASH i" using p hash_probe_zero [OF True NINT_pos] by simp_all
    show ?thesis
    proof (cases "s < BITVEC_NINT - 1")
      case small: True
      then show ?thesis using set_hash_store [OF ok i, of h mok] p rh a(1) True by simp
    next
      case False
      then show ?thesis using re rh a(1) True by simp
    qed
  next
    case False
    show ?thesis
    proof (cases r)
      case True
      then have "i + 1 \<in> set a" using hash_probe_finds [OF a(2) z, of "i + 1" r h] p by simp
      then have "set_post mok ?p {i} SQLITE_OK ?p" using ok by (auto simp: set_post_def)
      then show ?thesis using p True a(1) False by (simp add: Let_def)
    next
      case nr: False
      then show ?thesis using re p a(1) False by (simp add: Let_def)
    qed
  qed
qed

lemma fuel_need_step: "BITVEC_NBIT < n \<Longrightarrow> fuel_need n = 2 + fuel_need (sub_size n)"
  by (subst fuel_need.simps) simp

lemma iDivisor_ok: "bv_ok p \<Longrightarrow> iDivisor p \<noteq> 0 \<Longrightarrow> iDivisor p = sub_size (iSize p) \<and> BITVEC_NBIT < iSize p"
  by (erule bv_ok.cases) auto

lemma fuel_need_bv_le: "bv_ok p \<Longrightarrow> fuel_need_bv p \<le> fuel_need (iSize p)"
  using iDivisor_ok [of p] fuel_need_step [of "iSize p"] by (auto simp: fuel_need_bv_def)

lemma set_sub:
  assumes step: "\<And>k p i. bv_ok p \<Longrightarrow> i < iSize p \<Longrightarrow> iSize p = d \<Longrightarrow>
      \<exists>rc p' k'. BitvecSet_at f mok k p i = Some (rc, p', k') \<and> set_post mok p {i} rc p'"
    and ok: "bv_ok (Bitvec n s d (apSub a))" and i: "i < n"
  shows "\<exists>rc p' k'. BitvecSet_at (Suc f) mok k (Bitvec n s d (apSub a)) i = Some (rc, p', k')
      \<and> set_post mok (Bitvec n s d (apSub a)) {i} rc p'"
proof -
  let ?p = "Bitvec n s d (apSub a)"
  from ok have a: "BITVEC_NBIT < n" "n < 4294967296" "d = sub_size n" "length a = BITVEC_NPTR"
      "\<And>q. Some q \<in> set a \<Longrightarrow> iSize q = d \<and> bv_ok q"
    by (auto elim: bv_ok.cases)
  have d: "0 < d" "d < 4294967296" using sub_size_pos [OF a(1)] sub_size_less [OF a(1)] a(2,3) by simp_all
  have bin: "i div d < length a" using sub_size_bin [OF a(1) i] a(3,4) by simp
  define next_q where "next_q = (case a ! (i div d) of Some q \<Rightarrow> (Some q, k) | None \<Rightarrow> sqlite3BitvecCreate mok k d)"
  have unf: "BitvecSet_at (Suc f) mok k ?p i = (case next_q of (None, k') \<Rightarrow> Some (SQLITE_NOMEM, ?p, k')
      | (Some q, k') \<Rightarrow> (case BitvecSet_at f mok k' q (i mod d) of None \<Rightarrow> None
          | Some (rc, q', k'') \<Rightarrow> Some (rc, Bitvec n s d (apSub (a[i div d := Some q'])), k'')))"
    using a(1) d(1) bin
    unfolding next_q_def BitvecSet_at.simps Bitvec.sel BitvecU.case Let_def by simp
  show ?thesis
  proof (cases next_q)
    case (Pair qo k')
    show ?thesis
    proof (cases qo)
      case None
      then have "\<not> mok k" using Pair
        by (auto simp: next_q_def sqlite3BitvecCreate_def split: option.splits if_splits)
      then have "set_post mok ?p {i} SQLITE_NOMEM ?p" using ok by (intro set_postI) auto
      then show ?thesis unfolding unf using Pair None by simp
    next
      case (Some q)
      have q: "bv_ok q" "iSize q = d" "\<And>j. bv_mem q j \<longleftrightarrow> (case a ! (i div d) of None \<Rightarrow> False | Some q \<Rightarrow> bv_mem q j)"
        using Pair Some a(5) [of q] bin bv_ok_new [OF d(2)] bv_mem_new [of d]
        by (auto simp: next_q_def sqlite3BitvecCreate_def split: option.splits if_splits dest: nth_mem)
      obtain rc q' k'' where s1: "BitvecSet_at f mok k' q (i mod d) = Some (rc, q', k'')"
          "set_post mok q {i mod d} rc q'"
        using step [OF q(1) _ q(2), of "i mod d" k'] d q(2) by auto
      note post = set_postD [OF s1(2)]
      let ?p' = "Bitvec n s d (apSub (a[i div d := Some q']))"
      have ok': "bv_ok ?p'"
      proof (rule bv_ok.sub [OF a(1-3)])
        show "length (a[i div d := Some q']) = BITVEC_NPTR" using a(4) by simp
        fix x assume "Some x \<in> set (a[i div d := Some q'])"
        then have "x = q' \<or> Some x \<in> set a" using set_update_subset_insert [of a "i div d" "Some q'"] by auto
        then show "iSize x = d \<and> bv_ok x" using a(5) post(1,2) q by auto
      qed
      have mem: "bv_mem ?p' j \<longleftrightarrow> (if j div d = i div d then bv_mem q' (j mod d) else bv_mem ?p j)" for j
        using bin by auto
      have old: "bv_mem ?p j \<longleftrightarrow> bv_mem q (j mod d)" if "j div d = i div d" for j
        using that bin q(3) by simp
      have ij: "j = i \<longleftrightarrow> j mod d = i mod d" if "j div d = i div d" for j
        using that by (metis div_mult_mod_eq)
      have jd: "j mod d < iSize q" for j using d q(2) by simp
      have "set_post mok ?p {i} rc ?p'"
      proof (rule set_postI [OF ok'])
        fix j assume "bv_mem ?p' j"
        then show "j \<in> {i} \<or> bv_mem ?p j"
          using mem [of j] old [of j] ij [of j] post(6) [OF jd [of j]] by (auto split: if_splits simp del: bv_mem_node)
      next
        fix j assume "rc = SQLITE_OK" "j \<in> {i} \<or> bv_mem ?p j"
        then show "bv_mem ?p' j"
          using mem [of j] old [of j] ij [of j] post(7) [OF _ jd [of j]] by (auto split: if_splits simp del: bv_mem_node)
      qed (use post in simp_all)
      then show ?thesis unfolding unf using Pair Some s1(1) by simp
    qed
  qed
qed

lemma BitvecSet_at_correct:
  "bv_ok p \<Longrightarrow> i < iSize p \<Longrightarrow> fuel_need_bv p \<le> f \<Longrightarrow>
     \<exists>rc p' k'. BitvecSet_at f mok k p i = Some (rc, p', k') \<and> set_post mok p {i} rc p'"
proof (induction f arbitrary: p i k)
  case 0
  then show ?case using fuel_need_pos [of "iSize p"] by (simp add: fuel_need_bv_def split: if_splits)
next
  case (Suc f)
  from Suc.prems(1) show ?case
  proof cases
    case (bitmap n b s)
    have "i div 8 < length b" using bitmap Suc.prems by (simp add: bitvec_consts)
    then show ?thesis using set_bitmap [of n b i mok s] bitmap Suc.prems by simp
  next
    case (hash n a s)
    have f: "2 + fuel_need (sub_size n) \<le> Suc f"
      using Suc.prems(3) hash fuel_need_step [of n] by (simp add: fuel_need_bv_def)
    show ?thesis unfolding hash(1)
    proof (rule set_hash)
      fix k p i assume a: "bv_ok p" "i < iSize p" "iDivisor p \<noteq> 0" "iSize p = n"
      then have "fuel_need_bv p \<le> f" using f iDivisor_ok [of p] by (simp add: fuel_need_bv_def)
      then show "\<exists>rc p' k'. BitvecSet_at f mok k p i = Some (rc, p', k') \<and> set_post mok p {i} rc p'"
        using Suc.IH a by blast
    qed (use Suc.prems hash in auto)
  next
    case (sub n d a s)
    have f: "fuel_need d \<le> f"
      using Suc.prems(3) sub sub_size_pos [of n] by (simp add: fuel_need_bv_def)
    show ?thesis unfolding sub(1)
    proof (rule set_sub)
      fix k p i assume a: "bv_ok p" "i < iSize p" "iSize p = d"
      then have "fuel_need_bv p \<le> f" using f fuel_need_bv_le [of p] by simp
      then show "\<exists>rc p' k'. BitvecSet_at f mok k p i = Some (rc, p', k') \<and> set_post mok p {i} rc p'"
        using Suc.IH a by blast
    next
      show "bv_ok (Bitvec n s d (apSub a))" "i < n" using Suc.prems sub by simp_all
    qed
  qed
qed

lemma BITVEC_FUEL_enough: "bv_ok p \<Longrightarrow> fuel_need_bv p \<le> BITVEC_FUEL"
  using fuel_need_bv_le [of p] fuel_need_le [OF bv_ok_size [of p]] by (simp add: BITVEC_FUEL_def)

subsection \<open>The contract of a bitmap, and what its clients may rely on\<close>

text \<open>
  A client sees a set of numbers between 1 and a fixed size.  The locale states the laws of the three
  operations; a client that performs any sequence of operations is described once, for every
  implementation.
\<close>

datatype bit_op = SetBit nat | ClearBit nat

fun bit_op_number :: "bit_op \<Rightarrow> nat" where
  "bit_op_number (SetBit i) = i"
| "bit_op_number (ClearBit i) = i"

fun bit_op_abs :: "nat set \<Rightarrow> bit_op \<Rightarrow> nat set" where
  "bit_op_abs S (SetBit i) = insert i S"
| "bit_op_abs S (ClearBit i) = S - {i}"

fun bit_run :: "('s \<Rightarrow> nat \<Rightarrow> 's option) \<Rightarrow> ('s \<Rightarrow> nat \<Rightarrow> 's option) \<Rightarrow> 's \<Rightarrow> bit_op list \<Rightarrow> 's option" where
  "bit_run ins del s [] = Some s"
| "bit_run ins del s (SetBit i # ops) = (case ins s i of None \<Rightarrow> None | Some s' \<Rightarrow> bit_run ins del s' ops)"
| "bit_run ins del s (ClearBit i # ops) = (case del s i of None \<Rightarrow> None | Some s' \<Rightarrow> bit_run ins del s' ops)"

locale bit_set =
  fixes new_set :: "nat \<Rightarrow> 's" and test :: "'s \<Rightarrow> nat \<Rightarrow> bool option"
    and ins :: "'s \<Rightarrow> nat \<Rightarrow> 's option" and del :: "'s \<Rightarrow> nat \<Rightarrow> 's option"
    and bits :: "'s \<Rightarrow> nat set" and capacity :: "'s \<Rightarrow> nat" and inv :: "'s \<Rightarrow> bool"
  assumes new_law: "n < 4294967296 \<Longrightarrow> inv (new_set n) \<and> bits (new_set n) = {} \<and> capacity (new_set n) = n"
    and test_law: "inv s \<Longrightarrow> i < 4294967296 \<Longrightarrow> test s i = Some (i \<in> bits s)"
    and ins_law: "inv s \<Longrightarrow> 0 < i \<Longrightarrow> i \<le> capacity s \<Longrightarrow>
      \<exists>s'. ins s i = Some s' \<and> inv s' \<and> capacity s' = capacity s \<and> bits s' = insert i (bits s)"
    and del_law: "inv s \<Longrightarrow> 0 < i \<Longrightarrow> i \<le> capacity s \<Longrightarrow>
      \<exists>s'. del s i = Some s' \<and> inv s' \<and> capacity s' = capacity s \<and> bits s' = bits s - {i}"
begin

lemma run_from:
  "inv s \<Longrightarrow> \<forall>op\<in>set ops. 0 < bit_op_number op \<and> bit_op_number op \<le> capacity s \<Longrightarrow>
     \<exists>s'. bit_run ins del s ops = Some s' \<and> inv s' \<and> capacity s' = capacity s
       \<and> bits s' = foldl bit_op_abs (bits s) ops"
proof (induction ops arbitrary: s)
  case Nil
  then show ?case by simp
next
  case (Cons op ops)
  show ?case
  proof (cases op)
    case (SetBit i)
    then obtain s' where "ins s i = Some s'" "inv s'" "capacity s' = capacity s" "bits s' = insert i (bits s)"
      using ins_law [of s i] Cons.prems by auto
    then show ?thesis using Cons.IH [of s'] Cons.prems SetBit by simp
  next
    case (ClearBit i)
    then obtain s' where "del s i = Some s'" "inv s'" "capacity s' = capacity s" "bits s' = bits s - {i}"
      using del_law [of s i] Cons.prems by auto
    then show ?thesis using Cons.IH [of s'] Cons.prems ClearBit by simp
  qed
qed

lemma run_new:
  assumes "n < 4294967296" "\<forall>op\<in>set ops. 0 < bit_op_number op \<and> bit_op_number op \<le> n"
    and "i < 4294967296"
  shows "\<exists>s. bit_run ins del (new_set n) ops = Some s \<and> test s i = Some (i \<in> foldl bit_op_abs {} ops)"
  using run_from [of "new_set n" ops] new_law [OF assms(1)] test_law assms(2,3) by auto

end

text \<open>The operations of \<open>bitvec.c\<close> when memory is available, in the shape of the interface.\<close>

definition bv_insert :: "Bitvec \<Rightarrow> nat \<Rightarrow> Bitvec option" where
  "bv_insert p i =
     (case sqlite3BitvecSet (\<lambda>_. True) 0 (Some p) i of
        Some (rc, Some p', k) \<Rightarrow> if rc = SQLITE_OK then Some p' else None
      | _ \<Rightarrow> None)"

definition bv_delete :: "Bitvec \<Rightarrow> nat \<Rightarrow> Bitvec option" where
  "bv_delete p i = (case sqlite3BitvecClear (Some p) i of Some (Some p') \<Rightarrow> Some p' | _ \<Rightarrow> None)"

lemma sqlite3BitvecSet_post:
  assumes "bv_ok p" "0 < i" "i \<le> iSize p"
  obtains rc p' k' where "sqlite3BitvecSet mok k (Some p) i = Some (rc, Some p', k')" "bv_ok p'"
    "iSize p' = iSize p" "rc = SQLITE_OK \<or> rc = SQLITE_NOMEM" "(\<forall>k. mok k) \<Longrightarrow> rc = SQLITE_OK"
    "bv_set p' \<subseteq> insert i (bv_set p)" "rc = SQLITE_OK \<Longrightarrow> bv_set p' = insert i (bv_set p)"
proof -
  have i: "dec32 i = i - 1" "i - 1 < iSize p" using assms dec32_eq [of i] bv_ok_size [of p] by auto
  obtain rc p' k' where r: "BitvecSet_at BITVEC_FUEL mok k p (i - 1) = Some (rc, p', k')"
      "set_post mok p {i - 1} rc p'"
    using BitvecSet_at_correct [OF assms(1) i(2) BITVEC_FUEL_enough [OF assms(1)]] by blast
  note post = set_postD [OF r(2)]
  have ji: "j - 1 = i - 1 \<longleftrightarrow> j = i" and jl: "j - 1 < iSize p" if "0 < j" "j \<le> iSize p" for j
    using that assms(2) by auto
  have sub: "j \<in> insert i (bv_set p)" if "j \<in> bv_set p'" for j
    using that post(2) post(6) [OF jl [of j]] ji [of j] by (auto simp: bv_set_def)
  have "j \<in> bv_set p'" if "rc = SQLITE_OK" "j \<in> insert i (bv_set p)" for j
    using that assms(2,3) post(2) post(7) [OF _ jl [of j]] ji [of j] by (auto simp: bv_set_def)
  with sub have "bv_set p' \<subseteq> insert i (bv_set p)" "rc = SQLITE_OK \<Longrightarrow> bv_set p' = insert i (bv_set p)"
    by blast+
  then show thesis using that r(1) post(1-5) i(1) by (simp add: sqlite3BitvecSet_def)
qed

lemma sqlite3BitvecClear_post:
  assumes "bv_ok p" "0 < i" "i \<le> iSize p"
  shows "\<exists>p'. sqlite3BitvecClear (Some p) i = Some (Some p') \<and> bv_ok p' \<and> iSize p' = iSize p
    \<and> bv_set p' = bv_set p - {i}"
proof -
  have i: "dec32 i = i - 1" "i - 1 < iSize p" using assms dec32_eq [of i] bv_ok_size [of p] by auto
  obtain p' where "BitvecClear_at p (i - 1) = Some p'" "bv_ok p'" "iSize p' = iSize p"
      "\<forall>j<iSize p. bv_mem p' j \<longleftrightarrow> j \<noteq> i - 1 \<and> bv_mem p j"
    using BitvecClear_at_correct [OF assms(1) i(2)] by auto
  moreover have "j - 1 = i - 1 \<longleftrightarrow> j = i" if "0 < j" for j using that assms(2) by auto
  ultimately show ?thesis using i(1) by (auto simp: sqlite3BitvecClear_def bv_set_def)
qed

interpretation bv: bit_set bitvec_new sqlite3BitvecTestNotNull bv_insert bv_delete bv_set iSize bv_ok
proof (unfold_locales, goal_cases)
  case (1 n)
  then show ?case by (simp add: bv_ok_new bv_set_def bv_mem_new)
next
  case (2 s i)
  then show ?case by (rule bv_mem_range)
next
  case (3 s i)
  obtain rc p' k' where "sqlite3BitvecSet (\<lambda>_. True) 0 (Some s) i = Some (rc, Some p', k')" "bv_ok p'"
      "iSize p' = iSize s" "rc = SQLITE_OK" "bv_set p' = insert i (bv_set s)"
    by (rule sqlite3BitvecSet_post [OF 3, of "\<lambda>_. True" 0]) auto
  then show ?case by (simp add: bv_insert_def)
next
  case (4 s i)
  then show ?case using sqlite3BitvecClear_post [of s i] by (auto simp: bv_delete_def)
qed

text \<open>
  Setting a bit of a well-formed bitvec, with allocations failing in any pattern: \<open>sqlite3BitvecSet\<close> always
  returns (no probe or recursion runs forever, no index is out of range, and the fuel is enough), keeps the
  structure well-formed, returns OK or NOMEM, and on OK the set of bits has grown by exactly bit \<open>i\<close>.
  After NOMEM some bits may be lost but none is invented, and when no allocation fails the result is OK.\<close>

theorem BitvecSet_correct:
  assumes "bv_ok p" "0 < i" "i \<le> iSize p"
  shows "\<exists>rc p' k'. sqlite3BitvecSet mok k (Some p) i = Some (rc, Some p', k') \<and> bv_ok p'
    \<and> iSize p' = iSize p \<and> rc \<in> {SQLITE_OK, SQLITE_NOMEM}
    \<and> bv_set p' \<subseteq> insert i (bv_set p)
    \<and> (rc = SQLITE_NOMEM \<or> bv_set p' = insert i (bv_set p))
    \<and> (rc = SQLITE_OK \<or> (\<exists>k. \<not> mok k))"
  by (rule sqlite3BitvecSet_post [OF assms, of mok k]) auto

theorem BitvecSet_correct_witness:
  "\<exists>rc p' k'. sqlite3BitvecSet (\<lambda>k. k < 5) 0 (Some (bitvec_new 5000)) 4711 = Some (rc, Some p', k')
     \<and> bv_ok p' \<and> bv_set p' \<subseteq> {4711}"
proof -
  have "bv_ok (bitvec_new 5000)" "bv_set (bitvec_new 5000) = {}"
    by (simp_all add: bv_ok_new bv_set_def bv_mem_new)
  then show ?thesis using BitvecSet_correct [of "bitvec_new 5000" 4711 "\<lambda>k. k < 5" 0] by fastforce
qed

text \<open>
  C31. The bitvec implements a set of numbers: starting from a new bitvec of any size \<open>n\<close> below \<open>2\<^sup>3\<^sup>2\<close>, after
  any sequence of set and clear operations on numbers from 1 to \<open>n\<close> (through bitmaps, hash tables,
  re-hashing and subdivided nodes), \<open>sqlite3BitvecTestNotNull\<close> answers for every 32-bit number whether it is in
  the set the operations describe.\<close>

theorem Bitvec_refines_set:
  assumes "n < 4294967296" "\<forall>op\<in>set ops. 0 < bit_op_number op \<and> bit_op_number op \<le> n"
    and "i < 4294967296"
  shows "\<exists>p. bit_run bv_insert bv_delete (bitvec_new n) ops = Some p
    \<and> sqlite3BitvecTestNotNull p i = Some (i \<in> foldl bit_op_abs {} ops)"
  using assms by (rule bv.run_new)

theorem Bitvec_refines_set_witness:
  "\<exists>p. bit_run bv_insert bv_delete (bitvec_new 100000) [SetBit 5, SetBit 129, SetBit 99999, ClearBit 129] = Some p
     \<and> sqlite3BitvecTestNotNull p 99999 = Some True"
  using Bitvec_refines_set [of 100000 "[SetBit 5, SetBit 129, SetBit 99999, ClearBit 129]" 99999] by simp

end
