(* ===== verification/Hash.thy ===== *)
theory Hash
  imports CString
begin

text \<open>
  The generic hash table of \<open>hash.c\<close> (\<open>src/src/db/sqlite3/core/sqlite3.c\<close>), SQLite's symbol table.  All
  elements are on one doubly linked list; a bucket is a counter and a pointer to the first of its elements,
  which are contiguous on the list.  The model keeps the pointers: elements live in a heap from addresses
  to \<open>HashElem\<close> records, and every store of the C code is an update of that heap.  \<open>None\<close> as the result of
  an operation stands for a null or dangling pointer being followed, or for a list that never ends; the
  theorems show that it does not occur.

  \<open>malloc\<close> is a parameter: \<open>new_elem H\<close> is the address of a new element (\<open>None\<close> when memory is exhausted),
  \<open>new_table n\<close> is the number of buckets that fit into the block obtained for \<open>n\<close> buckets
  (\<open>sqlite3MallocSize\<close> may report more than was asked for).
\<close>

unbundle bit_operations_syntax

subsection \<open>State\<close>

record HashElem =
  he_next :: "nat option"
  he_prev :: "nat option"
  he_data :: nat
  he_key :: cstr

record Hash_ht =
  ht_count :: nat
  ht_chain :: "nat option"

record Hash =
  htsize :: nat
  hcount :: nat
  hfirst :: "nat option"
  ht :: "Hash_ht list option"

type_synonym heap = "nat \<Rightarrow> HashElem option"

record hash_env =
  new_elem :: "heap \<Rightarrow> nat option"
  new_table :: "nat \<Rightarrow> nat option"

definition env_ok :: "hash_env \<Rightarrow> bool" where
  "env_ok env \<longleftrightarrow> (\<forall>H a. new_elem env H = Some a \<longrightarrow> H a = None)
     \<and> (\<forall>n m. new_table env n = Some m \<longrightarrow> n \<le> m)"

definition upd :: "heap \<Rightarrow> nat \<Rightarrow> (HashElem \<Rightarrow> HashElem) \<Rightarrow> heap option" where
  "upd H a f = (case H a of None \<Rightarrow> None | Some e \<Rightarrow> Some (H(a \<mapsto> f e)))"

subsection \<open>Operations\<close>

definition sqlite3HashInit :: Hash where
  "sqlite3HashInit = \<lparr>htsize = 0, hcount = 0, hfirst = None, ht = None\<rparr>"

fun HashClear_loop :: "nat \<Rightarrow> heap \<Rightarrow> nat option \<Rightarrow> heap option" where
  "HashClear_loop fuel H None = Some H"
| "HashClear_loop 0 H (Some a) = None"
| "HashClear_loop (Suc fuel) H (Some a) =
     (case H a of None \<Rightarrow> None | Some e \<Rightarrow> HashClear_loop fuel (H(a := None)) (he_next e))"

text \<open>The list has \<open>hcount\<close> elements, which bounds the loop.\<close>

definition sqlite3HashClear :: "heap \<Rightarrow> Hash \<Rightarrow> (heap \<times> Hash) option" where
  "sqlite3HashClear H pH =
     map_option (\<lambda>H'. (H', \<lparr>htsize = 0, hcount = 0, hfirst = None, ht = None\<rparr>))
       (HashClear_loop (hcount pH) H (hfirst pH))"

fun strHash_loop :: "cstr \<Rightarrow> u32 \<Rightarrow> u32" where
  "strHash_loop [] h = h"
| "strHash_loop (c # z) h = strHash_loop z ((h + ucast (sqlite3UpperToLower c)) * 0x9e3779b1)"

definition strHash :: "cstr \<Rightarrow> nat" where
  "strHash z = unat (strHash_loop z 0)"

text \<open>Linking the element \<open>pNew\<close>: in front of \<open>pHead\<close>, or at the front of the list.\<close>

definition link_before :: "heap \<Rightarrow> Hash \<Rightarrow> nat \<Rightarrow> nat \<Rightarrow> (heap \<times> Hash) option" where
  "link_before H pH pHead pNew =
     do { e \<leftarrow> H pHead;
          H1 \<leftarrow> upd H pNew (\<lambda>n. n\<lparr>he_next := Some pHead, he_prev := he_prev e\<rparr>);
          (H2, pH2) \<leftarrow>
            (case he_prev e of
               Some p \<Rightarrow> map_option (\<lambda>H2. (H2, pH)) (upd H1 p (\<lambda>n. n\<lparr>he_next := Some pNew\<rparr>))
             | None \<Rightarrow> Some (H1, pH\<lparr>hfirst := Some pNew\<rparr>));
          H3 \<leftarrow> upd H2 pHead (\<lambda>n. n\<lparr>he_prev := Some pNew\<rparr>);
          Some (H3, pH2) }"

definition link_front :: "heap \<Rightarrow> Hash \<Rightarrow> nat \<Rightarrow> (heap \<times> Hash) option" where
  "link_front H pH pNew =
     do { H1 \<leftarrow> upd H pNew (\<lambda>n. n\<lparr>he_next := hfirst pH\<rparr>);
          H2 \<leftarrow> (case hfirst pH of Some f \<Rightarrow> upd H1 f (\<lambda>n. n\<lparr>he_prev := Some pNew\<rparr>) | None \<Rightarrow> Some H1);
          H3 \<leftarrow> upd H2 pNew (\<lambda>n. n\<lparr>he_prev := None\<rparr>);
          Some (H3, pH\<lparr>hfirst := Some pNew\<rparr>) }"

definition insertElement :: "heap \<Rightarrow> Hash \<Rightarrow> nat option \<Rightarrow> nat \<Rightarrow> (heap \<times> Hash) option" where
  "insertElement H pH pEntry pNew =
     (case pEntry of
        None \<Rightarrow> link_front H pH pNew
      | Some b \<Rightarrow>
          do { t \<leftarrow> ht pH;
               if b < length t then
                 (let pHead = (if ht_count (t ! b) \<noteq> 0 then ht_chain (t ! b) else None);
                      pH' = pH\<lparr>ht := Some (t[b := \<lparr>ht_count = ht_count (t ! b) + 1, ht_chain = Some pNew\<rparr>])\<rparr>
                  in case pHead of
                       Some a \<Rightarrow> link_before H pH' a pNew
                     | None \<Rightarrow> link_front H pH' pNew)
               else None })"

definition SQLITE_MALLOC_SOFT_LIMIT :: nat where "SQLITE_MALLOC_SOFT_LIMIT = 1024"
definition sizeof_ht :: nat where "sizeof_ht = 16"

fun rehash_loop :: "nat \<Rightarrow> heap \<Rightarrow> Hash \<Rightarrow> nat option \<Rightarrow> (heap \<times> Hash) option" where
  "rehash_loop fuel H pH None = Some (H, pH)"
| "rehash_loop 0 H pH (Some elem) = None"
| "rehash_loop (Suc fuel) H pH (Some elem) =
     do { e \<leftarrow> H elem;
          (H', pH') \<leftarrow> insertElement H pH (Some (strHash (he_key e) mod htsize pH)) elem;
          rehash_loop fuel H' pH' (he_next e) }"

definition rehash :: "hash_env \<Rightarrow> heap \<Rightarrow> Hash \<Rightarrow> nat \<Rightarrow> (bool \<times> heap \<times> Hash) option" where
  "rehash env H pH new_size0 =
     (let new_size = (if new_size0 * sizeof_ht > SQLITE_MALLOC_SOFT_LIMIT
                      then SQLITE_MALLOC_SOFT_LIMIT div sizeof_ht else new_size0)
      in if new_size = htsize pH then Some (False, H, pH)
         else case new_table env new_size of
           None \<Rightarrow> Some (False, H, pH)
         | Some m \<Rightarrow>
             map_option (\<lambda>(H', pH'). (True, H', pH'))
               (rehash_loop (hcount pH) H
                  (pH\<lparr>ht := Some (replicate m \<lparr>ht_count = 0, ht_chain = None\<rparr>), htsize := m, hfirst := None\<rparr>)
                  (hfirst pH)))"

text \<open>The search: \<open>Some None\<close> is the static null element.\<close>

fun find_loop :: "heap \<Rightarrow> cstr \<Rightarrow> nat option \<Rightarrow> nat \<Rightarrow> nat option option" where
  "find_loop H pKey elem 0 = Some None"
| "find_loop H pKey elem (Suc count) =
     do { a \<leftarrow> elem;
          e \<leftarrow> H a;
          if sqlite3StrICmp (he_key e) pKey = 0 then Some (Some a)
          else find_loop H pKey (he_next e) count }"

definition findElementWithHash :: "heap \<Rightarrow> Hash \<Rightarrow> cstr \<Rightarrow> (nat option \<times> nat) option" where
  "findElementWithHash H pH pKey =
     (case ht pH of
        Some t \<Rightarrow>
          (let h = strHash pKey mod htsize pH in
           if h < length t
           then map_option (\<lambda>r. (r, h)) (find_loop H pKey (ht_chain (t ! h)) (ht_count (t ! h)))
           else None)
      | None \<Rightarrow> map_option (\<lambda>r. (r, 0)) (find_loop H pKey (hfirst pH) (hcount pH)))"

definition removeElementGivenHash :: "heap \<Rightarrow> Hash \<Rightarrow> nat \<Rightarrow> nat \<Rightarrow> (heap \<times> Hash) option" where
  "removeElementGivenHash H pH elem h =
     do { e \<leftarrow> H elem;
          (H1, pH1) \<leftarrow>
            (case he_prev e of
               Some p \<Rightarrow> map_option (\<lambda>H1. (H1, pH)) (upd H p (\<lambda>n. n\<lparr>he_next := he_next e\<rparr>))
             | None \<Rightarrow> Some (H, pH\<lparr>hfirst := he_next e\<rparr>));
          H2 \<leftarrow> (case he_next e of Some q \<Rightarrow> upd H1 q (\<lambda>n. n\<lparr>he_prev := he_prev e\<rparr>) | None \<Rightarrow> Some H1);
          pH2 \<leftarrow> (case ht pH1 of
                    None \<Rightarrow> Some pH1
                  | Some t \<Rightarrow>
                      if h < length t \<and> ht_count (t ! h) > 0 then
                        Some (pH1\<lparr>ht := Some (t[h :=
                          \<lparr>ht_count = ht_count (t ! h) - 1,
                           ht_chain = (if ht_chain (t ! h) = Some elem then he_next e else ht_chain (t ! h))\<rparr>])\<rparr>)
                      else None);
          let H3 = H2(elem := None);
          let pH3 = pH2\<lparr>hcount := hcount pH2 - 1\<rparr>;
          if hcount pH3 = 0 then sqlite3HashClear H3 pH3 else Some (H3, pH3) }"

definition elem_data :: "heap \<Rightarrow> nat option \<Rightarrow> nat" where
  "elem_data H r = (case r of None \<Rightarrow> 0 | Some a \<Rightarrow> (case H a of None \<Rightarrow> 0 | Some e \<Rightarrow> he_data e))"

definition sqlite3HashFind :: "heap \<Rightarrow> Hash \<Rightarrow> cstr \<Rightarrow> nat option" where
  "sqlite3HashFind H pH pKey = map_option (\<lambda>(r, h). elem_data H r) (findElementWithHash H pH pKey)"

text \<open>\<open>sqlite3HashInsert\<close>: the returned pointer (0 is NULL) and the new state.\<close>

definition sqlite3HashInsert :: "hash_env \<Rightarrow> heap \<Rightarrow> Hash \<Rightarrow> cstr \<Rightarrow> nat \<Rightarrow> (nat \<times> heap \<times> Hash) option" where
  "sqlite3HashInsert env H pH pKey data =
     do { (r, h) \<leftarrow> findElementWithHash H pH pKey;
          if elem_data H r \<noteq> 0 then
            do { elem \<leftarrow> r;
                 if data = 0 then
                   map_option (\<lambda>(H', pH'). (elem_data H r, H', pH')) (removeElementGivenHash H pH elem h)
                 else
                   map_option (\<lambda>H'. (elem_data H r, H', pH)) (upd H elem (\<lambda>e. e\<lparr>he_data := data, he_key := pKey\<rparr>)) }
          else if data = 0 then Some (0, H, pH)
          else case new_elem env H of
            None \<Rightarrow> Some (data, H, pH)
          | Some a \<Rightarrow>
              do { let H1 = H(a \<mapsto> \<lparr>he_next = None, he_prev = None, he_data = data, he_key = pKey\<rparr>);
                   let pH1 = pH\<lparr>hcount := hcount pH + 1\<rparr>;
                   (resized, H2, pH2) \<leftarrow>
                     (if hcount pH1 \<ge> 10 \<and> hcount pH1 > 2 * htsize pH1
                      then rehash env H1 pH1 (hcount pH1 * 2) else Some (False, H1, pH1));
                   let h2 = (if resized then strHash pKey mod htsize pH2 else h);
                   map_option (\<lambda>(H', pH'). (0, H', pH'))
                     (insertElement H2 pH2 (if ht pH2 = None then None else Some h2) a) } }"

subsection \<open>Doubly linked segments\<close>

text \<open>
  \<open>dseg H pv f as l n\<close>: starting at pointer \<open>f\<close>, the addresses \<open>as\<close> form a doubly linked segment; the first
  one points back to \<open>pv\<close>, the last one is \<open>l\<close> and points forward to \<open>n\<close>.
\<close>

fun dseg :: "heap \<Rightarrow> nat option \<Rightarrow> nat option \<Rightarrow> nat list \<Rightarrow> nat option \<Rightarrow> nat option \<Rightarrow> bool" where
  "dseg H pv f [] l n \<longleftrightarrow> f = n \<and> l = pv"
| "dseg H pv f (a # as) l n \<longleftrightarrow>
     f = Some a \<and> (\<exists>e. H a = Some e \<and> he_prev e = pv \<and> dseg H (Some a) (he_next e) as l n)"

lemma dseg_append:
  "dseg H pv f (as @ bs) l n \<longleftrightarrow> (\<exists>k m. dseg H pv f as k m \<and> dseg H k m bs l n)"
  by (induction as arbitrary: pv f) auto

lemma dseg_frame: "\<forall>a\<in>set as. H' a = H a \<Longrightarrow> dseg H' pv f as l n = dseg H pv f as l n"
  by (induction as arbitrary: pv f) auto

lemma dseg_upd_other [simp]: "a \<notin> set as \<Longrightarrow> dseg (H(a := x)) pv f as l n = dseg H pv f as l n"
  by (rule dseg_frame) auto

lemma dseg_last: "dseg H pv f as l n \<Longrightarrow> l = (if as = [] then pv else Some (last as))"
  by (induction as arbitrary: pv f) auto

lemma dseg_first: "dseg H pv f as l n \<Longrightarrow> f = (if as = [] then n else Some (hd as))"
  by (cases as) auto

lemma dseg_mem: "dseg H pv f as l n \<Longrightarrow> a \<in> set as \<Longrightarrow> \<exists>e. H a = Some e"
  by (induction as arbitrary: pv f) auto

text \<open>Changing the pointers at the ends of a segment.\<close>

lemma dseg_set_next:
  assumes "dseg H pv f as (Some p) n" "as \<noteq> []" "distinct as" "H p = Some e"
  shows "dseg (H(p \<mapsto> e\<lparr>he_next := n'\<rparr>)) pv f as (Some p) n'"
proof -
  from assms(1,2) dseg_last [OF assms(1)] obtain xs where as: "as = xs @ [p]"
    by (metis append_butlast_last_id option.inject)
  then show ?thesis using assms by (auto simp: dseg_append)
qed

lemma dseg_set_prev:
  assumes "dseg H pv (Some a) (a # as) l n" "a \<notin> set as" "H a = Some e"
  shows "dseg (H(a \<mapsto> e\<lparr>he_prev := pv'\<rparr>)) pv' (Some a) (a # as) l n"
  using assms by auto

text \<open>What linking leaves alone: the keys and the data of all elements.\<close>

definition payload :: "heap \<Rightarrow> nat \<Rightarrow> (cstr \<times> nat) option" where
  "payload H a = map_option (\<lambda>e. (he_key e, he_data e)) (H a)"

lemma payload_upd [simp]:
  "H a = Some e \<Longrightarrow> he_key e' = he_key e \<Longrightarrow> he_data e' = he_data e \<Longrightarrow> payload (H(a \<mapsto> e')) = payload H"
  by (rule ext) (simp add: payload_def)

lemma upd_Some [simp]: "H a = Some e \<Longrightarrow> upd H a f = Some (H(a \<mapsto> f e))"
  by (simp add: upd_def)

lemma link_front_correct:
  assumes "dseg H None (hfirst pH) L l None" "a \<notin> set L" "H a = Some e" "distinct L"
  shows "\<exists>H'. link_front H pH a = Some (H', pH\<lparr>hfirst := Some a\<rparr>) \<and> (\<exists>l'. dseg H' None (Some a) (a # L) l' None)
    \<and> payload H' = payload H \<and> (\<forall>x. x \<noteq> a \<longrightarrow> x \<notin> set L \<longrightarrow> H' x = H x)"
proof (cases L)
  case Nil
  then show ?thesis using assms by (simp add: link_front_def)
next
  case (Cons b bs)
  then obtain eb where b: "H b = Some eb" "hfirst pH = Some b" "he_prev eb = None" "b \<noteq> a" "b \<notin> set bs" "a \<notin> set bs"
    using assms by auto
  let ?H = "H(a \<mapsto> e\<lparr>he_next := Some b\<rparr>, b \<mapsto> eb\<lparr>he_prev := Some a\<rparr>, a \<mapsto> e\<lparr>he_next := Some b, he_prev := None\<rparr>)"
  have "link_front H pH a = Some (?H, pH\<lparr>hfirst := Some a\<rparr>)"
    using b assms(3) by (simp add: link_front_def)
  moreover have "dseg ?H None (Some a) (a # L) l None" using b assms(1) Cons by auto
  moreover have "payload ?H = payload H" using b assms(3) by (auto simp: payload_def fun_eq_iff)
  ultimately show ?thesis using Cons b by (intro exI [of _ ?H] conjI exI [of _ l]) auto
qed

lemma link_before_correct:
  assumes d: "dseg H None (hfirst pH) (xs @ h # ys) l None" and a: "a \<notin> set (xs @ h # ys)" "H a = Some e"
    and dist: "distinct (xs @ h # ys)"
  shows "\<exists>H' f'. link_before H pH h a = Some (H', pH\<lparr>hfirst := f'\<rparr>)
    \<and> (\<exists>l'. dseg H' None f' (xs @ a # h # ys) l' None)
    \<and> payload H' = payload H \<and> (\<forall>x. x \<noteq> a \<longrightarrow> x \<notin> set (xs @ h # ys) \<longrightarrow> H' x = H x)"
proof -
  obtain k where k: "dseg H None (hfirst pH) xs k (Some h)" "dseg H k (Some h) (h # ys) l None"
    using d by (auto simp: dseg_append)
  obtain eh where h: "H h = Some eh" "he_prev eh = k" using k(2) by auto
  have klast: "k = (if xs = [] then None else Some (last xs))" using dseg_last [OF k(1)] .
  let ?H1 = "H(a \<mapsto> e\<lparr>he_next := Some h, he_prev := k\<rparr>)"
  show ?thesis
  proof (cases "xs = []")
    case True
    let ?H = "?H1(h \<mapsto> eh\<lparr>he_prev := Some a\<rparr>)"
    have "link_before H pH h a = Some (?H, pH\<lparr>hfirst := Some a\<rparr>)"
      using a h klast True by (simp add: link_before_def)
    moreover have "dseg ?H None (Some a) (a # h # ys) l None" using k(2) h a dist True klast by auto
    moreover have "payload ?H = payload H" using a h by (auto simp: payload_def fun_eq_iff)
    ultimately show ?thesis using True by (intro exI [of _ ?H] exI [of _ "Some a"] conjI exI [of _ l]) auto
  next
    case False
    let ?p = "last xs"
    have "set xs \<inter> set (h # ys) = {}" "a \<notin> set xs" using dist a by auto
    then have p: "?p \<in> set xs" "?p \<noteq> a" "?p \<noteq> h" "?p \<notin> set ys" using last_in_set [OF False] by auto
    obtain ep where ep: "H ?p = Some ep" using dseg_mem [OF k(1) p(1)] by auto
    let ?H2 = "?H1(?p \<mapsto> ep\<lparr>he_next := Some a\<rparr>)"
    let ?H3 = "?H2(h \<mapsto> eh\<lparr>he_prev := Some a\<rparr>)"
    have run: "link_before H pH h a = Some (?H3, pH)"
      using a h klast False p ep by (simp add: link_before_def)
    have x2: "dseg ?H2 None (hfirst pH) xs (Some ?p) (Some a)"
      by (rule dseg_set_next [of _ _ _ _ _ "Some h"]) (use k(1) klast False dist a p ep in auto)
    have x3: "dseg ?H3 None (hfirst pH) xs (Some ?p) (Some a)" using x2 dist by simp
    have "dseg ?H3 (Some a) (Some h) (h # ys) l None"
      using k(2) h dist a p by auto
    then have "dseg ?H3 None (hfirst pH) (xs @ a # h # ys) l None"
      using x3 a p klast False by (auto simp: dseg_append)
    moreover have "payload ?H3 = payload H" using a(2) ep h p a(1) by (auto simp: payload_def fun_eq_iff)
    ultimately show ?thesis using run p
      by (intro exI [of _ ?H3] exI [of _ "hfirst pH"] conjI exI [of _ l]) auto
  qed
qed

subsection \<open>Buckets\<close>

text \<open>
  \<open>buckets bk t L\<close>: the list is the concatenation of the blocks \<open>blk b\<close> in some order of the bucket numbers;
  bucket \<open>b\<close> of the table counts its block and points to its head, and holds the elements with hash \<open>b\<close>.
\<close>

definition block_of :: "(nat \<Rightarrow> nat list) \<Rightarrow> Hash_ht list \<Rightarrow> bool" where
  "block_of blk t \<longleftrightarrow>
     (\<forall>b<length t. ht_count (t ! b) = length (blk b) \<and> (blk b \<noteq> [] \<longrightarrow> ht_chain (t ! b) = Some (hd (blk b))))"

definition buckets :: "(nat \<Rightarrow> nat) \<Rightarrow> Hash_ht list \<Rightarrow> nat list \<Rightarrow> bool" where
  "buckets bk t L \<longleftrightarrow>
     (\<exists>blk order. distinct order \<and> L = concat (map blk order) \<and> (\<forall>b. blk b \<noteq> [] \<longrightarrow> b \<in> set order)
        \<and> block_of blk t \<and> (\<forall>b. \<forall>a\<in>set (blk b). bk a = b))"

lemma block_of_update:
  "block_of blk t \<Longrightarrow> b < length t \<Longrightarrow> ht_count e = length bs \<Longrightarrow> (bs \<noteq> [] \<Longrightarrow> ht_chain e = Some (hd bs)) \<Longrightarrow>
     block_of (blk(b := bs)) (t[b := e])"
  by (auto simp: block_of_def nth_list_update)

lemma concat_map_other: "b \<notin> set os \<Longrightarrow> concat (map (blk(b := bs)) os) = concat (map blk os)"
  by (induction os) auto

lemma concat_filter_empty: "blk b = [] \<Longrightarrow> concat (map blk (filter (\<lambda>x. x \<noteq> b) os)) = concat (map blk os)"
  by (induction os) auto

lemma bucketsI:
  "distinct order \<Longrightarrow> L = concat (map blk order) \<Longrightarrow> (\<And>b. blk b \<noteq> [] \<Longrightarrow> b \<in> set order) \<Longrightarrow>
     block_of blk t \<Longrightarrow> (\<And>b a. a \<in> set (blk b) \<Longrightarrow> bk a = b) \<Longrightarrow> buckets bk t L"
  unfolding buckets_def by blast

lemma buckets_empty: "buckets bk (replicate m \<lparr>ht_count = 0, ht_chain = None\<rparr>) []"
  by (rule bucketsI [of "[]" _ "\<lambda>_. []"]) (simp_all add: block_of_def)

text \<open>One bucket, and the list around it.\<close>

lemma buckets_split:
  assumes "buckets bk t L" "b < length t"
  obtains blk o1 o2 where "distinct (o1 @ b # o2)" "block_of blk t" "\<forall>b. \<forall>a\<in>set (blk b). bk a = b"
    "\<forall>c. blk c \<noteq> [] \<longrightarrow> c \<in> set (o1 @ b # o2)"
    "L = concat (map blk o1) @ blk b @ concat (map blk o2)"
proof -
  obtain blk order where o: "distinct order" "L = concat (map blk order)" "\<forall>b. blk b \<noteq> [] \<longrightarrow> b \<in> set order"
      "block_of blk t" "\<forall>b. \<forall>a\<in>set (blk b). bk a = b"
    using assms(1) unfolding buckets_def by blast
  show thesis
  proof (cases "b \<in> set order")
    case True
    then obtain o1 o2 where "order = o1 @ b # o2" by (meson split_list)
    then show thesis using o by (intro that [of o1 o2 blk]) auto
  next
    case False
    then have "blk b = []" using o by blast
    then show thesis using o False by (intro that [of "[]" order blk]) auto
  qed
qed

lemma buckets_find:
  assumes "buckets bk t L" "b < length t"
  obtains xs bs ys where "L = xs @ bs @ ys" "ht_count (t ! b) = length bs"
    "bs \<noteq> [] \<longrightarrow> ht_chain (t ! b) = Some (hd bs)" "\<forall>a\<in>set L. bk a = b \<longrightarrow> a \<in> set bs"
proof -
  obtain blk o1 o2 where o: "distinct (o1 @ b # o2)" "block_of blk t" "\<forall>b. \<forall>a\<in>set (blk b). bk a = b"
      "\<forall>c. blk c \<noteq> [] \<longrightarrow> c \<in> set (o1 @ b # o2)"
      "L = concat (map blk o1) @ blk b @ concat (map blk o2)"
    using buckets_split [OF assms] by blast
  have "a \<in> set (blk b)" if "a \<in> set L" "bk a = b" for a
    using that o(3) unfolding o(5) by fastforce
  then show thesis using that [OF o(5)] o(2) assms(2) by (simp add: block_of_def)
qed

lemma buckets_insert:
  assumes "buckets bk t L" "b < length t" "bk a = b"
  defines "t' \<equiv> t[b := \<lparr>ht_count = ht_count (t ! b) + 1, ht_chain = Some a\<rparr>]"
  shows "if ht_count (t ! b) = 0 then buckets bk t' (a # L)
    else \<exists>xs h ys. L = xs @ h # ys \<and> ht_chain (t ! b) = Some h \<and> buckets bk t' (xs @ a # h # ys)"
proof -
  obtain blk o1 o2 where o: "distinct (o1 @ b # o2)" "block_of blk t" "\<forall>b. \<forall>a\<in>set (blk b). bk a = b"
      "\<forall>c. blk c \<noteq> [] \<longrightarrow> c \<in> set (o1 @ b # o2)"
      "L = concat (map blk o1) @ blk b @ concat (map blk o2)"
    using buckets_split [OF assms(1,2)] by blast
  have e: "ht_count (t ! b) = length (blk b)" "blk b \<noteq> [] \<Longrightarrow> ht_chain (t ! b) = Some (hd (blk b))"
    using o(2) assms(2) by (simp_all add: block_of_def)
  have blk': "block_of (blk(b := a # blk b)) t'"
    unfolding t'_def using o(2) assms(2) e(1) by (intro block_of_update) simp_all
  have mem': "\<And>c x. x \<in> set ((blk(b := a # blk b)) c) \<Longrightarrow> bk x = c"
    using o(3) assms(3) by (auto split: if_splits)
  have other: "concat (map (blk(b := a # blk b)) o1) = concat (map blk o1)"
    "concat (map (blk(b := a # blk b)) o2) = concat (map blk o2)"
    using o(1) by (simp_all add: concat_map_other del: fun_upd_apply)
  show ?thesis
  proof (cases "blk b = []")
    case True
    have "buckets bk t' (a # L)"
    proof (rule bucketsI [OF _ _ _ blk' mem'])
      show "distinct (b # o1 @ o2)" using o(1) by auto
      show "a # L = concat (map (blk(b := a # blk b)) (b # o1 @ o2))"
        using True o(5) other by (simp del: fun_upd_apply) (simp add: fun_upd_apply)
      show "\<And>c. (blk(b := a # blk b)) c \<noteq> [] \<Longrightarrow> c \<in> set (b # o1 @ o2)" using o(4) by (auto split: if_splits)
    qed
    then show ?thesis using True e by simp
  next
    case False
    then obtain h bs where bs: "blk b = h # bs" by (cases "blk b") auto
    have "buckets bk t' (concat (map blk o1) @ a # h # bs @ concat (map blk o2))"
    proof (rule bucketsI [OF o(1) _ _ blk' mem'])
      show "concat (map blk o1) @ a # h # bs @ concat (map blk o2) = concat (map (blk(b := a # blk b)) (o1 @ b # o2))"
        using other bs by (simp del: fun_upd_apply) (simp add: fun_upd_apply)
      show "\<And>c. (blk(b := a # blk b)) c \<noteq> [] \<Longrightarrow> c \<in> set (o1 @ b # o2)" using o(4) by (auto split: if_splits)
    qed
    then show ?thesis using False bs e o(5)
      by (simp, intro exI [of _ "concat (map blk o1)"] exI [of _ "bs @ concat (map blk o2)"]) simp
  qed
qed

lemma append_Cons_distinct:
  assumes "xs @ a # ys = xs' @ a # ys'" "distinct (xs @ a # ys)"
  shows "xs = xs' \<and> ys = ys'"
proof -
  have "a \<notin> set xs" "a \<notin> set ys" using assms(2) by auto
  then show ?thesis using assms(1) by (metis append_Cons_eq_iff)
qed

lemma buckets_remove:
  assumes "buckets bk t (xs @ a # ys)" "bk a = b" "b < length t" "distinct (xs @ a # ys)"
  shows "0 < ht_count (t ! b) \<and> buckets bk
    (t[b := \<lparr>ht_count = ht_count (t ! b) - 1,
            ht_chain = (if ht_chain (t ! b) = Some a then (if ys = [] then None else Some (hd ys))
                        else ht_chain (t ! b))\<rparr>]) (xs @ ys)"
proof -
  define L where "L = xs @ a # ys"
  obtain blk o1 o2 where o: "distinct (o1 @ b # o2)" "block_of blk t" "\<forall>b. \<forall>a\<in>set (blk b). bk a = b"
      "\<forall>c. blk c \<noteq> [] \<longrightarrow> c \<in> set (o1 @ b # o2)" "L = concat (map blk o1) @ blk b @ concat (map blk o2)"
    using buckets_split [OF assms(1) [folded L_def] assms(3)] by blast
  let ?A = "concat (map blk o1)" and ?C = "concat (map blk o2)"
  have out: "a \<notin> set (concat (map blk os))" if "b \<notin> set os" for os
  proof
    assume "a \<in> set (concat (map blk os))"
    then obtain c where c: "c \<in> set os" "a \<in> set (blk c)" by auto
    then have "bk a = c" using o(3) by blast
    then show False using assms(2) that c by simp
  qed
  have "b \<notin> set o1" "b \<notin> set o2" using o(1) by simp_all
  then have "a \<notin> set ?A" "a \<notin> set ?C" using out by blast+
  moreover have "a \<in> set (?A @ blk b @ ?C)" unfolding o(5) [symmetric] L_def by simp
  ultimately have "a \<in> set (blk b)" by simp
  then obtain p q where pq: "blk b = p @ a # q" by (meson split_list)
  have "xs @ a # ys = (?A @ p) @ a # (q @ ?C)" using o(5) pq by (simp add: L_def)
  then have xy: "xs = ?A @ p" "ys = q @ ?C" using append_Cons_distinct [OF _ assms(4)] by auto
  have e: "ht_count (t ! b) = Suc (length (p @ q))" "ht_chain (t ! b) = Some (hd (p @ [a]))"
    using o(2) assms(3) pq by (cases p; simp add: block_of_def)+
  have ap: "a \<notin> set p" using assms(4) xy by auto
  let ?e = "\<lparr>ht_count = ht_count (t ! b) - 1,
            ht_chain = (if ht_chain (t ! b) = Some a then (if ys = [] then None else Some (hd ys))
                        else ht_chain (t ! b))\<rparr>"
  have hd: "ht_chain ?e = Some (hd (p @ q))" if "p @ q \<noteq> []"
    using that e(2) xy(2) ap by (cases p) auto
  have "buckets bk (t[b := ?e]) (xs @ ys)"
  proof (rule bucketsI [OF o(1)])
    show "xs @ ys = concat (map (blk(b := p @ q)) (o1 @ b # o2))"
      using xy o(1) by (simp add: concat_map_other del: fun_upd_apply) (simp add: fun_upd_apply)
    show "\<And>c. (blk(b := p @ q)) c \<noteq> [] \<Longrightarrow> c \<in> set (o1 @ b # o2)" using o(4) by (auto split: if_splits)
    show "block_of (blk(b := p @ q)) (t[b := ?e])"
      using o(2) assms(3) e(1) hd by (intro block_of_update) simp_all
    fix c x assume "x \<in> set ((blk(b := p @ q)) c)"
    then have "x \<in> set (blk c)" using pq by (cases "c = b") simp_all
    then show "bk x = c" using o(3) by blast
  qed
  then show ?thesis using e(1) by simp
qed

subsection \<open>The structure as a whole\<close>

definition key_of :: "heap \<Rightarrow> nat \<Rightarrow> cstr" where
  "key_of H a = fst (the (payload H a))"

definition data_of :: "heap \<Rightarrow> nat \<Rightarrow> nat" where
  "data_of H a = snd (the (payload H a))"

lemma key_data [simp]: "H a = Some e \<Longrightarrow> key_of H a = he_key e" "H a = Some e \<Longrightarrow> data_of H a = he_data e"
  by (simp_all add: key_of_def data_of_def payload_def)

definition bucket_no :: "heap \<Rightarrow> nat \<Rightarrow> nat \<Rightarrow> nat" where
  "bucket_no H n a = strHash (key_of H a) mod n"

lemma payload_same:
  "payload H' = payload H \<Longrightarrow> key_of H' = key_of H" "payload H' = payload H \<Longrightarrow> data_of H' = data_of H"
  "payload H' = payload H \<Longrightarrow> bucket_no H' = bucket_no H"
  by (simp_all add: key_of_def data_of_def bucket_no_def fun_eq_iff)

definition table_ok :: "heap \<Rightarrow> Hash \<Rightarrow> nat list \<Rightarrow> bool" where
  "table_ok H pH L \<longleftrightarrow>
     (case ht pH of None \<Rightarrow> True
      | Some t \<Rightarrow> t \<noteq> [] \<and> htsize pH = length t \<and> buckets (bucket_no H (length t)) t L)"

definition struct_ok :: "heap \<Rightarrow> Hash \<Rightarrow> nat list \<Rightarrow> bool" where
  "struct_ok H pH L \<longleftrightarrow> distinct L \<and> (\<exists>l. dseg H None (hfirst pH) L l None) \<and> table_ok H pH L"

lemma insertElement_correct:
  assumes ok: "struct_ok H pH L" and a: "a \<notin> set L" "H a = Some e"
    and b: "pEntry = (if ht pH = None then None else Some (strHash (he_key e) mod htsize pH))"
  shows "\<exists>H' pH' L'. insertElement H pH pEntry a = Some (H', pH') \<and> struct_ok H' pH' L'
    \<and> set L' = insert a (set L) \<and> payload H' = payload H
    \<and> (\<forall>x. x \<noteq> a \<longrightarrow> x \<notin> set L \<longrightarrow> H' x = H x)
    \<and> hcount pH' = hcount pH \<and> htsize pH' = htsize pH \<and> (ht pH' = None \<longleftrightarrow> ht pH = None)"
proof (cases "ht pH")
  case None
  obtain l where d: "distinct L" "dseg H None (hfirst pH) L l None"
    using ok by (auto simp: struct_ok_def)
  obtain H' l' where "link_front H pH a = Some (H', pH\<lparr>hfirst := Some a\<rparr>)" "dseg H' None (Some a) (a # L) l' None"
      "payload H' = payload H" "\<forall>x. x \<noteq> a \<longrightarrow> x \<notin> set L \<longrightarrow> H' x = H x"
    using link_front_correct [OF d(2) a d(1)] by auto
  then show ?thesis using None a b d(1)
    by (intro exI [of _ H'] exI [of _ "pH\<lparr>hfirst := Some a\<rparr>"] exI [of _ "a # L"])
      (auto simp: insertElement_def struct_ok_def table_ok_def)
next
  case (Some t)
  obtain l where d: "distinct L" "dseg H None (hfirst pH) L l None"
    using ok by (auto simp: struct_ok_def)
  have t: "t \<noteq> []" "htsize pH = length t" "buckets (bucket_no H (length t)) t L"
    using ok Some by (auto simp: struct_ok_def table_ok_def)
  define n where "n = strHash (he_key e) mod length t"
  have n: "n < length t" "bucket_no H (length t) a = n" "pEntry = Some n"
    using t a b Some by (simp_all add: n_def bucket_no_def)
  define t' where "t' = t[n := \<lparr>ht_count = ht_count (t ! n) + 1, ht_chain = Some a\<rparr>]"
  define pH1 where "pH1 = pH\<lparr>ht := Some t'\<rparr>"
  have pH1: "hfirst pH1 = hfirst pH" "hcount pH1 = hcount pH" "htsize pH1 = htsize pH" "ht pH1 = Some t'"
    by (simp_all add: pH1_def)
  have len: "length t' = length t" by (simp add: t'_def)
  note ins = buckets_insert [OF t(3) n(1,2), folded t'_def]
  have fin: "struct_ok H' (pH1\<lparr>hfirst := f'\<rparr>) L'"
    if "dseg H' None f' L' l' None" "distinct L'" "payload H' = payload H"
       "buckets (bucket_no H (length t)) t' L'" for H' f' L' l'
    using that t payload_same [OF that(3)] len unfolding struct_ok_def table_ok_def pH1_def by auto
  show ?thesis
  proof (cases "ht_count (t ! n) = 0")
    case True
    obtain H' l' where r: "link_front H pH1 a = Some (H', pH1\<lparr>hfirst := Some a\<rparr>)" "dseg H' None (Some a) (a # L) l' None"
        "payload H' = payload H" "\<forall>x. x \<noteq> a \<longrightarrow> x \<notin> set L \<longrightarrow> H' x = H x"
      using link_front_correct [of H pH1 L l a e] d a pH1 by auto
    have run: "insertElement H pH pEntry a = Some (H', pH1\<lparr>hfirst := Some a\<rparr>)"
      using r(1) True n Some by (simp add: insertElement_def t'_def pH1_def)
    have "struct_ok H' (pH1\<lparr>hfirst := Some a\<rparr>) (a # L)"
      using fin [OF r(2) _ r(3)] ins True d a by simp
    then show ?thesis unfolding run using r pH1 Some
      by (intro exI [of _ H'] exI [of _ "pH1\<lparr>hfirst := Some a\<rparr>"] exI [of _ "a # L"]) simp
  next
    case False
    then obtain xs h ys where x: "L = xs @ h # ys" "ht_chain (t ! n) = Some h"
        "buckets (bucket_no H (length t)) t' (xs @ a # h # ys)"
      using ins by auto
    obtain H' f' l' where r: "link_before H pH1 h a = Some (H', pH1\<lparr>hfirst := f'\<rparr>)"
        "dseg H' None f' (xs @ a # h # ys) l' None"
        "payload H' = payload H" "\<forall>x. x \<noteq> a \<longrightarrow> x \<notin> set L \<longrightarrow> H' x = H x"
      using link_before_correct [of H pH1 xs h ys l a e] d a pH1 x(1) by auto
    have run: "insertElement H pH pEntry a = Some (H', pH1\<lparr>hfirst := f'\<rparr>)"
      using r(1) False n Some x by (simp add: insertElement_def t'_def pH1_def)
    have "struct_ok H' (pH1\<lparr>hfirst := f'\<rparr>) (xs @ a # h # ys)"
      using fin [OF r(2) _ r(3) x(3)] d a x(1) by auto
    then show ?thesis unfolding run using r pH1 Some x(1)
      by (intro exI [of _ H'] exI [of _ "pH1\<lparr>hfirst := f'\<rparr>"] exI [of _ "xs @ a # h # ys"]) auto
  qed
qed

subsection \<open>Resizing\<close>

fun sll :: "heap \<Rightarrow> nat option \<Rightarrow> nat list \<Rightarrow> bool" where
  "sll H f [] \<longleftrightarrow> f = None"
| "sll H f (a # as) \<longleftrightarrow> f = Some a \<and> (\<exists>e. H a = Some e \<and> sll H (he_next e) as)"

lemma dseg_sll: "dseg H pv f as l None \<Longrightarrow> sll H f as"
  by (induction as arbitrary: pv f) auto

lemma sll_frame: "\<forall>a\<in>set as. H' a = H a \<Longrightarrow> sll H' f as = sll H f as"
  by (induction as arbitrary: f) auto

lemma rehash_loop_correct:
  assumes "sll H f rem" "struct_ok H pH L" "ht pH \<noteq> None" "distinct rem" "set rem \<inter> set L = {}"
    "length rem \<le> fuel"
  shows "\<exists>H' pH' L'. rehash_loop fuel H pH f = Some (H', pH') \<and> struct_ok H' pH' L'
    \<and> set L' = set L \<union> set rem \<and> payload H' = payload H
    \<and> (\<forall>x. x \<notin> set rem \<union> set L \<longrightarrow> H' x = H x)
    \<and> hcount pH' = hcount pH \<and> htsize pH' = htsize pH \<and> ht pH' \<noteq> None"
  using assms
proof (induction rem arbitrary: H f pH L fuel)
  case Nil
  then show ?case by (intro exI [of _ H] exI [of _ pH] exI [of _ L]) simp
next
  case (Cons a rem)
  obtain e where e: "f = Some a" "H a = Some e" "sll H (he_next e) rem" using Cons.prems(1) by auto
  obtain fuel' where fuel: "fuel = Suc fuel'" "length rem \<le> fuel'" using Cons.prems(6) by (cases fuel) auto
  have aL: "a \<notin> set L" and ra: "a \<notin> set rem" using Cons.prems by auto
  obtain H1 pH1 L1 where i: "insertElement H pH (Some (strHash (he_key e) mod htsize pH)) a = Some (H1, pH1)"
      "struct_ok H1 pH1 L1" "set L1 = insert a (set L)" "payload H1 = payload H"
      "\<forall>x. x \<noteq> a \<longrightarrow> x \<notin> set L \<longrightarrow> H1 x = H x"
      "hcount pH1 = hcount pH" "htsize pH1 = htsize pH" "ht pH1 \<noteq> None"
    using insertElement_correct [OF Cons.prems(2) aL e(2) refl] Cons.prems(3) by auto
  have fr: "\<forall>x\<in>set rem. H1 x = H x" using i(5) Cons.prems(5) ra by auto
  have "sll H1 (he_next e) rem" using sll_frame [OF fr] e(3) by simp
  then obtain H' pH' L' where r: "rehash_loop fuel' H1 pH1 (he_next e) = Some (H', pH')" "struct_ok H' pH' L'"
      "set L' = set L1 \<union> set rem" "payload H' = payload H1" "\<forall>x. x \<notin> set rem \<union> set L1 \<longrightarrow> H' x = H1 x"
      "hcount pH' = hcount pH1" "htsize pH' = htsize pH1" "ht pH' \<noteq> None"
    using Cons.IH [OF _ i(2,8) _ _ fuel(2), of "he_next e"] Cons.prems(4,5) i(3) ra by auto
  have "rehash_loop fuel H pH f = Some (H', pH')" using e i(1) r(1) fuel(1) by simp
  moreover have "\<forall>x. x \<notin> set (a # rem) \<union> set L \<longrightarrow> H' x = H x" using r(5) i(3,5) by simp
  ultimately show ?case using r i by (intro exI [of _ H'] exI [of _ pH'] exI [of _ L']) auto
qed

lemma rehash_correct:
  assumes "struct_ok H pH L" "env_ok env" "length L \<le> hcount pH" "0 < n"
  shows "\<exists>r H' pH' L'. rehash env H pH n = Some (r, H', pH') \<and> struct_ok H' pH' L'
    \<and> set L' = set L \<and> payload H' = payload H \<and> (\<forall>x. x \<notin> set L \<longrightarrow> H' x = H x)
    \<and> hcount pH' = hcount pH \<and> (if r then ht pH' \<noteq> None else H' = H \<and> pH' = pH)"
proof -
  define n1 where "n1 = (if n * sizeof_ht > SQLITE_MALLOC_SOFT_LIMIT then SQLITE_MALLOC_SOFT_LIMIT div sizeof_ht else n)"
  have n1: "0 < n1" using assms(4) by (simp add: n1_def SQLITE_MALLOC_SOFT_LIMIT_def sizeof_ht_def)
  show ?thesis
  proof (cases "n1 = htsize pH \<or> new_table env n1 = None")
    case True
    then have "rehash env H pH n = Some (False, H, pH)"
      by (auto simp: rehash_def n1_def [symmetric] Let_def)
    then show ?thesis using assms(1) by auto
  next
    case False
    then obtain m where m: "new_table env n1 = Some m" by auto
    then have "0 < m" using assms(2) n1 by (auto simp: env_ok_def intro: less_le_trans)
    define pH0 where "pH0 = pH\<lparr>ht := Some (replicate m \<lparr>ht_count = 0, ht_chain = None\<rparr>), htsize := m, hfirst := None\<rparr>"
    have p0: "struct_ok H pH0 []" "ht pH0 \<noteq> None" "hcount pH0 = hcount pH"
      using \<open>0 < m\<close> buckets_empty by (simp_all add: struct_ok_def table_ok_def pH0_def)
    obtain l where d: "distinct L" "dseg H None (hfirst pH) L l None"
      using assms(1) by (auto simp: struct_ok_def)
    obtain H' pH' L' where r: "rehash_loop (hcount pH) H pH0 (hfirst pH) = Some (H', pH')" "struct_ok H' pH' L'"
        "set L' = set L" "payload H' = payload H" "\<forall>x. x \<notin> set L \<longrightarrow> H' x = H x"
        "hcount pH' = hcount pH" "ht pH' \<noteq> None"
      using rehash_loop_correct [OF dseg_sll [OF d(2)] p0(1,2) d(1) _ assms(3)] p0(3) by auto
    have "rehash env H pH n = Some (True, H', pH')"
      using False m r(1) by (simp add: rehash_def n1_def [symmetric] Let_def pH0_def)
    then show ?thesis using r by auto
  qed
qed

subsection \<open>Searching\<close>

lemma strHash_fold: "fold_case a = fold_case b \<Longrightarrow> strHash a = strHash b"
proof -
  have "strHash_loop a h = strHash_loop b h" if "fold_case a = fold_case b" for h
    using that
  proof (induction a arbitrary: b h)
    case Nil
    then show ?case by (cases b) auto
  next
    case (Cons c a)
    obtain x b' where b: "b = x # b'" "sqlite3UpperToLower x = sqlite3UpperToLower c" "fold_case a = fold_case b'"
      using Cons.prems by (cases b) auto
    show ?case using Cons.IH [OF b(3)] b(1,2) by simp
  qed
  then show "fold_case a = fold_case b \<Longrightarrow> ?thesis" by (simp add: strHash_def)
qed

lemma find_loop_correct:
  assumes "dseg H pv f (bs @ ys) l n"
  shows "find_loop H k f (length bs) = Some (List.find (\<lambda>a. sqlite3StrICmp (key_of H a) k = 0) bs)"
  using assms
proof (induction bs arbitrary: pv f)
  case Nil
  then show ?case by simp
next
  case (Cons a bs)
  then obtain e where "f = Some a" "H a = Some e" "dseg H (Some a) (he_next e) (bs @ ys) l n" by auto
  then show ?case using Cons.IH by simp
qed

text \<open>The invariant of a table between operations: the structure, the counter, and distinct keys.\<close>

definition hash_ok :: "heap \<Rightarrow> Hash \<Rightarrow> nat list \<Rightarrow> bool" where
  "hash_ok H pH L \<longleftrightarrow> struct_ok H pH L \<and> hcount pH = length L
     \<and> (\<forall>a\<in>set L. cstr_ok (key_of H a) \<and> data_of H a \<noteq> 0)
     \<and> inj_on (\<lambda>a. fold_case (key_of H a)) (set L)"

lemma find_mem: "List.find P xs = Some x \<Longrightarrow> x \<in> set xs \<and> P x"
  by (induction xs) (auto split: if_splits)

lemma findElement_correct:
  assumes ok: "hash_ok H pH L" and k: "cstr_ok k"
  shows "\<exists>r h. findElementWithHash H pH k = Some (r, h)
    \<and> (ht pH \<noteq> None \<longrightarrow> h = strHash k mod htsize pH)
    \<and> (case r of None \<Rightarrow> \<forall>a\<in>set L. fold_case (key_of H a) \<noteq> fold_case k
       | Some a \<Rightarrow> a \<in> set L \<and> fold_case (key_of H a) = fold_case k)"
proof -
  obtain l where d: "dseg H None (hfirst pH) L l None" using ok by (auto simp: hash_ok_def struct_ok_def)
  have cmp: "sqlite3StrICmp (key_of H a) k = 0 \<longleftrightarrow> fold_case (key_of H a) = fold_case k" if "a \<in> set L" for a
    using that ok k by (intro StrICmp_eq_0) (auto simp: hash_ok_def)
  have found: "case List.find (\<lambda>a. sqlite3StrICmp (key_of H a) k = 0) bs of
      None \<Rightarrow> \<forall>a\<in>set bs. fold_case (key_of H a) \<noteq> fold_case k
    | Some a \<Rightarrow> a \<in> set L \<and> fold_case (key_of H a) = fold_case k" if "set bs \<subseteq> set L" for bs
    using that cmp by (auto simp: find_None_iff split: option.split dest!: find_mem)
  show ?thesis
  proof (cases "ht pH")
    case None
    have "find_loop H k (hfirst pH) (length L) = Some (List.find (\<lambda>a. sqlite3StrICmp (key_of H a) k = 0) L)"
      using find_loop_correct [of H None "hfirst pH" L "[]" l None k] d by simp
    then show ?thesis using None ok found [of L] by (simp add: findElementWithHash_def hash_ok_def)
  next
    case (Some t)
    have t: "t \<noteq> []" "htsize pH = length t" "buckets (bucket_no H (length t)) t L"
      using ok Some by (auto simp: hash_ok_def struct_ok_def table_ok_def)
    define h where "h = strHash k mod length t"
    have h: "h < length t" using t by (simp add: h_def)
    obtain xs bs ys where b: "L = xs @ bs @ ys" "ht_count (t ! h) = length bs"
        "bs \<noteq> [] \<longrightarrow> ht_chain (t ! h) = Some (hd bs)" "\<forall>a\<in>set L. bucket_no H (length t) a = h \<longrightarrow> a \<in> set bs"
      by (rule buckets_find [OF t(3) h])
    let ?r = "List.find (\<lambda>a. sqlite3StrICmp (key_of H a) k = 0) bs"
    have fl: "find_loop H k (ht_chain (t ! h)) (ht_count (t ! h)) = Some ?r"
    proof (cases "bs = []")
      case False
      obtain k' m where s: "dseg H k' m (bs @ ys) l None" using d b(1) by (auto simp: dseg_append)
      then have "m = ht_chain (t ! h)" using dseg_first [OF s] b(3) False by simp
      then show ?thesis using find_loop_correct [OF s] b(2) by simp
    qed (simp add: b(2))
    have all: "a \<in> set bs" if "a \<in> set L" "fold_case (key_of H a) = fold_case k" for a
      using that b(4) strHash_fold [OF that(2)] by (simp add: bucket_no_def h_def)
    have "findElementWithHash H pH k = Some (?r, h)"
      using Some t h fl by (simp add: findElementWithHash_def h_def)
    moreover have "case ?r of None \<Rightarrow> \<forall>a\<in>set L. fold_case (key_of H a) \<noteq> fold_case k
       | Some a \<Rightarrow> a \<in> set L \<and> fold_case (key_of H a) = fold_case k"
    proof -
      have "set bs \<subseteq> set L" using b(1) by auto
      from found [OF this] all show ?thesis by (cases ?r) auto
    qed
    ultimately show ?thesis using t by (simp add: h_def)
  qed
qed

subsection \<open>Removing\<close>

text \<open>Unlinking an element from the middle of the list.\<close>

definition unlinked :: "heap \<Rightarrow> HashElem \<Rightarrow> heap" where
  "unlinked H e =
     (let H1 = (case he_prev e of Some p \<Rightarrow> H(p \<mapsto> (the (H p))\<lparr>he_next := he_next e\<rparr>) | None \<Rightarrow> H)
      in case he_next e of Some q \<Rightarrow> H1(q \<mapsto> (the (H1 q))\<lparr>he_prev := he_prev e\<rparr>) | None \<Rightarrow> H1)"

lemma unlink_correct:
  assumes d: "dseg H None f (xs @ a # ys) l None" and dist: "distinct (xs @ a # ys)" and e: "H a = Some e"
  shows "(\<exists>l'. dseg (unlinked H e) None (if he_prev e = None then he_next e else f) (xs @ ys) l' None)
    \<and> payload (unlinked H e) = payload H
    \<and> he_prev e = (if xs = [] then None else Some (last xs)) \<and> he_next e = (if ys = [] then None else Some (hd ys))
    \<and> (\<forall>x. x \<notin> set (xs @ ys) \<longrightarrow> unlinked H e x = H x)
    \<and> (\<forall>x. he_prev e = Some x \<or> he_next e = Some x \<longrightarrow> H x \<noteq> None)"
proof -
  obtain k where k: "dseg H None f xs k (Some a)" "he_prev e = k" "dseg H (Some a) (he_next e) ys l None"
    using d e by (auto simp: dseg_append)
  have pv: "he_prev e = (if xs = [] then None else Some (last xs))" using dseg_last [OF k(1)] k(2) by simp
  have nx: "he_next e = (if ys = [] then None else Some (hd ys))" using dseg_first [OF k(3)] by simp
  let ?f = "if he_prev e = None then he_next e else f"
  define H1 where "H1 = (case he_prev e of Some p \<Rightarrow> H(p \<mapsto> (the (H p))\<lparr>he_next := he_next e\<rparr>) | None \<Rightarrow> H)"
  have x1: "dseg H1 None ?f xs k (he_next e) \<and> payload H1 = payload H \<and> (\<forall>x. x \<notin> set xs \<longrightarrow> H1 x = H x)"
  proof (cases "xs = []")
    case True
    then show ?thesis using k pv by (simp add: H1_def)
  next
    case False
    obtain ep where ep: "H (last xs) = Some ep" using dseg_mem [OF k(1) last_in_set [OF False]] by auto
    have "dseg (H(last xs \<mapsto> ep\<lparr>he_next := he_next e\<rparr>)) None f xs (Some (last xs)) (he_next e)"
      by (rule dseg_set_next [of _ _ _ _ _ "Some a"]) (use k(1,2) pv False dist ep in auto)
    then show ?thesis using ep pv k(2) False by (simp add: H1_def)
  qed
  have fr: "\<forall>x\<in>set ys. H1 x = H x" using x1 dist by auto
  have y1: "dseg H1 (Some a) (he_next e) ys l None" using k(3) dseg_frame [OF fr] by simp
  have un: "unlinked H e = (case he_next e of Some q \<Rightarrow> H1(q \<mapsto> (the (H1 q))\<lparr>he_prev := he_prev e\<rparr>) | None \<Rightarrow> H1)"
    unfolding unlinked_def H1_def Let_def by (rule refl)
  have "\<exists>l'. dseg (unlinked H e) None ?f (xs @ ys) l' None \<and> payload (unlinked H e) = payload H
      \<and> (\<forall>x. x \<notin> set (xs @ ys) \<longrightarrow> unlinked H e x = H x) \<and> (ys \<noteq> [] \<longrightarrow> H (hd ys) \<noteq> None)"
  proof (cases ys)
    case Nil
    then show ?thesis using x1 nx un by auto
  next
    case (Cons q qs)
    then obtain eq where q: "H1 q = Some eq" using y1 by auto
    have qx: "q \<notin> set xs" "q \<notin> set qs" using dist Cons by auto
    have u: "unlinked H e = H1(q \<mapsto> eq\<lparr>he_prev := k\<rparr>)" using un nx Cons q k(2) by simp
    have "dseg (H1(q \<mapsto> eq\<lparr>he_prev := k\<rparr>)) k (Some q) (q # qs) l None"
      by (rule dseg_set_prev [of _ "Some a"]) (use y1 Cons nx q qx in auto)
    moreover have "dseg (H1(q \<mapsto> eq\<lparr>he_prev := k\<rparr>)) None ?f xs k (Some q)"
      using x1 nx Cons qx by simp
    ultimately have "dseg (unlinked H e) None ?f (xs @ ys) l None"
      unfolding u Cons dseg_append by blast
    moreover have "payload (unlinked H e) = payload H" using u x1 q by simp
    moreover have "H q = Some eq" using x1 q qx by metis
    ultimately show ?thesis using u x1 Cons by auto
  qed
  moreover have "H (last xs) \<noteq> None" if "xs \<noteq> []" using dseg_mem [OF k(1) last_in_set [OF that]] by auto
  ultimately show ?thesis using pv nx by (auto split: if_splits)
qed

lemma HashClear_loop_correct:
  "sll H f as \<Longrightarrow> distinct as \<Longrightarrow> length as \<le> fuel \<Longrightarrow>
     HashClear_loop fuel H f = Some (\<lambda>x. if x \<in> set as then None else H x)"
proof (induction as arbitrary: H f fuel)
  case Nil
  then show ?case by simp
next
  case (Cons a as)
  obtain e where e: "f = Some a" "H a = Some e" "sll H (he_next e) as" using Cons.prems(1) by auto
  obtain fuel' where fuel: "fuel = Suc fuel'" "length as \<le> fuel'" using Cons.prems(3) by (cases fuel) auto
  have "sll (H(a := None)) (he_next e) as"
    using sll_frame [of as "H(a := None)" H] e(3) Cons.prems(2) by auto
  then have "HashClear_loop fuel' (H(a := None)) (he_next e) = Some (\<lambda>x. if x \<in> set as then None else (H(a := None)) x)"
    using Cons.IH fuel(2) Cons.prems(2) by simp
  then show ?case using e fuel by (auto simp: fun_eq_iff)
qed

lemma buckets_cong:
  assumes "buckets bk t L" "\<forall>x\<in>set L. bk' x = bk x"
  shows "buckets bk' t L"
proof -
  obtain blk order where o: "distinct order" "L = concat (map blk order)" "\<forall>b. blk b \<noteq> [] \<longrightarrow> b \<in> set order"
      "block_of blk t" "\<forall>b. \<forall>a\<in>set (blk b). bk a = b"
    using assms(1) unfolding buckets_def by blast
  have "bk' a = b" if "a \<in> set (blk b)" for a b
  proof -
    have "b \<in> set order" using that o(3) by (metis empty_iff empty_set)
    then have "a \<in> set L" using o(2) that by auto
    then show ?thesis using assms(2) o(5) that by simp
  qed
  then show ?thesis using bucketsI [OF o(1,2) _ o(4)] o(3) by blast
qed

lemma table_ok_frame:
  assumes "table_ok H pH L" "\<forall>x\<in>set L. fold_case (key_of H' x) = fold_case (key_of H x)"
  shows "table_ok H' pH L"
proof -
  have "\<forall>x\<in>set L. bucket_no H' n x = bucket_no H n x" for n
    using assms(2) strHash_fold by (metis bucket_no_def)
  then show ?thesis using assms(1) unfolding table_ok_def by (auto split: option.splits intro: buckets_cong)
qed

lemma remove_correct:
  assumes ok: "hash_ok H pH L" and a: "a \<in> set L" and h: "ht pH \<noteq> None \<longrightarrow> h = strHash (key_of H a) mod htsize pH"
  shows "\<exists>H' pH' L'. removeElementGivenHash H pH a h = Some (H', pH') \<and> hash_ok H' pH' L'
    \<and> set L' = set L - {a} \<and> (\<forall>x. x \<noteq> a \<longrightarrow> payload H' x = payload H x)"
proof -
  obtain l where st: "distinct L" "dseg H None (hfirst pH) L l None" "table_ok H pH L" "hcount pH = length L"
    using ok by (auto simp: hash_ok_def struct_ok_def)
  obtain xs ys where L: "L = xs @ a # ys" using a by (meson split_list)
  obtain e where e: "H a = Some e" using dseg_mem [OF st(2) a] by auto
  note un = unlink_correct [OF st(2) [unfolded L] st(1) [unfolded L] e]
  obtain l' where d': "dseg (unlinked H e) None (if he_prev e = None then he_next e else hfirst pH) (xs @ ys) l' None"
    using un by blast
  have pay: "payload (unlinked H e) = payload H" using un by blast
  have axy: "a \<notin> set (xs @ ys)" "distinct (xs @ ys)" using st(1) L by auto
  define H3 where "H3 = (unlinked H e)(a := None)"
  have d3: "dseg H3 None (if he_prev e = None then he_next e else hfirst pH) (xs @ ys) l' None"
    using d' axy by (simp add: H3_def)
  have pay3: "payload H3 x = payload H x" if "x \<noteq> a" for x
    using that pay by (simp add: H3_def payload_def fun_eq_iff)
  define pH1 where "pH1 = (if he_prev e = None then pH\<lparr>hfirst := he_next e\<rparr> else pH)"
  have p1: "hfirst pH1 = (if he_prev e = None then he_next e else hfirst pH)" "ht pH1 = ht pH"
      "htsize pH1 = htsize pH" "hcount pH1 = hcount pH"
    by (simp_all add: pH1_def)
  define pH2 where "pH2 = (case ht pH of None \<Rightarrow> pH1 | Some t \<Rightarrow>
      pH1\<lparr>ht := Some (t[h := \<lparr>ht_count = ht_count (t ! h) - 1,
        ht_chain = (if ht_chain (t ! h) = Some a then he_next e else ht_chain (t ! h))\<rparr>])\<rparr>)"
  have nx: "he_next e = (if ys = [] then None else Some (hd ys))" using un by blast
  have tab: "table_ok H pH2 (xs @ ys) \<and> (\<forall>t. ht pH = Some t \<longrightarrow> h < length t \<and> 0 < ht_count (t ! h))"
  proof (cases "ht pH")
    case None
    then show ?thesis by (simp add: table_ok_def pH2_def p1)
  next
    case (Some t)
    have t: "t \<noteq> []" "htsize pH = length t" "buckets (bucket_no H (length t)) t (xs @ a # ys)"
      using st(3) Some L by (simp_all add: table_ok_def)
    have hb: "bucket_no H (length t) a = h" "h < length t" using h Some t by (simp_all add: bucket_no_def)
    have di: "distinct (xs @ a # ys)" using st(1) L by simp
    show ?thesis using buckets_remove [OF t(3) hb di, folded nx] Some t hb
      by (simp add: table_ok_def pH2_def p1 split del: if_split)
  qed
  have run: "removeElementGivenHash H pH a h =
      (let pH3 = pH2\<lparr>hcount := hcount pH2 - 1\<rparr> in if hcount pH3 = 0 then sqlite3HashClear H3 pH3 else Some (H3, pH3))"
  proof -
    have "(case he_prev e of
               Some p \<Rightarrow> map_option (\<lambda>H1. (H1, pH)) (upd H p (\<lambda>n. n\<lparr>he_next := he_next e\<rparr>))
             | None \<Rightarrow> Some (H, pH\<lparr>hfirst := he_next e\<rparr>)) =
          Some (case he_prev e of Some p \<Rightarrow> H(p \<mapsto> (the (H p))\<lparr>he_next := he_next e\<rparr>) | None \<Rightarrow> H, pH1)"
    proof (cases "he_prev e")
      case (Some p)
      then have "H p \<noteq> None" using un by blast
      then show ?thesis using Some by (auto simp: pH1_def upd_def)
    qed (simp add: pH1_def)
    moreover have "(case he_next e of Some q \<Rightarrow> upd G q (\<lambda>n. n\<lparr>he_prev := he_prev e\<rparr>) | None \<Rightarrow> Some G) = Some (unlinked H e)"
      if "G = (case he_prev e of Some p \<Rightarrow> H(p \<mapsto> (the (H p))\<lparr>he_next := he_next e\<rparr>) | None \<Rightarrow> H)" for G
    proof -
      have "H q \<noteq> None" if "he_next e = Some q" for q using that un by blast
      then have "G q \<noteq> None" if "he_next e = Some q" for q
        using that \<open>G = _\<close> by (auto split: option.splits)
      then show ?thesis using that by (auto simp: unlinked_def upd_def Let_def split: option.split)
    qed
    moreover have "(case ht pH1 of
                    None \<Rightarrow> Some pH1
                  | Some t \<Rightarrow>
                      if h < length t \<and> ht_count (t ! h) > 0 then
                        Some (pH1\<lparr>ht := Some (t[h :=
                          \<lparr>ht_count = ht_count (t ! h) - 1,
                           ht_chain = (if ht_chain (t ! h) = Some a then he_next e else ht_chain (t ! h))\<rparr>])\<rparr>)
                      else None) = Some pH2"
      using tab by (auto simp: p1 pH2_def split: option.split)
    ultimately show ?thesis by (simp add: removeElementGivenHash_def e H3_def Let_def)
  qed
  have p2: "hfirst pH2 = hfirst pH1" "hcount pH2 = hcount pH"
    by (simp_all add: pH2_def p1 split: option.split)
  have keys: "\<forall>x\<in>set (xs @ ys). key_of H3 x = key_of H x \<and> data_of H3 x = data_of H x"
  proof
    fix x assume "x \<in> set (xs @ ys)"
    then have "x \<noteq> a" using axy by blast
    then show "key_of H3 x = key_of H x \<and> data_of H3 x = data_of H x"
      using pay3 [of x] by (simp add: key_of_def data_of_def)
  qed
  have sL: "set (xs @ ys) = set L - {a}" using axy L by auto
  have base: "(\<forall>x\<in>set (xs @ ys). cstr_ok (key_of H3 x) \<and> data_of H3 x \<noteq> 0)
      \<and> inj_on (\<lambda>x. fold_case (key_of H3 x)) (set (xs @ ys))"
  proof -
    have "inj_on (\<lambda>x. fold_case (key_of H x)) (set (xs @ ys))"
      using ok sL by (auto simp: hash_ok_def intro: inj_on_subset)
    then have "inj_on (\<lambda>x. fold_case (key_of H3 x)) (set (xs @ ys))" using keys by (simp add: inj_on_def)
    moreover have "\<forall>x\<in>set (xs @ ys). cstr_ok (key_of H x) \<and> data_of H x \<noteq> 0" using ok sL by (auto simp: hash_ok_def)
    ultimately show ?thesis using keys by simp
  qed
  show ?thesis
  proof (cases "xs @ ys = []")
    case True
    have "removeElementGivenHash H pH a h = Some (H3, sqlite3HashInit)"
      using True run p2 st(4) L p1 dseg_first [OF d3] by (simp add: sqlite3HashClear_def sqlite3HashInit_def)
    moreover have "hash_ok H3 sqlite3HashInit []"
      by (simp add: hash_ok_def struct_ok_def table_ok_def sqlite3HashInit_def)
    ultimately show ?thesis using True sL pay3 by (intro exI [of _ H3] exI [of _ sqlite3HashInit] exI [of _ "[]"]) auto
  next
    case False
    define pH3 where "pH3 = pH2\<lparr>hcount := hcount pH2 - 1\<rparr>"
    have "hcount pH3 = length (xs @ ys)" using p2 st(4) L by (simp add: pH3_def)
    moreover have "table_ok H3 pH3 (xs @ ys)"
    proof -
      have "table_ok H3 pH2 (xs @ ys)" using table_ok_frame [of H pH2 "xs @ ys" H3] tab keys by simp
      then show ?thesis by (simp add: table_ok_def pH3_def split: option.splits)
    qed
    moreover have "dseg H3 None (hfirst pH3) (xs @ ys) l' None" using d3 p2 p1 by (simp add: pH3_def)
    ultimately have "hash_ok H3 pH3 (xs @ ys)" using base axy unfolding hash_ok_def struct_ok_def by blast
    moreover have "removeElementGivenHash H pH a h = Some (H3, pH3)"
      using run False p2 st(4) L by (auto simp: pH3_def Let_def)
    ultimately show ?thesis using sL pay3 by (intro exI [of _ H3] exI [of _ pH3] exI [of _ "xs @ ys"]) simp
  qed
qed

subsection \<open>The table as a map from folded keys to data\<close>

definition hmap :: "heap \<Rightarrow> nat list \<Rightarrow> cstr \<Rightarrow> nat option" where
  "hmap H L = map_of (map (\<lambda>a. (fold_case (key_of H a), data_of H a)) L)"

lemma hmap_Some:
  assumes "distinct L" "inj_on (\<lambda>a. fold_case (key_of H a)) (set L)"
  shows "hmap H L k = Some d \<longleftrightarrow> (\<exists>a\<in>set L. fold_case (key_of H a) = k \<and> data_of H a = d)"
proof -
  have "distinct (map fst (map (\<lambda>a. (fold_case (key_of H a), data_of H a)) L))"
    using assms by (simp add: comp_def distinct_map)
  then show ?thesis unfolding hmap_def by (subst map_of_eq_Some_iff) auto
qed

lemma map_extI: "(\<And>k d. m k = Some d \<longleftrightarrow> m' k = Some d) \<Longrightarrow> m = m'"
  by (rule ext) (metis not_None_eq)

lemma hash_ok_hmap: "hash_ok H pH L \<Longrightarrow> hmap H L k = Some d \<longleftrightarrow> (\<exists>a\<in>set L. fold_case (key_of H a) = k \<and> data_of H a = d)"
  by (rule hmap_Some) (auto simp: hash_ok_def struct_ok_def)

definition hash_rep :: "heap \<Rightarrow> Hash \<Rightarrow> (cstr \<Rightarrow> nat option) \<Rightarrow> bool" where
  "hash_rep H pH m \<longleftrightarrow> (\<exists>L. hash_ok H pH L \<and> m = hmap H L)"

lemma hash_rep_init: "hash_rep H sqlite3HashInit Map.empty"
  unfolding hash_rep_def
  by (intro exI [of _ "[]"])
    (simp add: hash_ok_def struct_ok_def table_ok_def sqlite3HashInit_def hmap_def)

lemma find_data:
  assumes "hash_ok H pH L" "cstr_ok k"
  obtains r h where "findElementWithHash H pH k = Some (r, h)" "ht pH \<noteq> None \<longrightarrow> h = strHash k mod htsize pH"
    "elem_data H r = (case hmap H L (fold_case k) of None \<Rightarrow> 0 | Some d \<Rightarrow> d)"
    "r = None \<longleftrightarrow> hmap H L (fold_case k) = None"
    "\<forall>a. r = Some a \<longrightarrow> a \<in> set L \<and> fold_case (key_of H a) = fold_case k \<and> elem_data H r = data_of H a"
    "r \<noteq> None \<longrightarrow> elem_data H r \<noteq> 0"
proof -
  obtain r h where f: "findElementWithHash H pH k = Some (r, h)" "ht pH \<noteq> None \<longrightarrow> h = strHash k mod htsize pH"
      "case r of None \<Rightarrow> \<forall>a\<in>set L. fold_case (key_of H a) \<noteq> fold_case k
       | Some a \<Rightarrow> a \<in> set L \<and> fold_case (key_of H a) = fold_case k"
    using findElement_correct [OF assms] by blast
  obtain l where d: "dseg H None (hfirst pH) L l None" using assms(1) by (auto simp: hash_ok_def struct_ok_def)
  show thesis
  proof (cases r)
    case None
    then have "hmap H L (fold_case k) \<noteq> Some d" for d using f(3) by (simp add: hash_ok_hmap [OF assms(1)])
    then have "hmap H L (fold_case k) = None" by (metis not_None_eq)
    then show thesis using that [OF f(1,2)] None by (simp add: elem_data_def)
  next
    case (Some a)
    have a: "a \<in> set L" "fold_case (key_of H a) = fold_case k" using f(3) Some by simp_all
    obtain e where e: "H a = Some e" using dseg_mem [OF d a(1)] by auto
    have ed: "elem_data H r = data_of H a" using Some e by (simp add: elem_data_def)
    have "hmap H L (fold_case k) = Some (data_of H a)" using hash_ok_hmap [OF assms(1)] a by blast
    moreover have "data_of H a \<noteq> 0" using assms(1) a(1) by (simp add: hash_ok_def)
    ultimately show thesis using that [OF f(1,2)] Some a ed by simp
  qed
qed

lemma hash_ok_member: "hash_ok H pH L \<Longrightarrow> a \<in> set L \<Longrightarrow> \<exists>e. H a = Some e"
  unfolding hash_ok_def struct_ok_def using dseg_mem by blast

lemma hash_replace:
  assumes ok: "hash_ok H pH L" and a: "a \<in> set L" "fold_case (key_of H a) = fold_case k" and k: "cstr_ok k" "d \<noteq> 0"
  shows "\<exists>H'. upd H a (\<lambda>e. e\<lparr>he_data := d, he_key := k\<rparr>) = Some H' \<and> hash_ok H' pH L
    \<and> hmap H' L = (hmap H L)(fold_case k \<mapsto> d)"
proof -
  obtain e where e: "H a = Some e" using hash_ok_member [OF ok a(1)] by blast
  define H' where "H' = H(a \<mapsto> e\<lparr>he_data := d, he_key := k\<rparr>)"
  have kd: "key_of H' x = (if x = a then k else key_of H x)" "data_of H' x = (if x = a then d else data_of H x)" for x
    by (simp_all add: H'_def key_of_def data_of_def payload_def)
  have fk: "fold_case (key_of H' x) = fold_case (key_of H x)" for x using kd(1) a(2) by simp
  obtain l where d0: "dseg H None (hfirst pH) L l None" using ok by (auto simp: hash_ok_def struct_ok_def)
  have "dseg H' pv f as l n = dseg H pv f as l n" for pv f as l n
    by (induction as arbitrary: pv f) (auto simp: H'_def e)
  then have "hash_ok H' pH L"
    using ok k table_ok_frame [of H pH L H'] fk kd
    unfolding hash_ok_def struct_ok_def by auto
  moreover have "hmap H' L = (hmap H L)(fold_case k \<mapsto> d)"
  proof (rule map_extI)
    fix x y
    have inj: "b = a" if "b \<in> set L" "fold_case (key_of H b) = fold_case k" for b
      using that ok a unfolding hash_ok_def inj_on_def by metis
    have l: "hmap H' L x = Some y \<longleftrightarrow> (\<exists>b\<in>set L. fold_case (key_of H b) = x \<and> (if b = a then d else data_of H b) = y)"
      by (simp only: hash_ok_hmap [OF \<open>hash_ok H' pH L\<close>] fk kd(2))
    show "hmap H' L x = Some y \<longleftrightarrow> ((hmap H L)(fold_case k \<mapsto> d)) x = Some y"
    proof (cases "x = fold_case k")
      case True
      have "(\<exists>b\<in>set L. fold_case (key_of H b) = fold_case k \<and> (if b = a then d else data_of H b) = y) \<longleftrightarrow> d = y"
        using inj a by metis
      then show ?thesis using l True by simp
    next
      case False
      then have "((hmap H L)(fold_case k \<mapsto> d)) x = hmap H L x" by simp
      moreover have "b \<noteq> a" if "fold_case (key_of H b) = x" for b using that a(2) False by auto
      ultimately show ?thesis unfolding l using hash_ok_hmap [OF ok, of x y] by (metis (no_types, lifting))
    qed
  qed
  ultimately show ?thesis using e by (auto simp: H'_def)
qed

lemma hash_remove:
  assumes ok: "hash_ok H pH L" and a: "a \<in> set L" "fold_case (key_of H a) = fold_case k"
    and h: "ht pH \<noteq> None \<longrightarrow> h = strHash k mod htsize pH"
  shows "\<exists>H' pH' L'. removeElementGivenHash H pH a h = Some (H', pH') \<and> hash_ok H' pH' L'
    \<and> hmap H' L' = (hmap H L)(fold_case k := None)"
proof -
  have h': "ht pH \<noteq> None \<longrightarrow> h = strHash (key_of H a) mod htsize pH" using h strHash_fold [OF a(2)] by simp
  obtain H' pH' L' where r: "removeElementGivenHash H pH a h = Some (H', pH')" "hash_ok H' pH' L'"
      "set L' = set L - {a}" "\<forall>x. x \<noteq> a \<longrightarrow> payload H' x = payload H x"
    using remove_correct [OF ok a(1) h'] by blast
  have same: "key_of H' x = key_of H x" "data_of H' x = data_of H x" if "x \<in> set L'" for x
    using that r(3,4) by (auto simp: key_of_def data_of_def)
  have inj: "b = a" if "b \<in> set L" "fold_case (key_of H b) = fold_case k" for b
    using that ok a unfolding hash_ok_def inj_on_def by metis
  have "hmap H' L' = (hmap H L)(fold_case k := None)"
  proof (rule map_extI)
    fix x y
    have l: "hmap H' L' x = Some y \<longleftrightarrow> (\<exists>b\<in>set L. b \<noteq> a \<and> fold_case (key_of H b) = x \<and> data_of H b = y)"
      unfolding hash_ok_hmap [OF r(2)] using same r(3) by auto
    show "hmap H' L' x = Some y \<longleftrightarrow> ((hmap H L)(fold_case k := None)) x = Some y"
    proof (cases "x = fold_case k")
      case True
      then have "hmap H' L' x \<noteq> Some y" using l inj by metis
      then show ?thesis using True by simp
    next
      case False
      then have "\<forall>b. fold_case (key_of H b) = x \<longrightarrow> b \<noteq> a" using a(2) by auto
      then have "hmap H' L' x = Some y \<longleftrightarrow> hmap H L x = Some y" using l hash_ok_hmap [OF ok, of x y] by blast
      then show ?thesis using False by simp
    qed
  qed
  then show ?thesis using r by blast
qed

lemma struct_ok_frame:
  assumes "struct_ok H pH L" "\<forall>x\<in>set L. H' x = H x"
  shows "struct_ok H' pH L"
proof -
  have "dseg H' pv f L l n = dseg H pv f L l n" for pv f l n using assms(2) by (intro dseg_frame) simp
  moreover have "\<forall>x\<in>set L. fold_case (key_of H' x) = fold_case (key_of H x)"
    using assms(2) by (simp add: key_of_def payload_def)
  ultimately show ?thesis using assms(1) table_ok_frame [of H pH L H'] by (simp add: struct_ok_def)
qed

lemma hash_insert_new:
  assumes ok: "hash_ok H pH L" and env: "env_ok env" and new: "new_elem env H = Some a"
    and none: "hmap H L (fold_case k) = None" and k: "cstr_ok k" "d \<noteq> 0"
    and h: "ht pH \<noteq> None \<longrightarrow> h = strHash k mod htsize pH"
  defines "e \<equiv> \<lparr>he_next = None, he_prev = None, he_data = d, he_key = k\<rparr>"
  shows "\<exists>r H2 pH2 H' pH' L'.
      (if hcount pH + 1 \<ge> 10 \<and> hcount pH + 1 > 2 * htsize pH
       then rehash env (H(a \<mapsto> e)) (pH\<lparr>hcount := hcount pH + 1\<rparr>) ((hcount pH + 1) * 2)
       else Some (False, H(a \<mapsto> e), pH\<lparr>hcount := hcount pH + 1\<rparr>)) = Some (r, H2, pH2)
    \<and> insertElement H2 pH2 (if ht pH2 = None then None else Some (if r then strHash k mod htsize pH2 else h)) a = Some (H', pH')
    \<and> hash_ok H' pH' L' \<and> hmap H' L' = (hmap H L)(fold_case k \<mapsto> d)"
proof -
  define H1 where "H1 = H(a \<mapsto> e)"
  define pH1 where "pH1 = pH\<lparr>hcount := hcount pH + 1\<rparr>"
  have Ha: "H a = None" using env new by (simp add: env_ok_def)
  then have aL: "a \<notin> set L" using hash_ok_member [OF ok, of a] by auto
  have p1: "hcount pH1 = Suc (length L)" "ht pH1 = ht pH" "htsize pH1 = htsize pH"
    using ok by (simp_all add: pH1_def hash_ok_def)
  have s1: "struct_ok H1 pH1 L"
  proof -
    have "struct_ok H1 pH L" by (rule struct_ok_frame [of H]) (use ok aL in \<open>auto simp: hash_ok_def H1_def\<close>)
    then show ?thesis by (simp add: struct_ok_def table_ok_def pH1_def split: option.splits)
  qed
  have kd: "key_of H1 x = (if x = a then k else key_of H x)" "data_of H1 x = (if x = a then d else data_of H x)" for x
    by (simp_all add: H1_def e_def key_of_def data_of_def payload_def)
  obtain r H2 pH2 L2 where re: "(if hcount pH + 1 \<ge> 10 \<and> hcount pH + 1 > 2 * htsize pH
       then rehash env H1 pH1 ((hcount pH + 1) * 2) else Some (False, H1, pH1)) = Some (r, H2, pH2)"
      "struct_ok H2 pH2 L2" "set L2 = set L" "payload H2 = payload H1" "\<forall>x. x \<notin> set L \<longrightarrow> H2 x = H1 x"
      "hcount pH2 = hcount pH1" "if r then ht pH2 \<noteq> None else pH2 = pH1"
  proof (cases "hcount pH + 1 \<ge> 10 \<and> hcount pH + 1 > 2 * htsize pH")
    case True
    obtain r H2 pH2 L2 where "rehash env H1 pH1 ((hcount pH + 1) * 2) = Some (r, H2, pH2)"
      "struct_ok H2 pH2 L2" "set L2 = set L" "payload H2 = payload H1" "\<forall>x. x \<notin> set L \<longrightarrow> H2 x = H1 x"
      "hcount pH2 = hcount pH1" "if r then ht pH2 \<noteq> None else H2 = H1 \<and> pH2 = pH1"
      using rehash_correct [OF s1 env, of "(hcount pH + 1) * 2"] p1 by auto
    then show thesis using True by (intro that [of r H2 pH2 L2]) (auto split: if_splits)
  next
    case False
    then show thesis using s1 by (intro that [of False H1 pH1 L]) auto
  qed
  have e2: "H2 a = Some e" using re(5) aL by (simp add: H1_def)
  have b: "(if ht pH2 = None then None else Some (if r then strHash k mod htsize pH2 else h))
      = (if ht pH2 = None then None else Some (strHash (he_key e) mod htsize pH2))"
    using re(7) h p1 by (auto simp: e_def split: if_splits)
  obtain H' pH' L' where i: "insertElement H2 pH2 (if ht pH2 = None then None else Some (if r then strHash k mod htsize pH2 else h)) a = Some (H', pH')"
      "struct_ok H' pH' L'" "set L' = insert a (set L)" "payload H' = payload H1" "hcount pH' = Suc (length L)"
    using insertElement_correct [OF re(2) _ e2 b] aL re(3,4,6) p1 by auto
  have kd': "key_of H' x = (if x = a then k else key_of H x)" "data_of H' x = (if x = a then d else data_of H x)" for x
    using payload_same [OF i(4)] kd by simp_all
  have nk: "\<forall>x\<in>set L. fold_case (key_of H x) \<noteq> fold_case k"
    using none hash_ok_hmap [OF ok] by (metis option.distinct(1))
  have inj: "inj_on (\<lambda>x. fold_case (key_of H' x)) (set L')"
    using ok nk aL kd' i(3) unfolding hash_ok_def inj_on_def by auto
  have len: "hcount pH' = length L'"
    using i(2,3,5) aL ok distinct_card [of L'] distinct_card [of L] by (simp add: struct_ok_def hash_ok_def)
  have ok': "hash_ok H' pH' L'"
    using i(2,3) inj len kd' k ok by (auto simp: hash_ok_def)
  moreover have "hmap H' L' = (hmap H L)(fold_case k \<mapsto> d)"
  proof (rule map_extI)
    fix x y
    have l: "hmap H' L' x = Some y \<longleftrightarrow> x = fold_case k \<and> y = d \<or> (\<exists>b\<in>set L. fold_case (key_of H b) = x \<and> data_of H b = y)"
      unfolding hash_ok_hmap [OF ok'] i(3) using aL kd' by auto
    show "hmap H' L' x = Some y \<longleftrightarrow> ((hmap H L)(fold_case k \<mapsto> d)) x = Some y"
      using l nk hash_ok_hmap [OF ok, of x y] by auto
  qed
  ultimately show ?thesis using re(1) i(1) unfolding H1_def pH1_def by blast
qed

lemma HashInsert_step:
  assumes rep: "hash_rep H pH m" and env: "env_ok env" and k: "cstr_ok k"
  obtains (ok) H' pH' where "sqlite3HashInsert env H pH k d =
      Some (case m (fold_case k) of None \<Rightarrow> 0 | Some x \<Rightarrow> x, H', pH')"
    "hash_rep H' pH' (m(fold_case k := if d = 0 then None else Some d))" "d = 0 \<or> m (fold_case k) \<noteq> None \<or> new_elem env H \<noteq> None"
  | (oom) "sqlite3HashInsert env H pH k d = Some (d, H, pH)" "d \<noteq> 0" "m (fold_case k) = None" "new_elem env H = None"
proof -
  obtain L where L: "hash_ok H pH L" "m = hmap H L" using rep by (auto simp: hash_rep_def)
  obtain r h where f: "findElementWithHash H pH k = Some (r, h)" "ht pH \<noteq> None \<longrightarrow> h = strHash k mod htsize pH"
    "elem_data H r = (case hmap H L (fold_case k) of None \<Rightarrow> 0 | Some d \<Rightarrow> d)"
    "r = None \<longleftrightarrow> hmap H L (fold_case k) = None"
    "\<forall>a. r = Some a \<longrightarrow> a \<in> set L \<and> fold_case (key_of H a) = fold_case k \<and> elem_data H r = data_of H a"
    "r \<noteq> None \<longrightarrow> elem_data H r \<noteq> 0"
    by (rule find_data [OF L(1) k])
  show thesis
  proof (cases r)
    case (Some a)
    then have a: "a \<in> set L" "fold_case (key_of H a) = fold_case k" "elem_data H r \<noteq> 0" using f(5,6) by auto
    show thesis
    proof (cases "d = 0")
      case True
      obtain H' pH' L' where "removeElementGivenHash H pH a h = Some (H', pH')" "hash_ok H' pH' L'"
          "hmap H' L' = (hmap H L)(fold_case k := None)"
        using hash_remove [OF L(1) a(1,2) f(2)] by blast
      then show thesis using True f(1,3) Some a(3) L(2)
        by (intro ok [of H' pH']) (auto simp: sqlite3HashInsert_def hash_rep_def)
    next
      case False
      obtain H' where "upd H a (\<lambda>e. e\<lparr>he_data := d, he_key := k\<rparr>) = Some H'" "hash_ok H' pH L"
          "hmap H' L = (hmap H L)(fold_case k \<mapsto> d)"
        using hash_replace [OF L(1) a(1,2) k False] by blast
      then show thesis using False f(1,3) Some a(3) L(2)
        by (intro ok [of H' pH]) (auto simp: sqlite3HashInsert_def hash_rep_def)
    qed
  next
    case None
    then have n: "hmap H L (fold_case k) = None" "elem_data H r = 0" using f(3,4) by simp_all
    show thesis
    proof (cases "d = 0")
      case True
      have "m(fold_case k := None) = m" using n(1) L(2) by (auto simp: fun_eq_iff)
      then show thesis using True f(1) n L(2) rep
        by (intro ok [of H pH]) (simp_all add: sqlite3HashInsert_def)
    next
      case False
      show thesis
      proof (cases "new_elem env H")
        case None
        then show thesis using False f(1) n L(2) by (intro oom) (simp_all add: sqlite3HashInsert_def)
      next
        case (Some a)
        obtain r2 H2 pH2 H' pH' L' where i: "(if hcount pH + 1 \<ge> 10 \<and> hcount pH + 1 > 2 * htsize pH
             then rehash env (H(a \<mapsto> \<lparr>he_next = None, he_prev = None, he_data = d, he_key = k\<rparr>))
                    (pH\<lparr>hcount := hcount pH + 1\<rparr>) ((hcount pH + 1) * 2)
             else Some (False, H(a \<mapsto> \<lparr>he_next = None, he_prev = None, he_data = d, he_key = k\<rparr>),
                    pH\<lparr>hcount := hcount pH + 1\<rparr>)) = Some (r2, H2, pH2)"
          "insertElement H2 pH2 (if ht pH2 = None then None else Some (if r2 then strHash k mod htsize pH2 else h)) a = Some (H', pH')"
          "hash_ok H' pH' L'" "hmap H' L' = (hmap H L)(fold_case k \<mapsto> d)"
          using hash_insert_new [OF L(1) env Some n(1) k False f(2)] by blast
        have run: "sqlite3HashInsert env H pH k d = Some (0, H', pH')"
          using f(1) n(2) False Some i(1,2) by (simp add: sqlite3HashInsert_def Let_def cong: if_cong)
        then show thesis using i(3,4) n(1) L(2) False Some by (intro ok [of H' pH']) (auto simp: hash_rep_def)
      qed
    qed
  qed
qed

lemma HashFind_step:
  assumes "hash_rep H pH m" "cstr_ok k"
  shows "sqlite3HashFind H pH k = Some (case m (fold_case k) of None \<Rightarrow> 0 | Some d \<Rightarrow> d)"
proof -
  obtain L where L: "hash_ok H pH L" "m = hmap H L" using assms(1) by (auto simp: hash_rep_def)
  show ?thesis by (rule find_data [OF L(1) assms(2)]) (simp add: sqlite3HashFind_def L(2))
qed

lemma HashClear_step:
  assumes "hash_rep H pH m"
  shows "\<exists>H'. sqlite3HashClear H pH = Some (H', sqlite3HashInit)"
proof -
  obtain L l where L: "hash_ok H pH L" "dseg H None (hfirst pH) L l None" "distinct L" "hcount pH = length L"
    using assms by (auto simp: hash_rep_def hash_ok_def struct_ok_def)
  then show ?thesis using HashClear_loop_correct [OF dseg_sll [OF L(2)] L(3), of "hcount pH"]
    by (simp add: sqlite3HashClear_def sqlite3HashInit_def)
qed

subsection \<open>The contract of a symbol table\<close>

text \<open>
  A symbol table maps keys, up to the case of ASCII letters, to data; updating with 0 deletes.  An update returns the
  previous data of its key.  It is refused exactly when the key is new, the data is not 0 and there is no memory for another element
  (\<open>full\<close>): then it returns the new data and changes nothing.
\<close>

definition table_put :: "(cstr \<Rightarrow> nat option) \<Rightarrow> cstr \<times> nat \<Rightarrow> cstr \<Rightarrow> nat option" where
  "table_put m kd = m(fold_case (fst kd) := if snd kd = 0 then None else Some (snd kd))"

definition table_val :: "(cstr \<Rightarrow> nat option) \<Rightarrow> cstr \<Rightarrow> nat" where
  "table_val m k = (case m (fold_case k) of None \<Rightarrow> 0 | Some d \<Rightarrow> d)"

definition table_refuses :: "(cstr \<Rightarrow> nat option) \<Rightarrow> cstr \<Rightarrow> nat \<Rightarrow> bool \<Rightarrow> bool" where
  "table_refuses m k d no_memory \<longleftrightarrow> d \<noteq> 0 \<and> m (fold_case k) = None \<and> no_memory"

text \<open>A sequence of updates on the table: for each whether memory was exhausted at that moment, and what it returned.\<close>

fun table_run ::
  "('s \<Rightarrow> bool) \<Rightarrow> ('s \<Rightarrow> cstr \<Rightarrow> nat \<Rightarrow> (nat \<times> 's) option) \<Rightarrow> 's \<Rightarrow> (cstr \<times> nat) list \<Rightarrow> ((bool \<times> nat) list \<times> 's) option" where
  "table_run full update s [] = Some ([], s)"
| "table_run full update s ((k, d) # us) =
     (case update s k d of
        None \<Rightarrow> None
      | Some (r, s') \<Rightarrow> map_option (\<lambda>(out, s''). ((full s, r) # out, s'')) (table_run full update s' us))"

text \<open>The same sequence on a map, told when memory is exhausted: what the updates return, and the map at the end.\<close>

fun table_spec :: "(cstr \<Rightarrow> nat option) \<Rightarrow> (cstr \<times> nat) list \<Rightarrow> bool list \<Rightarrow> nat list \<times> (cstr \<Rightarrow> nat option)" where
  "table_spec m ((k, d) # us) (no_memory # bs) =
     (if table_refuses m k d no_memory
      then (case table_spec m us bs of (rs, m') \<Rightarrow> (d # rs, m'))
      else (case table_spec (table_put m (k, d)) us bs of (rs, m') \<Rightarrow> (table_val m k # rs, m')))"
| "table_spec m _ _ = ([], m)"

lemma table_spec_memory: "True \<notin> set bs \<Longrightarrow> length bs = length us \<Longrightarrow> snd (table_spec m us bs) = foldl table_put m us"
  by (induction m us bs rule: table_spec.induct) (auto simp: table_refuses_def split: prod.splits)

locale symbol_table =
  fixes start :: 's and lookup :: "'s \<Rightarrow> cstr \<Rightarrow> nat option"
    and full :: "'s \<Rightarrow> bool" and update :: "'s \<Rightarrow> cstr \<Rightarrow> nat \<Rightarrow> (nat \<times> 's) option"
    and rep :: "'s \<Rightarrow> (cstr \<Rightarrow> nat option) \<Rightarrow> bool"
  assumes start_law: "rep start Map.empty"
    and lookup_law: "rep s m \<Longrightarrow> cstr_ok k \<Longrightarrow> lookup s k = Some (table_val m k)"
    and update_law: "rep s m \<Longrightarrow> cstr_ok k \<Longrightarrow> \<not> table_refuses m k d (full s) \<Longrightarrow>
      \<exists>s'. update s k d = Some (table_val m k, s') \<and> rep s' (table_put m (k, d))"
    and refuse_law: "rep s m \<Longrightarrow> cstr_ok k \<Longrightarrow> table_refuses m k d (full s) \<Longrightarrow> update s k d = Some (d, s)"
begin

lemma run_rep:
  "rep s m \<Longrightarrow> \<forall>u\<in>set us. cstr_ok (fst u) \<Longrightarrow>
     \<exists>out s' m'. table_run full update s us = Some (out, s') \<and> length out = length us
       \<and> table_spec m us (map fst out) = (map snd out, m') \<and> rep s' m'"
proof (induction us arbitrary: s m)
  case Nil
  then show ?case by simp
next
  case (Cons u us)
  obtain k d where u: "u = (k, d)" by (cases u)
  show ?case
  proof (cases "table_refuses m k d (full s)")
    case True
    have "update s k d = Some (d, s)" using refuse_law [OF Cons.prems(1) _ True] Cons.prems(2) u by simp
    then show ?thesis using Cons.IH [OF Cons.prems(1)] Cons.prems(2) True u by auto
  next
    case False
    obtain s1 where s1: "update s k d = Some (table_val m k, s1)" "rep s1 (table_put m (k, d))"
      using update_law [OF Cons.prems(1) _ False] Cons.prems(2) u by auto
    then show ?thesis using Cons.IH [OF s1(2)] Cons.prems(2) False u by auto
  qed
qed

lemma run_lookup:
  assumes "\<forall>u\<in>set us. cstr_ok (fst u)" "cstr_ok k"
  shows "\<exists>out s' m. table_run full update start us = Some (out, s') \<and> length out = length us
    \<and> table_spec Map.empty us (map fst out) = (map snd out, m) \<and> lookup s' k = Some (table_val m k)"
  using run_rep [OF start_law assms(1)] lookup_law [OF _ assms(2)] by blast

end

text \<open>The hash table provides it: memory is exhausted when no element can be allocated.\<close>

definition hash_state_rep :: "heap \<times> Hash \<Rightarrow> (cstr \<Rightarrow> nat option) \<Rightarrow> bool" where
  "hash_state_rep s m \<longleftrightarrow> hash_rep (fst s) (snd s) m"

locale hash_memory =
  fixes env :: hash_env
  assumes env_ok: "env_ok env"

sublocale hash_memory \<subseteq> tab: symbol_table "(Map.empty, sqlite3HashInit)" "\<lambda>s. sqlite3HashFind (fst s) (snd s)"
  "\<lambda>s. new_elem env (fst s) = None" "\<lambda>s. sqlite3HashInsert env (fst s) (snd s)" hash_state_rep
proof (unfold_locales, goal_cases)
  case 1
  then show ?case by (simp add: hash_state_rep_def hash_rep_init)
next
  case (2 s m k)
  then show ?case using HashFind_step by (simp add: hash_state_rep_def table_val_def)
next
  case (3 s m k d)
  then have "hash_rep (fst s) (snd s) m" by (simp add: hash_state_rep_def)
  then show ?case
    using 3(3) by (cases rule: HashInsert_step [OF _ env_ok 3(2), of "fst s" "snd s" m d])
      (auto simp: hash_state_rep_def table_val_def table_put_def table_refuses_def)
next
  case (4 s m k d)
  then have "hash_rep (fst s) (snd s) m" by (simp add: hash_state_rep_def)
  then show ?case
    using 4(3) by (cases rule: HashInsert_step [OF _ env_ok 4(2), of "fst s" "snd s" m d]) (auto simp: table_refuses_def)
qed

context hash_memory
begin

lemma hash_run:
  assumes "\<forall>u\<in>set us. cstr_ok (fst u)" "cstr_ok k"
  shows "\<exists>out s m. table_run (\<lambda>s. new_elem env (fst s) = None) (\<lambda>s. sqlite3HashInsert env (fst s) (snd s)) (Map.empty, sqlite3HashInit) us
      = Some (out, s) \<and> length out = length us \<and> table_spec Map.empty us (map fst out) = (map snd out, m)
    \<and> sqlite3HashFind (fst s) (snd s) k = Some (table_val m k)"
  using assms by (rule tab.run_lookup)

end

text \<open>A concrete allocator: the address behind the largest one in use, and blocks of the size asked for.\<close>

definition bump_env :: hash_env where
  "bump_env = \<lparr>new_elem = (\<lambda>H. if finite (dom H) then Some (Suc (Max (insert 0 (dom H)))) else None), new_table = Some\<rparr>"

lemma bump_env_ok: "env_ok bump_env"
proof -
  have "H (Suc (Max (insert 0 (dom H)))) = None" if "finite (dom H)" for H :: heap
  proof (rule ccontr)
    assume "H (Suc (Max (insert 0 (dom H)))) \<noteq> None"
    then have "Suc (Max (insert 0 (dom H))) \<in> insert 0 (dom H)" by auto
    then have "Suc (Max (insert 0 (dom H))) \<le> Max (insert 0 (dom H))" using that by (intro Max_ge) simp_all
    then show False by simp
  qed
  then show ?thesis by (auto simp: env_ok_def bump_env_def split: if_splits)
qed

interpretation bump: hash_memory bump_env
  by unfold_locales (rule bump_env_ok)

text \<open>
  One insertion into the pointer structure of \<open>hash.c\<close>, whatever the allocator returns within its
  contract: starting from a well-formed table that represents the map \<open>m\<close>, \<open>sqlite3HashInsert\<close> follows no null
  or dangling pointer and returns.  If the key is new, the data is not NULL and there is no memory for an element, then the new data is
  returned and nothing has changed.  In every other case the new table is well-formed again, the previous data of the key is
  returned, and the table represents \<open>m\<close> updated at the case-folded key (or with the key deleted when the
  data is NULL), also when the insertion resizes the table.\<close>

theorem HashInsert_correct:
  assumes "env_ok env" "hash_rep H pH m" "cstr_ok k"
  shows "\<exists>r H' pH'. sqlite3HashInsert env H pH k d = Some (r, H', pH')
    \<and> (if d \<noteq> 0 \<and> m (fold_case k) = None \<and> new_elem env H = None then r = d \<and> H' = H \<and> pH' = pH
       else r = table_val m k \<and> hash_rep H' pH' (table_put m (k, d)))"
  by (rule HashInsert_step [OF assms(2,1,3), of d]) (auto simp: table_val_def table_put_def)

theorem HashInsert_correct_witness:
  "\<exists>r H' pH'. sqlite3HashInsert bump_env Map.empty sqlite3HashInit (cstring ''t1'') 42 = Some (r, H', pH')
     \<and> r = 0 \<and> hash_rep H' pH' (table_put Map.empty (cstring ''t1'', 42))"
proof -
  have "cstr_ok (cstring ''t1'')" by (simp add: cstring_def ch_def)
  moreover have "new_elem bump_env Map.empty \<noteq> None" by (simp add: bump_env_def)
  ultimately show ?thesis
    using HashInsert_correct [OF bump_env_ok hash_rep_init, of "cstring ''t1''" Map.empty 42]
    by (auto simp: table_val_def)
qed

text \<open>
  C30. The hash table implements a finite map with case-insensitive keys.  Any sequence of insertions,
  replacements and deletions starting from \<open>sqlite3HashInit\<close> runs to its end; every operation returns what it returns on the
  map, the previous data of its key, unless its key is new and there is no memory for an element, in which case it returns the new data
  and changes nothing; and \<open>sqlite3HashFind\<close> returns for every key the data in the map at the end, or NULL.  If memory is
  never exhausted, this is the map with all the updates.\<close>

theorem Hash_refines_map:
  assumes "env_ok env" "\<forall>u\<in>set us. cstr_ok (fst u)" "cstr_ok k"
  shows "\<exists>out H pH m. table_run (\<lambda>s. new_elem env (fst s) = None) (\<lambda>s. sqlite3HashInsert env (fst s) (snd s)) (Map.empty, sqlite3HashInit) us
      = Some (out, H, pH) \<and> length out = length us
    \<and> table_spec Map.empty us (map fst out) = (map snd out, m) \<and> sqlite3HashFind H pH k = Some (table_val m k)
    \<and> (True \<notin> set (map fst out) \<longrightarrow> m = foldl table_put Map.empty us)"
proof -
  obtain out s m where r: "table_run (\<lambda>s. new_elem env (fst s) = None) (\<lambda>s. sqlite3HashInsert env (fst s) (snd s)) (Map.empty, sqlite3HashInit) us
      = Some (out, s)" "length out = length us" "table_spec Map.empty us (map fst out) = (map snd out, m)"
    "sqlite3HashFind (fst s) (snd s) k = Some (table_val m k)"
    using hash_memory.hash_run [OF hash_memory.intro [OF assms(1)] assms(2,3)] by blast
  moreover have "True \<notin> set (map fst out) \<longrightarrow> m = foldl table_put Map.empty us"
    using table_spec_memory [of "map fst out" us Map.empty] r(2,3) by simp
  ultimately show ?thesis by (intro exI [of _ out] exI [of _ "fst s"] exI [of _ "snd s"] exI [of _ m]) simp
qed

text \<open>An allocator with a single element: the second new key is refused, replacing the data of the first is not.\<close>

definition one_env :: hash_env where
  "one_env = \<lparr>new_elem = (\<lambda>H. if H 1 = None then Some 1 else None), new_table = Some\<rparr>"

theorem Hash_refines_map_witness:
  "\<exists>out H pH. table_run (\<lambda>s. new_elem one_env (fst s) = None) (\<lambda>s. sqlite3HashInsert one_env (fst s) (snd s)) (Map.empty, sqlite3HashInit)
        [([65], 4), ([66], 5), ([97], 6)] = Some (out, H, pH)
     \<and> map snd out = [0, 5, 4] \<and> sqlite3HashFind H pH [65] = Some 6"
proof -
  let ?us = "[([65], 4), ([66], 5), ([97], 6)] :: (cstr \<times> nat) list"
  let ?run = "table_run (\<lambda>s. new_elem one_env (fst s) = None) (\<lambda>s. sqlite3HashInsert one_env (fst s) (snd s)) (Map.empty, sqlite3HashInit) ?us"
  have ok: "env_ok one_env" "\<forall>u\<in>set ?us. cstr_ok (fst u)" "cstr_ok [65]"
    by (auto simp: env_ok_def one_env_def cstr_ok_def split: if_splits)
  obtain out H pH m where r: "?run = Some (out, H, pH)" "table_spec Map.empty ?us (map fst out) = (map snd out, m)"
    "sqlite3HashFind H pH [65] = Some (table_val m [65])"
    using Hash_refines_map [OF ok] by blast
  have "map_option (\<lambda>p. map fst (fst p)) ?run = Some [False, True, True]"
    by (simp add: sqlite3HashInsert_def sqlite3HashInit_def findElementWithHash_def one_env_def elem_data_def insertElement_def link_front_def
        upd_def find_loop.simps)
  then have f: "map fst out = [False, True, True]" using r(1) by simp
  have "fst (table_spec Map.empty ?us [False, True, True]) = [0, 5, 4]"
    "table_val (snd (table_spec Map.empty ?us [False, True, True])) [65] = 6"
    by code_simp+
  then show ?thesis using r unfolding f by auto
qed

end
