(* ===== verification/RowSet.thy ===== *)
theory RowSet
  imports Prelude "HOL-Library.Tree"
begin

text \<open>
  Sets of rowids, \<open>rowset.c\<close> (\<open>src/src/db/sqlite3/core/sqlite3.c\<close>).  Entries are inserted on a list; the set is
  then either enumerated in order (\<open>sqlite3RowSetNext\<close>), or tested for membership batch by batch
  (\<open>sqlite3RowSetTest\<close>), for which the entries are moved into a forest of search trees.

  Every entry has exactly one owner, a list linked by \<open>pRight\<close> or a tree, so lists are lists of rowids and
  trees are values of the library type \<open>tree\<close>; a forest is the list of its trees, with \<open>Leaf\<close> for a forest
  entry whose \<open>pLeft\<close> is null.  Entries are carved from chunks: the number of chunks and of fresh entries is
  part of the state, and an argument of the allocating operations says whether \<open>malloc\<close> would succeed.
\<close>

unbundle bit_operations_syntax

definition ROWSET_ENTRY_PER_CHUNK :: nat where "ROWSET_ENTRY_PER_CHUNK = (1024 - 8) div 24"

record RowSet =
  nChunk :: nat
  pEntry :: "int list"
  pLast :: "int option"
  pForest :: "int tree list"
  nFresh :: nat
  rs_sorted :: bool
  rs_next :: bool
  iBatch :: int

text \<open>\<open>n0\<close> is the number of entries that fit behind the object in its own allocation.\<close>

definition sqlite3RowSetInit :: "nat \<Rightarrow> RowSet" where
  "sqlite3RowSetInit n0 =
     \<lparr>nChunk = 0, pEntry = [], pLast = None, pForest = [], nFresh = n0, rs_sorted = True, rs_next = False, iBatch = 0\<rparr>"

text \<open>Clearing sets \<open>rsFlags\<close> to \<open>ROWSET_SORTED\<close>, which also resets \<open>ROWSET_NEXT\<close>; the batch number is kept.\<close>

definition sqlite3RowSetClear :: "RowSet \<Rightarrow> RowSet" where
  "sqlite3RowSetClear p =
     p\<lparr>nChunk := 0, nFresh := 0, pEntry := [], pLast := None, pForest := [], rs_sorted := True, rs_next := False\<rparr>"

definition rowSetEntryAlloc :: "bool \<Rightarrow> RowSet \<Rightarrow> bool \<times> RowSet" where
  "rowSetEntryAlloc mok p =
     (if nFresh p = 0 then
        if mok then (True, p\<lparr>nChunk := nChunk p + 1, nFresh := ROWSET_ENTRY_PER_CHUNK - 1\<rparr>)
        else (False, p)
      else (True, p\<lparr>nFresh := nFresh p - 1\<rparr>))"

definition sqlite3RowSetInsert :: "bool \<Rightarrow> RowSet \<Rightarrow> int \<Rightarrow> RowSet" where
  "sqlite3RowSetInsert mok p rowid =
     (let (ok, p) = rowSetEntryAlloc mok p in
      if \<not> ok then p
      else case pLast p of
        Some v \<Rightarrow>
          p\<lparr>rs_sorted := (if rowid \<le> v then False else rs_sorted p),
            pEntry := pEntry p @ [rowid], pLast := Some rowid\<rparr>
      | None \<Rightarrow> p\<lparr>pEntry := [rowid], pLast := Some rowid\<rparr>)"

text \<open>
  The merge loop.  In the C code neither list is null at the start; the test for the end of a list, made
  there behind each advance, is the first two equations.
\<close>

fun rowSetEntryMerge :: "int list \<Rightarrow> int list \<Rightarrow> int list" where
  "rowSetEntryMerge [] pB = pB"
| "rowSetEntryMerge pA [] = pA"
| "rowSetEntryMerge (a # pA) (b # pB) =
     (if a \<le> b then
        if a < b then a # rowSetEntryMerge pA (b # pB) else rowSetEntryMerge pA (b # pB)
      else b # rowSetEntryMerge (a # pA) pB)"

text \<open>The 40 buckets of the sort; \<open>None\<close> is an access behind the end of \<open>aBucket\<close>.\<close>

fun bucket_add :: "int list list \<Rightarrow> int list \<Rightarrow> int list list option" where
  "bucket_add [] pIn = None"
| "bucket_add (b # bs) pIn =
     (if b = [] then Some (pIn # bs)
      else map_option (Cons []) (bucket_add bs (rowSetEntryMerge b pIn)))"

fun bucket_all :: "int list list \<Rightarrow> int list \<Rightarrow> int list list option" where
  "bucket_all aBucket [] = Some aBucket"
| "bucket_all aBucket (v # pIn) =
     (case bucket_add aBucket [v] of None \<Rightarrow> None | Some aBucket' \<Rightarrow> bucket_all aBucket' pIn)"

definition bucket_join :: "int list \<Rightarrow> int list \<Rightarrow> int list" where
  "bucket_join pIn b = (if b = [] then pIn else if pIn = [] then b else rowSetEntryMerge pIn b)"

definition rowSetEntrySort :: "int list \<Rightarrow> int list option" where
  "rowSetEntrySort pIn = map_option (foldl bucket_join []) (bucket_all (replicate 40 []) pIn)"

fun rowSetTreeToList :: "int tree \<Rightarrow> int list" where
  "rowSetTreeToList Leaf = []"
| "rowSetTreeToList (Node pLeft v pRight) =
     (if pLeft \<noteq> Leaf then rowSetTreeToList pLeft else []) @ v
       # (if pRight \<noteq> Leaf then rowSetTreeToList pRight else [])"

fun rowSetNDeepTree :: "int list \<Rightarrow> nat \<Rightarrow> int tree \<times> int list" where
  "rowSetNDeepTree [] iDepth = (Leaf, [])"
| "rowSetNDeepTree (x # xs) (Suc (Suc n)) =
     (case rowSetNDeepTree (x # xs) (Suc n) of
        (pLeft, []) \<Rightarrow> (pLeft, [])
      | (pLeft, y # ys) \<Rightarrow>
          (case rowSetNDeepTree ys (Suc n) of (pRight, zs) \<Rightarrow> (Node pLeft y pRight, zs)))"
| "rowSetNDeepTree (x # xs) iDepth = (Node Leaf x Leaf, xs)"

lemma rowSetNDeepTree_length: "length (snd (rowSetNDeepTree xs d)) \<le> length xs"
proof (induction xs d rule: rowSetNDeepTree.induct)
  case (2 x xs n)
  then show ?case by (fastforce split: prod.splits list.splits)
qed simp_all

function ListToTree_loop :: "int tree \<Rightarrow> int list \<Rightarrow> nat \<Rightarrow> int tree" where
  "ListToTree_loop p [] iDepth = p"
| "ListToTree_loop pLeft (x # xs) iDepth =
     (let r = rowSetNDeepTree xs iDepth in ListToTree_loop (Node pLeft x (fst r)) (snd r) (iDepth + 1))"
  by pat_completeness auto
termination
  by (relation "measure (\<lambda>(p, xs, d). length xs)") (simp_all add: rowSetNDeepTree_length less_Suc_eq_le)

fun rowSetListToTree :: "int list \<Rightarrow> int tree" where
  "rowSetListToTree [] = Leaf"
| "rowSetListToTree (x # xs) = ListToTree_loop (Node Leaf x Leaf) xs 1"

text \<open>The first call of \<open>sqlite3RowSetNext\<close> sorts the list if it has to.  The result: the rowid returned, if any.\<close>

definition sqlite3RowSetNext :: "RowSet \<Rightarrow> (int option \<times> RowSet) option" where
  "sqlite3RowSetNext p0 =
     do { p \<leftarrow> (if rs_next p0 then Some p0
                else do { es \<leftarrow> (if rs_sorted p0 then Some (pEntry p0) else rowSetEntrySort (pEntry p0));
                          Some (p0\<lparr>pEntry := es, rs_sorted := True, rs_next := True\<rparr>) });
          case pEntry p of
            [] \<Rightarrow> Some (None, p)
          | v # es \<Rightarrow> Some (Some v, if es = [] then sqlite3RowSetClear p else p\<lparr>pEntry := es\<rparr>) }"

text \<open>
  Moving the sorted list \<open>p\<close> into the forest: occupied trees are flattened and merged with it until an
  empty place is found.  The flag tells whether there was one; otherwise the merged list is returned.
\<close>

fun forest_add :: "int tree list \<Rightarrow> int list \<Rightarrow> int tree list \<times> int list option" where
  "forest_add [] p = ([], Some p)"
| "forest_add (t # ts) p =
     (if t = Leaf then (rowSetListToTree p # ts, None)
      else case forest_add ts (rowSetEntryMerge (rowSetTreeToList t) p) of
        (ts', rest) \<Rightarrow> (Leaf # ts', rest))"

fun tree_search :: "int tree \<Rightarrow> int \<Rightarrow> bool" where
  "tree_search Leaf iRowid = False"
| "tree_search (Node pLeft v pRight) iRowid =
     (if v < iRowid then tree_search pRight iRowid
      else if v > iRowid then tree_search pLeft iRowid
      else True)"

definition RowSet_newBatch :: "bool \<Rightarrow> RowSet \<Rightarrow> RowSet option" where
  "RowSet_newBatch mok p0 =
     (if pEntry p0 = [] then Some p0
      else do { es \<leftarrow> (if rs_sorted p0 then Some (pEntry p0) else rowSetEntrySort (pEntry p0));
                let (forest, rest) = forest_add (pForest p0) es;
                let p1 = (case rest of
                            None \<Rightarrow> p0\<lparr>pForest := forest\<rparr>
                          | Some es' \<Rightarrow>
                              (case rowSetEntryAlloc mok (p0\<lparr>pForest := forest\<rparr>) of
                                 (ok, p) \<Rightarrow> if ok then p\<lparr>pForest := forest @ [rowSetListToTree es']\<rparr> else p));
                Some (p1\<lparr>pEntry := [], pLast := None, rs_sorted := True\<rparr>) })"

definition sqlite3RowSetTest :: "bool \<Rightarrow> RowSet \<Rightarrow> int \<Rightarrow> int \<Rightarrow> (bool \<times> RowSet) option" where
  "sqlite3RowSetTest mok p0 batch iRowid =
     do { p \<leftarrow> (if batch \<noteq> iBatch p0
                then map_option (\<lambda>p. p\<lparr>iBatch := batch\<rparr>) (RowSet_newBatch mok p0)
                else Some p0);
          Some (list_ex (\<lambda>t. tree_search t iRowid) (pForest p), p) }"

subsection \<open>Sorting\<close>

abbreviation strict :: "int list \<Rightarrow> bool" where
  "strict xs \<equiv> sorted_wrt (<) xs"

lemma merge_set: "strict as \<Longrightarrow> strict bs \<Longrightarrow> set (rowSetEntryMerge as bs) = set as \<union> set bs"
  by (induction as bs rule: rowSetEntryMerge.induct) auto

lemma merge_strict: "strict as \<Longrightarrow> strict bs \<Longrightarrow> strict (rowSetEntryMerge as bs)"
proof (induction as bs rule: rowSetEntryMerge.induct)
  case (3 a as b bs)
  then show ?case by (auto simp: merge_set)
qed simp_all

lemma merge_nonempty: "bs \<noteq> [] \<Longrightarrow> rowSetEntryMerge as bs \<noteq> []"
  by (induction as bs rule: rowSetEntryMerge.induct) auto

text \<open>The occupied buckets are the binary representation of the number of entries added so far.\<close>

fun bucket_number :: "int list list \<Rightarrow> nat" where
  "bucket_number [] = 0"
| "bucket_number (b # bs) = (if b = [] then 0 else 1) + 2 * bucket_number bs"

lemma bucket_add_correct:
  assumes "strict p" "p \<noteq> []" "\<forall>b\<in>set bs. strict b" "bucket_number bs + 1 < 2 ^ length bs"
  shows "\<exists>bs'. bucket_add bs p = Some bs' \<and> (\<forall>b\<in>set bs'. strict b) \<and> length bs' = length bs
    \<and> \<Union> (set ` set bs') = set p \<union> \<Union> (set ` set bs) \<and> bucket_number bs' = bucket_number bs + 1"
  using assms
proof (induction bs p rule: bucket_add.induct)
  case (1 p)
  then show ?case by simp
next
  case (2 b bs p)
  show ?case
  proof (cases "b = []")
    case True
    then show ?thesis using 2 by auto
  next
    case False
    have "strict (rowSetEntryMerge b p)" "set (rowSetEntryMerge b p) = set b \<union> set p"
      using 2 merge_strict merge_set by auto
    moreover have "bucket_number bs + 1 < 2 ^ length bs" using 2(5) False by simp
    ultimately show ?thesis using 2 False merge_nonempty [of p b] by auto
  qed
qed

lemma bucket_all_correct:
  assumes "\<forall>b\<in>set bs. strict b" "bucket_number bs + length xs < 2 ^ length bs"
  shows "\<exists>bs'. bucket_all bs xs = Some bs' \<and> (\<forall>b\<in>set bs'. strict b) \<and> \<Union> (set ` set bs') = set xs \<union> \<Union> (set ` set bs)"
  using assms
proof (induction xs arbitrary: bs)
  case Nil
  then show ?case by simp
next
  case (Cons x xs)
  obtain bs1 where b: "bucket_add bs [x] = Some bs1" "\<forall>b\<in>set bs1. strict b" "length bs1 = length bs"
      "\<Union> (set ` set bs1) = {x} \<union> \<Union> (set ` set bs)" "bucket_number bs1 = bucket_number bs + 1"
    using bucket_add_correct [of "[x]" bs] Cons.prems by auto
  then show ?case using Cons.IH [of bs1] Cons.prems by auto
qed

lemma bucket_join_all:
  assumes "strict p" "\<forall>b\<in>set bs. strict b"
  shows "strict (foldl bucket_join p bs) \<and> set (foldl bucket_join p bs) = set p \<union> \<Union> (set ` set bs)"
  using assms
proof (induction bs arbitrary: p)
  case Nil
  then show ?case by simp
next
  case (Cons b bs)
  have "strict (bucket_join p b)" "set (bucket_join p b) = set p \<union> set b"
    using Cons.prems by (auto simp: bucket_join_def merge_strict merge_set)
  then show ?case using Cons.IH [of "bucket_join p b"] Cons.prems by auto
qed

lemma sort_correct:
  assumes "length xs < 2 ^ 40"
  shows "\<exists>ys. rowSetEntrySort xs = Some ys \<and> strict ys \<and> set ys = set xs"
proof -
  have n: "bucket_number (replicate n []) = 0" for n by (induction n) simp_all
  obtain bs where "bucket_all (replicate 40 []) xs = Some bs" "\<forall>b\<in>set bs. strict b" "\<Union> (set ` set bs) = set xs"
    using bucket_all_correct [of "replicate 40 []" xs] assms n by auto
  then show ?thesis using bucket_join_all [of "[]" bs] by (simp add: rowSetEntrySort_def)
qed

subsection \<open>Trees\<close>

lemma TreeToList_inorder: "rowSetTreeToList t = inorder t"
  by (induction t) auto

lemma NDeepTree_inorder: "inorder (fst (rowSetNDeepTree xs d)) @ snd (rowSetNDeepTree xs d) = xs"
proof (induction xs d rule: rowSetNDeepTree.induct)
  case (2 x xs n)
  obtain l ys where l: "rowSetNDeepTree (x # xs) (Suc n) = (l, ys)" by fastforce
  then show ?case using 2 by (cases ys) (auto split: prod.splits)
qed simp_all

lemma ListToTree_loop_inorder: "inorder (ListToTree_loop p xs d) = inorder p @ xs"
proof (induction p xs d rule: ListToTree_loop.induct)
  case (2 p x xs d)
  then show ?case using NDeepTree_inorder [of xs d] by (simp add: Let_def)
qed simp

lemma ListToTree_inorder: "inorder (rowSetListToTree xs) = xs"
  by (cases xs) (simp_all add: ListToTree_loop_inorder)

text \<open>Depth: a tree built with depth \<open>d\<close> is no higher than \<open>d\<close>, and is full if there is anything left.\<close>

lemma NDeepTree_depth:
  "0 < d \<Longrightarrow> height (fst (rowSetNDeepTree xs d)) \<le> d
     \<and> (snd (rowSetNDeepTree xs d) \<noteq> [] \<longrightarrow> size (fst (rowSetNDeepTree xs d)) + 1 = 2 ^ d)"
proof (induction xs d rule: rowSetNDeepTree.induct)
  case (2 x xs n)
  obtain l ys where l: "rowSetNDeepTree (x # xs) (Suc n) = (l, ys)" by fastforce
  show ?case
  proof (cases ys)
    case Nil
    then show ?thesis using 2 l by auto
  next
    case (Cons y zs)
    obtain r ws where r: "rowSetNDeepTree zs (Suc n) = (r, ws)" by fastforce
    have "height l \<le> Suc n" "size l + 1 = 2 ^ Suc n" using 2(1) l Cons by auto
    moreover have "height r \<le> Suc n" "ws \<noteq> [] \<longrightarrow> size r + 1 = 2 ^ Suc n" using 2(2) [OF l [symmetric] Cons] r by auto
    ultimately show ?thesis using l r Cons by auto
  qed
qed auto

lemma ListToTree_loop_depth:
  assumes "0 < d" "height p \<le> d" "xs \<noteq> [] \<longrightarrow> size p + 1 = 2 ^ d" "2 ^ d \<le> 2 * size p"
  shows "2 ^ height (ListToTree_loop p xs d) \<le> 2 * (size p + length xs)"
  using assms
proof (induction p xs d rule: ListToTree_loop.induct)
  case (1 p d)
  have "2 ^ height p \<le> (2::nat) ^ d" using 1 by (intro power_increasing) simp_all
  also have "\<dots> \<le> 2 * size p" using 1 by simp
  finally show ?case by simp
next
  case (2 p x xs d)
  define r where "r = rowSetNDeepTree xs d"
  have dep: "height (fst r) \<le> d" "snd r \<noteq> [] \<longrightarrow> size (fst r) + 1 = 2 ^ d"
    using NDeepTree_depth [OF 2(2), of xs] by (simp_all add: r_def)
  have len: "size (fst r) + length (snd r) = length xs"
    using NDeepTree_inorder [of xs d] by (metis r_def length_append length_inorder)
  have sz: "size p + 1 = 2 ^ d" using 2 by simp
  have "2 ^ height (ListToTree_loop (Node p x (fst r)) (snd r) (d + 1))
      \<le> 2 * (size (Node p x (fst r)) + length (snd r))"
    unfolding r_def
  proof (rule 2(1))
    show "0 < d + 1" by simp
    show "height (Node p x (fst (rowSetNDeepTree xs d))) \<le> d + 1" using 2(3) dep(1) by (simp add: r_def)
    show "snd (rowSetNDeepTree xs d) \<noteq> [] \<longrightarrow> size (Node p x (fst (rowSetNDeepTree xs d))) + 1 = 2 ^ (d + 1)"
      using dep(2) sz by (auto simp: r_def)
    show "2 ^ (d + 1) \<le> 2 * size (Node p x (fst (rowSetNDeepTree xs d)))" using sz by simp
  qed simp
  then show ?case using len by (simp add: r_def Let_def)
qed

text \<open>
  \<open>rowSetListToTree\<close> builds a search tree with exactly the elements of its list in order, and the tree is
  balanced: its height \<open>h\<close> satisfies \<open>2\<^sup>h \<le> 2 n\<close> for \<open>n\<close> elements, so a membership test follows at most
  \<open>1 + log\<^sub>2 n\<close> pointers.\<close>

theorem ListToTree_balanced:
  assumes "xs \<noteq> []"
  shows "inorder (rowSetListToTree xs) = xs \<and> 2 ^ height (rowSetListToTree xs) \<le> 2 * length xs"
proof -
  obtain y ys where "xs = y # ys" using assms by (cases xs) auto
  then show ?thesis
    using ListToTree_loop_depth [of 1 "Node Leaf y Leaf" ys] ListToTree_inorder [of xs] by simp
qed

theorem ListToTree_balanced_witness:
  "inorder (rowSetListToTree [1, 2, 3, 5, 8, 13, 21]) = [1, 2, 3, 5, 8, 13, 21]
   \<and> 2 ^ height (rowSetListToTree [1, 2, 3, 5, 8, 13, 21]) \<le> (14::nat)"
  using ListToTree_balanced [of "[1, 2, 3, 5, 8, 13, 21]"] by simp

lemma tree_search_correct: "strict (inorder t) \<Longrightarrow> tree_search t x \<longleftrightarrow> x \<in> set_tree t"
proof (induction t)
  case (Node l v r)
  have "\<forall>y\<in>set_tree l. y < v" "\<forall>y\<in>set_tree r. v < y" using Node.prems by (auto simp: sorted_wrt_append)
  moreover have "strict (inorder l)" "strict (inorder r)" using Node.prems by (simp_all add: sorted_wrt_append)
  ultimately show ?case using Node.IH by (cases v x rule: linorder_cases) auto
qed simp

subsection \<open>The object\<close>

definition rs_ok :: "RowSet \<Rightarrow> bool" where
  "rs_ok p \<longleftrightarrow> (\<forall>t\<in>set (pForest p). strict (inorder t))
     \<and> (rs_sorted p \<longrightarrow> strict (pEntry p))
     \<and> (\<not> rs_next p \<longrightarrow> pLast p = (if pEntry p = [] then None else Some (last (pEntry p))))"

definition rs_forest :: "RowSet \<Rightarrow> int set" where
  "rs_forest p = \<Union> (set_tree ` set (pForest p))"

definition rs_pending :: "RowSet \<Rightarrow> int set" where
  "rs_pending p = set (pEntry p)"

lemma rs_ok_init: "rs_ok (sqlite3RowSetInit n)" "rs_forest (sqlite3RowSetInit n) = {}" "rs_pending (sqlite3RowSetInit n) = {}"
  by (simp_all add: rs_ok_def rs_forest_def rs_pending_def sqlite3RowSetInit_def)

lemma alloc_keeps:
  assumes "rowSetEntryAlloc mok p = (ok, q)"
  shows "pEntry q = pEntry p \<and> pLast q = pLast p \<and> pForest q = pForest p \<and> rs_sorted q = rs_sorted p
    \<and> rs_next q = rs_next p \<and> iBatch q = iBatch p \<and> (mok \<longrightarrow> ok)"
  using assms by (auto simp: rowSetEntryAlloc_def split: if_splits)

lemma strict_snoc: "strict (xs @ [x]) \<longleftrightarrow> strict xs \<and> (xs \<noteq> [] \<longrightarrow> last xs < x)"
proof (cases xs rule: rev_cases)
  case (snoc ys y)
  then show ?thesis by (auto simp: sorted_wrt_append)
qed simp

lemma insert_correct:
  assumes "rs_ok p" "\<not> rs_next p"
  shows "\<exists>ok. (mok \<longrightarrow> ok) \<and> rs_ok (sqlite3RowSetInsert mok p x) \<and> \<not> rs_next (sqlite3RowSetInsert mok p x)
    \<and> rs_forest (sqlite3RowSetInsert mok p x) = rs_forest p
    \<and> pEntry (sqlite3RowSetInsert mok p x) = (if ok then pEntry p @ [x] else pEntry p)
    \<and> iBatch (sqlite3RowSetInsert mok p x) = iBatch p"
proof -
  obtain ok q where q: "rowSetEntryAlloc mok p = (ok, q)" by fastforce
  note k = alloc_keeps [OF q]
  show ?thesis
  proof (cases ok)
    case False
    then show ?thesis using q k assms
      by (intro exI [of _ ok]) (auto simp: sqlite3RowSetInsert_def rs_ok_def rs_forest_def)
  next
    case True
    show ?thesis
    proof (cases "pEntry p = []")
      case True
      then show ?thesis using \<open>ok\<close> q k assms
        by (intro exI [of _ ok]) (simp add: sqlite3RowSetInsert_def rs_ok_def rs_forest_def)
    next
      case False
      then show ?thesis using \<open>ok\<close> q k assms strict_snoc [of "pEntry p" x]
        by (intro exI [of _ ok]) (auto simp: sqlite3RowSetInsert_def rs_ok_def rs_forest_def)
    qed
  qed
qed

lemma sorted_entries:
  assumes "rs_ok p" "length (pEntry p) < 2 ^ 40"
  obtains es where "(if rs_sorted p then Some (pEntry p) else rowSetEntrySort (pEntry p)) = Some es"
    "strict es" "set es = set (pEntry p)"
proof (cases "rs_sorted p")
  case True
  then show thesis using that [of "pEntry p"] assms(1) by (simp add: rs_ok_def)
next
  case False
  then show thesis using that sort_correct [OF assms(2)] by auto
qed

text \<open>Enumeration: calling \<open>sqlite3RowSetNext\<close> until it reports the end, at most \<open>n\<close> times.\<close>

fun next_all :: "nat \<Rightarrow> RowSet \<Rightarrow> int list option" where
  "next_all 0 p = None"
| "next_all (Suc n) p =
     (case sqlite3RowSetNext p of
        None \<Rightarrow> None
      | Some (None, p') \<Rightarrow> Some []
      | Some (Some v, p') \<Rightarrow> map_option (Cons v) (next_all n p'))"

lemma next_all_empty: "pEntry p = [] \<Longrightarrow> rs_next p \<or> rs_sorted p \<Longrightarrow> next_all (Suc n) p = Some []"
  by (auto simp: sqlite3RowSetNext_def)

lemma next_all_listed:
  "rs_next p \<Longrightarrow> length (pEntry p) < n \<Longrightarrow> next_all n p = Some (pEntry p)"
proof (induction "pEntry p" arbitrary: p n)
  case Nil
  then obtain m where "n = Suc m" by (cases n) auto
  then show ?case using Nil by (simp add: sqlite3RowSetNext_def)
next
  case (Cons v es)
  then obtain m where n: "n = Suc m" "length es < m" by (cases n) (auto simp flip: Cons.hyps(2))
  show ?case
  proof (cases "es = []")
    case True
    then obtain m' where "m = Suc m'" using n by (cases m) auto
    moreover have "next_all (Suc m') (sqlite3RowSetClear p) = Some []"
      by (rule next_all_empty) (simp_all add: sqlite3RowSetClear_def)
    ultimately show ?thesis using True Cons.prems Cons.hyps(2) [symmetric] n
      by (simp add: sqlite3RowSetNext_def del: next_all.simps(2)) (simp add: sqlite3RowSetNext_def)
  next
    case False
    have "next_all m (p\<lparr>pEntry := es\<rparr>) = Some es"
      using Cons.hyps(1) [of "p\<lparr>pEntry := es\<rparr>" m] Cons.prems n by simp
    then show ?thesis using False Cons.prems Cons.hyps(2) [symmetric] n by (simp add: sqlite3RowSetNext_def)
  qed
qed

lemma next_all_correct:
  assumes ok: "rs_ok p" "\<not> rs_next p" and n: "length (pEntry p) < 2 ^ 40" "length (pEntry p) < n"
  shows "\<exists>ys. next_all n p = Some ys \<and> strict ys \<and> set ys = set (pEntry p)"
proof -
  obtain m where m: "n = Suc m" using n(2) by (cases n) auto
  obtain es where es: "(if rs_sorted p then Some (pEntry p) else rowSetEntrySort (pEntry p)) = Some es"
      "strict es" "set es = set (pEntry p)"
    by (rule sorted_entries [OF ok(1) n(1)])
  define q where "q = p\<lparr>pEntry := es, rs_sorted := True, rs_next := True\<rparr>"
  have "distinct es" using es(2) by (simp add: strict_sorted_iff)
  then have "length es \<le> length (pEntry p)" using es(3) by (metis card_length distinct_card)
  then have "next_all n q = Some es" using next_all_listed [of q n] n(2) by (simp add: q_def)
  moreover have "sqlite3RowSetNext p = sqlite3RowSetNext q"
    using ok(2) es(1) by (simp add: sqlite3RowSetNext_def q_def)
  then have "next_all n p = next_all n q" unfolding m next_all.simps by simp
  ultimately show ?thesis using es by auto
qed

lemma foldl_insert:
  assumes "rs_ok p" "\<not> rs_next p"
  shows "rs_ok (foldl (sqlite3RowSetInsert True) p xs) \<and> \<not> rs_next (foldl (sqlite3RowSetInsert True) p xs)
    \<and> pEntry (foldl (sqlite3RowSetInsert True) p xs) = pEntry p @ xs"
  using assms
proof (induction xs arbitrary: p)
  case (Cons x xs)
  then show ?case using insert_correct [OF Cons.prems, of True x] by auto
qed simp

text \<open>
  A RowSet enumerates a set: insert any rowids, in any order and with any repetitions, into a new RowSet;
  then successive calls of \<open>sqlite3RowSetNext\<close> return exactly the distinct rowids in strictly increasing order
  and then report the end.  The bound of \<open>2\<^sup>4\<^sup>0\<close> entries is what the 40 sort buckets can hold.\<close>

theorem RowSet_enumerates:
  assumes "length xs < 2 ^ 40"
  shows "\<exists>ys. next_all (length xs + 1) (foldl (sqlite3RowSetInsert True) (sqlite3RowSetInit n0) xs) = Some ys
    \<and> sorted_wrt (<) ys \<and> set ys = set xs"
proof -
  have "\<not> rs_next (sqlite3RowSetInit n0)" "pEntry (sqlite3RowSetInit n0) = []"
    by (simp_all add: sqlite3RowSetInit_def)
  then show ?thesis
    using foldl_insert [OF rs_ok_init(1), of n0 xs] assms
      next_all_correct [of "foldl (sqlite3RowSetInsert True) (sqlite3RowSetInit n0) xs" "length xs + 1"]
    by auto
qed

theorem RowSet_enumerates_witness:
  "\<exists>ys. next_all (length [7, -3, 7, 1::int] + 1)
      (foldl (sqlite3RowSetInsert True) (sqlite3RowSetInit 2) [7, -3, 7, 1]) = Some ys
    \<and> sorted_wrt (<) ys \<and> set ys = set [7, -3, 7, 1]"
  by (rule RowSet_enumerates) simp

subsection \<open>Batches\<close>

lemma forest_add_correct:
  assumes "\<forall>t\<in>set ts. strict (inorder t)" "strict p" "forest_add ts p = (ts', rest)"
  shows "(\<forall>t\<in>set ts'. strict (inorder t)) \<and> (case rest of
      None \<Rightarrow> \<Union> (set_tree ` set ts') = set p \<union> \<Union> (set_tree ` set ts)
    | Some es \<Rightarrow> strict es \<and> set es \<union> \<Union> (set_tree ` set ts') = set p \<union> \<Union> (set_tree ` set ts))"
  using assms
proof (induction ts p arbitrary: ts' rule: forest_add.induct)
  case (1 p)
  then show ?case by auto
next
  case (2 t ts p)
  show ?case
  proof (cases "t = Leaf")
    case True
    have "set_tree (rowSetListToTree p) = set p" using ListToTree_inorder [of p] by (metis set_inorder)
    then show ?thesis using 2 True ListToTree_inorder [of p] by auto
  next
    case False
    obtain us where us: "forest_add ts (rowSetEntryMerge (rowSetTreeToList t) p) = (us, rest)" "ts' = Leaf # us"
      using 2(4) False by (auto split: prod.splits)
    have "strict (rowSetEntryMerge (rowSetTreeToList t) p)"
        "set (rowSetEntryMerge (rowSetTreeToList t) p) = set_tree t \<union> set p"
      using 2(2,3) by (simp_all add: TreeToList_inorder merge_strict merge_set)
    then show ?thesis using 2(1) [OF False _ _ us(1)] 2(2) us(2) by (auto split: option.splits)
  qed
qed

lemma newBatch_correct:
  assumes ok: "rs_ok p" "\<not> rs_next p" and n: "length (pEntry p) < 2 ^ 40"
  shows "\<exists>q. RowSet_newBatch True p = Some q \<and> rs_ok q \<and> \<not> rs_next q \<and> pEntry q = []
    \<and> rs_forest q = rs_forest p \<union> rs_pending p"
proof (cases "pEntry p = []")
  case True
  then show ?thesis using ok by (auto simp: RowSet_newBatch_def rs_pending_def)
next
  case False
  obtain es where es: "(if rs_sorted p then Some (pEntry p) else rowSetEntrySort (pEntry p)) = Some es"
      "strict es" "set es = set (pEntry p)"
    by (rule sorted_entries [OF ok(1) n])
  obtain ts rest where f: "forest_add (pForest p) es = (ts, rest)" by fastforce
  have fa: "\<forall>t\<in>set ts. strict (inorder t)" "case rest of
      None \<Rightarrow> \<Union> (set_tree ` set ts) = set es \<union> rs_forest p
    | Some es' \<Rightarrow> strict es' \<and> set es' \<union> \<Union> (set_tree ` set ts) = set es \<union> rs_forest p"
  proof -
    have "\<forall>t\<in>set (pForest p). strict (inorder t)" using ok(1) by (simp add: rs_ok_def)
    from forest_add_correct [OF this es(2) f]
    show "\<forall>t\<in>set ts. strict (inorder t)" "case rest of
      None \<Rightarrow> \<Union> (set_tree ` set ts) = set es \<union> rs_forest p
    | Some es' \<Rightarrow> strict es' \<and> set es' \<union> \<Union> (set_tree ` set ts) = set es \<union> rs_forest p"
      unfolding rs_forest_def by blast+
  qed
  show ?thesis
  proof (cases rest)
    case None
    then show ?thesis using False es f fa ok
      by (auto simp: RowSet_newBatch_def rs_ok_def rs_forest_def rs_pending_def)
  next
    case (Some es')
    obtain b q where q: "rowSetEntryAlloc True (p\<lparr>pForest := ts\<rparr>) = (b, q)" by fastforce
    have qk: "b" "pForest q = ts" "rs_next q = rs_next p" using alloc_keeps [OF q] by auto
    have in': "inorder (rowSetListToTree es') = es'" "set_tree (rowSetListToTree es') = set es'"
      using ListToTree_inorder [of es'] set_inorder [of "rowSetListToTree es'"] by simp_all
    have "RowSet_newBatch True p =
        Some (q\<lparr>pForest := ts @ [rowSetListToTree es'], pEntry := [], pLast := None, rs_sorted := True\<rparr>)"
      using False es(1) f Some q qk by (simp add: RowSet_newBatch_def)
    then show ?thesis using fa Some in' es(3) ok qk
      by (auto simp: rs_ok_def rs_forest_def rs_pending_def)
  qed
qed

lemma test_correct:
  assumes ok: "rs_ok p" "\<not> rs_next p" and n: "length (pEntry p) < 2 ^ 40"
  shows "\<exists>q. sqlite3RowSetTest True p b x = Some (x \<in> rs_forest q, q) \<and> rs_ok q \<and> \<not> rs_next q \<and> iBatch q = b
    \<and> length (pEntry q) \<le> length (pEntry p)
    \<and> (if b = iBatch p then q = p else rs_forest q = rs_forest p \<union> rs_pending p \<and> rs_pending q = {})"
proof -
  have search: "list_ex (\<lambda>t. tree_search t x) (pForest q) \<longleftrightarrow> x \<in> rs_forest q" if "rs_ok q" for q
    using that tree_search_correct by (auto simp: list_ex_iff rs_ok_def rs_forest_def)
  show ?thesis
  proof (cases "b = iBatch p")
    case True
    then show ?thesis using search [OF ok(1)] ok by (simp add: sqlite3RowSetTest_def)
  next
    case False
    obtain q where q: "RowSet_newBatch True p = Some q" "rs_ok q" "\<not> rs_next q" "pEntry q = []"
        "rs_forest q = rs_forest p \<union> rs_pending p"
      using newBatch_correct [OF ok n] by blast
    have "rs_ok (q\<lparr>iBatch := b\<rparr>)" "rs_forest (q\<lparr>iBatch := b\<rparr>) = rs_forest q"
      using q(2) by (simp_all add: rs_ok_def rs_forest_def)
    then show ?thesis using False q search [of "q\<lparr>iBatch := b\<rparr>"]
      by (intro exI [of _ "q\<lparr>iBatch := b\<rparr>"]) (simp add: sqlite3RowSetTest_def rs_pending_def)
  qed
qed

text \<open>Sequences of insertions and tests, and what they mean: a test sees the batches completed so far.\<close>

datatype rs_op = RSInsert int | RSTest int int

fun rs_run :: "RowSet \<Rightarrow> rs_op list \<Rightarrow> bool list option" where
  "rs_run p [] = Some []"
| "rs_run p (RSInsert x # ops) = rs_run (sqlite3RowSetInsert True p x) ops"
| "rs_run p (RSTest b x # ops) =
     (case sqlite3RowSetTest True p b x of
        None \<Rightarrow> None
      | Some (r, q) \<Rightarrow> map_option (Cons r) (rs_run q ops))"

fun rs_spec :: "int set \<Rightarrow> int set \<Rightarrow> int \<Rightarrow> rs_op list \<Rightarrow> bool list" where
  "rs_spec F P batch [] = []"
| "rs_spec F P batch (RSInsert x # ops) = rs_spec F (insert x P) batch ops"
| "rs_spec F P batch (RSTest b x # ops) =
     (if b = batch then (x \<in> F) # rs_spec F P batch ops
      else (x \<in> F \<union> P) # rs_spec (F \<union> P) {} b ops)"

lemma rs_run_correct:
  assumes "rs_ok p" "\<not> rs_next p" "length (pEntry p) + length ops < 2 ^ 40"
  shows "rs_run p ops = Some (rs_spec (rs_forest p) (rs_pending p) (iBatch p) ops)"
  using assms
proof (induction ops arbitrary: p)
  case Nil
  then show ?case by simp
next
  case (Cons op ops)
  show ?case
  proof (cases op)
    case (RSInsert x)
    let ?q = "sqlite3RowSetInsert True p x"
    have q: "rs_ok ?q" "\<not> rs_next ?q" "rs_forest ?q = rs_forest p" "pEntry ?q = pEntry p @ [x]" "iBatch ?q = iBatch p"
      using insert_correct [OF Cons.prems(1,2), of True x] by auto
    then have "rs_pending ?q = insert x (rs_pending p)" by (simp add: rs_pending_def)
    then show ?thesis using Cons.IH [OF q(1,2)] Cons.prems(3) q RSInsert by simp
  next
    case (RSTest b x)
    obtain q where q: "sqlite3RowSetTest True p b x = Some (x \<in> rs_forest q, q)" "rs_ok q" "\<not> rs_next q" "iBatch q = b"
        "length (pEntry q) \<le> length (pEntry p)"
        "if b = iBatch p then q = p else rs_forest q = rs_forest p \<union> rs_pending p \<and> rs_pending q = {}"
      using test_correct [OF Cons.prems(1,2), of b x] Cons.prems(3) by auto
    then show ?thesis using Cons.IH [OF q(2,3)] Cons.prems(3) RSTest by (auto split: if_splits)
  qed
qed

text \<open>
  C32. Batched membership: for every interleaving of \<open>sqlite3RowSetInsert\<close> and \<open>sqlite3RowSetTest\<close> on a new RowSet,
  each test answers whether its rowid was inserted before the current batch began, where a batch begins when
  a test carries a new batch number.  Sorting, the forest of trees and their merging never change an answer.\<close>

theorem RowSet_batches:
  assumes "length ops < 2 ^ 40"
  shows "rs_run (sqlite3RowSetInit n0) ops = Some (rs_spec {} {} 0 ops)"
  using rs_run_correct [OF rs_ok_init(1), of n0 ops] assms rs_ok_init
  by (simp add: sqlite3RowSetInit_def)

theorem RowSet_batches_witness:
  "rs_run (sqlite3RowSetInit 1) [RSInsert 5, RSTest 0 5, RSTest 1 5, RSInsert 3, RSTest 1 3, RSTest 2 3]
   = Some [False, True, False, True]"
  using RowSet_batches [of "[RSInsert 5, RSTest 0 5, RSTest 1 5, RSInsert 3, RSTest 1 3, RSTest 2 3]" 1] by simp

end
