(* ===== verification/Utf.thy ===== *)
theory Utf
  imports NumText
begin

text \<open>
  Text encodings, \<open>utf.c\<close> (\<open>src/src/db/sqlite3/core/sqlite3.c\<close>): reading and writing single characters of UTF-8
  and UTF-16 (the macros \<open>READ_UTF8\<close>, \<open>WRITE_UTF8\<close>, \<open>WRITE_UTF16LE\<close>, \<open>WRITE_UTF16BE\<close>), the translation of whole
  values (\<open>sqlite3VdbeMemTranslate\<close>), byte-order marks and character counts.  An input is the list of the
  bytes from \<open>zIn\<close> up to \<open>zTerm\<close> (or up to the terminating zero); an output is the list of bytes written.
  A character is the \<open>unsigned int\<close> of the code, so the shifts of over-long sequences wrap as they do there.
\<close>

unbundle bit_operations_syntax

definition sqlite3Utf8Trans1 :: "nat list" where
  "sqlite3Utf8Trans1 =
    [0x00, 0x01, 0x02, 0x03, 0x04, 0x05, 0x06, 0x07,
     0x08, 0x09, 0x0a, 0x0b, 0x0c, 0x0d, 0x0e, 0x0f,
     0x10, 0x11, 0x12, 0x13, 0x14, 0x15, 0x16, 0x17,
     0x18, 0x19, 0x1a, 0x1b, 0x1c, 0x1d, 0x1e, 0x1f,
     0x00, 0x01, 0x02, 0x03, 0x04, 0x05, 0x06, 0x07,
     0x08, 0x09, 0x0a, 0x0b, 0x0c, 0x0d, 0x0e, 0x0f,
     0x00, 0x01, 0x02, 0x03, 0x04, 0x05, 0x06, 0x07,
     0x00, 0x01, 0x02, 0x03, 0x00, 0x01, 0x00, 0x00]"

definition WRITE_UTF8 :: "u32 \<Rightarrow> u8 list" where
  "WRITE_UTF8 c =
     (if c < 0x80 then [ucast (c AND 0xFF)]
      else if c < 0x800 then
        [0xC0 + ucast (drop_bit 6 c AND 0x1F), 0x80 + ucast (c AND 0x3F)]
      else if c < 0x10000 then
        [0xE0 + ucast (drop_bit 12 c AND 0x0F), 0x80 + ucast (drop_bit 6 c AND 0x3F),
         0x80 + ucast (c AND 0x3F)]
      else
        [0xF0 + ucast (drop_bit 18 c AND 0x07), 0x80 + ucast (drop_bit 12 c AND 0x3F),
         0x80 + ucast (drop_bit 6 c AND 0x3F), 0x80 + ucast (c AND 0x3F)])"

definition WRITE_UTF16LE :: "u32 \<Rightarrow> u8 list" where
  "WRITE_UTF16LE c =
     (if c \<le> 0xFFFF then [ucast (c AND 0x00FF), ucast (drop_bit 8 c AND 0x00FF)]
      else
        [ucast ((drop_bit 10 c AND 0x003F) + (drop_bit 10 (c - 0x10000) AND 0x00C0)),
         ucast (0x00D8 + (drop_bit 18 (c - 0x10000) AND 0x03)),
         ucast (c AND 0x00FF),
         ucast (0x00DC + (drop_bit 8 c AND 0x03))])"

definition WRITE_UTF16BE :: "u32 \<Rightarrow> u8 list" where
  "WRITE_UTF16BE c =
     (if c \<le> 0xFFFF then [ucast (drop_bit 8 c AND 0x00FF), ucast (c AND 0x00FF)]
      else
        [ucast (0x00D8 + (drop_bit 18 (c - 0x10000) AND 0x03)),
         ucast ((drop_bit 10 c AND 0x003F) + (drop_bit 10 (c - 0x10000) AND 0x00C0)),
         ucast (0x00DC + (drop_bit 8 c AND 0x03)),
         ucast (c AND 0x00FF)])"

text \<open>The continuation bytes of a multi-byte character.\<close>

fun read_cont :: "u32 \<Rightarrow> u8 list \<Rightarrow> u32 \<times> u8 list" where
  "read_cont c [] = (c, [])"
| "read_cont c (b # z) =
     (if b AND 0xc0 = 0x80 then read_cont (push_bit 6 c + (0x3f AND ucast b)) z else (c, b # z))"

text \<open>
  \<open>READ_UTF8\<close>, and \<open>sqlite3Utf8Read\<close> on a zero-terminated string; reading at the end of the list reads the
  terminator.  The macro is only used in front of \<open>zTerm\<close>, so there the list is not empty.
\<close>

definition READ_UTF8 :: "u8 list \<Rightarrow> u32 \<times> u8 list" where
  "READ_UTF8 zIn =
     (let c = ucast (cat zIn 0) :: u32 in
      if c \<ge> 0xc0 then
        (case read_cont (of_nat (sqlite3Utf8Trans1 ! unat (c - 0xc0))) (tl zIn) of
           (c, z) \<Rightarrow>
             (if c < 0x80 \<or> c AND 0xFFFFF800 = 0xD800 \<or> c AND 0xFFFFFFFE = 0xFFFE then 0xFFFD else c, z))
      else (c, tl zIn))"

definition sqlite3Utf8Read :: "cstr \<Rightarrow> u32 \<times> cstr" where
  "sqlite3Utf8Read pz = READ_UTF8 pz"

text \<open>
  One character of UTF-16, as the translation reads it (without \<open>SQLITE_REPLACE_INVALID_UTF\<close>); \<open>le\<close> is the
  byte order.  The length is even, so a code unit is always complete.
\<close>

definition unit16 :: "bool \<Rightarrow> u8 \<Rightarrow> u8 \<Rightarrow> u32" where
  "unit16 le b0 b1 = (if le then ucast b0 + push_bit 8 (ucast b1) else push_bit 8 (ucast b0) + ucast b1)"

fun READ_UTF16 :: "bool \<Rightarrow> u8 list \<Rightarrow> u32 \<times> u8 list" where
  "READ_UTF16 le (b0 # b1 # z) =
     (let c = unit16 le b0 b1 in
      if c \<ge> 0xd800 \<and> c < 0xe000 then
        (case z of
           b2 # b3 # z' \<Rightarrow>
             (let c2 = unit16 le b2 b3 in
              ((c2 AND 0x03FF) + push_bit 10 (c AND 0x003F) + push_bit 10 ((c AND 0x03C0) + 0x0040), z'))
         | _ \<Rightarrow> (c, z))
      else (c, z))"
| "READ_UTF16 le z = (0, [])"

lemma read_cont_length: "length (snd (read_cont c z)) \<le> length z"
  by (induction c z rule: read_cont.induct) auto

lemma READ_UTF8_length: "z \<noteq> [] \<Longrightarrow> length (snd (READ_UTF8 z)) < length z"
  using read_cont_length [of "of_nat (sqlite3Utf8Trans1 ! unat ((ucast (cat z 0) :: u32) - 0xc0))" "tl z"]
  by (cases z) (auto simp: READ_UTF8_def Let_def split: prod.splits)

lemma READ_UTF16_length: "z \<noteq> [] \<Longrightarrow> length (snd (READ_UTF16 le z)) < length z"
  by (cases "(le, z)" rule: READ_UTF16.cases) (auto simp: Let_def split: list.splits)

function utf8_to_16 :: "(u32 \<Rightarrow> u8 list) \<Rightarrow> u8 list \<Rightarrow> u8 list" where
  "utf8_to_16 wr zIn = (if zIn = [] then [] else wr (fst (READ_UTF8 zIn)) @ utf8_to_16 wr (snd (READ_UTF8 zIn)))"
  by pat_completeness auto
termination by (relation "measure (length \<circ> snd)") (simp_all add: READ_UTF8_length)

function utf16_to_8 :: "bool \<Rightarrow> u8 list \<Rightarrow> u8 list" where
  "utf16_to_8 le zIn =
     (if zIn = [] then [] else WRITE_UTF8 (fst (READ_UTF16 le zIn)) @ utf16_to_8 le (snd (READ_UTF16 le zIn)))"
  by pat_completeness auto
termination by (relation "measure (length \<circ> snd)") (simp_all add: READ_UTF16_length)

declare utf8_to_16.simps [simp del] utf16_to_8.simps [simp del]

fun swap16 :: "u8 list \<Rightarrow> u8 list" where
  "swap16 (b0 # b1 # z) = b1 # b0 # swap16 z"
| "swap16 z = z"

record MemStr =
  mz :: "u8 list"
  menc :: enc

text \<open>
  \<open>sqlite3VdbeMemTranslate\<close>: the size of the output buffer that is allocated, and the new value; \<open>None\<close> is
  \<open>SQLITE_NOMEM\<close>.  A trailing odd byte of UTF-16 text stays when only the byte order changes and is dropped
  otherwise.
\<close>

definition translate_buf :: "MemStr \<Rightarrow> enc \<Rightarrow> nat" where
  "translate_buf m desired =
     (if desired = SQLITE_UTF8 then 2 * (2 * (length (mz m) div 2)) + 1 else 2 * length (mz m) + 2)"

definition even_part :: "u8 list \<Rightarrow> u8 list" where
  "even_part z = take (2 * (length z div 2)) z"

definition sqlite3VdbeMemTranslate :: "bool \<Rightarrow> MemStr \<Rightarrow> enc \<Rightarrow> MemStr option" where
  "sqlite3VdbeMemTranslate oom m desired =
     (if oom then None
      else if menc m \<noteq> SQLITE_UTF8 \<and> desired \<noteq> SQLITE_UTF8 then Some \<lparr>mz = swap16 (mz m), menc = desired\<rparr>
      else if menc m = SQLITE_UTF8 then
        Some \<lparr>mz = utf8_to_16 (if desired = SQLITE_UTF16LE then WRITE_UTF16LE else WRITE_UTF16BE) (mz m), menc = desired\<rparr>
      else
        Some \<lparr>mz = utf16_to_8 (menc m = SQLITE_UTF16LE) (even_part (mz m)), menc = desired\<rparr>)"

definition sqlite3VdbeMemHandleBom :: "bool \<Rightarrow> MemStr \<Rightarrow> MemStr option" where
  "sqlite3VdbeMemHandleBom oom m =
     (let bom = (case mz m of
                   b1 # b2 # _ \<Rightarrow>
                     if b1 = 0xFF \<and> b2 = 0xFE then Some SQLITE_UTF16LE
                     else if b1 = 0xFE \<and> b2 = 0xFF then Some SQLITE_UTF16BE else None
                 | _ \<Rightarrow> None)
      in case bom of
           None \<Rightarrow> Some m
         | Some e \<Rightarrow> if oom then None else Some \<lparr>mz = drop 2 (mz m), menc = e\<rparr>)"

text \<open>\<open>SQLITE_SKIP_UTF8\<close> and the character count; a negative \<open>nByte\<close> means up to the terminator.\<close>

fun skip_cont :: "u8 list \<Rightarrow> u8 list" where
  "skip_cont [] = []"
| "skip_cont (b # z) = (if b AND 0xc0 = 0x80 then skip_cont z else b # z)"

definition SQLITE_SKIP_UTF8 :: "u8 list \<Rightarrow> u8 list" where
  "SQLITE_SKIP_UTF8 zIn = (if cat zIn 0 \<ge> 0xc0 then skip_cont (tl zIn) else tl zIn)"

lemma skip_cont_length: "length (skip_cont z) \<le> length z"
  by (induction z) auto

lemma SKIP_UTF8_length: "z \<noteq> [] \<Longrightarrow> length (SQLITE_SKIP_UTF8 z) < length z"
  using skip_cont_length [of "tl z"] by (cases z) (auto simp: SQLITE_SKIP_UTF8_def)

text \<open>\<open>z\<close> is the text from the current position on, \<open>n\<close> the number of bytes left before \<open>zTerm\<close>.\<close>

function Utf8CharLen_loop :: "u8 list \<Rightarrow> int option \<Rightarrow> nat" where
  "Utf8CharLen_loop z n =
     (if cat z 0 \<noteq> 0 \<and> (case n of None \<Rightarrow> True | Some k \<Rightarrow> 0 < k) then
        Suc (Utf8CharLen_loop (SQLITE_SKIP_UTF8 z)
          (map_option (\<lambda>k. k - int (length z - length (SQLITE_SKIP_UTF8 z))) n))
      else 0)"
  by pat_completeness auto
termination
  by (relation "measure (length \<circ> fst)") (auto simp: cat_def intro!: SKIP_UTF8_length split: if_splits)

declare Utf8CharLen_loop.simps [simp del]

definition sqlite3Utf8CharLen :: "cstr \<Rightarrow> int \<Rightarrow> nat" where
  "sqlite3Utf8CharLen zIn nByte = Utf8CharLen_loop zIn (if nByte \<ge> 0 then Some nByte else None)"

subsection \<open>Masks and shifts as arithmetic\<close>

lemma unat_and_mask: "unat (x AND mask k) = unat x mod 2 ^ k" for x :: "'a::len word"
  unfolding take_bit_eq_mask [symmetric] unsigned_take_bit_eq by (rule take_bit_eq_mod)

lemma and_masks_u32:
  fixes x :: u32
  shows "unat (x AND 0xFF) = unat x mod 256" "unat (x AND 0x3F) = unat x mod 64" "unat (x AND 0x1F) = unat x mod 32"
    "unat (x AND 0x0F) = unat x mod 16" "unat (x AND 0x07) = unat x mod 8" "unat (x AND 0x03) = unat x mod 4"
    "unat (x AND 0x3FF) = unat x mod 1024"
  using unat_and_mask [of x 8] unat_and_mask [of x 6] unat_and_mask [of x 5] unat_and_mask [of x 4]
    unat_and_mask [of x 3] unat_and_mask [of x 2] unat_and_mask [of x 10]
  by (simp_all add: mask_eq_exp_minus_1)

lemma unat_push_bit_drop_bit: "unat (push_bit k (drop_bit k x)) = unat x div 2 ^ k * 2 ^ k" for x :: "'a::len word"
proof -
  have "unat (push_bit k (drop_bit k x)) = (unat x div 2 ^ k * 2 ^ k) mod 2 ^ LENGTH('a)"
    by (simp only: unsigned_push_bit_eq unat_drop_bit) (simp add: take_bit_eq_mod push_bit_eq_mult)
  also have "\<dots> = unat x div 2 ^ k * 2 ^ k"
    by (rule mod_less) (metis div_times_less_eq_dividend le_less_trans unsigned_less)
  finally show ?thesis .
qed

lemma and_high_masks:
  "unat (b AND 0xc0) = unat b div 64 * 64" "unat (c AND 0xFFFFF800) = unat c div 2048 * 2048"
  for b :: u8 and c :: u32
proof -
  have "b AND 0xc0 = push_bit 6 (drop_bit 6 b)" by (simp add: word8_eq_bits bit_simps)
  then show "unat (b AND 0xc0) = unat b div 64 * 64" using unat_push_bit_drop_bit [of 6 b] by simp
  have "c AND 0xFFFFF800 = push_bit 11 (drop_bit 11 c)" by (simp add: word32_eq_bits bit_simps)
  then show "unat (c AND 0xFFFFF800) = unat c div 2048 * 2048" using unat_push_bit_drop_bit [of 11 c] by simp
qed

lemma is_cont_iff: "b AND 0xc0 = 0x80 \<longleftrightarrow> 128 \<le> unat b \<and> unat b < 192" for b :: u8
proof -
  have "b AND 0xc0 = 0x80 \<longleftrightarrow> unat b div 64 * 64 = 128" by (simp add: word_unat_eq_iff and_high_masks)
  then show ?thesis by auto
qed

lemma bad_char_iff:
  "c AND 0xFFFFF800 = 0xD800 \<longleftrightarrow> 0xD800 \<le> unat c \<and> unat c < 0xE000"
  "c AND 0xFFFFFFFE = 0xFFFE \<longleftrightarrow> unat c = 0xFFFE \<or> unat c = 0xFFFF"
  for c :: u32
proof -
  have "c AND 0xFFFFF800 = 0xD800 \<longleftrightarrow> unat c div 2048 * 2048 = 0xD800" by (simp add: word_unat_eq_iff and_high_masks)
  then show "c AND 0xFFFFF800 = 0xD800 \<longleftrightarrow> 0xD800 \<le> unat c \<and> unat c < 0xE000" by auto
  have "c AND 0xFFFFFFFE = 0xFFFE \<longleftrightarrow> c = 0xFFFE \<or> c = 0xFFFF" by (auto simp: word32_eq_bits bit_simps)
  then show "c AND 0xFFFFFFFE = 0xFFFE \<longleftrightarrow> unat c = 0xFFFE \<or> unat c = 0xFFFF" by (simp add: word_unat_eq_iff)
qed

lemma unat_ucast8: "unat (ucast x :: u8) = unat x mod 256" for x :: u32
  by (simp add: unsigned_ucast_eq take_bit_eq_mod)

lemma unat_ucast32: "unat (ucast b :: u32) = unat b" for b :: u8
proof -
  have "unat b < 256" using unsigned_less [of b, where ?'a = nat] by simp
  then show ?thesis by (simp add: unsigned_ucast_eq take_bit_eq_mod)
qed

lemma unat_plus8: "unat a + unat b < 256 \<Longrightarrow> unat (a + b) = unat a + unat b" for a b :: u8
  by (simp add: unat_word_ariths)

lemma unat_plus32: "unat a + unat b < 4294967296 \<Longrightarrow> unat (a + b) = unat a + unat b" for a b :: u32
  by (simp add: unat_word_ariths)

lemma unat_push32: "unat c * 2 ^ k < 4294967296 \<Longrightarrow> unat (push_bit k c) = unat c * 2 ^ k" for c :: u32
  by (simp only: unsigned_push_bit_eq) (simp add: take_bit_eq_mod push_bit_eq_mult)

lemma cont_byte: "unat (0x80 + ucast (x AND 0x3F) :: u8) = 128 + unat x mod 64" for x :: u32
proof -
  have "unat (ucast (x AND 0x3F) :: u8) = unat x mod 64"
    unfolding unat_ucast8 and_masks_u32 by (rule mod_less) (simp add: less_trans [of _ 64 256])
  then show ?thesis by (subst unat_plus8) (simp_all add: less_trans [of _ 64 128])
qed

lemma lead_bytes:
  fixes x :: u32
  shows "unat (0xC0 + ucast (x AND 0x1F) :: u8) = 192 + unat x mod 32"
    "unat (0xE0 + ucast (x AND 0x0F) :: u8) = 224 + unat x mod 16"
    "unat (0xF0 + ucast (x AND 0x07) :: u8) = 240 + unat x mod 8"
proof -
  have "unat (ucast (x AND 0x1F) :: u8) = unat x mod 32" "unat (ucast (x AND 0x0F) :: u8) = unat x mod 16"
       "unat (ucast (x AND 0x07) :: u8) = unat x mod 8"
    unfolding unat_ucast8 and_masks_u32
    by (rule mod_less, simp add: less_trans [of _ 32 256] less_trans [of _ 16 256] less_trans [of _ 8 256])+
  then show "unat (0xC0 + ucast (x AND 0x1F) :: u8) = 192 + unat x mod 32"
    "unat (0xE0 + ucast (x AND 0x0F) :: u8) = 224 + unat x mod 16"
    "unat (0xF0 + ucast (x AND 0x07) :: u8) = 240 + unat x mod 8"
    by (subst unat_plus8; simp add: less_trans [of _ 32 64] less_trans [of _ 16 32] less_trans [of _ 8 16])+
qed

lemma Trans1_value:
  "k < 32 \<Longrightarrow> sqlite3Utf8Trans1 ! k = k"
  "k < 16 \<Longrightarrow> sqlite3Utf8Trans1 ! (32 + k) = k"
  "k < 8 \<Longrightarrow> sqlite3Utf8Trans1 ! (48 + k) = k"
proof -
  have t: "sqlite3Utf8Trans1 = [0..<32] @ [0..<16] @ [0..<8] @ [0, 1, 2, 3, 0, 1, 0, 0]" by code_simp
  show "k < 32 \<Longrightarrow> sqlite3Utf8Trans1 ! k = k" "k < 16 \<Longrightarrow> sqlite3Utf8Trans1 ! (32 + k) = k"
    "k < 8 \<Longrightarrow> sqlite3Utf8Trans1 ! (48 + k) = k"
    by (simp_all add: t nth_append)
qed

lemma cont_step:
  fixes c :: u32 and b :: u8
  assumes "unat c < 67108864" "128 \<le> unat b" "unat b < 192"
  shows "unat (push_bit 6 c + (0x3f AND ucast b)) = unat c * 64 + (unat b - 128)"
proof -
  have "unat (0x3f AND ucast b :: u32) = unat b mod 64"
    using and_masks_u32(2) [of "ucast b"] by (simp add: unat_ucast32 and.commute)
  also have "\<dots> = unat b - 128"
  proof -
    have "unat b = (unat b - 128) + 2 * 64" "unat b - 128 < 64" using assms by simp_all
    then show ?thesis by (metis mod_less mod_mult_self1)
  qed
  finally have m: "unat (0x3f AND ucast b :: u32) = unat b - 128" .
  have p: "unat (push_bit 6 c) = unat c * 64" using unat_push32 [of c 6] assms(1) by simp
  show ?thesis using m p assms by (subst unat_plus32) simp_all
qed

subsection \<open>Single characters\<close>

definition utf8_fix :: "u32 \<Rightarrow> u32" where
  "utf8_fix c = (if 0xD800 \<le> unat c \<and> unat c < 0xE000 \<or> unat c = 0xFFFE \<or> unat c = 0xFFFF then 0xFFFD else c)"

definition no_cont :: "u8 list \<Rightarrow> bool" where
  "no_cont z \<longleftrightarrow> (z \<noteq> [] \<longrightarrow> \<not> hd z AND 0xc0 = 0x80)"

lemma read_cont_chain:
  assumes "\<forall>b\<in>set bs. 128 \<le> unat b \<and> unat b < 192" "no_cont rest" "(unat c + 1) * 64 ^ length bs \<le> 4294967296"
  shows "\<exists>c'. read_cont c (bs @ rest) = (c', rest) \<and> unat c' = foldl (\<lambda>a b. a * 64 + (unat b - 128)) (unat c) bs"
  using assms
proof (induction bs arbitrary: c)
  case Nil
  then show ?case by (cases rest) (simp_all add: no_cont_def)
next
  case (Cons b bs)
  have b: "128 \<le> unat b" "unat b < 192" using Cons.prems by auto
  have "(unat c + 1) * 64 \<le> (unat c + 1) * 64 ^ length (b # bs)" by (intro mult_le_mono2) simp
  then have "(unat c + 1) * 64 \<le> 4294967296" using Cons.prems(3) by (rule order_trans)
  then have c: "unat c < 67108864" by simp
  define c1 where "c1 = push_bit 6 c + (0x3f AND ucast b)"
  have c1: "unat c1 = unat c * 64 + (unat b - 128)" unfolding c1_def by (rule cont_step [OF c b])
  have "unat c1 + 1 \<le> (unat c + 1) * 64" using c1 b by simp
  then have "(unat c1 + 1) * 64 ^ length bs \<le> (unat c + 1) * 64 * 64 ^ length bs" by (rule mult_le_mono1)
  also have "\<dots> \<le> 4294967296" using Cons.prems(3) by (simp only: mult.assoc power_Suc [symmetric] length_Cons)
  finally have "(unat c1 + 1) * 64 ^ length bs \<le> 4294967296" .
  then obtain c' where "read_cont c1 (bs @ rest) = (c', rest)" "unat c' = foldl (\<lambda>a b. a * 64 + (unat b - 128)) (unat c1) bs"
    using Cons.IH [of c1] Cons.prems by auto
  moreover have "b AND 0xc0 = 0x80" using b by (simp add: is_cont_iff)
  ultimately show ?case using c1 by (simp add: c1_def)
qed

lemma READ_lead:
  assumes "unat b = 192 + k" "k < 64"
  shows "READ_UTF8 (b # z) = (case read_cont (of_nat (sqlite3Utf8Trans1 ! k)) z of
           (c, z) \<Rightarrow> (if unat c < 0x80 then 0xFFFD else utf8_fix c, z))"
proof -
  have le: "(0xc0 :: u32) \<le> ucast b" using assms by (simp add: word_le_nat_alt unat_ucast32)
  then have k: "unat (ucast b - 0xc0 :: u32) = k" using assms by (simp add: unat_sub unat_ucast32)
  have "READ_UTF8 (b # z) = (case read_cont (of_nat (sqlite3Utf8Trans1 ! k)) z of (c, z) \<Rightarrow>
      (if c < 0x80 \<or> c AND 0xFFFFF800 = 0xD800 \<or> c AND 0xFFFFFFFE = 0xFFFE then 0xFFFD else c, z))"
    unfolding READ_UTF8_def Let_def cat_Cons_0 k using le by simp
  also have "\<dots> = (case read_cont (of_nat (sqlite3Utf8Trans1 ! k)) z of
           (c, z) \<Rightarrow> (if unat c < 0x80 then 0xFFFD else utf8_fix c, z))"
    by (simp add: utf8_fix_def bad_char_iff word_less_nat_alt split: prod.split)
  finally show ?thesis .
qed

lemma READ_ascii: "unat b < 192 \<Longrightarrow> READ_UTF8 (b # z) = (ucast b, z)"
proof -
  assume "unat b < 192"
  then have "\<not> (0xc0 :: u32) \<le> ucast b" by (simp add: word_le_nat_alt unat_ucast32)
  then show ?thesis by (simp add: READ_UTF8_def Let_def)
qed

lemma READ_multi:
  assumes b: "unat b = 192 + k" "k < 64" and v: "sqlite3Utf8Trans1 ! k = v" "v < 32"
    and bs: "\<forall>x\<in>set bs. 128 \<le> unat x \<and> unat x < 192" "length bs \<le> 3" and rest: "no_cont rest"
    and n: "unat c = foldl (\<lambda>a x. a * 64 + (unat x - 128)) v bs" "128 \<le> unat c"
  shows "READ_UTF8 (b # bs @ rest) = (utf8_fix c, rest)"
proof -
  have uv: "unat (of_nat v :: u32) = v" using v(2) by (intro unat_of_nat_less) simp
  have "(64::nat) ^ length bs \<le> 64 ^ 3" using bs(2) by (intro power_increasing) simp_all
  then have "(unat (of_nat v :: u32) + 1) * 64 ^ length bs \<le> 32 * 64 ^ 3"
    using v(2) by (intro mult_le_mono) (simp_all add: uv)
  then obtain c' where "read_cont (of_nat v :: u32) (bs @ rest) = (c', rest)" "unat c' = unat c"
    using read_cont_chain [OF bs(1) rest, of "of_nat v"] uv n by auto
  moreover from this have "c' = c" by (simp add: word_unat_eq_iff)
  ultimately show ?thesis using READ_lead [OF b, of "bs @ rest"] v n(2) by simp
qed

lemma READ_WRITE_UTF8:
  assumes c: "unat c < 0x110000" and rest: "no_cont rest"
  shows "READ_UTF8 (WRITE_UTF8 c @ rest) = (utf8_fix c, rest)"
proof -
  let ?n = "unat c"
  have mod64: "\<And>x::nat. x mod 64 < 64" by simp
  consider "?n < 128" | "128 \<le> ?n" "?n < 2048" | "2048 \<le> ?n" "?n < 65536" | "65536 \<le> ?n" by linarith
  then show ?thesis
  proof cases
    case 1
    have "unat (ucast (c AND 0xFF) :: u8) = ?n" using 1 by (simp add: unat_ucast8 and_masks_u32)
    moreover from this have "(ucast (ucast (c AND 0xFF) :: u8) :: u32) = c"
      by (simp only: word_unat_eq_iff unat_ucast32)
    ultimately show ?thesis using 1 READ_ascii [of "ucast (c AND 0xFF)" rest]
      by (simp add: WRITE_UTF8_def word_less_nat_alt utf8_fix_def)
  next
    case 2
    define b0 b1 :: u8 where "b0 = 0xC0 + ucast (drop_bit 6 c AND 0x1F)" and "b1 = 0x80 + ucast (c AND 0x3F)"
    have u0: "unat b0 = 192 + ?n div 64" using 2 by (simp add: b0_def lead_bytes unat_drop_bit)
    have u1: "unat b1 = 128 + ?n mod 64" by (simp add: b1_def cont_byte)
    have k: "?n div 64 < 32" using 2 by simp
    have "READ_UTF8 (b0 # [b1] @ rest) = (utf8_fix c, rest)"
      by (rule READ_multi [OF u0 _ Trans1_value(1) k _ _ rest]) (use k u1 2 mod64 [of ?n] in auto)
    then show ?thesis using 2 by (simp add: WRITE_UTF8_def word_less_nat_alt b0_def b1_def)
  next
    case 3
    define b0 b1 b2 :: u8 where "b0 = 0xE0 + ucast (drop_bit 12 c AND 0x0F)"
      and "b1 = 0x80 + ucast (drop_bit 6 c AND 0x3F)" and "b2 = 0x80 + ucast (c AND 0x3F)"
    have u0: "unat b0 = 192 + (32 + ?n div 4096)" using 3 by (simp add: b0_def lead_bytes unat_drop_bit)
    have u1: "unat b1 = 128 + ?n div 64 mod 64" by (simp add: b1_def cont_byte unat_drop_bit)
    have u2: "unat b2 = 128 + ?n mod 64" by (simp add: b2_def cont_byte)
    have k: "?n div 4096 < 16" using 3 by simp
    have v: "?n = (?n div 4096 * 64 + ?n div 64 mod 64) * 64 + ?n mod 64"
    proof -
      have "?n div 4096 = ?n div 64 div 64" by (simp add: div_mult2_eq [symmetric])
      then show ?thesis by simp
    qed
    have f: "?n = foldl (\<lambda>a x. a * 64 + (unat x - 128)) (?n div 4096) [b1, b2]"
      using v by (simp only: foldl.simps u1 u2 diff_add_inverse)
    have "READ_UTF8 (b0 # [b1, b2] @ rest) = (utf8_fix c, rest)"
      by (rule READ_multi [OF u0 _ Trans1_value(2) [OF k] _ _ _ rest f])
        (use k u1 u2 3 mod64 [of ?n] mod64 [of "?n div 64"] in auto)
    then show ?thesis using 3 by (simp add: WRITE_UTF8_def word_less_nat_alt b0_def b1_def b2_def)
  next
    case 4
    define b0 b1 b2 b3 :: u8 where "b0 = 0xF0 + ucast (drop_bit 18 c AND 0x07)"
      and "b1 = 0x80 + ucast (drop_bit 12 c AND 0x3F)"
      and "b2 = 0x80 + ucast (drop_bit 6 c AND 0x3F)" and "b3 = 0x80 + ucast (c AND 0x3F)"
    have k: "?n div 262144 < 8" using c by simp
    have u0: "unat b0 = 192 + (48 + ?n div 262144)" using k by (simp add: b0_def lead_bytes unat_drop_bit)
    have u1: "unat b1 = 128 + ?n div 4096 mod 64" by (simp add: b1_def cont_byte unat_drop_bit)
    have u2: "unat b2 = 128 + ?n div 64 mod 64" by (simp add: b2_def cont_byte unat_drop_bit)
    have u3: "unat b3 = 128 + ?n mod 64" by (simp add: b3_def cont_byte)
    have v: "?n = ((?n div 262144 * 64 + ?n div 4096 mod 64) * 64 + ?n div 64 mod 64) * 64 + ?n mod 64"
    proof -
      have "?n div 4096 = ?n div 64 div 64" "?n div 262144 = ?n div 64 div 64 div 64"
        by (simp_all add: div_mult2_eq [symmetric])
      then show ?thesis by simp
    qed
    have f: "?n = foldl (\<lambda>a x. a * 64 + (unat x - 128)) (?n div 262144) [b1, b2, b3]"
      using v by (simp only: foldl.simps u1 u2 u3 diff_add_inverse)
    have "READ_UTF8 (b0 # [b1, b2, b3] @ rest) = (utf8_fix c, rest)"
      by (rule READ_multi [OF u0 _ Trans1_value(3) [OF k] _ _ _ rest f])
        (use k u1 u2 u3 4 mod64 [of ?n] mod64 [of "?n div 64"] mod64 [of "?n div 4096"] in auto)
    then show ?thesis using 4 by (simp add: WRITE_UTF8_def word_less_nat_alt b0_def b1_def b2_def b3_def)
  qed
qed

lemma and_middle_masks:
  fixes x :: u32
  shows "x AND 0x00C0 = push_bit 6 (drop_bit 6 x AND 0x03)" "x AND 0x03C0 = push_bit 6 (drop_bit 6 x AND 0x0F)"
  by (simp_all add: word32_eq_bits bit_simps)

lemma unat_push_bit_small: "unat x < 64 \<Longrightarrow> k \<le> 20 \<Longrightarrow> unat (push_bit k x) = unat x * 2 ^ k" for x :: u32
proof (rule unat_push32)
  assume "unat x < 64" "k \<le> 20"
  moreover from this have "(2::nat) ^ k \<le> 2 ^ 20" by (intro power_increasing) simp_all
  ultimately have "unat x * 2 ^ k < 64 * 2 ^ 20" by (intro mult_less_le_imp_less) simp_all
  then show "unat x * 2 ^ k < 4294967296" by simp
qed

lemma unat_middle_masks:
  fixes x :: u32
  shows "unat (x AND 0x00C0) = unat x div 64 mod 4 * 64" "unat (x AND 0x03C0) = unat x div 64 mod 16 * 64"
proof -
  have m: "n mod 4 < 4" "n mod 16 < 16" for n :: nat by simp_all
  have "unat (drop_bit 6 x AND 0x03) < 64" "unat (drop_bit 6 x AND 0x0F) < 64"
    using m(1) [of "unat (drop_bit 6 x)"] m(2) [of "unat (drop_bit 6 x)"] unfolding and_masks_u32 by linarith+
  then have "unat (push_bit 6 (drop_bit 6 x AND 0x03)) = unat (drop_bit 6 x AND 0x03) * 2 ^ 6"
    "unat (push_bit 6 (drop_bit 6 x AND 0x0F)) = unat (drop_bit 6 x AND 0x0F) * 2 ^ 6"
    by (intro unat_push_bit_small; simp)+
  then show "unat (x AND 0x00C0) = unat x div 64 mod 4 * 64" "unat (x AND 0x03C0) = unat x div 64 mod 16 * 64"
    unfolding and_middle_masks and_masks_u32 unat_drop_bit by simp_all
qed

lemma unat_unit16: "unat (unit16 le b0 b1) = (if le then unat b0 + 256 * unat b1 else 256 * unat b0 + unat b1)"
proof -
  have b: "unat b0 < 256" "unat b1 < 256"
    using unsigned_less [of b0, where ?'a = nat] unsigned_less [of b1, where ?'a = nat] by simp_all
  have "unat (push_bit 8 (ucast b0) :: u32) = unat b0 * 256" "unat (push_bit 8 (ucast b1) :: u32) = unat b1 * 256"
    using b unat_push32 [of "ucast b0" 8] unat_push32 [of "ucast b1" 8] by (simp_all add: unat_ucast32)
  then show ?thesis using b by (cases le) (simp_all add: unit16_def unat_plus32 unat_ucast32)
qed

definition WRITE_UTF16 :: "bool \<Rightarrow> u32 \<Rightarrow> u8 list" where
  "WRITE_UTF16 le = (if le then WRITE_UTF16LE else WRITE_UTF16BE)"

text \<open>The code units of a character.\<close>

lemma WRITE_UTF16_bmp:
  assumes "unat c < 65536"
  obtains b0 b1 where "WRITE_UTF16 le c = [b0, b1]" "unit16 le b0 b1 = c"
proof -
  have u: "unat (ucast (c AND 0x00FF) :: u8) = unat c mod 256"
    "unat (ucast (drop_bit 8 c AND 0x00FF) :: u8) = unat c div 256"
    using assms by (simp_all add: unat_ucast8 and_masks_u32 unat_drop_bit)
  have "unat (unit16 True (ucast (c AND 0x00FF)) (ucast (drop_bit 8 c AND 0x00FF))) = unat c"
    "unat (unit16 False (ucast (drop_bit 8 c AND 0x00FF)) (ucast (c AND 0x00FF))) = unat c"
    by (simp_all only: unat_unit16 u if_True if_False) simp_all
  then have "unit16 True (ucast (c AND 0x00FF)) (ucast (drop_bit 8 c AND 0x00FF)) = c"
    "unit16 False (ucast (drop_bit 8 c AND 0x00FF)) (ucast (c AND 0x00FF)) = c"
    by (simp_all only: word_unat_eq_iff)
  moreover have "c \<le> 0xFFFF" using assms by (simp add: word_le_nat_alt)
  ultimately show ?thesis using that
    by (cases le) (simp_all add: WRITE_UTF16_def WRITE_UTF16LE_def WRITE_UTF16BE_def)
qed

lemma WRITE_UTF16_pair:
  assumes "65536 \<le> unat c" "unat c < 0x110000"
  obtains b0 b1 b2 b3 where "WRITE_UTF16 le c = [b0, b1, b2, b3]"
    "unat (unit16 le b0 b1) = 0xD800 + (unat c - 65536) div 1024" "unat (unit16 le b2 b3) = 0xDC00 + unat c mod 1024"
proof -
  define d where "d = unat c - 65536"
  have d: "d < 1048576" "unat c = d + 65536" using assms by (simp_all add: d_def)
  define h0 h1 l0 l1 :: u8 where
    "h0 = ucast ((drop_bit 10 c AND 0x003F) + (drop_bit 10 (c - 0x10000) AND 0x00C0))" and
    "h1 = ucast (0x00D8 + (drop_bit 18 (c - 0x10000) AND 0x03))" and
    "l0 = ucast (c AND 0x00FF)" and "l1 = ucast (0x00DC + (drop_bit 8 c AND 0x03))"
  have dm: "unat (c - 0x10000) = d" using assms by (simp add: d_def unat_sub word_le_nat_alt)
  have m: "x mod 64 < 64" "x mod 4 < 4" for x :: nat by simp_all
  have low: "unat (drop_bit 10 c AND 0x003F) = d div 1024 mod 64"
  proof -
    have "(d + 65536) div 1024 = d div 1024 + 64" by simp
    then show ?thesis by (simp add: and_masks_u32 unat_drop_bit d(2))
  qed
  have high: "unat (drop_bit 10 (c - 0x10000) AND 0x00C0) = d div 1024 div 64 mod 4 * 64"
    by (simp add: unat_middle_masks unat_drop_bit dm)
  have "unat ((drop_bit 10 c AND 0x003F) + (drop_bit 10 (c - 0x10000) AND 0x00C0))
      = d div 1024 mod 64 + d div 1024 div 64 mod 4 * 64"
    using m(1) [of "d div 1024"] m(2) [of "d div 1024 div 64"] by (subst unat_plus32) (simp_all only: low high)
  also have "\<dots> = d div 1024 mod 256"
    using mod_mult2_eq [of "d div 1024" 64 4] by simp
  finally have h0: "unat h0 = d div 1024 mod 256" by (simp add: h0_def unat_ucast8)
  have h1: "unat h1 = 0xD8 + d div 262144"
    using d(1) by (simp add: h1_def unat_ucast8 unat_plus32 and_masks_u32 unat_drop_bit dm)
  have l0: "unat l0 = unat c mod 256" by (simp add: l0_def unat_ucast8 and_masks_u32)
  have l1: "unat l1 = 0xDC + unat c div 256 mod 4"
    using m(2) [of "unat c div 256"] by (simp add: l1_def unat_ucast8 unat_plus32 and_masks_u32 unat_drop_bit)
  have hi: "d div 1024 mod 256 + 256 * (0xD8 + d div 262144) = 0xD800 + d div 1024"
  proof -
    have "d div 262144 = d div 1024 div 256" by (simp add: div_mult2_eq [symmetric])
    then show ?thesis by simp
  qed
  have lo: "unat c mod 256 + 256 * (0xDC + unat c div 256 mod 4) = 0xDC00 + unat c mod 1024"
    using mod_mult2_eq [of "unat c" 256 4] by simp
  have "\<not> c \<le> 0xFFFF" using assms by (simp add: word_le_nat_alt)
  then have "WRITE_UTF16 le c = (if le then [h0, h1, l0, l1] else [h1, h0, l1, l0])"
    by (simp add: WRITE_UTF16_def WRITE_UTF16LE_def WRITE_UTF16BE_def h0_def h1_def l0_def l1_def)
  then show ?thesis using that hi lo
    by (cases le) (simp_all add: unat_unit16 h0 h1 l0 l1 d_def)
qed

lemma READ_WRITE_UTF16:
  assumes c: "unat c < 0x110000" "\<not> (0xD800 \<le> unat c \<and> unat c < 0xE000)"
  shows "READ_UTF16 le (WRITE_UTF16 le c @ rest) = (c, rest)"
proof (cases "unat c < 65536")
  case True
  obtain b0 b1 where w: "WRITE_UTF16 le c = [b0, b1]" "unit16 le b0 b1 = c"
    using WRITE_UTF16_bmp [OF True] by blast
  have "\<not> (c \<ge> 0xd800 \<and> c < 0xe000)" using c(2) by (simp add: word_le_nat_alt word_less_nat_alt)
  then show ?thesis unfolding w(1) append_Cons append_Nil READ_UTF16.simps Let_def w(2) by (rule if_not_P)
next
  case False
  define d where "d = unat c - 65536"
  have d: "d < 1048576" "unat c = d + 65536" using False c by (simp_all add: d_def)
  obtain b0 b1 b2 b3 where w: "WRITE_UTF16 le c = [b0, b1, b2, b3]"
    and hi: "unat (unit16 le b0 b1) = 0xD800 + d div 1024" and lo: "unat (unit16 le b2 b3) = 0xDC00 + unat c mod 1024"
    using WRITE_UTF16_pair [of c le] False c(1) unfolding d_def by (metis not_less)
  let ?u = "unit16 le b0 b1" and ?v = "unit16 le b2 b3"
  have dm: "d div 1024 < 1024" using d(1) by simp
  then have sur: "?u \<ge> 0xd800 \<and> ?u < 0xe000" using hi by (simp add: word_le_nat_alt word_less_nat_alt)
  have m: "x mod 64 < 64" "x mod 16 < 16" "x mod 1024 < 1024" for x :: nat by simp_all
  have bound: "a < 64 \<Longrightarrow> b < 1024 \<Longrightarrow> e \<le> f \<Longrightarrow> f < 1024 \<Longrightarrow> b + a * 1024 + (e + 64) * 1024 < 4294967296"
    for a b e f :: nat by (simp add: algebra_simps)
  have v: "unat (?v AND 0x03FF) = unat c mod 1024"
    unfolding and_masks_u32 lo using mod_mult_self3 [of 55 1024 "unat c mod 1024"] by simp
  have u1: "unat (?u AND 0x003F) = d div 1024 mod 64"
    unfolding and_masks_u32 hi using mod_mult_self3 [of 864 64 "d div 1024"] by simp
  have u2: "unat (?u AND 0x03C0) = d div 1024 div 64 * 64"
  proof -
    have "d div 1024 div 64 < 16" using dm by simp
    moreover have "(0xD800 + d div 1024) div 64 = 864 + d div 1024 div 64" by simp
    moreover have "(864 + d div 1024 div 64) mod 16 = d div 1024 div 64 mod 16"
      using mod_mult_self3 [of 54 16 "d div 1024 div 64"] by simp
    ultimately show ?thesis by (simp add: unat_middle_masks hi)
  qed
  have p1: "unat (push_bit 10 (?u AND 0x003F)) = d div 1024 mod 64 * 1024"
    using unat_push32 [of "?u AND 0x003F" 10] m(1) [of "d div 1024"] by (simp add: u1)
  have s2: "unat ((?u AND 0x03C0) + 0x0040) = d div 1024 div 64 * 64 + 64"
    using dm by (subst unat_plus32) (simp_all add: u2)
  have p2: "unat (push_bit 10 ((?u AND 0x03C0) + 0x0040)) = (d div 1024 div 64 * 64 + 64) * 1024"
    using unat_push32 [of "(?u AND 0x03C0) + 0x0040" 10] dm by (simp add: s2)
  have a1: "unat ((?v AND 0x03FF) + push_bit 10 (?u AND 0x003F)) = unat c mod 1024 + d div 1024 mod 64 * 1024"
    using m(1) [of "d div 1024"] m(3) [of "unat c"] by (subst unat_plus32) (simp_all only: v p1)
  have a2: "unat ((?v AND 0x03FF) + push_bit 10 (?u AND 0x003F) + push_bit 10 ((?u AND 0x03C0) + 0x0040))
      = unat c mod 1024 + d div 1024 mod 64 * 1024 + (d div 1024 div 64 * 64 + 64) * 1024"
  proof (subst unat_plus32)
    show "unat ((?v AND 0x03FF) + push_bit 10 (?u AND 0x003F)) + unat (push_bit 10 ((?u AND 0x03C0) + 0x0040)) < 4294967296"
      unfolding a1 p2 by (rule bound [OF m(1) m(3) div_times_less_eq_dividend dm])
  qed (simp only: a1 p2)
  have "unat c mod 1024 = d mod 1024" unfolding d(2) using mod_mult_self3 [of 64 1024 d] by (simp add: add.commute)
  have "unat c mod 1024 + d div 1024 mod 64 * 1024 + (d div 1024 div 64 * 64 + 64) * 1024 = unat c"
  proof -
    have "d div 1024 div 64 * 64 + d div 1024 mod 64 = d div 1024" "d div 1024 * 1024 + d mod 1024 = d" by simp_all
    moreover have "q * 64 + r = k \<Longrightarrow> k * 1024 + n = d \<Longrightarrow> n + r * 1024 + (q * 64 + 64) * 1024 = d + 65536" for q r k n
      by (simp add: algebra_simps)
    ultimately show ?thesis using d(2) \<open>unat c mod 1024 = d mod 1024\<close> by metis
  qed
  with a2 have "(?v AND 0x03FF) + push_bit 10 (?u AND 0x003F) + push_bit 10 ((?u AND 0x03C0) + 0x0040) = c"
    by (simp add: word_unat_eq_iff)
  with w sur show ?thesis by (simp add: Let_def)
qed

subsection \<open>Text as a list of characters\<close>

text \<open>The characters that text may consist of: Unicode scalar values except the two non-characters that \<open>READ_UTF8\<close> replaces.\<close>

definition unichar :: "u32 \<Rightarrow> bool" where
  "unichar c \<longleftrightarrow> unat c < 0x110000 \<and> utf8_fix c = c"

definition utf8 :: "u32 list \<Rightarrow> u8 list" where
  "utf8 cs = concat (map WRITE_UTF8 cs)"

definition utf16 :: "bool \<Rightarrow> u32 list \<Rightarrow> u8 list" where
  "utf16 le cs = concat (map (WRITE_UTF16 le) cs)"

definition encode :: "enc \<Rightarrow> u32 list \<Rightarrow> u8 list" where
  "encode e cs = (case e of SQLITE_UTF8 \<Rightarrow> utf8 cs | SQLITE_UTF16LE \<Rightarrow> utf16 True cs | SQLITE_UTF16BE \<Rightarrow> utf16 False cs)"

lemma unicharD:
  assumes "unichar c"
  shows "unat c < 0x110000" "utf8_fix c = c" "\<not> (0xD800 \<le> unat c \<and> unat c < 0xE000)"
proof -
  show "unat c < 0x110000" and f: "utf8_fix c = c" using assms by (simp_all add: unichar_def)
  show "\<not> (0xD800 \<le> unat c \<and> unat c < 0xE000)"
  proof
    assume a: "0xD800 \<le> unat c \<and> unat c < 0xE000"
    with f have "c = 0xFFFD" by (simp add: utf8_fix_def)
    with a show False by simp
  qed
qed

lemma WRITE_UTF8_not_Nil [simp]: "WRITE_UTF8 c \<noteq> []"
  by (simp add: WRITE_UTF8_def)

lemma no_cont_iff: "no_cont (b # z) \<longleftrightarrow> \<not> (128 \<le> unat b \<and> unat b < 192)"
  by (simp add: no_cont_def is_cont_iff)

lemma no_cont_WRITE: "no_cont (WRITE_UTF8 c @ z)"
proof -
  have "unat (ucast (c AND 0xFF) :: u8) < 128" if "unat c < 128"
    using that by (simp add: unat_ucast8 and_masks_u32)
  then have "\<not> 128 \<le> unat (ucast (c AND 0xFF) :: u8)" if "unat c < 128" using that by fastforce
  then show ?thesis by (auto simp add: WRITE_UTF8_def no_cont_iff lead_bytes word_less_nat_alt)
qed

lemma no_cont_utf8: "no_cont (utf8 cs)"
  by (cases cs) (simp_all add: utf8_def no_cont_WRITE, simp add: no_cont_def)

lemma WRITE_UTF16_not_Nil [simp]: "WRITE_UTF16 le c \<noteq> []"
  by (simp add: WRITE_UTF16_def WRITE_UTF16LE_def WRITE_UTF16BE_def)

lemma ascii_WRITE:
  fixes c :: u8
  assumes "unat c < 128"
  shows "unichar (ucast c)" "WRITE_UTF8 (ucast c) = [c]" "WRITE_UTF16LE (ucast c) = [c, 0]" "WRITE_UTF16BE (ucast c) = [0, c]"
proof -
  have u: "unat (ucast c :: u32) = unat c" by (rule unat_ucast32)
  have m: "ucast c AND 0xFF = (ucast c :: u32)" "drop_bit 8 (ucast c :: u32) = 0"
    using assms by (simp_all add: word_unat_eq_iff and_masks_u32 unat_drop_bit u)
  have b: "ucast (ucast c :: u32) = c" using assms by (simp add: word_unat_eq_iff unat_ucast8 u)
  have lt: "ucast c < (0x80 :: u32)" "ucast c \<le> (0xFFFF :: u32)"
    using assms by (simp_all add: word_less_nat_alt word_le_nat_alt u)
  show "WRITE_UTF8 (ucast c) = [c]" "WRITE_UTF16LE (ucast c) = [c, 0]" "WRITE_UTF16BE (ucast c) = [0, c]"
    by (simp_all add: WRITE_UTF8_def WRITE_UTF16LE_def WRITE_UTF16BE_def m b lt)
  show "unichar (ucast c)" using assms by (simp add: unichar_def u utf8_fix_def)
qed

lemma utf8_to_16_chars: "list_all unichar cs \<Longrightarrow> utf8_to_16 (WRITE_UTF16 le) (utf8 cs) = utf16 le cs"
proof (induction cs)
  case Nil
  then show ?case by (simp add: utf8_def utf16_def utf8_to_16.simps)
next
  case (Cons c cs)
  then have c: "unat c < 0x110000" "utf8_fix c = c" by (simp_all add: unicharD)
  have eq: "utf8 (c # cs) = WRITE_UTF8 c @ utf8 cs" by (simp add: utf8_def)
  have "READ_UTF8 (utf8 (c # cs)) = (c, utf8 cs)"
    using READ_WRITE_UTF8 [OF c(1) no_cont_utf8 [of cs]] c(2) eq by simp
  moreover have "utf8 (c # cs) \<noteq> []" using eq by simp
  ultimately show ?case using Cons by (subst utf8_to_16.simps) (simp add: utf16_def)
qed

lemma utf16_to_8_chars: "list_all unichar cs \<Longrightarrow> utf16_to_8 le (utf16 le cs) = utf8 cs"
proof (induction cs)
  case Nil
  then show ?case by (simp add: utf8_def utf16_def utf16_to_8.simps)
next
  case (Cons c cs)
  then have c: "unichar c" by simp
  have eq: "utf16 le (c # cs) = WRITE_UTF16 le c @ utf16 le cs" by (simp add: utf16_def)
  have "READ_UTF16 le (utf16 le (c # cs)) = (c, utf16 le cs)"
    using READ_WRITE_UTF16 [OF unicharD(1) [OF c] unicharD(3) [OF c]] eq by simp
  moreover have "utf16 le (c # cs) \<noteq> []" using eq by simp
  ultimately show ?case using Cons by (subst utf16_to_8.simps) (simp add: utf8_def)
qed

lemma even_utf16: "even (length (utf16 le cs))"
  by (induction cs) (simp_all add: utf16_def WRITE_UTF16_def WRITE_UTF16LE_def WRITE_UTF16BE_def)

lemma even_part_even: "even (length z) \<Longrightarrow> even_part z = z"
  by (simp add: even_part_def)

lemma swap16_append: "even (length y) \<Longrightarrow> swap16 (y @ z) = swap16 y @ swap16 z"
  by (induction y rule: swap16.induct) simp_all

lemma swap16_swap16 [simp]: "swap16 (swap16 z) = z"
  by (induction z rule: swap16.induct) simp_all

lemma swap16_utf16: "swap16 (utf16 le cs) = utf16 (\<not> le) cs"
proof (induction cs)
  case Nil
  then show ?case by (simp add: utf16_def)
next
  case (Cons c cs)
  have "even (length (WRITE_UTF16 le c))" "swap16 (WRITE_UTF16 le c) = WRITE_UTF16 (\<not> le) c"
    by (simp_all add: WRITE_UTF16_def WRITE_UTF16LE_def WRITE_UTF16BE_def)
  with Cons show ?case by (simp add: utf16_def swap16_append)
qed

text \<open>
  C34. Translating the encoding of a list of characters to another encoding gives exactly the encoding of the
  same characters there, for every pair of different encodings: \<open>sqlite3VdbeMemTranslate\<close> neither loses nor
  alters a character, and translating back restores the bytes.
\<close>

theorem VdbeMemTranslate_roundtrip:
  assumes "list_all unichar cs" "e \<noteq> e'"
  shows "sqlite3VdbeMemTranslate False \<lparr>mz = encode e cs, menc = e\<rparr> e' = Some \<lparr>mz = encode e' cs, menc = e'\<rparr>"
proof -
  have w: "WRITE_UTF16LE = WRITE_UTF16 True" "WRITE_UTF16BE = WRITE_UTF16 False" by (simp_all add: WRITE_UTF16_def)
  show ?thesis using assms(2)
    by (cases e; cases e')
      (simp_all add: sqlite3VdbeMemTranslate_def encode_def w utf8_to_16_chars [OF assms(1)]
        utf16_to_8_chars [OF assms(1)] even_part_even even_utf16 swap16_utf16)
qed

theorem VdbeMemTranslate_roundtrip_witness:
  "sqlite3VdbeMemTranslate False \<lparr>mz = encode SQLITE_UTF8 [0x41, 0xE9, 0x1F600], menc = SQLITE_UTF8\<rparr> SQLITE_UTF16LE
    = Some \<lparr>mz = encode SQLITE_UTF16LE [0x41, 0xE9, 0x1F600], menc = SQLITE_UTF16LE\<rparr>
   \<and> encode SQLITE_UTF16LE [0x41, 0xE9, 0x1F600] = [0x41, 0, 0xE9, 0, 0x3D, 0xD8, 0, 0xDE]"
proof
  show "sqlite3VdbeMemTranslate False \<lparr>mz = encode SQLITE_UTF8 [0x41, 0xE9, 0x1F600], menc = SQLITE_UTF8\<rparr> SQLITE_UTF16LE
    = Some \<lparr>mz = encode SQLITE_UTF16LE [0x41, 0xE9, 0x1F600], menc = SQLITE_UTF16LE\<rparr>"
    by (rule VdbeMemTranslate_roundtrip) (simp_all add: unichar_def utf8_fix_def)
  show "encode SQLITE_UTF16LE [0x41, 0xE9, 0x1F600] = [0x41, 0, 0xE9, 0, 0x3D, 0xD8, 0, 0xDE]"
    by code_simp
qed

subsection \<open>The output buffer\<close>

lemma read_cont_value: "length (snd (read_cont c z)) = length z \<Longrightarrow> fst (read_cont c z) = c"
proof (cases z)
  case (Cons b y)
  moreover assume "length (snd (read_cont c z)) = length z"
  ultimately show ?thesis
    using read_cont_length [of "push_bit 6 c + (0x3f AND ucast b)" y] by (auto split: if_splits)
qed simp

lemma Trans1_small: "k < 64 \<Longrightarrow> sqlite3Utf8Trans1 ! k < 32"
proof -
  have "list_all (\<lambda>v. v < 32) sqlite3Utf8Trans1" "length sqlite3Utf8Trans1 = 64" by code_simp+
  then show "k < 64 \<Longrightarrow> sqlite3Utf8Trans1 ! k < 32" by (simp add: list_all_length)
qed

lemma READ_UTF8_one_byte:
  assumes "length (snd (READ_UTF8 (b # z))) = length z"
  shows "unat (fst (READ_UTF8 (b # z))) < 65536"
proof (cases "unat b < 192")
  case True
  then show ?thesis by (simp add: READ_ascii unat_ucast32)
next
  case False
  define k where "k = unat b - 192"
  have "unat b < 256" using unsigned_less [of b, where ?'a = nat] by simp
  with False have k: "unat b = 192 + k" "k < 64" by (simp_all add: k_def)
  define v where "v = sqlite3Utf8Trans1 ! k"
  have v: "v < 32" using Trans1_small [OF k(2)] by (simp add: v_def)
  have u: "unat (of_nat v :: u32) = v" using v by (intro unat_of_nat_less) simp
  have "fst (read_cont (of_nat v :: u32) z) = of_nat v"
    using assms by (intro read_cont_value) (simp add: READ_lead [OF k] v_def split: prod.splits)
  then have "fst (READ_UTF8 (b # z)) = 0xFFFD"
    using v u by (auto simp: READ_lead [OF k] v_def [symmetric] split: prod.splits)
  then show ?thesis by simp
qed

lemma WRITE_UTF16_length: "length (WRITE_UTF16 le c) = (if unat c < 65536 then 2 else 4)"
  by (auto simp: WRITE_UTF16_def WRITE_UTF16LE_def WRITE_UTF16BE_def word_le_nat_alt)

lemma utf8_to_16_length: "length (utf8_to_16 (WRITE_UTF16 le) z) \<le> 2 * length z"
proof (induction "length z" arbitrary: z rule: less_induct)
  case less
  show ?case
  proof (cases z)
    case Nil
    then show ?thesis by (simp add: utf8_to_16.simps)
  next
    case (Cons b y)
    let ?r = "snd (READ_UTF8 z)"
    have r: "length ?r < length z" using Cons by (intro READ_UTF8_length) simp
    have "length (WRITE_UTF16 le (fst (READ_UTF8 z))) \<le> 2 * (length z - length ?r)"
    proof (cases "length ?r = length y")
      case True
      then show ?thesis using READ_UTF8_one_byte [of b y] Cons by (simp add: WRITE_UTF16_length)
    next
      case False
      then have "2 \<le> length z - length ?r" using r Cons by simp
      then show ?thesis by (simp add: WRITE_UTF16_length)
    qed
    moreover have "length (utf8_to_16 (WRITE_UTF16 le) ?r) \<le> 2 * length ?r" using less r by blast
    ultimately show ?thesis using r Cons by (subst utf8_to_16.simps) simp
  qed
qed

lemma READ_UTF16_consumes: "even (length z) \<Longrightarrow> z \<noteq> [] \<Longrightarrow>
  length (snd (READ_UTF16 le z)) + 2 \<le> length z \<and> even (length (snd (READ_UTF16 le z)))"
  by (cases "(le, z)" rule: READ_UTF16.cases) (auto simp: Let_def split: list.splits)

lemma utf16_to_8_length: "even (length z) \<Longrightarrow> length (utf16_to_8 le z) \<le> 2 * length z"
proof (induction "length z" arbitrary: z rule: less_induct)
  case less
  show ?case
  proof (cases "z = []")
    case True
    then show ?thesis by (simp add: utf16_to_8.simps)
  next
    case False
    let ?r = "snd (READ_UTF16 le z)"
    have r: "length ?r + 2 \<le> length z" "even (length ?r)" using READ_UTF16_consumes [OF less.prems False] by auto
    have "length (WRITE_UTF8 (fst (READ_UTF16 le z))) \<le> 4" by (simp add: WRITE_UTF8_def)
    moreover have "length (utf16_to_8 le ?r) \<le> 2 * length ?r" using less.hyps r by simp
    ultimately show ?thesis using r False by (subst utf16_to_8.simps) simp
  qed
qed

definition terminator :: "enc \<Rightarrow> nat" where
  "terminator e = (if e = SQLITE_UTF8 then 1 else 2)"

text \<open>
  For every value, malformed text included, the translated text and its terminator fit in the buffer that
  \<open>sqlite3VdbeMemTranslate\<close> allocates when one of the encodings is UTF-8.
\<close>

theorem VdbeMemTranslate_fits:
  assumes "sqlite3VdbeMemTranslate oom m desired = Some m'" "menc m = SQLITE_UTF8 \<longleftrightarrow> desired \<noteq> SQLITE_UTF8"
  shows "length (mz m') + terminator desired \<le> translate_buf m desired"
proof -
  have w: "WRITE_UTF16LE = WRITE_UTF16 True" "WRITE_UTF16BE = WRITE_UTF16 False" by (simp_all add: WRITE_UTF16_def)
  have e: "length (even_part z) = 2 * (length z div 2)" for z by (simp add: even_part_def)
  show ?thesis using assms utf8_to_16_length [of _ "mz m"] utf16_to_8_length [of "even_part (mz m)"]
    by (auto simp: sqlite3VdbeMemTranslate_def translate_buf_def terminator_def w e split: if_splits)
qed

theorem VdbeMemTranslate_fits_witness:
  "\<exists>m'. sqlite3VdbeMemTranslate False \<lparr>mz = [0x3F, 0x20, 0x41], menc = SQLITE_UTF16LE\<rparr> SQLITE_UTF8 = Some m'
     \<and> length (mz m') + terminator SQLITE_UTF8 \<le> translate_buf \<lparr>mz = [0x3F, 0x20, 0x41], menc = SQLITE_UTF16LE\<rparr> SQLITE_UTF8"
proof -
  let ?m = "\<lparr>mz = [0x3F, 0x20, 0x41], menc = SQLITE_UTF16LE\<rparr>"
  obtain m' where m': "sqlite3VdbeMemTranslate False ?m SQLITE_UTF8 = Some m'"
    by (simp add: sqlite3VdbeMemTranslate_def)
  then show ?thesis using VdbeMemTranslate_fits [OF m'] by simp
qed

subsection \<open>Character counts\<close>

lemma skip_cont_read: "skip_cont z = snd (read_cont c z)"
  by (induction c z rule: read_cont.induct) auto

lemma SKIP_UTF8_read: "z \<noteq> [] \<Longrightarrow> SQLITE_SKIP_UTF8 z = snd (READ_UTF8 z)"
proof (cases z)
  case (Cons b y)
  have le: "0xc0 \<le> (ucast b :: u32) \<longleftrightarrow> 0xc0 \<le> b" by (simp add: word_le_nat_alt unat_ucast32)
  show ?thesis using skip_cont_read [of y "of_nat (sqlite3Utf8Trans1 ! unat ((ucast b :: u32) - 0xc0))"]
    by (simp add: Cons SQLITE_SKIP_UTF8_def READ_UTF8_def le Let_def split: prod.split)
qed simp

lemma WRITE_UTF8_nonzero: "c \<noteq> 0 \<Longrightarrow> unat c < 0x110000 \<Longrightarrow> cat (WRITE_UTF8 c @ z) 0 \<noteq> 0"
proof -
  assume c: "c \<noteq> 0" "unat c < 0x110000"
  have c1: "unat c \<noteq> 0" using c(1) by (simp only: unat_eq_0_iff not_False_eq_True)
  have "unat (ucast (c AND 0xFF) :: u8) \<noteq> 0" if "unat c < 128"
    using that c1 unfolding unat_ucast8 and_masks_u32 by simp
  then have "unat (cat (WRITE_UTF8 c @ z) 0) \<noteq> 0"
    by (simp add: WRITE_UTF8_def lead_bytes word_less_nat_alt del: unsigned_eq_0_iff)
  then show "cat (WRITE_UTF8 c @ z) 0 \<noteq> 0" by (metis unsigned_0)
qed

lemma Utf8CharLen_loop_chars:
  assumes "list_all (\<lambda>c. unichar c \<and> c \<noteq> 0) cs" "nb = None \<or> nb = Some (int (length (utf8 cs)))"
    "list_all unichar ds"
  shows "Utf8CharLen_loop (utf8 (if nb = None then cs else cs @ ds)) nb = length cs"
  using assms
proof (induction cs arbitrary: nb)
  case Nil
  then show ?case by (subst Utf8CharLen_loop.simps) (auto simp: utf8_def)
next
  case (Cons c cs)
  define ys where "ys = (if nb = None then cs else cs @ ds)"
  have c: "unat c < 0x110000" "utf8_fix c = c" "c \<noteq> 0" using Cons.prems(1) by (simp_all add: unicharD)
  have eq: "utf8 (c # ys) = WRITE_UTF8 c @ utf8 ys" "length (utf8 (c # cs)) = length (WRITE_UTF8 c) + length (utf8 cs)"
    by (simp_all add: utf8_def)
  have skip: "SQLITE_SKIP_UTF8 (utf8 (c # ys)) = utf8 ys"
    using READ_WRITE_UTF8 [OF c(1) no_cont_utf8 [of ys]] c(2) eq(1) by (subst SKIP_UTF8_read) simp_all
  have pos: "0 < int (length (WRITE_UTF8 c)) + int n" for n
    using WRITE_UTF8_not_Nil [of c] by (cases "WRITE_UTF8 c") auto
  define nb' where "nb' = map_option (\<lambda>k. k - int (length (utf8 (c # ys)) - length (utf8 ys))) nb"
  have nb': "nb' = None \<or> nb' = Some (int (length (utf8 cs)))" "nb' = None \<longleftrightarrow> nb = None"
    using Cons.prems(2) eq by (auto simp: nb'_def)
  have "Utf8CharLen_loop (utf8 (c # ys)) nb = Suc (Utf8CharLen_loop (utf8 ys) nb')"
    using WRITE_UTF8_nonzero [OF c(3,1), of "utf8 ys"] Cons.prems(2) pos
    by (subst Utf8CharLen_loop.simps) (auto simp: eq skip [unfolded eq] nb'_def split: option.splits)
  moreover have "Utf8CharLen_loop (utf8 ys) nb' = length cs"
    using Cons.IH [OF _ nb'(1)] Cons.prems nb'(2) by (simp add: ys_def)
  ultimately have "Utf8CharLen_loop (utf8 (c # ys)) nb = Suc (length cs)" by simp
  then show ?case by (cases nb) (simp_all add: ys_def)
qed

text \<open>
  \<open>sqlite3Utf8CharLen\<close> counts the characters of zero-terminated UTF-8 text, and with a byte count that ends
  at a character boundary the characters in front of it.
\<close>

theorem Utf8CharLen_counts:
  assumes "list_all (\<lambda>c. unichar c \<and> c \<noteq> 0) cs" "list_all unichar ds"
  shows "sqlite3Utf8CharLen (utf8 cs) (- 1) = length cs
    \<and> sqlite3Utf8CharLen (utf8 (cs @ ds)) (int (length (utf8 cs))) = length cs"
  using Utf8CharLen_loop_chars [OF assms(1) _ assms(2), of None]
    Utf8CharLen_loop_chars [OF assms(1) _ assms(2), of "Some (int (length (utf8 cs)))"]
  by (simp add: sqlite3Utf8CharLen_def)

theorem Utf8CharLen_counts_witness:
  "sqlite3Utf8CharLen (utf8 [0x41, 0x20AC]) (- 1) = 2 \<and> sqlite3Utf8CharLen (utf8 ([0x41, 0x20AC] @ [0x42])) 4 = 2"
proof -
  have l: "int (length (utf8 [0x41, 0x20AC])) = 4" by code_simp
  have "sqlite3Utf8CharLen (utf8 [0x41, 0x20AC]) (- 1) = length [0x41 :: u32, 0x20AC]
    \<and> sqlite3Utf8CharLen (utf8 ([0x41, 0x20AC] @ [0x42])) (int (length (utf8 [0x41, 0x20AC]))) = length [0x41 :: u32, 0x20AC]"
    by (rule Utf8CharLen_counts) (simp_all add: unichar_def utf8_fix_def)
  then show ?thesis unfolding l by simp
qed

end
