(* ===== verification/Complete.thy ===== *)
theory Complete
  imports Quoting Utf
begin

text \<open>
  \<open>complete.c\<close> (\<open>src/src/db/sqlite3/core/sqlite3.c\<close>): \<open>sqlite3_complete\<close> decides whether a text ends a complete SQL
  statement, with a scanner for tokens and a state machine of eight states for the bodies of triggers.  A C string is the
  list of its bytes before the terminator, so the empty list is where the code finds the zero byte.
\<close>

unbundle bit_operations_syntax

subsection \<open>The scanner and the state machine\<close>

datatype complete_tok = tkSEMI | tkWS | tkOTHER | tkEXPLAIN | tkCREATE | tkTEMP | tkTRIGGER | tkEND

fun tok_no :: "complete_tok \<Rightarrow> nat" where
  "tok_no tkSEMI = 0"
| "tok_no tkWS = 1"
| "tok_no tkOTHER = 2"
| "tok_no tkEXPLAIN = 3"
| "tok_no tkCREATE = 4"
| "tok_no tkTEMP = 5"
| "tok_no tkTRIGGER = 6"
| "tok_no tkEND = 7"

definition complete_trans :: "nat list list" where
  "complete_trans =
    [[1, 0, 2, 3, 4, 2, 2, 2],
     [1, 1, 2, 3, 4, 2, 2, 2],
     [1, 2, 2, 2, 2, 2, 2, 2],
     [1, 3, 3, 2, 4, 2, 2, 2],
     [1, 4, 2, 2, 2, 4, 5, 2],
     [6, 5, 5, 5, 5, 5, 5, 5],
     [6, 6, 5, 5, 5, 5, 5, 7],
     [1, 7, 5, 5, 5, 5, 5, 5]]"

text \<open>What the body of the loop does: a token and the rest of the text, or one of the two early returns.\<close>

datatype scan = Tok complete_tok cstr | Return_0 | Return_start

text \<open>The inner loops: to the end of a C comment, to the end of the line, past a closing character.\<close>

fun skip_comment :: "cstr \<Rightarrow> cstr option" where
  "skip_comment [] = None"
| "skip_comment (c # z) = (if c = ch CHR ''*'' \<and> cat z 0 = ch CHR ''/'' then Some (tl z) else skip_comment z)"

fun skip_past :: "u8 \<Rightarrow> cstr \<Rightarrow> cstr option" where
  "skip_past q [] = None"
| "skip_past q (c # z) = (if c = q then Some z else skip_past q z)"

definition keyword_is :: "cstr \<Rightarrow> nat \<Rightarrow> string \<Rightarrow> bool" where
  "keyword_is zSql nId kw \<longleftrightarrow> nId = length kw \<and> sqlite3_strnicmp (Some zSql) (Some (cstring kw)) (int (length kw)) = 0"

definition keyword_token :: "cstr \<Rightarrow> nat \<Rightarrow> complete_tok" where
  "keyword_token zSql nId =
     (let c = cat zSql 0 in
      if c = ch CHR ''c'' \<or> c = ch CHR ''C'' then
        (if keyword_is zSql nId ''create'' then tkCREATE else tkOTHER)
      else if c = ch CHR ''t'' \<or> c = ch CHR ''T'' then
        (if keyword_is zSql nId ''trigger'' then tkTRIGGER
         else if keyword_is zSql nId ''temp'' then tkTEMP
         else if keyword_is zSql nId ''temporary'' then tkTEMP
         else tkOTHER)
      else if c = ch CHR ''e'' \<or> c = ch CHR ''E'' then
        (if keyword_is zSql nId ''end'' then tkEND
         else if keyword_is zSql nId ''explain'' then tkEXPLAIN
         else tkOTHER)
      else tkOTHER)"

definition complete_scan :: "u8 \<Rightarrow> cstr \<Rightarrow> scan" where
  "complete_scan c z =
     (if c = ch CHR '';'' then Tok tkSEMI z
      else if c = ch CHR '' '' \<or> c = 13 \<or> c = 9 \<or> c = 10 \<or> c = 12 then Tok tkWS z
      else if c = ch CHR ''/'' then
        (if cat z 0 \<noteq> ch CHR ''*'' then Tok tkOTHER z
         else case skip_comment (tl z) of None \<Rightarrow> Return_0 | Some z' \<Rightarrow> Tok tkWS z')
      else if c = ch CHR ''-'' then
        (if cat z 0 \<noteq> ch CHR ''-'' then Tok tkOTHER z
         else case skip_past 10 z of None \<Rightarrow> Return_start | Some z' \<Rightarrow> Tok tkWS z')
      else if c = ch CHR ''['' then
        (case skip_past (ch CHR '']'') z of None \<Rightarrow> Return_0 | Some z' \<Rightarrow> Tok tkOTHER z')
      else if c = 96 \<or> c = 34 \<or> c = 39 then
        (case skip_past c z of None \<Rightarrow> Return_0 | Some z' \<Rightarrow> Tok tkOTHER z')
      else if IdChar c then
        (let nId = length (takeWhile IdChar (c # z)) in Tok (keyword_token (c # z) nId) (drop nId (c # z)))
      else Tok tkOTHER z)"

lemma skip_comment_length: "skip_comment z = Some z' \<Longrightarrow> length z' \<le> length z"
  by (induction z) (auto split: if_splits)

lemma skip_past_length: "skip_past q z = Some z' \<Longrightarrow> length z' < length z"
  by (induction z) (auto split: if_splits)

lemma complete_scan_length: "complete_scan c z = Tok t z' \<Longrightarrow> length z' \<le> length z"
  using skip_comment_length [of "tl z" z'] skip_past_length [of _ z z']
  by (auto simp: complete_scan_def Let_def split: if_splits option.splits)
    (fastforce dest: less_imp_le)+

function complete_loop :: "nat \<Rightarrow> cstr \<Rightarrow> bool" where
  "complete_loop state [] = (state = 1)"
| "complete_loop state (c # z) =
     (case complete_scan c z of
        Return_0 \<Rightarrow> False
      | Return_start \<Rightarrow> state = 1
      | Tok token z' \<Rightarrow> complete_loop (complete_trans ! state ! tok_no token) z')"
  by pat_completeness auto
termination by (relation "measure (length \<circ> snd)") (auto dest: complete_scan_length)

definition sqlite3_complete :: "cstr \<Rightarrow> bool" where
  "sqlite3_complete zSql = complete_loop 0 zSql"

text \<open>
  \<open>sqlite3_complete16\<close>: \<open>rc\<close> is the result of \<open>sqlite3_initialize\<close>, and \<open>oom\<close> says that memory runs out in the
  conversion of the argument to UTF-8.
\<close>

definition sqlite3_complete16 :: "int \<Rightarrow> bool \<Rightarrow> u8 list \<Rightarrow> int" where
  "sqlite3_complete16 rc oom zSql =
     (if rc \<noteq> 0 then rc
      else (case sqlite3VdbeMemTranslate oom \<lparr>mz = zSql, menc = SQLITE_UTF16LE\<rparr> SQLITE_UTF8 of
              None \<Rightarrow> SQLITE_NOMEM
            | Some m \<Rightarrow> if sqlite3_complete (mz m) then 1 else 0) AND 0xff)"

subsection \<open>The automaton over tokens\<close>

text \<open>The tokens of a text; \<open>None\<close> when a comment, string or bracket is not closed.\<close>

function tokens :: "cstr \<Rightarrow> complete_tok list option" where
  "tokens [] = Some []"
| "tokens (c # z) =
     (case complete_scan c z of
        Return_0 \<Rightarrow> None
      | Return_start \<Rightarrow> Some []
      | Tok token z' \<Rightarrow> map_option (Cons token) (tokens z'))"
  by pat_completeness auto
termination by (relation "measure length") (auto dest: complete_scan_length)

definition run :: "nat \<Rightarrow> complete_tok list \<Rightarrow> nat" where
  "run s ts = foldl (\<lambda>s t. complete_trans ! s ! tok_no t) s ts"

lemma run_simps [simp]:
  "run s [] = s" "run s (t # ts) = run (complete_trans ! s ! tok_no t) ts" "run s (ts @ us) = run (run s ts) us"
  by (simp_all add: run_def)

lemma complete_loop_tokens:
  "complete_loop s z = (case tokens z of None \<Rightarrow> False | Some ts \<Rightarrow> run s ts = 1)"
  by (induction s z rule: complete_loop.induct) (auto split: scan.splits option.splits)

text \<open>Whitespace has no effect in any state.\<close>

abbreviation no_ws :: "complete_tok list \<Rightarrow> complete_tok list" where
  "no_ws ts \<equiv> filter (\<lambda>t. t \<noteq> tkWS) ts"

lemma trans_simps [simp]:
  "complete_trans ! 0 = [1, 0, 2, 3, 4, 2, 2, 2]" "complete_trans ! 1 = [1, 1, 2, 3, 4, 2, 2, 2]"
  "complete_trans ! 2 = [1, 2, 2, 2, 2, 2, 2, 2]" "complete_trans ! 3 = [1, 3, 3, 2, 4, 2, 2, 2]"
  "complete_trans ! 4 = [1, 4, 2, 2, 2, 4, 5, 2]" "complete_trans ! 5 = [6, 5, 5, 5, 5, 5, 5, 5]"
  "complete_trans ! Suc 0 = [1, 1, 2, 3, 4, 2, 2, 2]"
  "complete_trans ! 6 = [6, 6, 5, 5, 5, 5, 5, 7]" "complete_trans ! 7 = [1, 7, 5, 5, 5, 5, 5, 5]"
  by (simp_all add: complete_trans_def)

lemma states: "s < 8 \<longleftrightarrow> s \<in> {0, 1, 2, 3, 4, 5, 6, 7 :: nat}"
  by auto

lemma trans_less: "s < 8 \<Longrightarrow> complete_trans ! s ! tok_no t < 8"
  by (cases t) (auto simp: states nth_Cons')

lemma trans_ws: "s < 8 \<Longrightarrow> complete_trans ! s ! tok_no tkWS = s"
  by (auto simp: states)

lemma row_simps [simp]:
  "t \<noteq> tkSEMI \<Longrightarrow> [Suc 0, 2, 2, 2, 2, 2, 2, 2] ! tok_no t = (2 :: nat)"
  "t \<noteq> tkSEMI \<Longrightarrow> [6, 5, 5, 5, 5, 5, 5, 5] ! tok_no t = (5 :: nat)"
  by (cases t; simp)+

lemma run_no_ws: "s < 8 \<Longrightarrow> run s (no_ws ts) = run s ts"
proof (induction ts arbitrary: s)
  case (Cons t ts)
  then show ?case using trans_ws [of s] trans_less [of s t] by (cases "t = tkWS") simp_all
qed simp

subsection \<open>The language of complete texts\<close>

text \<open>
  A statement is a list of tokens without white space.  It begins the definition of a trigger when it starts with \<open>CREATE\<close>,
  any number of \<open>TEMP\<close> and \<open>TRIGGER\<close>, possibly after \<open>EXPLAIN\<close> and other words.  The definition of a trigger ends with
  the first \<open>END\<close> between two semicolons, any other statement with its first semicolon.
\<close>

definition trigger_head :: "complete_tok list \<Rightarrow> bool" where
  "trigger_head w \<longleftrightarrow>
     (\<exists>pre temps rest. w = pre @ tkCREATE # temps @ tkTRIGGER # rest \<and> set temps \<subseteq> {tkTEMP}
        \<and> (pre = [] \<or> (\<exists>os. pre = tkEXPLAIN # os \<and> set os \<subseteq> {tkOTHER})))"

definition ends_trigger :: "complete_tok list \<Rightarrow> bool" where
  "ends_trigger u \<longleftrightarrow> (\<exists>v. u = v @ [tkEND, tkSEMI] \<and> last (tkSEMI # v) = tkSEMI)"

definition statement :: "complete_tok list \<Rightarrow> bool" where
  "statement s \<longleftrightarrow>
     (\<exists>w. s = w @ [tkSEMI] \<and> tkSEMI \<notin> set w \<and> \<not> trigger_head w)
     \<or> (\<exists>w u. s = w @ tkSEMI # u \<and> tkSEMI \<notin> set w \<and> trigger_head w \<and> ends_trigger u
          \<and> (\<forall>v x. u = v @ x \<and> ends_trigger v \<longrightarrow> x = []))"

text \<open>The states of the machine in the head of a statement.\<close>

definition plain :: "complete_tok list \<Rightarrow> bool" where
  "plain w \<longleftrightarrow> set w \<inter> {tkSEMI, tkWS} = {}"

lemma plain_simps [simp]: "plain []" "plain (t # w) \<longleftrightarrow> t \<noteq> tkSEMI \<and> t \<noteq> tkWS \<and> plain w"
  by (auto simp: plain_def)

lemma run_5: "plain w \<Longrightarrow> run 5 w = 5"
  by (induction w) simp_all

lemma run_2: "plain w \<Longrightarrow> run 2 w = 2"
  by (induction w) simp_all

lemma skip_Cons:
  assumes "x \<noteq> k"
  shows "(\<exists>a r. x # w = a @ k # r \<and> set a \<subseteq> {x} \<and> P r) \<longleftrightarrow> (\<exists>a r. w = a @ k # r \<and> set a \<subseteq> {x} \<and> P r)" (is "?l \<longleftrightarrow> ?r")
proof
  assume ?l
  then obtain a r where *: "x # w = a @ k # r" "set a \<subseteq> {x}" "P r" by blast
  then obtain b where "a = x # b" using assms by (cases a) auto
  with * show ?r by auto
next
  assume ?r
  then obtain a r where "w = a @ k # r" "set a \<subseteq> {x}" "P r" by blast
  then show ?l by (intro exI [of _ "x # a"] exI [of _ r]) simp
qed

definition after_create :: "complete_tok list \<Rightarrow> bool" where
  "after_create w \<longleftrightarrow> (\<exists>a r. w = a @ tkTRIGGER # r \<and> set a \<subseteq> {tkTEMP} \<and> True)"

definition after_explain :: "complete_tok list \<Rightarrow> bool" where
  "after_explain w \<longleftrightarrow> (\<exists>a r. w = a @ tkCREATE # r \<and> set a \<subseteq> {tkOTHER} \<and> after_create r)"

lemma after_create_simps [simp]:
  "\<not> after_create []" "after_create (t # w) \<longleftrightarrow> t = tkTRIGGER \<or> t = tkTEMP \<and> after_create w"
proof -
  have "after_create (tkTEMP # w) = after_create w"
    unfolding after_create_def by (rule skip_Cons) simp
  moreover have "after_create (tkTRIGGER # w)" unfolding after_create_def by (intro exI [of _ "[]"] exI [of _ w]) simp
  moreover have "\<not> after_create (t # w)" if "t \<noteq> tkTRIGGER" "t \<noteq> tkTEMP"
    using that by (auto simp: after_create_def Cons_eq_append_conv)
  ultimately show "after_create (t # w) \<longleftrightarrow> t = tkTRIGGER \<or> t = tkTEMP \<and> after_create w" by blast
qed (simp add: after_create_def)

lemma after_explain_simps [simp]:
  "\<not> after_explain []" "after_explain (t # w) \<longleftrightarrow> t = tkCREATE \<and> after_create w \<or> t = tkOTHER \<and> after_explain w"
proof -
  have "after_explain (tkOTHER # w) = after_explain w"
    unfolding after_explain_def by (rule skip_Cons) simp
  moreover have "after_explain (tkCREATE # w) = after_create w"
    by (auto simp: after_explain_def Cons_eq_append_conv intro: exI [of _ "[]"])
  moreover have "\<not> after_explain (t # w)" if "t \<noteq> tkCREATE" "t \<noteq> tkOTHER"
    using that by (auto simp: after_explain_def Cons_eq_append_conv)
  ultimately show "after_explain (t # w) \<longleftrightarrow> t = tkCREATE \<and> after_create w \<or> t = tkOTHER \<and> after_explain w" by blast
qed (simp add: after_explain_def)

lemma trigger_head_iff:
  "trigger_head w \<longleftrightarrow> (\<exists>v. w = tkCREATE # v \<and> after_create v) \<or> (\<exists>v. w = tkEXPLAIN # v \<and> after_explain v)"
proof
  assume "trigger_head w"
  then obtain pre temps rest where w: "w = pre @ tkCREATE # temps @ tkTRIGGER # rest" "set temps \<subseteq> {tkTEMP}"
    and pre: "pre = [] \<or> (\<exists>os. pre = tkEXPLAIN # os \<and> set os \<subseteq> {tkOTHER})" by (auto simp: trigger_head_def)
  have c: "after_create (temps @ tkTRIGGER # rest)" using w(2) by (auto simp: after_create_def)
  from pre show "(\<exists>v. w = tkCREATE # v \<and> after_create v) \<or> (\<exists>v. w = tkEXPLAIN # v \<and> after_explain v)"
  proof
    assume "\<exists>os. pre = tkEXPLAIN # os \<and> set os \<subseteq> {tkOTHER}"
    then obtain os where os: "pre = tkEXPLAIN # os" "set os \<subseteq> {tkOTHER}" by blast
    then have "after_explain (os @ tkCREATE # temps @ tkTRIGGER # rest)" using c by (auto simp: after_explain_def)
    then show ?thesis using w(1) os(1) by simp
  qed (use c w(1) in simp)
next
  assume "(\<exists>v. w = tkCREATE # v \<and> after_create v) \<or> (\<exists>v. w = tkEXPLAIN # v \<and> after_explain v)"
  then show "trigger_head w"
  proof
    assume "\<exists>v. w = tkCREATE # v \<and> after_create v"
    then obtain a r where "w = [] @ tkCREATE # a @ tkTRIGGER # r" "set a \<subseteq> {tkTEMP}" by (auto simp: after_create_def)
    then show ?thesis unfolding trigger_head_def by blast
  next
    assume "\<exists>v. w = tkEXPLAIN # v \<and> after_explain v"
    then obtain b a r where "w = (tkEXPLAIN # b) @ tkCREATE # a @ tkTRIGGER # r" "set a \<subseteq> {tkTEMP}" "set b \<subseteq> {tkOTHER}"
      by (auto simp: after_explain_def after_create_def)
    then show ?thesis unfolding trigger_head_def by blast
  qed
qed

lemma run_4: "plain w \<Longrightarrow> run 4 w = 5 \<longleftrightarrow> after_create w"
proof (induction w)
  case (Cons t w)
  then show ?case using run_5 [of w] run_2 [of w] by (cases t) simp_all
qed simp

lemma run_3: "plain w \<Longrightarrow> run 3 w = 5 \<longleftrightarrow> after_explain w"
proof (induction w)
  case (Cons t w)
  then show ?case using run_4 [of w] run_2 [of w] by (cases t) simp_all
qed simp

lemma run_1: "plain w \<Longrightarrow> run 1 w = 5 \<longleftrightarrow> trigger_head w"
  using run_2 [of "tl w"] run_3 [of "tl w"] run_4 [of "tl w"]
  by (cases w; cases "hd w") (auto simp: trigger_head_iff)

lemma run_inside: "plain w \<Longrightarrow> s \<in> {2, 3, 4, 5} \<Longrightarrow> run s w \<in> {2, 3, 4, 5}"
proof (induction w arbitrary: s)
  case (Cons t w)
  have "complete_trans ! s ! tok_no t \<in> {2, 3, 4, 5}" using Cons.prems by (cases t) auto
  then show ?case using Cons by simp
qed simp

lemma run_head: "plain w \<Longrightarrow> w \<noteq> [] \<Longrightarrow> run 1 w \<in> {2, 3, 4, 5}"
proof (cases w)
  case (Cons t v)
  assume "plain w"
  then have "complete_trans ! 1 ! tok_no t \<in> {2, 3, 4, 5}" using Cons by (cases t) auto
  then show ?thesis using run_inside [of v] Cons \<open>plain w\<close> by simp
qed simp

lemma run_statement:
  assumes "plain w"
  shows "run 1 (w @ [tkSEMI]) = (if trigger_head w then 6 else 1)"
  using run_head [OF assms] run_1 [OF assms] by (cases "w = []") (auto simp: trigger_head_iff)

subsubsection \<open>The end of a trigger\<close>

text \<open>After the first semicolon, as long as the end has not been seen, the last tokens determine the state.\<close>

lemma run_6:
  assumes "\<not> (\<exists>v x. u = v @ x \<and> ends_trigger v)" "tkWS \<notin> set u"
  shows "run 6 u = (if last (tkSEMI # u) = tkSEMI then 6
                    else if last u = tkEND \<and> last (tkSEMI # butlast u) = tkSEMI then 7 else 5)"
  using assms
proof (induction u rule: rev_induct)
  case (snoc t u)
  have e: "\<not> ends_trigger v" if "u @ [t] = v @ x" for v x using snoc.prems(1) that by blast
  have "\<not> (\<exists>v x. u = v @ x \<and> ends_trigger v)" using e [of _ "_ @ [t]"] by auto
  note ih = snoc.IH [OF this]
  show ?case
  proof (cases "last (tkSEMI # u) = tkSEMI")
    case True
    then show ?thesis using ih snoc.prems(2) by (cases t) simp_all
  next
    case False
    then have u: "u \<noteq> []" by auto
    show ?thesis
    proof (cases "last u = tkEND \<and> last (tkSEMI # butlast u) = tkSEMI")
      case True
      then have "u = butlast u @ [tkEND]" using append_butlast_last_id [OF u] by simp
      then have "u @ [tkSEMI] = butlast u @ [tkEND, tkSEMI]" by simp
      then have "ends_trigger (u @ [tkSEMI])" using True unfolding ends_trigger_def by blast
      then have "t \<noteq> tkSEMI" using e [of "u @ [t]" "[]"] by auto
      then show ?thesis using ih False True snoc.prems(2) u by (cases t) simp_all
    next
      case False': False
      then show ?thesis using ih False snoc.prems(2) u by (cases t) simp_all
    qed
  qed
qed simp

lemma run_trigger_end:
  assumes "ends_trigger u" "\<And>v x. u = v @ x \<Longrightarrow> ends_trigger v \<Longrightarrow> x = []" "tkWS \<notin> set u"
  shows "run 6 u = 1"
proof -
  obtain v where v: "u = v @ [tkEND, tkSEMI]" "last (tkSEMI # v) = tkSEMI" using assms(1) by (auto simp: ends_trigger_def)
  have "\<not> ends_trigger w" if "v = w @ x" for w x using assms(2) [of w "x @ [tkEND, tkSEMI]"] v(1) that by auto
  then have "run 6 v = 6" using run_6 [of v] v assms(3) by auto
  then show ?thesis by (simp add: v(1))
qed

lemma run_6_split:
  assumes "run 6 u = 1" "tkWS \<notin> set u"
  obtains v x where "u = v @ x" "ends_trigger v" "\<And>w y. v = w @ y \<Longrightarrow> ends_trigger w \<Longrightarrow> y = []"
proof -
  let ?P = "\<lambda>v. ends_trigger v \<and> (\<exists>x. u = v @ x)"
  have "\<exists>v. ?P v"
  proof (rule ccontr)
    assume "\<not> (\<exists>v. ?P v)"
    then have "\<not> (\<exists>v x. u = v @ x \<and> ends_trigger v)" by blast
    from run_6 [OF this assms(2)] assms(1) show False by (auto split: if_splits)
  qed
  then obtain v where v: "?P v" "\<And>w. ?P w \<Longrightarrow> length v \<le> length w" using ex_has_least_nat [of ?P _ length] by blast
  show ?thesis
  proof (rule that)
    show "u = v @ drop (length v) u" "ends_trigger v" using v(1) by auto
    fix w y assume "v = w @ y" "ends_trigger w"
    then show "y = []" using v(1) v(2) [of w] by auto
  qed
qed

lemma run_statement_1:
  assumes "statement s" "tkWS \<notin> set s"
  shows "run 1 s = 1" "s \<noteq> []"
proof -
  show "s \<noteq> []" using assms(1) by (auto simp: statement_def)
  from assms(1) show "run 1 s = 1" unfolding statement_def
  proof (elim disjE exE conjE)
    fix w assume "s = w @ [tkSEMI]" "tkSEMI \<notin> set w" "\<not> trigger_head w"
    then show ?thesis using run_statement [of w] assms(2) by (auto simp: plain_def)
  next
    fix w u assume s: "s = w @ tkSEMI # u" "tkSEMI \<notin> set w" "trigger_head w" "ends_trigger u"
      and m: "\<forall>v x. u = v @ x \<and> ends_trigger v \<longrightarrow> x = []"
    have "run 1 (w @ [tkSEMI]) = 6" using run_statement [of w] s assms(2) by (auto simp: plain_def)
    moreover have "run 6 u = 1" using run_trigger_end [OF s(4)] m s(1) assms(2) by auto
    ultimately show ?thesis using s(1) by simp
  qed
qed

lemma first_statement:
  assumes "run 1 ts = 1" "tkWS \<notin> set ts" "ts \<noteq> []"
  obtains s r where "ts = s @ r" "statement s" "run 1 r = 1"
proof -
  have "tkSEMI \<in> set ts" using run_head [of ts] assms by (auto simp: plain_def)
  then obtain w r where ts: "ts = w @ tkSEMI # r" "tkSEMI \<notin> set w" using split_list_first by fastforce
  have w: "plain w" using ts assms(2) by (auto simp: plain_def)
  have r: "run (if trigger_head w then 6 else 1) r = 1" using assms(1) run_statement [OF w] ts(1) by simp
  show ?thesis
  proof (cases "trigger_head w")
    case False
    then have "statement (w @ [tkSEMI])" using ts(2) by (auto simp: statement_def)
    then show ?thesis using that [of "w @ [tkSEMI]" r] False r ts(1) by simp
  next
    case True
    then obtain v x where v: "r = v @ x" "ends_trigger v" "\<And>w y. v = w @ y \<Longrightarrow> ends_trigger w \<Longrightarrow> y = []"
      using run_6_split [of r] r ts(1) assms(2) by auto
    then have s: "statement (w @ tkSEMI # v)" using ts(2) True unfolding statement_def by blast
    moreover have "run 6 v = 1" using run_trigger_end [OF v(2,3)] ts(1) v(1) assms(2) by auto
    ultimately show ?thesis using that [of "w @ tkSEMI # v" x] r True ts(1) v(1) by simp
  qed
qed

lemma run_1_iff: "tkWS \<notin> set ts \<Longrightarrow> run 1 ts = 1 \<longleftrightarrow> (\<exists>ss. ts = concat ss \<and> list_all statement ss)"
proof (induction ts rule: length_induct)
  case (1 ts)
  show ?case
  proof
    assume r: "run 1 ts = 1"
    show "\<exists>ss. ts = concat ss \<and> list_all statement ss"
    proof (cases "ts = []")
      case False
      then obtain s r' where s: "ts = s @ r'" "statement s" "run 1 r' = 1" using first_statement [OF r 1(2)] by blast
      have "s \<noteq> []" using s(2) by (auto simp: statement_def)
      then obtain ss where "r' = concat ss" "list_all statement ss" using 1 s by auto
      then show ?thesis using s by (intro exI [of _ "s # ss"]) simp
    qed (auto intro: exI [of _ "[]"])
  next
    assume "\<exists>ss. ts = concat ss \<and> list_all statement ss"
    then obtain ss where ss: "ts = concat ss" "list_all statement ss" by blast
    have "run 1 (concat ss) = 1" if "tkWS \<notin> set (concat ss)" "list_all statement ss"
      using that by (induction ss) (simp_all add: run_statement_1 [unfolded One_nat_def])
    then show "run 1 ts = 1" using ss 1(2) by simp
  qed
qed

lemma run_0_iff: "run 0 ts = 1 \<longleftrightarrow> no_ws ts \<noteq> [] \<and> run 1 (no_ws ts) = 1"
proof -
  have "run 0 ts = run 0 (no_ws ts)" using run_no_ws [of 0 ts] by simp
  also have "\<dots> = 1 \<longleftrightarrow> no_ws ts \<noteq> [] \<and> run 1 (no_ws ts) = 1"
  proof (cases "no_ws ts")
    case (Cons t us)
    then have "t \<noteq> tkWS" using filter_eq_ConsD [OF Cons] by auto
    then have "complete_trans ! 0 ! tok_no t = complete_trans ! 1 ! tok_no t" by (cases t) simp_all
    then show ?thesis unfolding Cons by simp
  qed simp
  finally show ?thesis .
qed

lemma statements_Nil: "list_all statement ss \<Longrightarrow> concat ss = [] \<longleftrightarrow> ss = []"
  by (cases ss) (auto simp: statement_def)

text \<open>
  C27. \<open>sqlite3_complete\<close> accepts exactly the texts in which every comment, string and bracket is closed (a line comment may
  run to the end) and whose tokens, without white space, are one or more whole statements, where the statement that
  defines a trigger ends with the first \<open>;END;\<close> and every other one with its first semicolon.
\<close>

theorem complete_language:
  "sqlite3_complete z \<longleftrightarrow>
     (\<exists>ts ss. tokens z = Some ts \<and> no_ws ts = concat ss \<and> ss \<noteq> [] \<and> list_all statement ss)"
proof -
  have n: "tkWS \<notin> set (no_ws ts)" for ts by simp
  have "run 0 ts = 1 \<longleftrightarrow> (\<exists>ss. no_ws ts = concat ss \<and> ss \<noteq> [] \<and> list_all statement ss)" for ts
    unfolding run_0_iff run_1_iff [OF n] by (metis statements_Nil)
  then show ?thesis by (auto simp: sqlite3_complete_def complete_loop_tokens split: option.splits)
qed

subsection \<open>Quoted literals\<close>

lemma skip_past_other: "q \<notin> set z \<Longrightarrow> skip_past q (z @ q # r) = Some r"
  by (induction z) auto

lemma other_idem: "s < 8 \<Longrightarrow> complete_trans ! (complete_trans ! s ! 2) ! 2 = complete_trans ! s ! 2"
  by (auto simp: states)

lemma scan_quote: "complete_scan 39 z = (case skip_past 39 z of None \<Rightarrow> Return_0 | Some z' \<Rightarrow> Tok tkOTHER z')"
  by (simp add: complete_scan_def ch_def)

text \<open>The scanner reads a literal with doubled quotes as several strings; together they have the effect of one.\<close>

lemma complete_literal:
  "s < 8 \<Longrightarrow> complete_loop s (39 # escape_copy 39 z @ 39 # r) = complete_loop (complete_trans ! s ! 2) r"
proof (induction z arbitrary: s rule: length_induct)
  case (1 z)
  show ?case
  proof (cases "39 \<in> set z")
    case True
    then obtain x y where z: "z = x @ 39 # y" "39 \<notin> set x" using split_list_first by fastforce
    have x: "escape_copy 39 x = x" using z(2) by (induction x) auto
    have a: "escape_copy 39 (x @ 39 # y) = escape_copy 39 x @ 39 # 39 # escape_copy 39 y" by (induction x) simp_all
    have "complete_loop s (39 # escape_copy 39 z @ 39 # r)
        = complete_loop (complete_trans ! s ! 2) (39 # escape_copy 39 y @ 39 # r)"
      using z skip_past_other [OF z(2)] by (simp add: scan_quote a x)
    also have "\<dots> = complete_loop (complete_trans ! (complete_trans ! s ! 2) ! 2) r"
      using 1 trans_less [of s tkOTHER] by (intro 1(1) [rule_format]) (simp_all add: z)
    finally show ?thesis using other_idem [OF 1(2)] by simp
  next
    case False
    then have "escape_copy 39 z = z" by (induction z) auto
    then show ?thesis using skip_past_other [OF False] by (simp add: scan_quote)
  qed
qed

text \<open>
  C29. A literal rendered by \<open>%Q\<close> cannot end or begin a statement: whatever the string contains (quotes, semicolons, comment
  signs, keywords), in every state the scanner reads the literal as one ordinary word and goes on with what follows it.
\<close>

theorem quoted_literal_is_one_word:
  assumes "cstr_ok z" "state < 8"
  shows "complete_loop state (snd (printf_sqlescape etSQLESCAPE2 (-1) flag_altform2 (Some z)) @ rest)
    = complete_loop (complete_trans ! state ! tok_no tkOTHER) rest"
  using complete_literal [OF assms(2), of z rest] by (simp add: printf_Q_eq [OF assms(1)])

theorem quoted_literal_is_one_word_witness:
  "\<not> sqlite3_complete (snd (printf_sqlescape etSQLESCAPE2 (-1) False (Some (cstring '';'; -- ''))))"
proof -
  have "cstr_ok (cstring '';'; -- '')" by (simp add: cstring_def ch_def)
  from quoted_literal_is_one_word [OF this, of 0 False "[]"] show ?thesis by (simp add: sqlite3_complete_def)
qed

lemma complete16_agrees:
  assumes "list_all unichar cs"
  shows "sqlite3_complete16 0 False (utf16 True cs) = (if sqlite3_complete (utf8 cs) then 1 else 0)"
  by (simp add: sqlite3_complete16_def sqlite3VdbeMemTranslate_def even_part_even even_utf16 utf16_to_8_chars [OF assms])

end
