(* ===== verification/Pattern.thy ===== *)
theory Pattern
  imports Utf "HOL-Library.Sublist"
begin

text \<open>
  The \<open>LIKE\<close> and \<open>GLOB\<close> operators of \<open>func.c\<close> (\<open>src/src/db/sqlite3/core/sqlite3.c\<close>): \<open>patternCompare\<close> matches UTF-8 text
  against a pattern, by a recursion that gives up early (\<open>SQLITE_NOWILDCARDMATCH\<close>) when no other position of an earlier wild card
  can help.  A C string is the list of its bytes before the terminator; reading at the end of the list reads the zero byte.
\<close>

unbundle bit_operations_syntax

subsection \<open>Patterns\<close>

record compareInfo =
  matchAll :: u8
  matchOne :: u8
  matchSet :: u8
  noCase :: bool

definition globInfo :: compareInfo where
  "globInfo = \<lparr>matchAll = 42, matchOne = 63, matchSet = 91, noCase = False\<rparr>"

definition likeInfoNorm :: compareInfo where
  "likeInfoNorm = \<lparr>matchAll = 37, matchOne = 95, matchSet = 0, noCase = True\<rparr>"

definition likeInfoAlt :: compareInfo where
  "likeInfoAlt = \<lparr>matchAll = 37, matchOne = 95, matchSet = 0, noCase = False\<rparr>"

datatype pattern_result = SQLITE_MATCH | SQLITE_NOMATCH | SQLITE_NOWILDCARDMATCH

definition Utf8Read :: "cstr \<Rightarrow> u32 \<times> cstr" where
  "Utf8Read A = (if cat A 0 < 0x80 then (ucast (cat A 0), tl A) else sqlite3Utf8Read A)"

lemma Utf8Read_Nil [simp]: "Utf8Read [] = (0, [])"
  by (simp add: Utf8Read_def)

lemma Utf8Read_eq [simp]: "sqlite3Utf8Read A = Utf8Read A"
proof (cases "cat A 0 < 0x80")
  case True
  then have "\<not> (0xc0 :: u32) \<le> ucast (cat A 0)" by (simp add: word_le_nat_alt word_less_nat_alt unat_ucast32)
  then show ?thesis using True by (simp add: Utf8Read_def sqlite3Utf8Read_def READ_UTF8_def Let_def)
qed (simp add: Utf8Read_def)

lemma Utf8Read_length: "A \<noteq> [] \<Longrightarrow> Utf8Read A = (c, z) \<Longrightarrow> length z < length A"
  using READ_UTF8_length [of A] by (simp flip: Utf8Read_eq add: sqlite3Utf8Read_def)

lemma Utf8Read_le: "Utf8Read A = (c, z) \<Longrightarrow> length z \<le> length A"
  using Utf8Read_length [of A c z] by (cases "A = []") auto

lemma Utf8Read_nonzero: "Utf8Read A = (c, z) \<Longrightarrow> c \<noteq> 0 \<Longrightarrow> length z < length A"
  using Utf8Read_length [of A c z] by (cases "A = []") auto

lemma Utf8Read_measure: "length A \<le> n \<Longrightarrow> (case Utf8Read A of (c, z) \<Rightarrow> length z + (if c = 0 then 0 else 1)) < Suc n"
  using Utf8Read_le [of A] Utf8Read_nonzero [of A] by (fastforce split: prod.split)

text \<open>\<open>sqlite3Tolower\<close> and \<open>sqlite3Toupper\<close> of a code point, through their casts to a byte.\<close>

definition low :: "u32 \<Rightarrow> u8" where
  "low c = sqlite3Tolower (ucast c)"

text \<open>
  The loop that skips further wild cards: \<open>None\<close> when a \<open>matchOne\<close> finds no character left, otherwise the first other character of
  the pattern, the pattern after it and the rest of the text.  It is entered only when \<open>matchAll\<close> is not zero.
\<close>

function skip_wild :: "compareInfo \<Rightarrow> cstr \<Rightarrow> cstr \<Rightarrow> (u32 \<times> cstr \<times> cstr) option" where
  "skip_wild info zPattern zString =
     (case Utf8Read zPattern of
        (c, zP) \<Rightarrow>
          if zPattern \<noteq> [] \<and> (c = ucast (matchAll info) \<or> c = ucast (matchOne info) \<and> matchOne info \<noteq> 0) then
            (if c = ucast (matchOne info) then
               (case sqlite3Utf8Read zString of (c2, zS) \<Rightarrow> if c2 = 0 then None else skip_wild info zP zS)
             else skip_wild info zP zString)
          else Some (c, zP, zString))"
  by pat_completeness auto
termination by (relation "measure (\<lambda>(i, p, s). length p)") (auto dest: Utf8Read_length [OF _ sym])

declare skip_wild.simps [simp del]

lemma skip_wild_length: "skip_wild info zP zS = Some (c, zP', zS') \<Longrightarrow> length zP' \<le> length zP \<and> (c \<noteq> 0 \<longrightarrow> length zP' < length zP)"
proof (induction info zP zS rule: skip_wild.induct)
  case (1 info zPattern zString)
  obtain d zP where r: "Utf8Read zPattern = (d, zP)" by fastforce
  note ih = 1(1) [OF r [symmetric] _ _ prod.collapse [of "sqlite3Utf8Read zString"]] 1(2) [OF r [symmetric]]
  have "skip_wild info zPattern zString = Some (c, zP', zS')" by (rule 1(3))
  then show ?case
    using ih r Utf8Read_le [OF r] Utf8Read_nonzero [OF r]
    by (subst (asm) skip_wild.simps) (fastforce split: if_splits prod.splits)
qed

text \<open>The list of characters of a \<open>GLOB\<close> set, from the character \<open>c2\<close> on.\<close>

function set_loop :: "u32 \<Rightarrow> bool \<Rightarrow> u32 \<Rightarrow> u32 \<Rightarrow> cstr \<Rightarrow> u32 \<times> bool \<times> cstr" where
  "set_loop c seen prior_c c2 zPattern =
     (if c2 \<noteq> 0 \<and> c2 \<noteq> 93 then
        (if c2 = 45 \<and> cat zPattern 0 \<noteq> 93 \<and> cat zPattern 0 \<noteq> 0 \<and> prior_c > 0 then
           (case sqlite3Utf8Read zPattern of
              (hi, zP1) \<Rightarrow>
                (case sqlite3Utf8Read zP1 of (c2', zP2) \<Rightarrow> set_loop c (seen \<or> c \<ge> prior_c \<and> c \<le> hi) 0 c2' zP2))
         else
           (case sqlite3Utf8Read zPattern of (c2', zP1) \<Rightarrow> set_loop c (seen \<or> c = c2) c2 c2' zP1))
      else (c2, seen, zPattern))"
  by pat_completeness auto
termination
  by (relation "measure (\<lambda>(c, seen, p, c2, z). length z + (if c2 = 0 then 0 else 1))")
    (auto intro!: Utf8Read_measure dest: Utf8Read_le [OF sym])

declare set_loop.simps [simp del]

text \<open>A \<open>GLOB\<close> set after its bracket: the pattern after the set when the character \<open>c\<close> is in it, otherwise \<open>None\<close>.\<close>

definition match_set :: "u32 \<Rightarrow> cstr \<Rightarrow> cstr option" where
  "match_set c zPattern =
     (let (c2, zP1) = sqlite3Utf8Read zPattern;
          invert = (c2 = 94);
          (c2, zP2) = (if invert then sqlite3Utf8Read zP1 else (c2, zP1));
          first = (c2 = 93);
          seen = (first \<and> c = 93);
          (c2, zP3) = (if first then sqlite3Utf8Read zP2 else (c2, zP2));
          (c2, seen, zP4) = set_loop c seen 0 c2 zP3
      in if c2 = 0 \<or> seen = invert then None else Some zP4)"

text \<open>
  The three searches for a place where the rest of the pattern matches: after a byte of \<open>zStop\<close>, after the character \<open>c\<close>,
  and at any character.
\<close>

fun byte_search :: "u8 set \<Rightarrow> (cstr \<Rightarrow> pattern_result) \<Rightarrow> cstr \<Rightarrow> pattern_result" where
  "byte_search zStop f [] = SQLITE_NOWILDCARDMATCH"
| "byte_search zStop f (b # zString) =
     (if b \<in> zStop \<and> f zString \<noteq> SQLITE_NOMATCH then f zString else byte_search zStop f zString)"

function char_search :: "u32 \<Rightarrow> (cstr \<Rightarrow> pattern_result) \<Rightarrow> cstr \<Rightarrow> pattern_result" where
  "char_search c f zString =
     (case Utf8Read zString of
        (c2, zS) \<Rightarrow>
          if c2 = 0 then SQLITE_NOWILDCARDMATCH
          else if c2 = c \<and> f zS \<noteq> SQLITE_NOMATCH then f zS
          else char_search c f zS)"
  by pat_completeness auto
termination by (relation "measure (\<lambda>(c, f, z). length z)") (auto dest: Utf8Read_nonzero [OF sym])

declare char_search.simps [simp del]

function slow_search :: "(cstr \<Rightarrow> pattern_result) \<Rightarrow> cstr \<Rightarrow> pattern_result" where
  "slow_search f zString =
     (if zString = [] then SQLITE_NOWILDCARDMATCH
      else if f zString \<noteq> SQLITE_NOMATCH then f zString
      else slow_search f (SQLITE_SKIP_UTF8 zString))"
  by pat_completeness auto
termination by (relation "measure (\<lambda>(f, z). length z)") (auto intro: SKIP_UTF8_length)

declare slow_search.simps [simp del]

definition stop_bytes :: "compareInfo \<Rightarrow> u32 \<Rightarrow> u8 set" where
  "stop_bytes info c = (if noCase info then {sqlite3Toupper (ucast c), sqlite3Tolower (ucast c)} else {ucast c})"

text \<open>Whether a character of the text is accepted for the character \<open>c\<close> of the pattern.\<close>

definition char_accepts :: "compareInfo \<Rightarrow> bool \<Rightarrow> u32 \<Rightarrow> u32 \<Rightarrow> bool" where
  "char_accepts info escaped c c2 \<longleftrightarrow>
     c = c2 \<or> noCase info \<and> low c = low c2 \<and> c < 0x80 \<and> c2 < 0x80 \<or> c = ucast (matchOne info) \<and> \<not> escaped \<and> c2 \<noteq> 0"

lemma read_less: "(c, z) = Utf8Read A \<Longrightarrow> length z \<le> length A \<and> (c \<noteq> 0 \<longrightarrow> length z < length A)"
  using Utf8Read_le [of A c z] Utf8Read_nonzero [of A c z] by simp

lemma set_loop_length: "set_loop c seen prior c2 z = (d, s, z') \<Longrightarrow> length z' \<le> length z"
proof (induction c seen prior c2 z rule: set_loop.induct)
  case (1 c seen prior c2 z)
  obtain hi z1 where r: "Utf8Read z = (hi, z1)" by fastforce
  obtain c3 z2 where r1: "Utf8Read z1 = (c3, z2)" by fastforce
  have ih: "length z' \<le> length z2" if "c2 \<noteq> 0 \<and> c2 \<noteq> 93" "c2 = 45 \<and> cat z 0 \<noteq> 93 \<and> cat z 0 \<noteq> 0 \<and> 0 < prior"
      "set_loop c (seen \<or> prior \<le> c \<and> c \<le> hi) 0 c3 z2 = (d, s, z')"
    using 1(1) [OF that(1,2) _ _ that(3)] r r1 by simp
  have ih': "length z' \<le> length z1" if "c2 \<noteq> 0 \<and> c2 \<noteq> 93" "\<not> (c2 = 45 \<and> cat z 0 \<noteq> 93 \<and> cat z 0 \<noteq> 0 \<and> 0 < prior)"
      "set_loop c (seen \<or> c = c2) c2 hi z1 = (d, s, z')"
    using 1(2) [OF that(1,2) _ that(3)] r by simp
  have "set_loop c seen prior c2 z = (d, s, z')" by (rule 1(3))
  then show ?case using ih ih' Utf8Read_le [OF r] Utf8Read_le [OF r1] r r1
    by (subst (asm) set_loop.simps) (fastforce split: if_splits)
qed

lemma match_set_length: "match_set c z = Some z' \<Longrightarrow> length z' \<le> length z"
  by (auto simp: match_set_def Let_def split: prod.splits if_splits dest!: set_loop_length Utf8Read_le)

function patternCompare :: "compareInfo \<Rightarrow> u32 \<Rightarrow> cstr \<Rightarrow> cstr \<Rightarrow> pattern_result" where
  "patternCompare info matchOther zPattern zString =
     (case Utf8Read zPattern of
        (c, zP) \<Rightarrow>
          if c = 0 then (if zString = [] then SQLITE_MATCH else SQLITE_NOMATCH)
          else if c = ucast (matchAll info) then
            (case skip_wild info zP zString of
               None \<Rightarrow> SQLITE_NOWILDCARDMATCH
             | Some (c, zP, zS) \<Rightarrow>
                 if c = 0 then SQLITE_MATCH
                 else if c = matchOther \<and> matchSet info \<noteq> 0 then
                   slow_search (\<lambda>z. patternCompare info matchOther (ucast matchOther # zP) z) zS
                 else
                   (case (if c = matchOther then sqlite3Utf8Read zP else (c, zP)) of
                      (c, zP) \<Rightarrow>
                        if c = 0 then SQLITE_NOWILDCARDMATCH
                        else if c \<le> 0x80 then byte_search (stop_bytes info c) (\<lambda>z. patternCompare info matchOther zP z) zS
                        else char_search c (\<lambda>z. patternCompare info matchOther zP z) zS))
          else if c = matchOther \<and> matchSet info \<noteq> 0 then
            (case sqlite3Utf8Read zString of
               (c, zS) \<Rightarrow>
                 if c = 0 then SQLITE_NOMATCH
                 else case match_set c zP of None \<Rightarrow> SQLITE_NOMATCH | Some zP \<Rightarrow> patternCompare info matchOther zP zS)
          else
            (case (if c = matchOther then sqlite3Utf8Read zP else (c, zP)) of
               (c', zP) \<Rightarrow>
                 if c' = 0 then SQLITE_NOMATCH
                 else case Utf8Read zString of
                        (c2, zS) \<Rightarrow>
                          if char_accepts info (c = matchOther) c' c2 then patternCompare info matchOther zP zS
                          else SQLITE_NOMATCH))"
  by pat_completeness auto
termination
  by (relation "measure (\<lambda>(i, m, p, s). length p)")
    (auto dest!: read_less skip_wild_length match_set_length split: if_splits)

declare patternCompare.simps [simp del]

fun result_code :: "pattern_result \<Rightarrow> int" where
  "result_code SQLITE_MATCH = 0"
| "result_code SQLITE_NOMATCH = 1"
| "result_code SQLITE_NOWILDCARDMATCH = 2"

definition sqlite3_strglob :: "cstr \<Rightarrow> cstr \<Rightarrow> int" where
  "sqlite3_strglob zGlobPattern zString = result_code (patternCompare globInfo 91 zGlobPattern zString)"

definition sqlite3_strlike :: "cstr \<Rightarrow> cstr \<Rightarrow> u32 \<Rightarrow> int" where
  "sqlite3_strlike zPattern zStr esc = result_code (patternCompare likeInfoNorm esc zPattern zStr)"

text \<open>
  The SQL functions \<open>like\<close> and \<open>glob\<close>: \<open>limit\<close> is \<open>SQLITE_LIMIT_LIKE_PATTERN_LENGTH\<close>, \<open>argv0\<close> the pattern, \<open>argv1\<close> the text,
  \<open>argv2\<close> the escape argument when there are three arguments; an argument is \<open>None\<close> when its value is \<open>NULL\<close>.
\<close>

datatype like_result = Like_error | Like_null | Like_int bool

definition like_escape :: "compareInfo \<Rightarrow> u32 \<Rightarrow> compareInfo" where
  "like_escape info escape =
     (let info1 = (if escape = ucast (matchAll info) then info\<lparr>matchAll := 0\<rparr> else info)
      in if escape = ucast (matchOne info1) then info1\<lparr>matchOne := 0\<rparr> else info1)"

definition likeFunc :: "compareInfo \<Rightarrow> nat \<Rightarrow> cstr option \<Rightarrow> cstr option \<Rightarrow> cstr option option \<Rightarrow> like_result" where
  "likeFunc info limit argv0 argv1 argv2 =
     (let compare = (\<lambda>info escape. case (argv0, argv1) of
                       (Some zB, Some zA) \<Rightarrow> Like_int (patternCompare info escape zB zA = SQLITE_MATCH)
                     | _ \<Rightarrow> Like_null)
      in if (case argv0 of None \<Rightarrow> 0 | Some zB \<Rightarrow> length zB) > limit then Like_error
      else case argv2 of
             None \<Rightarrow> compare info (ucast (matchSet info))
           | Some None \<Rightarrow> Like_null
           | Some (Some zEsc) \<Rightarrow>
               if sqlite3Utf8CharLen zEsc (-1) \<noteq> 1 then Like_error
               else let escape = fst (sqlite3Utf8Read zEsc) in compare (like_escape info escape) escape)"

subsection \<open>The meaning of a pattern\<close>

text \<open>
  A pattern is a list of wild cards for any sequence (\<open>None\<close>) and of conditions on a single character (\<open>Some P\<close>).
\<close>

fun wild :: "(u32 \<Rightarrow> bool) option list \<Rightarrow> u32 list \<Rightarrow> bool" where
  "wild [] s = (s = [])"
| "wild (None # ps) s = (\<exists>s'. suffix s' s \<and> wild ps s')"
| "wild (Some P # ps) s = (s \<noteq> [] \<and> P (hd s) \<and> wild ps (tl s))"

text \<open>Equality of characters, up to the case of ASCII letters when case does not matter.\<close>

definition same_char :: "compareInfo \<Rightarrow> u32 \<Rightarrow> u32 \<Rightarrow> bool" where
  "same_char info c d \<longleftrightarrow> c = d \<or> noCase info \<and> c < 0x80 \<and> d < 0x80 \<and> low c = low d"

text \<open>
  The ranges of a \<open>GLOB\<close> set and the pattern after its closing bracket; \<open>None\<close> when there is none.  A hyphen makes a range when there
  is a character before it that is not itself the end of a range, and one after it that is not the closing bracket.
\<close>

fun set_ranges :: "u32 \<Rightarrow> u32 list \<Rightarrow> ((u32 \<times> u32) list \<times> u32 list) option" where
  "set_ranges prior [] = None"
| "set_ranges prior [c] = (if c = 93 then Some ([], []) else None)"
| "set_ranges prior (c # d # p) =
     (if c = 93 then Some ([], d # p)
      else if c = 45 \<and> d \<noteq> 93 \<and> prior > 0 then map_option (\<lambda>(rs, q). ((prior, d) # rs, q)) (set_ranges 0 p)
      else map_option (\<lambda>(rs, q). ((c, c) # rs, q)) (set_ranges c (d # p)))"

definition in_ranges :: "(u32 \<times> u32) list \<Rightarrow> u32 \<Rightarrow> bool" where
  "in_ranges rs c \<longleftrightarrow> (\<exists>(lo, hi) \<in> set rs. lo \<le> c \<and> c \<le> hi)"

definition glob_set :: "u32 list \<Rightarrow> ((u32 \<Rightarrow> bool) \<times> u32 list) option" where
  "glob_set p =
     (let invert = (p \<noteq> [] \<and> hd p = 94);
          p1 = (if invert then tl p else p);
          first = (p1 \<noteq> [] \<and> hd p1 = 93)
      in map_option (\<lambda>(rs, q). (\<lambda>c. in_ranges (if first then (93, 93) # rs else rs) c \<noteq> invert, q))
           (set_ranges 0 (if first then tl p1 else p1)))"

lemma set_ranges_length: "set_ranges prior p = Some (rs, q) \<Longrightarrow> length q < length p"
  by (induction prior p arbitrary: rs rule: set_ranges.induct) (fastforce split: if_splits)+

lemma glob_set_length: "glob_set p = Some (P, q) \<Longrightarrow> length q < length p"
  by (cases p) (auto simp: glob_set_def Let_def split: if_splits dest!: set_ranges_length)

function compile :: "compareInfo \<Rightarrow> u32 \<Rightarrow> u32 list \<Rightarrow> (u32 \<Rightarrow> bool) option list option" where
  "compile info other [] = Some []"
| "compile info other (c # p) =
     (if c = ucast (matchAll info) then map_option (Cons None) (compile info other p)
      else if c = other \<and> matchSet info \<noteq> 0 then
        (case glob_set p of None \<Rightarrow> None | Some (P, q) \<Rightarrow> map_option (Cons (Some P)) (compile info other q))
      else if c = other then
        (case p of [] \<Rightarrow> None | e # q \<Rightarrow> map_option (Cons (Some (same_char info e))) (compile info other q))
      else if c = ucast (matchOne info) then map_option (Cons (Some (\<lambda>_. True))) (compile info other p)
      else map_option (Cons (Some (same_char info c))) (compile info other p))"
  by pat_completeness auto
termination by (relation "measure (\<lambda>(i, m, p). length p)") (auto dest: glob_set_length)

subsection \<open>Reading UTF-8 text\<close>

definition text_ok :: "u32 list \<Rightarrow> bool" where
  "text_ok s \<longleftrightarrow> list_all (\<lambda>c. unichar c \<and> c \<noteq> 0) s"

lemma text_ok_simps [simp]: "text_ok []" "text_ok (c # s) \<longleftrightarrow> unichar c \<and> c \<noteq> 0 \<and> text_ok s"
  by (simp_all add: text_ok_def)

lemma text_ok_suffix: "text_ok s \<Longrightarrow> suffix t s \<Longrightarrow> text_ok t"
  by (auto simp: text_ok_def suffix_def)

lemma utf8_simps [simp]: "utf8 [] = []" "utf8 (c # s) = WRITE_UTF8 c @ utf8 s"
  by (simp_all add: utf8_def)

lemma utf8_Nil [simp]: "utf8 s = [] \<longleftrightarrow> s = []"
  by (cases s) simp_all

lemma Utf8Read_WRITE: "unichar c \<Longrightarrow> Utf8Read (WRITE_UTF8 c @ utf8 s) = (c, utf8 s)"
  using READ_WRITE_UTF8 [of c "utf8 s"] no_cont_utf8 [of s] by (simp flip: Utf8Read_eq add: sqlite3Utf8Read_def unichar_def)

lemma cat_utf8:
  assumes "unichar c" "unat b < 128"
  shows "cat (WRITE_UTF8 c @ utf8 s) 0 = b \<longleftrightarrow> c = ucast b"
proof
  assume b: "cat (WRITE_UTF8 c @ utf8 s) 0 = b"
  then have "Utf8Read (WRITE_UTF8 c @ utf8 s) = (ucast b, tl (WRITE_UTF8 c @ utf8 s))"
    using assms(2) by (simp add: Utf8Read_def word_less_nat_alt)
  then show "c = ucast b" using Utf8Read_WRITE [OF assms(1), of s] by simp
qed (simp add: ascii_WRITE [OF assms(2)])

lemma SKIP_utf8: "unichar c \<Longrightarrow> SQLITE_SKIP_UTF8 (WRITE_UTF8 c @ utf8 s) = utf8 s"
  using SKIP_UTF8_read [of "WRITE_UTF8 c @ utf8 s"] Utf8Read_WRITE [of c s]
  by (simp flip: Utf8Read_eq add: sqlite3Utf8Read_def)

lemma WRITE_high: "\<not> c < 0x80 \<Longrightarrow> b \<in> set (WRITE_UTF8 c) \<Longrightarrow> 128 \<le> unat b"
  by (auto simp: WRITE_UTF8_def cont_byte lead_bytes split: if_splits)

lemma ucast_u8_u32: "unat c < 128 \<Longrightarrow> ucast (ucast c :: u8) = (c :: u32)"
  by (simp add: word_unat_eq_iff unat_ucast8 unat_ucast32)

subsection \<open>Sets of characters\<close>

lemma in_ranges_simps [simp]: "\<not> in_ranges [] c" "in_ranges ((lo, hi) # rs) c \<longleftrightarrow> lo \<le> c \<and> c \<le> hi \<or> in_ranges rs c"
  by (auto simp: in_ranges_def)

lemma set_loop_ranges:
  "text_ok (c2 # p) \<Longrightarrow>
     (case set_ranges prior (c2 # p) of
        None \<Rightarrow> fst (set_loop c seen prior c2 (utf8 p)) = 0
      | Some (rs, q) \<Rightarrow> set_loop c seen prior c2 (utf8 p) = (93, seen \<or> in_ranges rs c, utf8 q) \<and> text_ok q)"
proof (induction prior "c2 # p" arbitrary: c2 p seen rule: set_ranges.induct)
  case (2 prior c2)
  then show ?case by (subst (1 2) set_loop.simps) (simp add: set_loop.simps)
next
  case (3 prior c2 d p)
  have d: "unichar d" "d \<noteq> 0" "text_ok p" "c2 \<noteq> 0" using 3(3) by simp_all
  have cat: "cat (utf8 (d # p)) 0 = 93 \<longleftrightarrow> d = 93" "cat (utf8 (d # p)) 0 = 0 \<longleftrightarrow> d = 0"
    using cat_utf8 [OF d(1), of 93 p] cat_utf8 [OF d(1), of 0 p] by simp_all
  consider "c2 = 93" | "c2 = 45" "d \<noteq> 93" "prior > 0" | "c2 \<noteq> 93" "\<not> (c2 = 45 \<and> d \<noteq> 93 \<and> prior > 0)" by blast
  then show ?case
  proof cases
    case 1
    then show ?thesis using d by (simp add: set_loop.simps)
  next
    case 2
    have r: "set_loop c seen prior c2 (utf8 (d # p)) =
        (case Utf8Read (utf8 p) of (c2', z) \<Rightarrow> set_loop c (seen \<or> prior \<le> c \<and> c \<le> d) 0 c2' z)"
      using 2 d cat by (subst set_loop.simps) (simp add: Utf8Read_WRITE)
    show ?thesis
    proof (cases p)
      case Nil
      then show ?thesis using 2 r by (simp add: set_loop.simps)
    next
      case (Cons e p')
      then show ?thesis using 3(1) [of e p' "seen \<or> prior \<le> c \<and> c \<le> d"] 2 d r
        by (auto simp: Utf8Read_WRITE disj_assoc split: option.splits)
    qed
  next
    case other: 3
    have r: "set_loop c seen prior c2 (utf8 (d # p)) = set_loop c (seen \<or> c = c2) c2 d (utf8 p)"
      using other d cat by (subst set_loop.simps) (auto simp: Utf8Read_WRITE)
    show ?thesis using 3(2) [of "seen \<or> c = c2"] other d r by (auto split: option.splits)
  qed
qed

lemma set_loop_text:
  assumes "text_ok p"
  shows "(case Utf8Read (utf8 p) of (c2, z) \<Rightarrow> case set_loop c seen 0 c2 z of (d, seen', z') \<Rightarrow> if d = 0 \<or> seen' = invert then None else Some z')
    = (case set_ranges 0 p of None \<Rightarrow> None | Some (rs, q) \<Rightarrow> if (seen \<or> in_ranges rs c) = invert then None else Some (utf8 q))"
proof (cases p)
  case Nil
  then show ?thesis by (simp add: set_loop.simps)
next
  case (Cons e p')
  then show ?thesis using set_loop_ranges [of e p', where prior = 0 and c = c and seen = seen] assms
    by (auto simp: Utf8Read_WRITE split: option.splits prod.splits)
qed

lemma set_ranges_text: "set_ranges prior p = Some (rs, q) \<Longrightarrow> text_ok p \<Longrightarrow> text_ok q"
  by (induction prior p arbitrary: rs rule: set_ranges.induct) (auto split: if_splits)

lemma set_ranges_subset: "set_ranges prior p = Some (rs, q) \<Longrightarrow> set q \<subseteq> set p"
  by (induction prior p arbitrary: rs rule: set_ranges.induct) (fastforce split: if_splits)+

lemma glob_set_subset: "glob_set p = Some (P, q) \<Longrightarrow> set q \<subseteq> set p"
  by (cases p) (auto simp: glob_set_def Let_def neq_Nil_conv split: if_splits dest!: set_ranges_subset)

lemma glob_set_text: "glob_set p = Some (P, q) \<Longrightarrow> text_ok p \<Longrightarrow> text_ok q"
  by (cases p) (auto simp: glob_set_def Let_def neq_Nil_conv split: if_splits dest!: set_ranges_text)

lemma match_set_text:
  assumes "text_ok p"
  shows "match_set c (utf8 p) = (case glob_set p of None \<Rightarrow> None | Some (P, q) \<Rightarrow> if P c then Some (utf8 q) else None)"
proof -
  define inv where "inv = (p \<noteq> [] \<and> hd p = 94)"
  define p1 where "p1 = (if inv then tl p else p)"
  have p1: "text_ok p1" using assms by (cases p) (auto simp: p1_def)
  define first where "first = (p1 \<noteq> [] \<and> hd p1 = 93)"
  define p2 where "p2 = (if first then tl p1 else p1)"
  have p2: "text_ok p2" using p1 by (cases p1) (auto simp: p2_def)
  have g: "glob_set p = map_option (\<lambda>(rs, q). (\<lambda>c. in_ranges (if first then (93, 93) # rs else rs) c \<noteq> inv, q)) (set_ranges 0 p2)"
    unfolding glob_set_def Let_def inv_def p1_def first_def p2_def by (rule refl)
  obtain a z1 where r1: "Utf8Read (utf8 p) = (a, z1)" by fastforce
  obtain b z2 where r2: "Utf8Read (utf8 p1) = (b, z2)" by fastforce
  have a: "(a = 94) = inv" using assms r1 by (cases p) (auto simp: inv_def Utf8Read_WRITE)
  have a': "(if inv then Utf8Read z1 else (a, z1)) = (b, z2)"
    using assms r1 r2 by (cases p) (auto simp: inv_def p1_def Utf8Read_WRITE)
  have b: "(b = 93) = first" using p1 r2 by (cases p1) (auto simp: first_def Utf8Read_WRITE)
  have b': "(if first then Utf8Read z2 else (b, z2)) = Utf8Read (utf8 p2)"
    using p1 r2 by (cases p1) (auto simp: first_def p2_def Utf8Read_WRITE)
  have "match_set c (utf8 p) = (case Utf8Read (utf8 p2) of (c2, z) \<Rightarrow>
      case set_loop c (first \<and> c = 93) 0 c2 z of (d, seen', z') \<Rightarrow> if d = 0 \<or> seen' = inv then None else Some z')"
    unfolding match_set_def Let_def Utf8Read_eq r1 prod.case a a' b b' by (rule refl)
  also have "\<dots> = (case glob_set p of None \<Rightarrow> None | Some (P, q) \<Rightarrow> if P c then Some (utf8 q) else None)"
    unfolding set_loop_text [OF p2] g by (cases "set_ranges 0 p2") (auto split: prod.splits)
  finally show ?thesis .
qed

subsection \<open>Wild cards\<close>

lemma wild_star_Cons: "wild (None # es) (c # s) \<longleftrightarrow> wild es (c # s) \<or> wild (None # es) s"
  by (auto simp: suffix_Cons)

lemma wild_star_Nil: "wild (None # es) [] \<longleftrightarrow> wild es []"
  by auto

lemma wild_star_mono: "wild (None # es) t \<Longrightarrow> suffix t s \<Longrightarrow> wild (None # es) s"
  using suffix_order.trans by auto

lemma wild_star_star: "wild (None # None # es) s \<longleftrightarrow> wild (None # es) s"
  by simp (metis suffix_order.refl suffix_order.trans)

lemma wild_star_one: "wild (None # Some (\<lambda>_. True) # es) (c # s) \<longleftrightarrow> wild (None # es) s"
proof (induction s arbitrary: c)
  case (Cons d s)
  show ?case using Cons [of d] by (subst wild_star_Cons) (simp add: wild_star_Cons del: wild.simps(2))
qed (simp add: wild_star_Cons wild_star_Nil del: wild.simps(2))

text \<open>What a result says: a match is a match, and after an early end no shorter rest of the text matches either.\<close>

definition agrees :: "pattern_result \<Rightarrow> (u32 \<Rightarrow> bool) option list option \<Rightarrow> u32 list \<Rightarrow> bool" where
  "agrees r eso s \<longleftrightarrow>
     (case eso of
        None \<Rightarrow> r \<noteq> SQLITE_MATCH
      | Some es \<Rightarrow> (r = SQLITE_MATCH \<longleftrightarrow> wild es s) \<and> (r = SQLITE_NOWILDCARDMATCH \<longrightarrow> (\<forall>t. suffix t s \<longrightarrow> \<not> wild es t)))"

lemma agrees_star:
  assumes "agrees r (Some (None # es)) s" "wild (None # fs) s' \<longleftrightarrow> wild (None # es) s"
  shows "agrees r (Some (None # fs)) s'"
  using assms wild_star_mono [of fs _ s'] unfolding agrees_def by (auto simp del: wild.simps)

subsubsection \<open>The searches\<close>

text \<open>The searches on characters.\<close>

fun search :: "(u32 \<Rightarrow> bool) \<Rightarrow> (u32 list \<Rightarrow> pattern_result) \<Rightarrow> u32 list \<Rightarrow> pattern_result" where
  "search Q f [] = SQLITE_NOWILDCARDMATCH"
| "search Q f (c # s) = (if Q c \<and> f s \<noteq> SQLITE_NOMATCH then f s else search Q f s)"

fun search_here :: "(u32 list \<Rightarrow> pattern_result) \<Rightarrow> u32 list \<Rightarrow> pattern_result" where
  "search_here f [] = SQLITE_NOWILDCARDMATCH"
| "search_here f (c # s) = (if f (c # s) \<noteq> SQLITE_NOMATCH then f (c # s) else search_here f s)"

lemma byte_search_skip: "set bs \<inter> S = {} \<Longrightarrow> byte_search S f (bs @ z) = byte_search S f z"
  by (induction bs) auto

lemma byte_search_text:
  assumes "\<forall>b \<in> S. unat b < 128" "text_ok s"
  shows "byte_search S f (utf8 s) = search (\<lambda>c. c < 0x80 \<and> ucast c \<in> S) (\<lambda>s. f (utf8 s)) s"
  using assms(2)
proof (induction s)
  case (Cons c s)
  show ?case
  proof (cases "c < 0x80")
    case True
    then have "unat (ucast c :: u8) < 128" "ucast (ucast c :: u8) = c"
      by (simp_all add: word_less_nat_alt unat_ucast8 ucast_u8_u32)
    then have "WRITE_UTF8 c = [ucast c]" using ascii_WRITE(2) [of "ucast c"] by simp
    then show ?thesis using Cons True by simp
  next
    case False
    then have "set (WRITE_UTF8 c) \<inter> S = {}" using assms(1) WRITE_high [of c] by fastforce
    then show ?thesis using Cons False by (simp add: byte_search_skip)
  qed
qed simp

lemma char_search_text: "text_ok s \<Longrightarrow> char_search c f (utf8 s) = search (\<lambda>d. d = c) (\<lambda>s. f (utf8 s)) s"
proof (induction s)
  case (Cons d s)
  then show ?case by (subst char_search.simps) (simp add: Utf8Read_WRITE)
qed (simp add: char_search.simps)

lemma slow_search_text: "text_ok s \<Longrightarrow> slow_search f (utf8 s) = search_here (\<lambda>s. f (utf8 s)) s"
proof (induction s)
  case (Cons d s)
  then show ?case by (subst slow_search.simps) (simp add: SKIP_utf8)
qed (simp add: slow_search.simps)

lemma agrees_NOWILD:
  "agrees SQLITE_NOWILDCARDMATCH (Some (None # es)) s \<longleftrightarrow> \<not> wild (None # es) s"
  using wild_star_mono [of es _ s] by (auto simp: agrees_def simp del: wild.simps)

lemma search_agrees:
  assumes "\<And>t. suffix t s \<Longrightarrow> agrees (f t) eso t"
  shows "agrees (search Q f s) (map_option (\<lambda>es. None # Some Q # es) eso) s"
  using assms
proof (induction s)
  case Nil
  then show ?case by (cases eso) (simp_all add: agrees_NOWILD wild_star_Nil del: wild.simps(2), simp add: agrees_def)
next
  case (Cons c s)
  have ih: "agrees (search Q f s) (map_option (\<lambda>es. None # Some Q # es) eso) s"
    using Cons by (simp add: suffix_ConsI)
  have fs: "agrees (f s) eso s" using Cons.prems by (simp add: suffix_ConsI)
  show ?case
  proof (cases eso)
    case None
    then show ?thesis using ih fs by (simp add: agrees_def)
  next
    case (Some es)
    have w: "wild (None # Some Q # es) (c # s) \<longleftrightarrow> Q c \<and> wild es s \<or> wild (None # Some Q # es) s"
      by (subst wild_star_Cons) simp
    show ?thesis
    proof (cases "Q c \<and> f s \<noteq> SQLITE_NOMATCH")
      case True
      have "\<not> wild (None # Some Q # es) (c # s)" if n: "f s = SQLITE_NOWILDCARDMATCH"
      proof -
        have no: "\<not> wild es t" if "suffix t s" for t using fs n Some that by (simp add: agrees_def)
        have "suffix (tl v) s" if "suffix v (c # s)" for v
          using that suffix_order.trans [of "tl v" v s] by (auto simp: suffix_Cons)
        then show ?thesis using no by auto
      qed
      moreover have "wild (None # Some Q # es) (c # s)" if "f s = SQLITE_MATCH"
        using that True fs Some w by (simp add: agrees_def del: wild.simps(2))
      ultimately have "agrees (f s) (Some (None # Some Q # es)) (c # s)"
        using True by (cases "f s") (simp_all add: agrees_NOWILD del: wild.simps, simp add: agrees_def del: wild.simps)
      then show ?thesis using True Some by simp
    next
      case False
      then have nf: "\<not> (Q c \<and> wild es s)" using fs Some by (auto simp: agrees_def)
      then show ?thesis using False ih Some agrees_star [of _ "Some Q # es" s "Some Q # es" "c # s"] w by auto
    qed
  qed
qed

lemma search_here_agrees:
  assumes "\<And>t. suffix t s \<Longrightarrow> agrees (f t) eso t" "\<And>es. eso = Some es \<Longrightarrow> \<not> wild es []"
  shows "agrees (search_here f s) (map_option (Cons None) eso) s"
  using assms(1)
proof (induction s)
  case Nil
  then show ?case using assms(2)
    by (cases eso) (simp_all add: agrees_NOWILD wild_star_Nil del: wild.simps(2), simp add: agrees_def)
next
  case (Cons c s)
  have ih: "agrees (search_here f s) (map_option (Cons None) eso) s" using Cons by (simp add: suffix_ConsI)
  have fs: "agrees (f (c # s)) eso (c # s)" using Cons.prems by simp
  show ?case
  proof (cases eso)
    case None
    then show ?thesis using ih fs by (simp add: agrees_def)
  next
    case (Some es)
    show ?thesis
    proof (cases "f (c # s) = SQLITE_NOMATCH")
      case True
      then have "\<not> wild es (c # s)" using fs Some by (auto simp: agrees_def)
      then show ?thesis using True ih Some agrees_star [of _ es s es "c # s"] by (simp add: wild_star_Cons del: wild.simps)
    next
      case False
      then show ?thesis using fs Some
        by (cases "f (c # s)") (auto simp: agrees_NOWILD agrees_def)
    qed
  qed
qed

subsubsection \<open>Skipping wild cards\<close>

text \<open>
  What the code assumes of a description: the wild cards differ, the escape character is not the wild card for one character (otherwise
  \<open>likeFunc\<close> switches that off), and the bracket of a set is ASCII.
\<close>

definition info_ok :: "compareInfo \<Rightarrow> u32 \<Rightarrow> bool" where
  "info_ok info other \<longleftrightarrow> (matchAll info \<noteq> 0 \<longrightarrow> matchAll info \<noteq> matchOne info)
     \<and> (matchOne info \<noteq> 0 \<longrightarrow> other \<noteq> ucast (matchOne info)) \<and> (matchSet info \<noteq> 0 \<longrightarrow> unat other < 128)"

lemma ucast_u8_eq: "ucast a = (ucast b :: u32) \<longleftrightarrow> a = (b :: u8)"
  by (simp add: word_unat_eq_iff unat_ucast32)

lemma ucast_u8_0: "ucast a = (0 :: u32) \<longleftrightarrow> a = (0 :: u8)"
  using ucast_u8_eq [of a 0] by simp

definition at_char :: "compareInfo \<Rightarrow> u32 list \<Rightarrow> u32 \<Rightarrow> cstr \<Rightarrow> bool" where
  "at_char info q c zP \<longleftrightarrow>
     q = [] \<and> c = 0 \<or> (\<exists>r. q = c # r \<and> zP = utf8 r \<and> c \<noteq> ucast (matchAll info) \<and> c \<noteq> ucast (matchOne info))"

definition skipped :: "compareInfo \<Rightarrow> u32 \<Rightarrow> u32 list \<Rightarrow> u32 list \<Rightarrow> (u32 \<times> cstr \<times> cstr) option \<Rightarrow> bool" where
  "skipped info other p s x \<longleftrightarrow>
     (case x of
        None \<Rightarrow> (\<forall>es. compile info other p = Some es \<longrightarrow> \<not> wild (None # es) s)
      | Some (c, zP, zS) \<Rightarrow>
          (\<exists>q t. zS = utf8 t \<and> suffix t s \<and> suffix q p \<and> (compile info other p = None \<longleftrightarrow> compile info other q = None)
             \<and> at_char info q c zP
             \<and> (\<forall>es fs. compile info other p = Some es \<longrightarrow> compile info other q = Some fs \<longrightarrow> wild (None # es) s = wild (None # fs) t)))"

lemma skipped_step:
  assumes "skipped info other p s x" "suffix s s'" "compile info other (c # p) = map_option (Cons e) (compile info other p)"
    and "\<And>es. wild (None # e # es) s' = wild (None # es) s"
  shows "skipped info other (c # p) s' x"
proof (cases x)
  case None
  then show ?thesis using assms by (auto simp: skipped_def simp del: wild.simps compile.simps)
next
  case (Some y)
  obtain d zP zS where y: "y = (d, zP, zS)" by (cases y)
  obtain q t where q: "zS = utf8 t" "suffix t s" "suffix q p" "compile info other p = None \<longleftrightarrow> compile info other q = None"
    "at_char info q d zP"
    "\<forall>es fs. compile info other p = Some es \<longrightarrow> compile info other q = Some fs \<longrightarrow> wild (None # es) s = wild (None # fs) t"
    using assms(1) unfolding skipped_def Some y option.case prod.case by (elim exE conjE) (rule that)
  have "suffix t s'" using q(2) assms(2) by (rule suffix_order.trans)
  moreover have "suffix q (c # p)" using q(3) by (rule suffix_ConsI)
  moreover have "\<forall>es fs. compile info other (c # p) = Some es \<longrightarrow> compile info other q = Some fs \<longrightarrow> wild (None # es) s' = wild (None # fs) t"
    using q(6) assms(3,4) by (auto simp del: wild.simps compile.simps)
  ultimately show ?thesis
    unfolding skipped_def Some y option.case prod.case
    using q(1,4,5) assms(3) by (intro exI [of _ q] exI [of _ t]) simp
qed

lemma skip_wild_text:
  assumes "info_ok info other" "matchAll info \<noteq> 0" "text_ok p" "text_ok s"
  shows "skipped info other p s (skip_wild info (utf8 p) (utf8 s))"
  using assms(3,4)
proof (induction p arbitrary: s)
  case Nil
  then show ?case by (subst skip_wild.simps) (auto simp: skipped_def at_char_def)
next
  case (Cons c p)
  have c: "unichar c" "c \<noteq> 0" "text_ok p" using Cons.prems(1) by simp_all
  have ao: "ucast (matchAll info) \<noteq> (ucast (matchOne info) :: u32)" using assms(1,2) by (simp add: info_ok_def ucast_u8_eq)
  have one: "c = ucast (matchOne info) \<Longrightarrow> matchOne info \<noteq> 0 \<and> c \<noteq> other"
    using c(2) assms(1) by (auto simp: info_ok_def)
  consider "c = ucast (matchAll info)" | "c = ucast (matchOne info)" | "c \<noteq> ucast (matchAll info)" "c \<noteq> ucast (matchOne info)" by blast
  then show ?case
  proof cases
    case 1
    have "skip_wild info (utf8 (c # p)) (utf8 s) = skip_wild info (utf8 p) (utf8 s)"
      using 1 ao c by (subst skip_wild.simps) (simp add: Utf8Read_WRITE)
    then show ?thesis using skipped_step [OF Cons.IH [OF c(3) Cons.prems(2)], of s c None] 1 by (simp add: wild_star_star del: wild.simps)
  next
    case 2
    note o = one [OF 2]
    show ?thesis
    proof (cases s)
      case Nil
      have "skip_wild info (utf8 (c # p)) (utf8 s) = None"
        using 2 o c Nil by (subst skip_wild.simps) (simp add: Utf8Read_WRITE)
      then show ?thesis using 2 o ao Nil by (auto simp: skipped_def wild_star_Nil)
    next
      case s: (Cons d s')
      have "skip_wild info (utf8 (c # p)) (utf8 s) = skip_wild info (utf8 p) (utf8 s')"
        using 2 o c s Cons.prems(2) by (subst skip_wild.simps) (simp add: Utf8Read_WRITE)
      then show ?thesis using skipped_step [OF Cons.IH [OF c(3), of s'], of s c "Some (\<lambda>_. True)"] 2 o ao s Cons.prems(2)
        by (simp add: wild_star_one suffix_ConsI del: wild.simps)
    qed
  next
    case 3
    have "skip_wild info (utf8 (c # p)) (utf8 s) = Some (c, utf8 p, utf8 s)"
      using 3 c by (subst skip_wild.simps) (simp add: Utf8Read_WRITE)
    then show ?thesis using 3 unfolding skipped_def
      by (simp add: at_char_def del: wild.simps compile.simps utf8_simps) (rule exI [of _ "c # p"], rule exI [of _ s], simp del: wild.simps compile.simps)
  qed
qed

lemma skipped_agrees:
  assumes "skipped info other p s (Some (c, zP, zS))"
  obtains q t where "zS = utf8 t" "suffix t s" "suffix q p" "at_char info q c zP"
    "\<And>r. agrees r (map_option (Cons None) (compile info other q)) t \<Longrightarrow> agrees r (map_option (Cons None) (compile info other p)) s"
proof -
  obtain q t where q: "zS = utf8 t" "suffix t s" "suffix q p" "compile info other p = None \<longleftrightarrow> compile info other q = None" "at_char info q c zP"
    "\<forall>es fs. compile info other p = Some es \<longrightarrow> compile info other q = Some fs \<longrightarrow> wild (None # es) s = wild (None # fs) t"
    using assms unfolding skipped_def option.case prod.case by (elim exE conjE) (rule that)
  have "agrees r (map_option (Cons None) (compile info other p)) s" if a: "agrees r (map_option (Cons None) (compile info other q)) t" for r
  proof (cases "compile info other q")
    case None
    then show ?thesis using a q(4) by (simp add: agrees_def)
  next
    case (Some fs)
    then obtain es where "compile info other p = Some es" using q(4) by auto
    then show ?thesis using agrees_star [of r fs t es s] a q(6) Some by (simp del: wild.simps)
  qed
  then show ?thesis using that q(1,2,3,5) by blast
qed

subsection \<open>Single characters\<close>

lemma Toupper_unat:
  assumes "unat c < 128"
  shows "unat (sqlite3Toupper c) = (if 97 \<le> unat c \<and> unat c \<le> 122 then unat c - 32 else unat c)"
proof -
  have "list_all (\<lambda>n. unat (sqlite3Toupper (of_nat n)) = (if 97 \<le> n \<and> n \<le> 122 then n - 32 else n)) [0..<128]" by code_simp
  then have "unat (sqlite3Toupper (of_nat (unat c))) = (if 97 \<le> unat c \<and> unat c \<le> 122 then unat c - 32 else unat c)"
    using assms unfolding list_all_iff set_upt by (elim ballE [of _ _ "unat c"]) (assumption, simp)
  then show ?thesis by simp
qed

lemma Tolower_unat: "unat (sqlite3Tolower c) = (if 65 \<le> unat c \<and> unat c \<le> 90 then unat c + 32 else unat c)"
  by (auto simp: sqlite3Tolower_def UpperToLower_eq word_le_nat_alt unat_word_ariths)

lemma stop_bytes_same:
  assumes "c < 0x80"
  shows "c2 < 0x80 \<and> ucast c2 \<in> stop_bytes info c \<longleftrightarrow> same_char info c c2" "b \<in> stop_bytes info c \<Longrightarrow> unat b < 128"
proof -
  have c: "unat c < 128" "unat (ucast c :: u8) = unat c" using assms by (simp_all add: word_less_nat_alt unat_ucast8)
  show "b \<in> stop_bytes info c \<Longrightarrow> unat b < 128"
    using c by (auto simp: stop_bytes_def Toupper_unat Tolower_unat split: if_splits)
  show "c2 < 0x80 \<and> ucast c2 \<in> stop_bytes info c \<longleftrightarrow> same_char info c c2"
  proof (cases "c2 < 0x80")
    case True
    then have c2: "unat c2 < 128" "unat (ucast c2 :: u8) = unat c2" by (simp_all add: word_less_nat_alt unat_ucast8)
    have eq: "c = c2 \<longleftrightarrow> unat c = unat c2" by (simp add: word_unat_eq_iff)
    show ?thesis using True assms c c2
      by (auto simp: stop_bytes_def same_char_def low_def word_unat_eq_iff [where 'a = 8] eq Toupper_unat Tolower_unat)
  next
    case False
    then show ?thesis using assms by (auto simp: same_char_def)
  qed
qed

lemma search_char_agrees:
  assumes "text_ok t" "e \<noteq> 0x80" "\<And>t'. suffix t' t \<Longrightarrow> agrees (f (utf8 t')) eso t'"
  shows "agrees (if e \<le> 0x80 then byte_search (stop_bytes info e) f (utf8 t) else char_search e f (utf8 t))
    (map_option (Cons None) (map_option (Cons (Some (same_char info e))) eso)) t"
proof -
  have "(if e \<le> 0x80 then byte_search (stop_bytes info e) f (utf8 t) else char_search e f (utf8 t))
      = search (same_char info e) (\<lambda>s. f (utf8 s)) t"
  proof (cases "e \<le> 0x80")
    case True
    then have e: "e < 0x80" using assms(2) by simp
    then have "byte_search (stop_bytes info e) f (utf8 t) = search (\<lambda>c. c < 0x80 \<and> ucast c \<in> stop_bytes info e) (\<lambda>s. f (utf8 s)) t"
      using byte_search_text [OF _ assms(1)] stop_bytes_same(2) by blast
    then show ?thesis using True by (simp add: stop_bytes_same(1) [OF e])
  next
    case False
    then have "\<not> e < 0x80" by (simp add: not_less order.strict_implies_order)
    then have "same_char info e = (\<lambda>d. d = e)" by (auto simp: same_char_def fun_eq_iff)
    then show ?thesis using False char_search_text [OF assms(1), of e f] by simp
  qed
  then show ?thesis using search_agrees [of t "\<lambda>s. f (utf8 s)" eso "same_char info e"] assms(3) by (simp add: option.map_comp comp_def)
qed

lemma agrees_step: "P d \<Longrightarrow> agrees r eso s \<Longrightarrow> agrees r (map_option (Cons (Some P)) eso) (d # s)"
proof (cases eso)
  case (Some es)
  assume P: "P d" and a: "agrees r eso s"
  have "\<not> wild (Some P # es) t" if "r = SQLITE_NOWILDCARDMATCH" "suffix t (d # s)" for t
  proof -
    have "suffix (tl t) s" using that(2) suffix_order.trans [of "tl t" t s] by (auto simp: suffix_Cons)
    then show ?thesis using a Some that(1) by (simp add: agrees_def)
  qed
  then show ?thesis using P a Some by (simp add: agrees_def)
qed (simp add: agrees_def)

lemma agrees_fail: "s = [] \<or> \<not> P (hd s) \<Longrightarrow> agrees SQLITE_NOMATCH (map_option (Cons (Some P)) eso) s"
  by (cases eso) (auto simp: agrees_def)

subsection \<open>Correctness of the comparison\<close>

text \<open>The branch of the code after the wild cards, and the branch for a single character.\<close>

definition after_star :: "compareInfo \<Rightarrow> u32 \<Rightarrow> u32 \<times> cstr \<times> cstr \<Rightarrow> pattern_result" where
  "after_star info other x =
     (case x of (d, zP, zS) \<Rightarrow>
        if d = 0 then SQLITE_MATCH
        else if d = other \<and> matchSet info \<noteq> 0 then slow_search (\<lambda>z. patternCompare info other (ucast other # zP) z) zS
        else (case (if d = other then sqlite3Utf8Read zP else (d, zP)) of
                (e, zP) \<Rightarrow> if e = 0 then SQLITE_NOWILDCARDMATCH
                  else if e \<le> 0x80 then byte_search (stop_bytes info e) (\<lambda>z. patternCompare info other zP z) zS
                  else char_search e (\<lambda>z. patternCompare info other zP z) zS))"

lemma after_star_agrees:
  assumes "info_ok info other" "text_ok t" "text_ok q" "0x80 \<notin> set q" "at_char info q d zP"
    and ih: "\<And>r t. length r \<le> length q \<Longrightarrow> text_ok r \<Longrightarrow> 0x80 \<notin> set r \<Longrightarrow> text_ok t \<Longrightarrow>
      agrees (patternCompare info other (utf8 r) (utf8 t)) (compile info other r) t"
  shows "agrees (after_star info other (d, zP, utf8 t)) (map_option (Cons None) (compile info other q)) t"
proof (cases q)
  case Nil
  then show ?thesis using assms(5) by (auto simp: after_star_def at_char_def agrees_def)
next
  case (Cons d' r)
  have t: "suffix t' t \<Longrightarrow> text_ok t'" for t' using text_ok_suffix [OF assms(2)] .
  have r: "d' = d" "zP = utf8 r" "d \<noteq> ucast (matchAll info)" "d \<noteq> ucast (matchOne info)" "d \<noteq> 0" "unichar d" "text_ok r"
    using assms(3,5) Cons by (auto simp: at_char_def)
  consider "d = other" "matchSet info \<noteq> 0" | "d = other" "matchSet info = 0" "r = []"
    | e r' where "d = other" "matchSet info = 0" "r = e # r'" | "d \<noteq> other" by (cases r) auto
  then show ?thesis
  proof cases
    case 1
    have "ucast other # zP = utf8 q"
      using ascii_WRITE(2) [of "ucast other"] 1 assms(1) Cons r(1,2) ucast_u8_u32 [of other]
      by (simp add: info_ok_def unat_ucast8)
    then have "after_star info other (d, zP, utf8 t) = search_here (\<lambda>t. patternCompare info other (utf8 q) (utf8 t)) t"
      using 1 r(5) slow_search_text [OF assms(2)] by (simp add: after_star_def)
    moreover have "\<not> wild es []" if "compile info other q = Some es" for es
      using that Cons r 1 by (auto split: option.splits)
    ultimately show ?thesis
      using search_here_agrees [of t "\<lambda>t. patternCompare info other (utf8 q) (utf8 t)" "compile info other q"] ih [of q] assms(3,4) t by simp
  next
    case 2
    then show ?thesis using r Cons by (simp add: after_star_def agrees_def)
  next
    case (3 e r')
    then show ?thesis
      using search_char_agrees [of t e "\<lambda>z. patternCompare info other (utf8 r') z" "compile info other r'" info] ih [of r'] t
        r Cons assms(2,4) by (auto simp: after_star_def Utf8Read_WRITE)
  next
    case 4
    then show ?thesis
      using search_char_agrees [of t d "\<lambda>z. patternCompare info other (utf8 r) z" "compile info other r" info] ih [of r] t
        r Cons assms(2,4) by (auto simp: after_star_def)
  qed
qed

lemma compare_star:
  assumes "info_ok info other" "text_ok (c # p)" "0x80 \<notin> set p" "text_ok s" "c = ucast (matchAll info)"
    and ih: "\<And>q t. length q \<le> length p \<Longrightarrow> text_ok q \<Longrightarrow> 0x80 \<notin> set q \<Longrightarrow> text_ok t \<Longrightarrow>
      agrees (patternCompare info other (utf8 q) (utf8 t)) (compile info other q) t"
  shows "agrees (patternCompare info other (utf8 (c # p)) (utf8 s)) (compile info other (c # p)) s"
proof -
  have c: "unichar c" "c \<noteq> 0" "text_ok p" "matchAll info \<noteq> 0" using assms(2,5) by auto
  note sk = skip_wild_text [OF assms(1) c(4,3) assms(4)]
  have comp: "compile info other (c # p) = map_option (Cons None) (compile info other p)" using assms(5) by simp
  have pc: "patternCompare info other (utf8 (c # p)) (utf8 s) =
      (case skip_wild info (utf8 p) (utf8 s) of None \<Rightarrow> SQLITE_NOWILDCARDMATCH | Some x \<Rightarrow> after_star info other x)"
    using c assms(5) by (subst patternCompare.simps) (auto simp: Utf8Read_WRITE after_star_def split: option.splits)
  show ?thesis
  proof (cases "skip_wild info (utf8 p) (utf8 s)")
    case None
    then show ?thesis using sk unfolding comp pc
      by (cases "compile info other p") (simp_all add: skipped_def agrees_NOWILD del: wild.simps, simp add: agrees_def)
  next
    case (Some x)
    obtain d zP zS where x: "x = (d, zP, zS)" by (cases x)
    obtain q t where q: "zS = utf8 t" "suffix t s" "suffix q p" "at_char info q d zP"
      and up: "\<And>r. agrees r (map_option (Cons None) (compile info other q)) t \<Longrightarrow> agrees r (compile info other (c # p)) s"
      using skipped_agrees [OF sk [unfolded Some x]] unfolding comp by blast
    have "text_ok t" "text_ok q" "length q \<le> length p" "0x80 \<notin> set q"
      using text_ok_suffix [OF assms(4) q(2)] text_ok_suffix [OF c(3) q(3)] suffix_length_le [OF q(3)] set_mono_suffix [OF q(3)] assms(3) by auto
    then have "agrees (after_star info other x) (map_option (Cons None) (compile info other q)) t"
      using after_star_agrees [OF assms(1) _ _ _ q(4), of t] ih unfolding x q(1) by simp
    then show ?thesis using up Some unfolding pc by simp
  qed
qed

lemma char_accepts_end: "c \<noteq> 0 \<Longrightarrow> \<not> char_accepts info esc c 0"
proof
  assume c: "c \<noteq> 0" and "char_accepts info esc c 0"
  then have "low c = low 0" "c < 0x80" by (auto simp: char_accepts_def)
  then have "unat c < 128" "sqlite3Tolower (ucast c) = 0"
    by (simp_all add: low_def sqlite3Tolower_def word_less_nat_alt)
  then have "ucast c = (0 :: u8)" by (simp add: sqlite3Tolower_def)
  then show False using c ucast_u8_u32 [OF \<open>unat c < 128\<close>] by simp
qed

lemma compare_char:
  assumes "text_ok s" "e \<noteq> 0" "\<And>d. d \<noteq> 0 \<Longrightarrow> P d \<longleftrightarrow> char_accepts info esc e d"
    and "\<And>d s'. s = d # s' \<Longrightarrow> agrees (f (utf8 s')) eso s'"
  shows "agrees (case Utf8Read (utf8 s) of (c2, zS) \<Rightarrow> if char_accepts info esc e c2 then f zS else SQLITE_NOMATCH)
    (map_option (Cons (Some P)) eso) s"
proof (cases s)
  case Nil
  then show ?thesis using char_accepts_end [OF assms(2)] by (simp add: agrees_fail)
next
  case (Cons d s')
  then show ?thesis using assms(1,3,4) agrees_step [of P d "f (utf8 s')" eso s'] agrees_fail [of s P eso]
    by (auto simp: Utf8Read_WRITE)
qed

lemma compare_set:
  assumes "text_ok p" "0x80 \<notin> set p" "text_ok s"
    and ih: "\<And>q t. length q \<le> length p \<Longrightarrow> text_ok q \<Longrightarrow> 0x80 \<notin> set q \<Longrightarrow> text_ok t \<Longrightarrow> agrees (f (utf8 q) (utf8 t)) (g q) t"
  shows "agrees (case Utf8Read (utf8 s) of
        (c, zS) \<Rightarrow> if c = 0 then SQLITE_NOMATCH else case match_set c (utf8 p) of None \<Rightarrow> SQLITE_NOMATCH | Some zP \<Rightarrow> f zP zS)
      (case glob_set p of None \<Rightarrow> None | Some (P, q) \<Rightarrow> map_option (Cons (Some P)) (g q)) s"
proof (cases "glob_set p")
  case None
  then show ?thesis by (cases s) (auto simp: agrees_def match_set_text [OF assms(1)] split: prod.splits)
next
  case (Some x)
  obtain P q where x: "x = (P, q)" by (cases x)
  have q: "length q \<le> length p" "text_ok q" "0x80 \<notin> set q"
    using Some x glob_set_length [of p P q] glob_set_text [of p P q] glob_set_subset [of p P q] assms(1,2) by auto
  show ?thesis
  proof (cases s)
    case Nil
    then show ?thesis using Some x by (simp add: agrees_fail)
  next
    case (Cons d s')
    then have "agrees (f (utf8 q) (utf8 s')) (g q) s'" using ih [OF q] assms(3) by simp
    then show ?thesis using Some x Cons assms(3) agrees_step [of P d _ "g q" s'] agrees_fail [of s P "g q"]
      by (auto simp: Utf8Read_WRITE match_set_text [OF assms(1)])
  qed
qed

lemma compare_single:
  assumes "info_ok info other" "text_ok (c # p)" "0x80 \<notin> set p" "text_ok s" "c \<noteq> ucast (matchAll info)"
    and ih: "\<And>q t. length q \<le> length p \<Longrightarrow> text_ok q \<Longrightarrow> 0x80 \<notin> set q \<Longrightarrow> text_ok t \<Longrightarrow>
      agrees (patternCompare info other (utf8 q) (utf8 t)) (compile info other q) t"
  shows "agrees (patternCompare info other (utf8 (c # p)) (utf8 s)) (compile info other (c # p)) s"
proof -
  have c: "unichar c" "c \<noteq> 0" "text_ok p" using assms(2) by simp_all
  note r = Utf8Read_WRITE [OF c(1), of p]
  have pc: "patternCompare info other (utf8 (c # p)) (utf8 s) =
      (if c = other \<and> matchSet info \<noteq> 0 then
         (case Utf8Read (utf8 s) of (c, zS) \<Rightarrow> if c = 0 then SQLITE_NOMATCH
            else case match_set c (utf8 p) of None \<Rightarrow> SQLITE_NOMATCH | Some zP \<Rightarrow> patternCompare info other zP zS)
       else (case (if c = other then Utf8Read (utf8 p) else (c, utf8 p)) of
               (c', zP) \<Rightarrow> if c' = 0 then SQLITE_NOMATCH
                 else case Utf8Read (utf8 s) of
                   (c2, zS) \<Rightarrow> if char_accepts info (c = other) c' c2 then patternCompare info other zP zS else SQLITE_NOMATCH))"
    using r c assms(5) by (subst patternCompare.simps) simp
  consider "c = other" "matchSet info \<noteq> 0" | "c = other" "matchSet info = 0" "p = []"
    | e q where "c = other" "matchSet info = 0" "p = e # q" | "c \<noteq> other" by (cases p) auto
  then show ?thesis
  proof cases
    case 1
    then show ?thesis using compare_set [where f = "patternCompare info other" and g = "compile info other", OF c(3) assms(3,4) ih] assms(5)
      unfolding pc by simp
  next
    case 2
    then show ?thesis using assms(5) unfolding pc by (simp add: agrees_def)
  next
    case (3 e q)
    then have "agrees (case Utf8Read (utf8 s) of
        (c2, zS) \<Rightarrow> if char_accepts info True e c2 then patternCompare info other (utf8 q) zS else SQLITE_NOMATCH)
        (map_option (Cons (Some (same_char info e))) (compile info other q)) s"
      using c(3) assms(3,4) ih [of q] by (intro compare_char) (auto simp: char_accepts_def same_char_def)
    then show ?thesis using 3 c assms(5) unfolding pc by (simp add: Utf8Read_WRITE)
  next
    case 4
    let ?P = "if c = ucast (matchOne info) then (\<lambda>_. True) else same_char info c"
    have "agrees (case Utf8Read (utf8 s) of
        (c2, zS) \<Rightarrow> if char_accepts info False c c2 then patternCompare info other (utf8 p) zS else SQLITE_NOMATCH)
        (map_option (Cons (Some ?P)) (compile info other p)) s"
      using c assms(3,4) ih [of p] by (intro compare_char) (auto simp: char_accepts_def same_char_def)
    then show ?thesis using 4 c(2) assms(5) unfolding pc by (simp split: if_splits)
  qed
qed

lemma patternCompare_agrees:
  assumes "info_ok info other" "text_ok p" "0x80 \<notin> set p" "text_ok s"
  shows "agrees (patternCompare info other (utf8 p) (utf8 s)) (compile info other p) s"
  using assms(2-4)
proof (induction p arbitrary: s rule: length_induct)
  case (1 p)
  show ?case
  proof (cases p)
    case Nil
    then show ?thesis by (subst patternCompare.simps) (simp add: agrees_def)
  next
    case (Cons c q)
    then have ih: "agrees (patternCompare info other (utf8 r) (utf8 t)) (compile info other r) t"
      if "length r \<le> length q" "text_ok r" "0x80 \<notin> set r" "text_ok t" for r t using 1(1) that by simp
    have "0x80 \<notin> set q" using 1(3) Cons by simp
    then show ?thesis
      using compare_star [OF assms(1) 1(2) [unfolded Cons] _ 1(4) _ ih] compare_single [OF assms(1) 1(2) [unfolded Cons] _ 1(4) _ ih]
      unfolding Cons by blast
  qed
qed

text \<open>
  C28. The comparison of \<open>LIKE\<close> and \<open>GLOB\<close> decides the meaning of the pattern, except for patterns that contain the character
  U+0080: for every other pattern and every text, both UTF-8 of characters other than U+0000, surrogates, U+FFFE and U+FFFF, the code,
  which returns early when no other position of a wild card can help and searches for the character after a wild card
  by bytes, finds a match exactly when the pattern is well formed and its wild cards and characters can be laid over the whole text.
  A pattern with U+0080 is excluded because the code is wrong there (\<open>patternCompare_U0080\<close> below).
\<close>

theorem patternCompare_correct:
  assumes "info_ok info other" "text_ok p" "0x80 \<notin> set p" "text_ok s"
  shows "patternCompare info other (utf8 p) (utf8 s) = SQLITE_MATCH
    \<longleftrightarrow> (\<exists>es. compile info other p = Some es \<and> wild es s)"
  using patternCompare_agrees [OF assms] by (auto simp: agrees_def split: option.splits)

theorem patternCompare_correct_witness:
  "patternCompare likeInfoNorm 0 (utf8 [0x61, 0x25, 0x5F, 0xE9]) (utf8 [0x41, 0x62, 0x63, 0xE9]) = SQLITE_MATCH"
proof -
  have ok: "info_ok likeInfoNorm 0" "text_ok [0x61, 0x25, 0x5F, 0xE9]" "text_ok [0x41, 0x62, 0x63, 0xE9]"
    by (simp_all add: info_ok_def likeInfoNorm_def unichar_def utf8_fix_def)
  have es: "compile likeInfoNorm 0 [0x61, 0x25, 0x5F, 0xE9]
      = Some [Some (same_char likeInfoNorm 0x61), None, Some (\<lambda>_. True), Some (same_char likeInfoNorm 0xE9)]"
    by (simp add: likeInfoNorm_def)
  have "same_char likeInfoNorm 0x61 0x41" "same_char likeInfoNorm 0xE9 0xE9"
    by (simp_all add: same_char_def likeInfoNorm_def low_def sqlite3Tolower_def UpperToLower_eq)
  then have "wild [Some (same_char likeInfoNorm 0x61), None, Some (\<lambda>_. True), Some (same_char likeInfoNorm 0xE9)] [0x41, 0x62, 0x63, 0xE9]"
    by simp (rule exI [of _ "[0x63, 0xE9]"], simp add: suffix_Cons)
  then show ?thesis using patternCompare_correct [OF ok(1,2) _ ok(3)] es by simp
qed

text \<open>
  The character U+0080 is the exception: the code takes it for a single byte and finds that byte at the end of another character, so
  that the text consisting of U+00C0 matches the pattern of a wild card followed by U+0080.
\<close>

lemma patternCompare_U0080:
  "patternCompare globInfo 91 (utf8 [0x2A, 0x80]) (utf8 [0xC0]) = SQLITE_MATCH"
  "compile globInfo 91 [0x2A, 0x80] = Some [None, Some (same_char globInfo 0x80)]"
  "\<not> wild [None, Some (same_char globInfo 0x80)] [0xC0]"
proof -
  show "patternCompare globInfo 91 (utf8 [0x2A, 0x80]) (utf8 [0xC0]) = SQLITE_MATCH" by code_simp
  show "compile globInfo 91 [0x2A, 0x80] = Some [None, Some (same_char globInfo 0x80)]" by (simp add: globInfo_def)
  show "\<not> wild [None, Some (same_char globInfo 0x80)] [0xC0]" by (auto simp: suffix_Cons same_char_def globInfo_def)
qed

text \<open>The operators with and without an escape character; an escape character that is a wild card loses its meaning as one.\<close>

lemma like_escape_ok: "info \<in> {likeInfoNorm, likeInfoAlt} \<Longrightarrow> info_ok (like_escape info e) e"
  by (auto simp: info_ok_def like_escape_def likeInfoNorm_def likeInfoAlt_def Let_def ucast_u8_0 split: if_splits)

lemma likeFunc_correct:
  assumes "text_ok p" "0x80 \<notin> set p" "text_ok s" "length (utf8 p) \<le> limit"
  shows "info \<in> {likeInfoNorm, likeInfoAlt} \<Longrightarrow> text_ok [e] \<Longrightarrow>
      likeFunc info limit (Some (utf8 p)) (Some (utf8 s)) (Some (Some (utf8 [e])))
        = Like_int (\<exists>es. compile (like_escape info e) e p = Some es \<and> wild es s)"
    "info \<in> {likeInfoNorm, likeInfoAlt, globInfo} \<Longrightarrow>
      likeFunc info limit (Some (utf8 p)) (Some (utf8 s)) None
        = Like_int (\<exists>es. compile info (ucast (matchSet info)) p = Some es \<and> wild es s)"
proof -
  note m = patternCompare_agrees [OF _ assms(1-3), unfolded agrees_def]
  assume i: "info \<in> {likeInfoNorm, likeInfoAlt}" and e: "text_ok [e]"
  have "sqlite3Utf8CharLen (utf8 [e]) (- 1) = 1" using Utf8CharLen_counts [of "[e]" "[]"] e by (simp add: text_ok_def del: utf8_simps)
  moreover have "fst (Utf8Read (utf8 [e])) = e" using Utf8Read_WRITE [of e "[]"] e by simp
  ultimately show "likeFunc info limit (Some (utf8 p)) (Some (utf8 s)) (Some (Some (utf8 [e])))
        = Like_int (\<exists>es. compile (like_escape info e) e p = Some es \<and> wild es s)"
    using m [OF like_escape_ok [OF i, of e]] assms(4)
    by (simp add: likeFunc_def Let_def del: utf8_simps split: option.splits)
next
  note m = patternCompare_agrees [OF _ assms(1-3), unfolded agrees_def]
  assume "info \<in> {likeInfoNorm, likeInfoAlt, globInfo}"
  then have "info_ok info (ucast (matchSet info))"
    by (auto simp: info_ok_def likeInfoNorm_def likeInfoAlt_def globInfo_def)
  then show "likeFunc info limit (Some (utf8 p)) (Some (utf8 s)) None
        = Like_int (\<exists>es. compile info (ucast (matchSet info)) p = Some es \<and> wild es s)"
    using m [of info "ucast (matchSet info)"] assms(4) by (simp add: likeFunc_def Let_def split: option.splits)
qed

end
