(* ===== verification/ByteFile.thy ===== *)
theory ByteFile
  imports Prelude
begin

text \<open>
  Files as sequences of bytes.  The two in-memory files of SQLite, the database of \<open>memdb.c\<close> and the rollback journal of
  \<open>memjournal.c\<close>, both implement the methods \<open>xRead\<close>, \<open>xWrite\<close> and \<open>xTruncate\<close> of \<open>sqlite3_io_methods\<close>.  This theory
  holds the blocks of memory they copy to and from, what the methods do to the contents of a file, and the locale \<open>byte_file\<close>
  with the laws of such a file and what a client that mixes reads, writes and truncations can rely on.
\<close>

definition SQLITE_IOERR_SHORT_READ :: int where "SQLITE_IOERR_SHORT_READ = 522"
definition SQLITE_IOERR_NOMEM :: int where "SQLITE_IOERR_NOMEM = 3082"

subsection \<open>Blocks of memory\<close>

text \<open>\<open>memcpy\<close> from and to a block, \<open>None\<close> outside it, and \<open>realloc\<close>, which keeps what fits of the old block in the new one.\<close>

definition get_bytes :: "u8 list \<Rightarrow> nat \<Rightarrow> nat \<Rightarrow> u8 list option" where
  "get_bytes d i n = (if i + n \<le> length d then Some (take n (drop i d)) else None)"

definition put_bytes :: "u8 list \<Rightarrow> nat \<Rightarrow> u8 list \<Rightarrow> u8 list option" where
  "put_bytes d i bs = (if i + length bs \<le> length d then Some (take i d @ bs @ drop (i + length bs) d) else None)"

definition move_block :: "u8 list \<Rightarrow> u8 list \<Rightarrow> u8 list" where
  "move_block d b = take (length b) d @ drop (length d) b"

lemma length_put_bytes: "put_bytes d i bs = Some d' \<Longrightarrow> length d' = length d"
  by (auto simp: put_bytes_def split: if_splits)

lemma length_move_block [simp]: "length (move_block d b) = length b"
  by (simp add: move_block_def)

lemma take_move_block: "n \<le> length d \<Longrightarrow> n \<le> length b \<Longrightarrow> take n (move_block d b) = take n d"
  by (simp add: move_block_def min_def)

subsection \<open>The contents of a file\<close>

text \<open>A write behind the end fills the gap with zeros.\<close>

definition file_write :: "u8 list \<Rightarrow> nat \<Rightarrow> u8 list \<Rightarrow> u8 list" where
  "file_write f i bs = take i (f @ replicate (i - length f) 0) @ bs @ drop (i + length bs) f"

lemma length_file_write [simp]: "length (file_write f i bs) = max (length f) (i + length bs)"
  by (simp add: file_write_def)

lemma file_write_end: "file_write f (length f) bs = f @ bs"
  by (simp add: file_write_def)

lemma read_file_write: "take (length bs) (drop i (file_write f i bs)) = bs"
  by (simp add: file_write_def)

lemma nth_file_write:
  "j < length (file_write f i bs) \<Longrightarrow>
   file_write f i bs ! j = (if i \<le> j \<and> j < i + length bs then bs ! (j - i) else if j < length f then f ! j else 0)"
  by (auto simp: file_write_def nth_append min_def)

text \<open>Writing in a block and taking the file as its first bytes is writing in the file.\<close>

lemma file_write_block:
  assumes "i + length bs \<le> n" "n \<le> length d"
  shows "take n (take i d @ bs @ drop (i + length bs) d) = file_write (take n d) i bs"
proof (rule nth_equalityI)
  show "length (take n (take i d @ bs @ drop (i + length bs) d)) = length (file_write (take n d) i bs)" using assms by simp
  fix j assume "j < length (take n (take i d @ bs @ drop (i + length bs) d))"
  then show "take n (take i d @ bs @ drop (i + length bs) d) ! j = file_write (take n d) i bs ! j"
    using assms by (subst nth_file_write) (auto simp: nth_append)
qed

subsection \<open>The interface\<close>

text \<open>
  \<open>ok\<close> is the representation invariant, \<open>content\<close> the bytes of the file, \<open>may_write\<close> where the file accepts writes (a journal is
  only appended to), and the methods return \<open>None\<close> when they are undefined, otherwise a result code and the new state.
\<close>

datatype file_op = FWrite "u8 list" nat | FRead nat nat | FTrunc nat

text \<open>A run of a list of operations up to the first result code other than \<open>SQLITE_OK\<close>, with what the reads returned.\<close>

fun run_file :: "('s \<Rightarrow> u8 list \<Rightarrow> nat \<Rightarrow> (int \<times> 's) option) \<Rightarrow> ('s \<Rightarrow> nat \<Rightarrow> nat \<Rightarrow> (int \<times> u8 list \<times> 's) option)
    \<Rightarrow> ('s \<Rightarrow> nat \<Rightarrow> (int \<times> 's) option) \<Rightarrow> file_op list \<Rightarrow> 's \<Rightarrow> (int \<times> u8 list list \<times> 's) option" where
  "run_file wr rd tr [] s = Some (SQLITE_OK, [], s)"
| "run_file wr rd tr (FWrite bs i # ops) s =
     (case wr s bs i of
        None \<Rightarrow> None
      | Some (rc, s') \<Rightarrow> if rc = SQLITE_OK then run_file wr rd tr ops s' else Some (rc, [], s'))"
| "run_file wr rd tr (FRead n i # ops) s =
     (case rd s n i of
        None \<Rightarrow> None
      | Some (rc, bs, s') \<Rightarrow>
          if rc = SQLITE_OK then map_option (\<lambda>(rc, rs, s''). (rc, bs # rs, s'')) (run_file wr rd tr ops s')
          else Some (rc, [], s'))"
| "run_file wr rd tr (FTrunc n # ops) s =
     (case tr s n of
        None \<Rightarrow> None
      | Some (rc, s') \<Rightarrow> if rc = SQLITE_OK then run_file wr rd tr ops s' else Some (rc, [], s'))"

locale byte_file =
  fixes ok :: "'s \<Rightarrow> bool" and content :: "'s \<Rightarrow> u8 list" and may_write :: "'s \<Rightarrow> nat \<Rightarrow> nat \<Rightarrow> bool"
    and wr :: "'s \<Rightarrow> u8 list \<Rightarrow> nat \<Rightarrow> (int \<times> 's) option" and rd :: "'s \<Rightarrow> nat \<Rightarrow> nat \<Rightarrow> (int \<times> u8 list \<times> 's) option"
    and tr :: "'s \<Rightarrow> nat \<Rightarrow> (int \<times> 's) option"
  assumes wr_law: "ok s \<Longrightarrow> may_write s (length bs) i \<Longrightarrow>
      \<exists>rc s'. wr s bs i = Some (rc, s') \<and> ok s' \<and> (rc = SQLITE_OK \<longrightarrow> content s' = file_write (content s) i bs)"
    and rd_law: "ok s \<Longrightarrow> 0 < n \<Longrightarrow> i + n \<le> length (content s) \<Longrightarrow>
      \<exists>rc bs s'. rd s n i = Some (rc, bs, s') \<and> ok s' \<and> content s' = content s \<and> (rc = SQLITE_OK \<longrightarrow> bs = take n (drop i (content s)))"
    and tr_law: "ok s \<Longrightarrow> n \<le> length (content s) \<Longrightarrow>
      \<exists>rc s'. tr s n = Some (rc, s') \<and> ok s' \<and> (rc = SQLITE_OK \<longrightarrow> content s' = take n (content s))"
begin

text \<open>What was just written is read back, and what was elsewhere in the file stays.\<close>

lemma write_then_read:
  assumes "ok s" "may_write s (length bs) i" "wr s bs i = Some (SQLITE_OK, s')"
  shows "bs \<noteq> [] \<Longrightarrow> \<exists>rc bs' s''. rd s' (length bs) i = Some (rc, bs', s'') \<and> (rc = SQLITE_OK \<longrightarrow> bs' = bs)"
    and "0 < n \<Longrightarrow> j + n \<le> length (content s) \<Longrightarrow> j + n \<le> i \<or> i + length bs \<le> j \<Longrightarrow>
      \<exists>rc bs' s''. rd s' n j = Some (rc, bs', s'') \<and> (rc = SQLITE_OK \<longrightarrow> bs' = take n (drop j (content s)))"
proof -
  have s': "ok s'" "content s' = file_write (content s) i bs" using wr_law [OF assms(1,2)] assms(3) by auto
  show "bs \<noteq> [] \<Longrightarrow> \<exists>rc bs' s''. rd s' (length bs) i = Some (rc, bs', s'') \<and> (rc = SQLITE_OK \<longrightarrow> bs' = bs)"
    using rd_law [OF s'(1), of "length bs" i] by (auto simp: s'(2) read_file_write)
  assume "0 < n" "j + n \<le> length (content s)" "j + n \<le> i \<or> i + length bs \<le> j"
  moreover from this have "take n (drop j (content s')) = take n (drop j (content s))"
    by (intro nth_equalityI) (auto simp: s'(2) nth_file_write)
  ultimately show "\<exists>rc bs' s''. rd s' n j = Some (rc, bs', s'') \<and> (rc = SQLITE_OK \<longrightarrow> bs' = take n (drop j (content s)))"
    using rd_law [OF s'(1), of n j] by (auto simp: s'(2) le_max_iff_disj)
qed

end

text \<open>The same operations on a plain sequence of bytes: what the reads return and the contents at the end.\<close>

fun flat_ops :: "file_op list \<Rightarrow> u8 list \<Rightarrow> u8 list list \<times> u8 list" where
  "flat_ops [] f = ([], f)"
| "flat_ops (FWrite bs i # ops) f = flat_ops ops (file_write f i bs)"
| "flat_ops (FRead n i # ops) f = (case flat_ops ops f of (rs, f') \<Rightarrow> (take n (drop i f) # rs, f'))"
| "flat_ops (FTrunc n # ops) f = flat_ops ops (take n f)"

text \<open>Operations that stay inside the file: no empty reads, no reads or truncations past the end.\<close>

fun flat_legal :: "(nat \<Rightarrow> nat \<Rightarrow> nat \<Rightarrow> bool) \<Rightarrow> file_op list \<Rightarrow> u8 list \<Rightarrow> bool" where
  "flat_legal w [] f = True"
| "flat_legal w (FWrite bs i # ops) f = (w (length f) (length bs) i \<and> flat_legal w ops (file_write f i bs))"
| "flat_legal w (FRead n i # ops) f = (0 < n \<and> i + n \<le> length f \<and> flat_legal w ops f)"
| "flat_legal w (FTrunc n # ops) f = (n \<le> length f \<and> flat_legal w ops (take n f))"

context byte_file
begin

text \<open>A file behaves like its contents: every list of legal operations is defined and, unless an error ends it, agrees with the plain sequence.\<close>

lemma run_flat:
  assumes w: "\<And>s n i. ok s \<Longrightarrow> w (length (content s)) n i \<Longrightarrow> may_write s n i" and "ok s" "flat_legal w ops (content s)"
  shows "\<exists>rc rs s'. run_file wr rd tr ops s = Some (rc, rs, s') \<and> ok s'
    \<and> (rc = SQLITE_OK \<longrightarrow> (rs, content s') = flat_ops ops (content s))"
  using assms(2,3)
proof (induction ops arbitrary: s)
  case (Cons op ops)
  show ?case
  proof (cases op)
    case (FWrite bs i)
    with Cons.prems have "may_write s (length bs) i" by (intro w) simp_all
    from wr_law [OF Cons.prems(1) this] obtain rc s' where
      "wr s bs i = Some (rc, s')" "ok s'" "rc = SQLITE_OK \<longrightarrow> content s' = file_write (content s) i bs" by blast
    with FWrite Cons.prems Cons.IH [of s'] show ?thesis by (cases "rc = SQLITE_OK") simp_all
  next
    case (FRead n i)
    with Cons.prems have "0 < n" "i + n \<le> length (content s)" by simp_all
    from rd_law [OF Cons.prems(1) this] obtain rc bs s' where
      r: "rd s n i = Some (rc, bs, s')" "ok s'" "content s' = content s" "rc = SQLITE_OK \<longrightarrow> bs = take n (drop i (content s))" by blast
    from FRead r Cons.prems Cons.IH [of s'] obtain rc' rs s'' where "run_file wr rd tr ops s' = Some (rc', rs, s'')" "ok s''"
      "rc' = SQLITE_OK \<longrightarrow> (rs, content s'') = flat_ops ops (content s)" by auto
    with FRead r show ?thesis by (cases "rc = SQLITE_OK") (auto split: prod.splits)
  next
    case (FTrunc n)
    with Cons.prems have "n \<le> length (content s)" by simp
    from tr_law [OF Cons.prems(1) this] obtain rc s' where
      "tr s n = Some (rc, s')" "ok s'" "rc = SQLITE_OK \<longrightarrow> content s' = take n (content s)" by blast
    with FTrunc Cons.prems Cons.IH [of s'] show ?thesis by (cases "rc = SQLITE_OK") simp_all
  qed
qed simp

end

text \<open>A file whose operations do not fail, for instance in memory while the allocator has some left.\<close>

locale reliable_file = byte_file +
  assumes wr_rc: "ok s \<Longrightarrow> may_write s (length bs) i \<Longrightarrow> wr s bs i = Some (rc, s') \<Longrightarrow> rc = SQLITE_OK"
    and rd_rc: "ok s \<Longrightarrow> 0 < n \<Longrightarrow> i + n \<le> length (content s) \<Longrightarrow> rd s n i = Some (rc, bs, s') \<Longrightarrow> rc = SQLITE_OK"
    and tr_rc: "ok s \<Longrightarrow> n \<le> length (content s) \<Longrightarrow> tr s n = Some (rc, s') \<Longrightarrow> rc = SQLITE_OK"
begin

lemma run_reliable:
  assumes w: "\<And>s n i. ok s \<Longrightarrow> w (length (content s)) n i \<Longrightarrow> may_write s n i" and "ok s" "flat_legal w ops (content s)"
  shows "\<exists>s'. run_file wr rd tr ops s = Some (SQLITE_OK, fst (flat_ops ops (content s)), s')
    \<and> ok s' \<and> content s' = snd (flat_ops ops (content s))"
proof -
  have "rc = SQLITE_OK" if "run_file wr rd tr ops s = Some (rc, rs, s')" for rc rs s'
    using assms(2,3) that
  proof (induction ops arbitrary: s rs)
    case (Cons op ops)
    show ?case
    proof (cases op)
      case (FWrite bs i)
      with Cons.prems have m: "may_write s (length bs) i" by (intro w) simp_all
      from wr_law [OF Cons.prems(1) m] obtain rc' s1 where "wr s bs i = Some (rc', s1)" "ok s1"
        "rc' = SQLITE_OK \<longrightarrow> content s1 = file_write (content s) i bs" by blast
      moreover from this have "rc' = SQLITE_OK" using wr_rc [OF Cons.prems(1) m] by blast
      ultimately show ?thesis using FWrite Cons.prems Cons.IH [of s1 rs] by simp
    next
      case (FRead n i)
      with Cons.prems have m: "0 < n" "i + n \<le> length (content s)" by simp_all
      from rd_law [OF Cons.prems(1) m] obtain rc' bs s1 where "rd s n i = Some (rc', bs, s1)" "ok s1" "content s1 = content s" by blast
      moreover from this have "rc' = SQLITE_OK" using rd_rc [OF Cons.prems(1) m] by blast
      ultimately show ?thesis using FRead Cons.prems Cons.IH [of s1] by auto
    next
      case (FTrunc n)
      with Cons.prems have m: "n \<le> length (content s)" by simp
      from tr_law [OF Cons.prems(1) m] obtain rc' s1 where "tr s n = Some (rc', s1)" "ok s1"
        "rc' = SQLITE_OK \<longrightarrow> content s1 = take n (content s)" by blast
      moreover from this have "rc' = SQLITE_OK" using tr_rc [OF Cons.prems(1) m] by blast
      ultimately show ?thesis using FTrunc Cons.prems Cons.IH [of s1 rs] by simp
    qed
  qed simp
  moreover from run_flat [of w, OF w assms(2,3)] obtain rc rs s' where "run_file wr rd tr ops s = Some (rc, rs, s')" "ok s'"
    "rc = SQLITE_OK \<longrightarrow> (rs, content s') = flat_ops ops (content s)" by blast
  ultimately show ?thesis by (metis fst_conv snd_conv)
qed

end

end
