(* ===== verification/Memdb.thy ===== *)
theory Memdb
  imports ByteFile
begin

text \<open>
  The in-memory database files of SQLite (\<open>memdb.c\<close>).  A \<open>MemStore\<close> holds the contents of a database in one block that grows by
  \<open>realloc\<close>; a \<open>MemFile\<close> is an open handle on it.  Stores whose name starts with a slash are shared: they are listed in
  \<open>memdb_g\<close>, opened again under the same name, and freed when their last user closes them.  Every method takes the mutex of
  the store for its whole body, so a method is one step here, and threads are interleavings of such steps.

  The theory has the methods, a transition system of any number of connections that open, close, read, write, truncate and lock, its
  invariant, and what follows: no use of a freed store, correct counts of readers and writers, at most one writer, and contents that
  behave like a plain sequence of bytes shared exactly by the users of the same name.
\<close>

definition SQLITE_READONLY :: int where "SQLITE_READONLY = 8"
definition SQLITE_CORRUPT :: int where "SQLITE_CORRUPT = 11"
definition SQLITE_NOTFOUND :: int where "SQLITE_NOTFOUND = 12"
definition SQLITE_FULL :: int where "SQLITE_FULL = 13"
definition SQLITE_IOERR_WRITE :: int where "SQLITE_IOERR_WRITE = 778"

definition SQLITE_LOCK_NONE :: int where "SQLITE_LOCK_NONE = 0"
definition SQLITE_LOCK_SHARED :: int where "SQLITE_LOCK_SHARED = 1"
definition SQLITE_LOCK_RESERVED :: int where "SQLITE_LOCK_RESERVED = 2"
definition SQLITE_LOCK_EXCLUSIVE :: int where "SQLITE_LOCK_EXCLUSIVE = 4"

definition SQLITE_DESERIALIZE_FREEONCLOSE :: u32 where "SQLITE_DESERIALIZE_FREEONCLOSE = 1"
definition SQLITE_DESERIALIZE_RESIZEABLE :: u32 where "SQLITE_DESERIALIZE_RESIZEABLE = 2"
definition SQLITE_DESERIALIZE_READONLY :: u32 where "SQLITE_DESERIALIZE_READONLY = 4"

definition SQLITE_FCNTL_VFSNAME :: int where "SQLITE_FCNTL_VFSNAME = 12"
definition SQLITE_FCNTL_SIZE_LIMIT :: int where "SQLITE_FCNTL_SIZE_LIMIT = 36"
definition SQLITE_OPEN_MEMORY :: u32 where "SQLITE_OPEN_MEMORY = 128"

lemmas memdb_codes = SQLITE_OK_def SQLITE_NOMEM_def SQLITE_BUSY_def SQLITE_READONLY_def SQLITE_CORRUPT_def SQLITE_NOTFOUND_def
  SQLITE_FULL_def SQLITE_IOERR_WRITE_def SQLITE_IOERR_SHORT_READ_def SQLITE_IOERR_NOMEM_def

lemmas lock_levels = SQLITE_LOCK_NONE_def SQLITE_LOCK_SHARED_def SQLITE_LOCK_RESERVED_def SQLITE_LOCK_EXCLUSIVE_def

subsection \<open>The store\<close>

text \<open>The null pointer that \<open>aData\<close> is before the first write is the empty block.\<close>

record MemStore =
  ms_sz :: int
  ms_szAlloc :: int
  ms_szMax :: int
  ms_aData :: "u8 list"
  ms_nMmap :: int
  ms_mFlags :: u32
  ms_nRdLock :: int
  ms_nWrLock :: int
  ms_nRef :: int
  ms_zFName :: "cstr option"

record MemFile =
  mf_pStore :: nat
  mf_eLock :: int

definition has_flag :: "MemStore \<Rightarrow> u32 \<Rightarrow> bool" where
  "has_flag p m \<longleftrightarrow> ms_mFlags p AND m \<noteq> 0"

text \<open>\<open>xRead\<close> returns the buffer; a read past the end is filled up with zeros.\<close>

definition memdbRead :: "MemStore \<Rightarrow> nat \<Rightarrow> nat \<Rightarrow> (int \<times> u8 list) option" where
  "memdbRead p iAmt iOfst =
     do { e \<leftarrow> i64 (int iOfst + int iAmt);
          if e > ms_sz p then
            (let zBuf = replicate iAmt 0
             in if int iOfst < ms_sz p then
                  do { bs \<leftarrow> get_bytes (ms_aData p) iOfst (nat (ms_sz p - int iOfst));
                       zBuf \<leftarrow> put_bytes zBuf 0 bs;
                       Some (SQLITE_IOERR_SHORT_READ, zBuf) }
                else Some (SQLITE_IOERR_SHORT_READ, zBuf))
          else do { bs \<leftarrow> get_bytes (ms_aData p) iOfst iAmt; Some (SQLITE_OK, bs) } }"

text \<open>\<open>al n\<close> is the block that \<open>sqlite3Realloc\<close> returns for \<open>n\<close> bytes, before the old contents are moved to it.\<close>

definition memdbEnlarge :: "(int \<Rightarrow> u8 list option) \<Rightarrow> MemStore \<Rightarrow> int \<Rightarrow> (int \<times> MemStore) option" where
  "memdbEnlarge al p newSz =
     (if \<not> has_flag p SQLITE_DESERIALIZE_RESIZEABLE \<or> ms_nMmap p > 0 then Some (SQLITE_FULL, p)
      else if newSz > ms_szMax p then Some (SQLITE_FULL, p)
      else do { newSz \<leftarrow> i64 (newSz * 2);
                let newSz = (if newSz > ms_szMax p then ms_szMax p else newSz);
                case al newSz of
                  None \<Rightarrow> Some (SQLITE_IOERR_NOMEM, p)
                | Some b \<Rightarrow> Some (SQLITE_OK, p\<lparr>ms_aData := move_block (ms_aData p) b, ms_szAlloc := newSz\<rparr>) })"

text \<open>The part of \<open>xWrite\<close> for a write that ends behind the end of the file: room, zeros in the gap, and the new size.\<close>

definition memdbWrite_extend :: "(int \<Rightarrow> u8 list option) \<Rightarrow> MemStore \<Rightarrow> nat \<Rightarrow> int \<Rightarrow> (int \<times> MemStore) option" where
  "memdbWrite_extend al p iOfst e =
     do { (rc, p) \<leftarrow> (if e > ms_szAlloc p then memdbEnlarge al p e else Some (SQLITE_OK, p));
          if rc \<noteq> SQLITE_OK then Some (rc, p)
          else do { d \<leftarrow> (if int iOfst > ms_sz p
                          then put_bytes (ms_aData p) (nat (ms_sz p)) (replicate (nat (int iOfst - ms_sz p)) 0)
                          else Some (ms_aData p));
                    Some (SQLITE_OK, p\<lparr>ms_aData := d, ms_sz := e\<rparr>) } }"

definition memdbWrite :: "(int \<Rightarrow> u8 list option) \<Rightarrow> MemStore \<Rightarrow> u8 list \<Rightarrow> nat \<Rightarrow> (int \<times> MemStore) option" where
  "memdbWrite al p z iOfst =
     (if has_flag p SQLITE_DESERIALIZE_READONLY then Some (SQLITE_IOERR_WRITE, p)
      else do { e \<leftarrow> i64 (int iOfst + int (length z));
                (rc, p) \<leftarrow> (if e > ms_sz p then memdbWrite_extend al p iOfst e else Some (SQLITE_OK, p));
                if rc \<noteq> SQLITE_OK then Some (rc, p)
                else do { d \<leftarrow> put_bytes (ms_aData p) iOfst z; Some (SQLITE_OK, p\<lparr>ms_aData := d\<rparr>) } })"

definition memdbTruncate :: "MemStore \<Rightarrow> int \<Rightarrow> int \<times> MemStore" where
  "memdbTruncate p nByte = (if nByte > ms_sz p then (SQLITE_CORRUPT, p) else (SQLITE_OK, p\<lparr>ms_sz := nByte\<rparr>))"

definition memdbFileSize :: "MemStore \<Rightarrow> int \<times> int" where
  "memdbFileSize p = (SQLITE_OK, ms_sz p)"

text \<open>
  \<open>xLock\<close> and \<open>xUnlock\<close> are the same function.  The assertions of the code are not part of it: that they hold is part of the
  invariant below.
\<close>

definition memdbLock :: "MemStore \<Rightarrow> MemFile \<Rightarrow> int \<Rightarrow> int \<times> MemStore \<times> MemFile" where
  "memdbLock p f eLock =
     (if eLock = mf_eLock f then (SQLITE_OK, p, f)
      else
        let (rc, p') =
          (if eLock > SQLITE_LOCK_SHARED then
             (if has_flag p SQLITE_DESERIALIZE_READONLY then (SQLITE_READONLY, p)
              else if mf_eLock f \<le> SQLITE_LOCK_SHARED then
                (if ms_nWrLock p \<noteq> 0 then (SQLITE_BUSY, p) else (SQLITE_OK, p\<lparr>ms_nWrLock := 1\<rparr>))
              else (SQLITE_OK, p))
           else if eLock = SQLITE_LOCK_SHARED then
             (if mf_eLock f > SQLITE_LOCK_SHARED then (SQLITE_OK, p\<lparr>ms_nWrLock := 0\<rparr>)
              else if ms_nWrLock p \<noteq> 0 then (SQLITE_BUSY, p)
              else (SQLITE_OK, p\<lparr>ms_nRdLock := ms_nRdLock p + 1\<rparr>))
           else
             (let p = (if mf_eLock f > SQLITE_LOCK_SHARED then p\<lparr>ms_nWrLock := 0\<rparr> else p)
              in (SQLITE_OK, p\<lparr>ms_nRdLock := ms_nRdLock p - 1\<rparr>)))
        in (rc, p', if rc = SQLITE_OK then f\<lparr>mf_eLock := eLock\<rparr> else f))"

text \<open>
  \<open>xFileControl\<close> with the integer \<open>pArg\<close> points to, for the size limit.  For \<open>SQLITE_FCNTL_VFSNAME\<close> the code stores a pointer to a
  new text for diagnosis; the text is left out.
\<close>

definition memdbFileControl :: "MemStore \<Rightarrow> int \<Rightarrow> int \<Rightarrow> int \<times> int \<times> MemStore" where
  "memdbFileControl p op iLimit =
     (if op = SQLITE_FCNTL_SIZE_LIMIT then
        let iLimit = (if iLimit < ms_sz p then (if iLimit < 0 then ms_szMax p else ms_sz p) else iLimit)
        in (SQLITE_OK, iLimit, p\<lparr>ms_szMax := iLimit\<rparr>)
      else if op = SQLITE_FCNTL_VFSNAME then (SQLITE_OK, iLimit, p)
      else (SQLITE_NOTFOUND, iLimit, p))"

text \<open>\<open>xFetch\<close> returns the offset of the page in the block, or \<open>None\<close> for a null pointer.\<close>

definition memdbFetch :: "MemStore \<Rightarrow> nat \<Rightarrow> nat \<Rightarrow> (nat option \<times> MemStore) option" where
  "memdbFetch p iOfst iAmt =
     do { e \<leftarrow> i64 (int iOfst + int iAmt);
          if e > ms_sz p \<or> has_flag p SQLITE_DESERIALIZE_RESIZEABLE then Some (None, p)
          else Some (Some iOfst, p\<lparr>ms_nMmap := ms_nMmap p + 1\<rparr>) }"

definition memdbUnfetch :: "MemStore \<Rightarrow> MemStore" where
  "memdbUnfetch p = p\<lparr>ms_nMmap := ms_nMmap p - 1\<rparr>"

text \<open>The contents that \<open>sqlite3_serialize\<close> copies out and \<open>sqlite3_deserialize\<close> puts in.\<close>

definition memdb_serialize :: "MemStore \<Rightarrow> (int \<times> u8 list) option" where
  "memdb_serialize p = do { bs \<leftarrow> get_bytes (ms_aData p) 0 (nat (ms_sz p)); Some (ms_sz p, bs) }"

definition memdb_deserialize :: "int \<Rightarrow> MemStore \<Rightarrow> u8 list \<Rightarrow> int \<Rightarrow> int \<Rightarrow> u32 \<Rightarrow> MemStore" where
  "memdb_deserialize mxMemdbSize p pData szDb szBuf mFlags =
     p\<lparr>ms_aData := pData, ms_sz := szDb, ms_szAlloc := szBuf,
       ms_szMax := (if szBuf < mxMemdbSize then mxMemdbSize else szBuf), ms_mFlags := mFlags\<rparr>"

subsection \<open>The store as a file\<close>

definition store_ok :: "MemStore \<Rightarrow> bool" where
  "store_ok p \<longleftrightarrow> 0 \<le> ms_sz p \<and> ms_sz p \<le> ms_szAlloc p \<and> ms_szAlloc p = int (length (ms_aData p))
    \<and> ms_szAlloc p \<le> LARGEST_INT64 \<and> ms_szMax p \<le> LARGEST_INT64"

definition store_content :: "MemStore \<Rightarrow> u8 list" where
  "store_content p = take (nat (ms_sz p)) (ms_aData p)"

definition realloc_ok :: "(int \<Rightarrow> u8 list option) \<Rightarrow> bool" where
  "realloc_ok al \<longleftrightarrow> (\<forall>n b. al n = Some b \<longrightarrow> int (length b) = n)"

lemma length_store_content: "store_ok p \<Longrightarrow> length (store_content p) = nat (ms_sz p)"
  by (auto simp: store_ok_def store_content_def)

text \<open>Everything but the block, its size and the size of the file.\<close>

definition same_head :: "MemStore \<Rightarrow> MemStore \<Rightarrow> bool" where
  "same_head p q \<longleftrightarrow> ms_szMax q = ms_szMax p \<and> ms_nMmap q = ms_nMmap p \<and> ms_mFlags q = ms_mFlags p
    \<and> ms_nRdLock q = ms_nRdLock p \<and> ms_nWrLock q = ms_nWrLock p \<and> ms_nRef q = ms_nRef p \<and> ms_zFName q = ms_zFName p"

lemma same_head_simps [simp]:
  "same_head p p" "same_head p (q\<lparr>ms_aData := d\<rparr>) = same_head p q" "same_head p (q\<lparr>ms_sz := n\<rparr>) = same_head p q"
  "same_head p (q\<lparr>ms_szAlloc := a\<rparr>) = same_head p q"
  by (simp_all add: same_head_def)

text \<open>The offsets for which nothing overflows: twice the end of the access is still a 64-bit integer.\<close>

definition in_reach :: "nat \<Rightarrow> nat \<Rightarrow> bool" where
  "in_reach n i \<longleftrightarrow> int i + int n < 2 ^ 62"

lemma i64_nonneg: "i64 (int n) = (if int n \<le> LARGEST_INT64 then Some (int n) else None)"
  by (simp add: i64_def in_i64_def i64_bounds)

lemma in_reach_i64: "in_reach n i \<Longrightarrow> i64 (int i + int n) = Some (int i + int n) \<and> i64 ((int i + int n) * 2) = Some ((int i + int n) * 2)"
  by (auto simp: in_reach_def i64_def in_i64_def i64_bounds)

lemma Enlarge_ok:
  assumes "store_ok p" "realloc_ok al" "in_reach n i" "ms_szAlloc p < int i + int n"
  shows "\<exists>rc q. memdbEnlarge al p (int i + int n) = Some (rc, q) \<and> store_ok q \<and> same_head p q \<and> ms_sz q = ms_sz p
    \<and> store_content q = store_content p \<and> (rc = SQLITE_OK \<longrightarrow> int i + int n \<le> ms_szAlloc q) \<and> (rc \<noteq> SQLITE_OK \<longrightarrow> q = p)"
proof -
  define m where "m = (if (int i + int n) * 2 > ms_szMax p then ms_szMax p else (int i + int n) * 2)"
  consider "\<not> has_flag p SQLITE_DESERIALIZE_RESIZEABLE \<or> ms_nMmap p > 0 \<or> int i + int n > ms_szMax p"
    | "has_flag p SQLITE_DESERIALIZE_RESIZEABLE" "\<not> ms_nMmap p > 0" "\<not> int i + int n > ms_szMax p"
    by blast
  then show ?thesis
  proof cases
    case 1
    then show ?thesis using assms(1) by (auto simp: memdbEnlarge_def SQLITE_OK_def SQLITE_FULL_def)
  next
    case 2
    then have "memdbEnlarge al p (int i + int n) =
        (case al m of
           None \<Rightarrow> Some (SQLITE_IOERR_NOMEM, p)
         | Some b \<Rightarrow> Some (SQLITE_OK, p\<lparr>ms_aData := move_block (ms_aData p) b, ms_szAlloc := m\<rparr>))"
      unfolding m_def using in_reach_i64 [OF assms(3)] by (simp add: memdbEnlarge_def Let_def split: option.split)
    moreover have "int i + int n \<le> m" using 2 by (simp add: m_def)
    moreover have "m \<le> LARGEST_INT64" using assms(1,3) by (auto simp: m_def store_ok_def in_reach_def i64_bounds)
    moreover have b: "int (length b) = m" if "al m = Some b" for b using that assms(2) by (simp add: realloc_ok_def)
    moreover have "nat (ms_sz p) \<le> length b" if "al m = Some b" for b
      using b [OF that] \<open>int i + int n \<le> m\<close> assms by (auto simp: store_ok_def)
    ultimately show ?thesis using assms
      by (auto simp: store_ok_def store_content_def take_move_block SQLITE_IOERR_NOMEM_def SQLITE_OK_def split: option.splits)
  qed
qed

lemma fill_gap:
  assumes "store_ok q" "ms_sz q < int i" "int i \<le> ms_szAlloc q"
  shows "\<exists>d. put_bytes (ms_aData q) (nat (ms_sz q)) (replicate (nat (int i - ms_sz q)) 0) = Some d
    \<and> length d = length (ms_aData q) \<and> take i d = store_content q @ replicate (i - length (store_content q)) 0"
proof -
  have "nat (ms_sz q) + nat (int i - ms_sz q) = i" "nat (ms_sz q) \<le> length (ms_aData q)" "i \<le> length (ms_aData q)"
    "nat (ms_sz q) < i" using assms by (auto simp: store_ok_def)
  then show ?thesis using length_store_content [OF assms(1)]
    by (auto simp: put_bytes_def store_content_def min_def nat_diff_distrib')
qed

lemma Write_extend_ok:
  assumes "store_ok p" "realloc_ok al" "in_reach n i" "ms_sz p < int i + int n"
  shows "\<exists>rc q. memdbWrite_extend al p i (int i + int n) = Some (rc, q) \<and> store_ok q \<and> same_head p q
    \<and> (rc \<noteq> SQLITE_OK \<longrightarrow> q = p)
    \<and> (rc = SQLITE_OK \<longrightarrow> ms_sz q = int i + int n
        \<and> take i (ms_aData q) = take i (store_content p @ replicate (i - length (store_content p)) 0))"
proof -
  let ?en = "if int i + int n > ms_szAlloc p then memdbEnlarge al p (int i + int n) else Some (SQLITE_OK, p)"
  obtain rc q where e: "?en = Some (rc, q)" and q: "store_ok q" "same_head p q" "ms_sz q = ms_sz p" "store_content q = store_content p"
    "rc = SQLITE_OK \<longrightarrow> int i + int n \<le> ms_szAlloc q" "rc \<noteq> SQLITE_OK \<longrightarrow> q = p"
    using Enlarge_ok [OF assms(1-3)] assms(1) by (cases "int i + int n > ms_szAlloc p") auto
  have w: "memdbWrite_extend al p i (int i + int n) =
      (if rc \<noteq> SQLITE_OK then Some (rc, q)
       else do { d \<leftarrow> (if int i > ms_sz q then put_bytes (ms_aData q) (nat (ms_sz q)) (replicate (nat (int i - ms_sz q)) 0)
                       else Some (ms_aData q));
                 Some (SQLITE_OK, q\<lparr>ms_aData := d, ms_sz := int i + int n\<rparr>) })"
    by (simp add: memdbWrite_extend_def e cong: if_cong)
  consider "rc \<noteq> SQLITE_OK" | "rc = SQLITE_OK" "int i > ms_sz q" | "rc = SQLITE_OK" "int i \<le> ms_sz q" by linarith
  then show ?thesis
  proof cases
    case 2
    moreover from 2 q obtain d where "put_bytes (ms_aData q) (nat (ms_sz q)) (replicate (nat (int i - ms_sz q)) 0) = Some d"
      "length d = length (ms_aData q)" "take i d = store_content q @ replicate (i - length (store_content q)) 0"
      using fill_gap [of q i] by auto
    moreover have "length (store_content q) \<le> i" using 2 q(1) length_store_content [OF q(1)] by (simp add: store_ok_def)
    ultimately show ?thesis using q by (simp add: w store_ok_def)
  next
    case 3
    then have "i \<le> nat (ms_sz q)" by linarith
    then have "take i (ms_aData q) = take i (store_content q)" by (simp add: store_content_def min_def)
    with 3 show ?thesis using q length_store_content [OF assms(1)] by (simp add: w store_ok_def)
  qed (use q w in simp)
qed

text \<open>\<open>xWrite\<close> changes the contents as \<open>file_write\<close> says or, on an error, not at all.\<close>

lemma memdbWrite_ok:
  assumes "store_ok p" "realloc_ok al" "in_reach (length z) i"
  shows "\<exists>rc q. memdbWrite al p z i = Some (rc, q) \<and> store_ok q \<and> same_head p q \<and> (rc \<noteq> SQLITE_OK \<longrightarrow> q = p)
    \<and> (rc = SQLITE_OK \<longrightarrow> store_content q = file_write (store_content p) i z)"
proof (cases "has_flag p SQLITE_DESERIALIZE_READONLY")
  case True
  then show ?thesis using assms(1) by (simp add: memdbWrite_def SQLITE_OK_def SQLITE_IOERR_WRITE_def)
next
  case ro: False
  let ?e = "int i + int (length z)"
  note i = in_reach_i64 [OF assms(3)]
  show ?thesis
  proof (cases "?e > ms_sz p")
    case True
    from Write_extend_ok [OF assms True] obtain rc q where q: "memdbWrite_extend al p i ?e = Some (rc, q)" "store_ok q"
      "same_head p q" "rc \<noteq> SQLITE_OK \<longrightarrow> q = p" "rc = SQLITE_OK \<longrightarrow> ms_sz q = ?e
        \<and> take i (ms_aData q) = take i (store_content p @ replicate (i - length (store_content p)) 0)" by blast
    show ?thesis
    proof (cases "rc = SQLITE_OK")
      case ok: True
      have l: "length (store_content p) \<le> i + length z" using True length_store_content [OF assms(1)] assms(1) by (simp add: store_ok_def)
      have s: "nat (ms_sz q) = i + length z" "i + length z \<le> length (ms_aData q)" using ok q(2,5) by (auto simp: store_ok_def)
      then have "i \<le> length (ms_aData q)" by simp
      with s have "store_content (q\<lparr>ms_aData := take i (ms_aData q) @ z @ drop (i + length z) (ms_aData q)\<rparr>) = take i (ms_aData q) @ z"
        by (simp add: store_content_def min_absorb2)
      also have "\<dots> = file_write (store_content p) i z" using q(5) ok l by (simp add: file_write_def)
      finally have "store_content (q\<lparr>ms_aData := take i (ms_aData q) @ z @ drop (i + length z) (ms_aData q)\<rparr>)
          = file_write (store_content p) i z" .
      with ok s q ro i True show ?thesis by (auto simp: memdbWrite_def put_bytes_def store_ok_def)
    qed (use q ro i True in \<open>simp add: memdbWrite_def\<close>)
  next
    case False
    then have s: "i + length z \<le> nat (ms_sz p)" "nat (ms_sz p) \<le> length (ms_aData p)" using assms(1) by (auto simp: store_ok_def)
    from file_write_block [OF this] s ro i False assms(1) show ?thesis
      by (auto simp: memdbWrite_def put_bytes_def store_content_def store_ok_def)
  qed
qed

lemma memdbRead_ok:
  assumes "store_ok p" "int (i + n) \<le> LARGEST_INT64"
  shows "memdbRead p n i =
    (if i + n \<le> length (store_content p) then Some (SQLITE_OK, take n (drop i (store_content p)))
     else Some (SQLITE_IOERR_SHORT_READ, drop i (store_content p) @ replicate (n - (length (store_content p) - i)) 0))"
proof -
  have e: "i64 (int i + int n) = Some (int i + int n)" using i64_nonneg [of "i + n"] assms(2) by simp
  note l = length_store_content [OF assms(1)]
  have s: "0 \<le> ms_sz p" "nat (ms_sz p) \<le> length (ms_aData p)" using assms(1) by (auto simp: store_ok_def)
  have d: "take (nat (ms_sz p) - i) (drop i (ms_aData p)) = drop i (store_content p)" by (simp add: store_content_def drop_take)
  consider "i + n \<le> nat (ms_sz p)" | "nat (ms_sz p) < i + n" "i < nat (ms_sz p)" | "nat (ms_sz p) < i + n" "nat (ms_sz p) \<le> i"
    by linarith
  then show ?thesis
  proof cases
    case 1
    then have "take n (drop i (ms_aData p)) = take n (drop i (store_content p))" by (simp add: store_content_def drop_take min_def)
    with 1 s l e show ?thesis by (auto simp: memdbRead_def get_bytes_def)
  next
    case 2
    then have "nat (ms_sz p - int i) = nat (ms_sz p) - i" by linarith
    with 2 s l d e show ?thesis by (auto simp: memdbRead_def get_bytes_def put_bytes_def Let_def)
  next
    case 3
    with s l e show ?thesis by (auto simp: memdbRead_def Let_def)
  qed
qed

lemma memdbTruncate_ok:
  assumes "store_ok p" "n \<le> length (store_content p)"
  shows "memdbTruncate p (int n) = (SQLITE_OK, p\<lparr>ms_sz := int n\<rparr>)" "store_ok (p\<lparr>ms_sz := int n\<rparr>)"
    "store_content (p\<lparr>ms_sz := int n\<rparr>) = take n (store_content p)"
  using assms(1) assms(2) [unfolded length_store_content [OF assms(1)]]
  by (auto simp: memdbTruncate_def store_ok_def store_content_def min_def)

lemma store_content_fits: "store_ok p \<Longrightarrow> int (length (store_content p)) \<le> LARGEST_INT64"
  by (auto simp: length_store_content store_ok_def)

text \<open>A store is a file that can be written anywhere.\<close>

interpretation mdb: byte_file "\<lambda>p. realloc_ok al \<and> store_ok p" store_content "\<lambda>p. in_reach"
  "memdbWrite al" "\<lambda>p n i. map_option (\<lambda>(rc, bs). (rc, bs, p)) (memdbRead p n i)" "\<lambda>p n. Some (memdbTruncate p (int n))" for al
proof unfold_locales
  fix p i and bs :: "u8 list"
  assume "realloc_ok al \<and> store_ok p" "in_reach (length bs) i"
  then show "\<exists>rc s'. memdbWrite al p bs i = Some (rc, s') \<and> (realloc_ok al \<and> store_ok s')
      \<and> (rc = SQLITE_OK \<longrightarrow> store_content s' = file_write (store_content p) i bs)"
    using memdbWrite_ok [of p al bs i] by blast
next
  fix p n i
  assume "realloc_ok al \<and> store_ok p" "0 < n" "i + n \<le> length (store_content p)"
  moreover from this have "int (i + n) \<le> LARGEST_INT64" using store_content_fits [of p] by linarith
  ultimately show "\<exists>rc bs s'. map_option (\<lambda>(rc, bs). (rc, bs, p)) (memdbRead p n i) = Some (rc, bs, s')
      \<and> (realloc_ok al \<and> store_ok s') \<and> store_content s' = store_content p \<and> (rc = SQLITE_OK \<longrightarrow> bs = take n (drop i (store_content p)))"
    using memdbRead_ok [of p i n] by simp
next
  fix p n
  assume "realloc_ok al \<and> store_ok p" "n \<le> length (store_content p)"
  then show "\<exists>rc s'. Some (memdbTruncate p (int n)) = Some (rc, s') \<and> (realloc_ok al \<and> store_ok s')
      \<and> (rc = SQLITE_OK \<longrightarrow> store_content s' = take n (store_content p))"
    using memdbTruncate_ok [of p n] by blast
qed

text \<open>A private, growing database whose limit the allocator can serve never reports an error.\<close>

definition can_grow :: "(int \<Rightarrow> u8 list option) \<Rightarrow> int \<Rightarrow> MemStore \<Rightarrow> bool" where
  "can_grow al M p \<longleftrightarrow> realloc_ok al \<and> (\<forall>n. 0 \<le> n \<and> n \<le> M \<longrightarrow> al n \<noteq> None) \<and> M < 2 ^ 62 \<and> store_ok p \<and> ms_szMax p = M
    \<and> has_flag p SQLITE_DESERIALIZE_RESIZEABLE \<and> \<not> has_flag p SQLITE_DESERIALIZE_READONLY \<and> ms_nMmap p = 0"

lemma can_grow_same_head: "can_grow al M p \<Longrightarrow> store_ok q \<Longrightarrow> same_head p q \<Longrightarrow> can_grow al M q"
  by (simp add: can_grow_def same_head_def has_flag_def)

lemma memdbWrite_rc:
  assumes "can_grow al M p" "int i + int (length z) \<le> M" "memdbWrite al p z i = Some (rc, q)"
  shows "rc = SQLITE_OK"
proof -
  let ?e = "int i + int (length z)"
  note g = assms(1) [unfolded can_grow_def]
  have r: "in_reach (length z) i" using assms(2) g by (simp add: in_reach_def)
  have gs: "ms_szMax p = M" "has_flag p SQLITE_DESERIALIZE_RESIZEABLE" "ms_nMmap p = 0" using g by simp_all
  have "al (ms_szMax p) \<noteq> None" "int i * 2 + int (length z) * 2 \<le> ms_szMax p \<longrightarrow> al (int i * 2 + int (length z) * 2) \<noteq> None"
    using g assms(2) by simp_all
  then have "fst r = SQLITE_OK" if "memdbEnlarge al p ?e = Some r" for r
    using that gs assms(2) in_reach_i64 [OF r] by (auto simp: memdbEnlarge_def Let_def split: option.splits if_splits)
  then have "fst r = SQLITE_OK" if "memdbWrite_extend al p i ?e = Some r" for r
    using that by (auto simp: memdbWrite_extend_def Option.bind_eq_Some_conv split: if_splits)
  then show ?thesis using assms(3) g in_reach_i64 [OF r] by (auto simp: memdbWrite_def Option.bind_eq_Some_conv split: if_splits)
qed

interpretation mdbr: reliable_file "can_grow al M" store_content "\<lambda>p n i. int i + int n \<le> M"
  "memdbWrite al" "\<lambda>p n i. map_option (\<lambda>(rc, bs). (rc, bs, p)) (memdbRead p n i)" "\<lambda>p n. Some (memdbTruncate p (int n))" for al M
proof unfold_locales
  fix p i and bs :: "u8 list"
  assume g: "can_grow al M p" and "int i + int (length bs) \<le> M"
  then have "realloc_ok al" "store_ok p" "in_reach (length bs) i" by (simp_all add: can_grow_def in_reach_def)
  then show "\<exists>rc s'. memdbWrite al p bs i = Some (rc, s') \<and> can_grow al M s'
      \<and> (rc = SQLITE_OK \<longrightarrow> store_content s' = file_write (store_content p) i bs)"
    using memdbWrite_ok [of p al bs i] can_grow_same_head [OF g] by blast
next
  fix p n i
  assume g: "can_grow al M p" "0 < n" "i + n \<le> length (store_content p)"
  then show "\<exists>rc bs s'. map_option (\<lambda>(rc, bs). (rc, bs, p)) (memdbRead p n i) = Some (rc, bs, s')
      \<and> can_grow al M s' \<and> store_content s' = store_content p \<and> (rc = SQLITE_OK \<longrightarrow> bs = take n (drop i (store_content p)))"
    using mdb.rd_law [of al p n i] by (fastforce simp: can_grow_def)
next
  fix p n
  assume g: "can_grow al M p" "n \<le> length (store_content p)"
  then have "store_ok p" by (simp add: can_grow_def)
  from memdbTruncate_ok [OF this g(2)] show "\<exists>rc s'. Some (memdbTruncate p (int n)) = Some (rc, s') \<and> can_grow al M s'
      \<and> (rc = SQLITE_OK \<longrightarrow> store_content s' = take n (store_content p))"
    using can_grow_same_head [OF g(1), of "p\<lparr>ms_sz := int n\<rparr>"] by simp
next
  fix p i rc s' and bs :: "u8 list"
  assume "can_grow al M p" "int i + int (length bs) \<le> M" "memdbWrite al p bs i = Some (rc, s')"
  then show "rc = SQLITE_OK" by (rule memdbWrite_rc)
next
  fix p n i rc s' and bs :: "u8 list"
  assume g: "can_grow al M p" "i + n \<le> length (store_content p)" "map_option (\<lambda>(rc, bs). (rc, bs, p)) (memdbRead p n i) = Some (rc, bs, s')"
  then have p: "store_ok p" by (simp add: can_grow_def)
  have "int (i + n) \<le> LARGEST_INT64" using store_content_fits [OF p] g(2) by linarith
  from memdbRead_ok [OF p this] g(2,3) show "rc = SQLITE_OK" by simp
next
  fix p n rc s'
  assume "can_grow al M p" "n \<le> length (store_content p)" "Some (memdbTruncate p (int n)) = Some (rc, s')"
  then show "rc = SQLITE_OK" using memdbTruncate_ok(1) [of p n] by (simp add: can_grow_def)
qed

subsection \<open>Opening and closing\<close>

text \<open>The stores that are allocated, by address, and the array \<open>memdb_g.apMemStore\<close> of the shared ones.\<close>

record memdb =
  md_stores :: "nat \<rightharpoonup> MemStore"
  md_apMemStore :: "nat list"

text \<open>
  The loop of \<open>memdbOpen\<close> over the shared stores.  The outer option is \<open>None\<close> when the array has a store that is not allocated.
\<close>

fun find_store :: "(nat \<rightharpoonup> MemStore) \<Rightarrow> cstr \<Rightarrow> nat list \<Rightarrow> nat option option" where
  "find_store st zName [] = Some None"
| "find_store st zName (a # as) =
     (case st a of
        None \<Rightarrow> None
      | Some p \<Rightarrow> if ms_zFName p = Some zName then Some (Some a) else find_store st zName as)"

text \<open>
  What opening a file asks of its surroundings: the address of a new store (\<open>None\<close> when \<open>malloc\<close> fails), whether the array can grow and a
  mutex be made, and the limit \<open>mxMemdbSize\<close> of the configuration.
\<close>

record open_env =
  oe_malloc :: "nat option"
  oe_realloc :: bool
  oe_mutex :: bool
  oe_mxMemdbSize :: int

definition new_store :: "open_env \<Rightarrow> int \<Rightarrow> cstr option \<Rightarrow> MemStore" where
  "new_store env nRef zFName =
     \<lparr>ms_sz = 0, ms_szAlloc = 0, ms_szMax = oe_mxMemdbSize env, ms_aData = [], ms_nMmap = 0,
      ms_mFlags = SQLITE_DESERIALIZE_RESIZEABLE OR SQLITE_DESERIALIZE_FREEONCLOSE,
      ms_nRdLock = 0, ms_nWrLock = 0, ms_nRef = nRef, ms_zFName = zFName\<rparr>"

definition memdbOpen :: "open_env \<Rightarrow> memdb \<Rightarrow> cstr \<Rightarrow> u32 \<Rightarrow> (int \<times> memdb \<times> (MemFile \<times> u32) option) option" where
  "memdbOpen env w zName flags =
     (let opened = (\<lambda>a w. Some (SQLITE_OK, w, Some (\<lparr>mf_pStore = a, mf_eLock = 0\<rparr>, flags OR SQLITE_OPEN_MEMORY)))
      in if length zName > 1 \<and> cat zName 0 = 47 then
           (case find_store (md_stores w) zName (md_apMemStore w) of
              None \<Rightarrow> None
            | Some (Some a) \<Rightarrow>
                (case md_stores w a of
                   None \<Rightarrow> None
                 | Some p \<Rightarrow> opened a (w\<lparr>md_stores := (md_stores w)(a \<mapsto> p\<lparr>ms_nRef := ms_nRef p + 1\<rparr>)\<rparr>))
            | Some None \<Rightarrow>
                (case oe_malloc env of
                   None \<Rightarrow> Some (SQLITE_NOMEM, w, None)
                 | Some a \<Rightarrow>
                     if \<not> oe_realloc env \<or> \<not> oe_mutex env then Some (SQLITE_NOMEM, w, None)
                     else opened a (w\<lparr>md_stores := (md_stores w)(a \<mapsto> new_store env 1 (Some zName)),
                                      md_apMemStore := md_apMemStore w @ [a]\<rparr>)))
         else
           (case oe_malloc env of
              None \<Rightarrow> Some (SQLITE_NOMEM, w, None)
            | Some a \<Rightarrow> opened a (w\<lparr>md_stores := (md_stores w)(a \<mapsto> new_store env 0 None)\<rparr>)))"

text \<open>
  The loop of \<open>memdbClose\<close>: the last entry takes the place of the store, \<open>None\<close> when the store is not in the array (the mutex would
  be left without having been entered).
\<close>

fun array_remove :: "nat \<Rightarrow> nat list \<Rightarrow> nat list option" where
  "array_remove a [] = None"
| "array_remove a (b # as) =
     (if b = a then Some (if as = [] then [] else last as # butlast as) else map_option (Cons b) (array_remove a as))"

definition memdbClose :: "memdb \<Rightarrow> MemFile \<Rightarrow> (int \<times> memdb) option" where
  "memdbClose w f =
     (case md_stores w (mf_pStore f) of
        None \<Rightarrow> None
      | Some p \<Rightarrow>
          do { g \<leftarrow> (if ms_zFName p = None then Some (md_apMemStore w)
                     else do { g \<leftarrow> array_remove (mf_pStore f) (md_apMemStore w);
                               Some (if ms_nRef p = 1 then g else md_apMemStore w) });
               let p = p\<lparr>ms_nRef := ms_nRef p - 1\<rparr>;
               Some (SQLITE_OK, w\<lparr>md_apMemStore := g,
                 md_stores := (if ms_nRef p \<le> 0 then (md_stores w)(mf_pStore f := None) else (md_stores w)(mf_pStore f \<mapsto> p))\<rparr>) })"

subsection \<open>Connections\<close>

text \<open>
  A state has the stores and the handle of every open connection.  A request is a call of one method; \<open>md_exec\<close> runs it on the
  handle of the connection, and \<open>None\<close> is undefined behaviour: a store that was freed, memory outside the block, or an overflow.
\<close>

record md_state =
  st_db :: memdb
  st_files :: "nat \<rightharpoonup> MemFile"

datatype request =
    ROpen open_env cstr u32
  | RClose
  | RRead nat nat
  | RWrite "int \<Rightarrow> u8 list option" "u8 list" nat
  | RTruncate int
  | RLock int
  | RFileControl int int
  | RFetch nat nat
  | RUnfetch
  | RDeserialize int "u8 list" int u32

datatype reply = RC int | RBuf int "u8 list"

text \<open>A method that only touches its own store and handle.\<close>

definition on_store :: "md_state \<Rightarrow> nat \<Rightarrow> (MemStore \<Rightarrow> MemFile \<Rightarrow> (reply \<times> MemStore \<times> MemFile) option) \<Rightarrow> (reply \<times> md_state) option" where
  "on_store s c m =
     do { f \<leftarrow> st_files s c;
          p \<leftarrow> md_stores (st_db s) (mf_pStore f);
          (r, p, f') \<leftarrow> m p f;
          Some (r, s\<lparr>st_db := (st_db s)\<lparr>md_stores := (md_stores (st_db s))(mf_pStore f \<mapsto> p)\<rparr>,
                    st_files := (st_files s)(c \<mapsto> f')\<rparr>) }"

fun store_method :: "request \<Rightarrow> MemStore \<Rightarrow> MemFile \<Rightarrow> (reply \<times> MemStore \<times> MemFile) option" where
  "store_method (RRead n i) p f = do { (rc, bs) \<leftarrow> memdbRead p n i; Some (RBuf rc bs, p, f) }"
| "store_method (RWrite al z i) p f = do { (rc, p) \<leftarrow> memdbWrite al p z i; Some (RC rc, p, f) }"
| "store_method (RTruncate n) p f = (case memdbTruncate p n of (rc, p) \<Rightarrow> Some (RC rc, p, f))"
| "store_method (RLock e) p f = (case memdbLock p f e of (rc, p, f) \<Rightarrow> Some (RC rc, p, f))"
| "store_method (RFileControl op n) p f = (case memdbFileControl p op n of (rc, n, p) \<Rightarrow> Some (RC rc, p, f))"
| "store_method (RFetch n i) p f = do { (r, p) \<leftarrow> memdbFetch p i n; Some (RC SQLITE_OK, p, f) }"
| "store_method RUnfetch p f = Some (RC SQLITE_OK, memdbUnfetch p, f)"
| "store_method (RDeserialize mx d n fl) p f = Some (RC SQLITE_OK, memdb_deserialize mx p d n (int (length d)) fl, f)"
| "store_method (ROpen env z fl) p f = None"
| "store_method RClose p f = None"

definition md_exec :: "nat \<Rightarrow> request \<Rightarrow> md_state \<Rightarrow> (reply \<times> md_state) option" where
  "md_exec c r s =
     (case r of
        ROpen env zName flags \<Rightarrow>
          (case memdbOpen env (st_db s) zName flags of
             None \<Rightarrow> None
           | Some (rc, w, fo) \<Rightarrow> Some (RC rc, \<lparr>st_db = w, st_files = (st_files s)(c := map_option fst fo)\<rparr>))
      | RClose \<Rightarrow>
          do { f \<leftarrow> st_files s c;
               (rc, w) \<leftarrow> memdbClose (st_db s) f;
               Some (RC rc, \<lparr>st_db = w, st_files = (st_files s)(c := None)\<rparr>) }
      | _ \<Rightarrow> on_store s c (store_method r))"

text \<open>
  What the pager keeps to: a connection opens once and closes after giving up its lock, takes a lock above \<open>SHARED\<close> only with a lock in
  hand, and passes sizes and offsets in range; \<open>sqlite3_deserialize\<close> works on the new, private store it has just opened.
\<close>

definition legal :: "nat \<Rightarrow> request \<Rightarrow> md_state \<Rightarrow> bool" where
  "legal c r s \<longleftrightarrow>
     (case r of
        ROpen env zName flags \<Rightarrow>
          st_files s c = None \<and> (\<forall>a. oe_malloc env = Some a \<longrightarrow> md_stores (st_db s) a = None)
          \<and> 0 \<le> oe_mxMemdbSize env \<and> oe_mxMemdbSize env \<le> LARGEST_INT64
      | _ \<Rightarrow>
          (case st_files s c of
             None \<Rightarrow> False
           | Some f \<Rightarrow>
               (case r of
                  RClose \<Rightarrow> mf_eLock f = SQLITE_LOCK_NONE
                | RRead n i \<Rightarrow> in_reach n i
                | RWrite al z i \<Rightarrow> realloc_ok al \<and> in_reach (length z) i
                | RTruncate n \<Rightarrow> 0 \<le> n
                | RLock e \<Rightarrow> 0 \<le> e \<and> e \<le> SQLITE_LOCK_EXCLUSIVE \<and> (SQLITE_LOCK_SHARED < e \<longrightarrow> SQLITE_LOCK_SHARED \<le> mf_eLock f)
                | RFileControl op n \<Rightarrow> n \<le> LARGEST_INT64
                | RFetch n i \<Rightarrow> in_reach n i
                | RDeserialize mx d n fl \<Rightarrow>
                    0 \<le> n \<and> n \<le> int (length d) \<and> int (length d) \<le> LARGEST_INT64 \<and> mx \<le> LARGEST_INT64
                    \<and> (\<forall>p. md_stores (st_db s) (mf_pStore f) = Some p \<longrightarrow> ms_zFName p = None)
                | _ \<Rightarrow> True)))"

inductive md_reach :: "md_state \<Rightarrow> bool" where
  md_init: "md_reach \<lparr>st_db = \<lparr>md_stores = Map.empty, md_apMemStore = []\<rparr>, st_files = Map.empty\<rparr>"
| md_step: "md_reach s \<Longrightarrow> legal c r s \<Longrightarrow> md_exec c r s = Some (rep, s') \<Longrightarrow> md_reach s'"

subsection \<open>The invariant\<close>

text \<open>The connections that have a store open with a lock of at least level \<open>k\<close>; every user has level 0.\<close>

definition holders :: "(nat \<rightharpoonup> MemFile) \<Rightarrow> nat \<Rightarrow> int \<Rightarrow> nat set" where
  "holders fs a k = {c. \<exists>f. fs c = Some f \<and> mf_pStore f = a \<and> k \<le> mf_eLock f}"

lemma holders_upd:
  "holders (fs(c := None)) a k = holders fs a k - {c}"
  "holders (fs(c \<mapsto> f)) a k = (if mf_pStore f = a \<and> k \<le> mf_eLock f then insert c (holders fs a k) else holders fs a k - {c})"
  by (auto simp: holders_def)

lemma holders_iff: "fs c = Some f \<Longrightarrow> c \<in> holders fs a k \<longleftrightarrow> mf_pStore f = a \<and> k \<le> mf_eLock f"
  by (simp add: holders_def)

lemma holders_closed: "fs c = None \<Longrightarrow> c \<notin> holders fs a k"
  by (simp add: holders_def)

lemma holders_finite: "finite (dom fs) \<Longrightarrow> finite (holders fs a k)"
  by (rule finite_subset [of _ "dom fs"]) (auto simp: holders_def)

text \<open>How many a single handle counts for.\<close>

definition level :: "MemFile \<Rightarrow> int \<Rightarrow> int" where
  "level f k = (if k \<le> mf_eLock f then 1 else 0)"

lemma card_remove_int: "finite A \<Longrightarrow> c \<in> A \<Longrightarrow> int (card (A - {c})) = int (card A) - 1"
  using card_Diff_singleton [of c A] card_gt_0_iff [of A] by (cases "card A") auto

lemma card_holders_upd:
  assumes "finite (dom fs)" "fs c = Some f" "mf_pStore f' = mf_pStore f"
  shows "int (card (holders (fs(c \<mapsto> f')) (mf_pStore f) k)) = int (card (holders fs (mf_pStore f) k)) - level f k + level f' k"
  using assms holders_finite [OF assms(1), of "mf_pStore f" k] card_remove_int [of "holders fs (mf_pStore f) k" c]
  by (auto simp: holders_upd holders_iff level_def card_insert_if)

definition store_inv :: "(nat \<rightharpoonup> MemFile) \<Rightarrow> nat \<Rightarrow> MemStore \<Rightarrow> bool" where
  "store_inv fs a p \<longleftrightarrow> store_ok p
    \<and> ms_nRdLock p = int (card (holders fs a SQLITE_LOCK_SHARED))
    \<and> ms_nWrLock p = int (card (holders fs a SQLITE_LOCK_RESERVED)) \<and> ms_nWrLock p \<le> 1
    \<and> (if ms_zFName p = None then ms_nRef p = 0 \<and> card (holders fs a 0) = 1
       else ms_nRef p = int (card (holders fs a 0)) \<and> 0 < card (holders fs a 0))"

definition md_inv :: "md_state \<Rightarrow> bool" where
  "md_inv s \<longleftrightarrow> finite (dom (st_files s))
    \<and> (\<forall>c f. st_files s c = Some f \<longrightarrow> md_stores (st_db s) (mf_pStore f) \<noteq> None \<and> 0 \<le> mf_eLock f)
    \<and> distinct (md_apMemStore (st_db s))
    \<and> (\<forall>a. a \<in> set (md_apMemStore (st_db s)) \<longleftrightarrow> (\<exists>p. md_stores (st_db s) a = Some p \<and> ms_zFName p \<noteq> None))
    \<and> (\<forall>a b p q. md_stores (st_db s) a = Some p \<longrightarrow> md_stores (st_db s) b = Some q \<longrightarrow> ms_zFName p = ms_zFName q
        \<longrightarrow> ms_zFName p \<noteq> None \<longrightarrow> a = b)
    \<and> (\<forall>a p. md_stores (st_db s) a = Some p \<longrightarrow> store_inv (st_files s) a p)"

lemma md_invI:
  assumes "finite (dom fs)" "\<And>c f. fs c = Some f \<Longrightarrow> st (mf_pStore f) \<noteq> None \<and> 0 \<le> mf_eLock f" "distinct g"
    "\<And>a. a \<in> set g \<longleftrightarrow> (\<exists>p. st a = Some p \<and> ms_zFName p \<noteq> None)"
    "\<And>a b p q. st a = Some p \<Longrightarrow> st b = Some q \<Longrightarrow> ms_zFName p = ms_zFName q \<Longrightarrow> ms_zFName p \<noteq> None \<Longrightarrow> a = b"
    "\<And>a p. st a = Some p \<Longrightarrow> store_inv fs a p"
  shows "md_inv \<lparr>st_db = \<lparr>md_stores = st, md_apMemStore = g\<rparr>, st_files = fs\<rparr>"
  unfolding md_inv_def md_state.select_convs memdb.select_convs
  by (intro conjI allI impI; (rule assms | drule assms(2), blast); assumption?)

lemma md_invD:
  assumes "md_inv s"
  shows "finite (dom (st_files s))" "distinct (md_apMemStore (st_db s))"
    "st_files s c = Some f \<Longrightarrow> \<exists>p. md_stores (st_db s) (mf_pStore f) = Some p \<and> store_inv (st_files s) (mf_pStore f) p"
    "st_files s c = Some f \<Longrightarrow> 0 \<le> mf_eLock f"
    "a \<in> set (md_apMemStore (st_db s)) \<longleftrightarrow> (\<exists>p. md_stores (st_db s) a = Some p \<and> ms_zFName p \<noteq> None)"
    "md_stores (st_db s) a = Some p \<Longrightarrow> md_stores (st_db s) b = Some q \<Longrightarrow> ms_zFName p = ms_zFName q \<Longrightarrow> ms_zFName p \<noteq> None \<Longrightarrow> a = b"
    "md_stores (st_db s) a = Some p \<Longrightarrow> store_inv (st_files s) a p"
  using assms unfolding md_inv_def by blast+

lemma state_upd:
  "s\<lparr>st_db := (st_db s)\<lparr>md_stores := st\<rparr>, st_files := fs\<rparr>
    = \<lparr>st_db = \<lparr>md_stores = st, md_apMemStore = md_apMemStore (st_db s)\<rparr>, st_files = fs\<rparr>"
  by (cases s, cases "st_db s") simp

text \<open>A method on one store keeps the invariant when it keeps the store sound and its counters in step with the lock of the handle.\<close>

definition method_post :: "MemStore \<Rightarrow> MemFile \<Rightarrow> MemStore \<Rightarrow> MemFile \<Rightarrow> bool" where
  "method_post p f p' f' \<longleftrightarrow> store_ok p' \<and> ms_zFName p' = ms_zFName p \<and> ms_nRef p' = ms_nRef p
    \<and> mf_pStore f' = mf_pStore f \<and> 0 \<le> mf_eLock f' \<and> ms_nWrLock p' \<le> 1
    \<and> ms_nRdLock p' = ms_nRdLock p - level f SQLITE_LOCK_SHARED + level f' SQLITE_LOCK_SHARED
    \<and> ms_nWrLock p' = ms_nWrLock p - level f SQLITE_LOCK_RESERVED + level f' SQLITE_LOCK_RESERVED"

lemma method_post_inv:
  assumes "md_inv s" "st_files s c = Some f" "md_stores (st_db s) (mf_pStore f) = Some p" "method_post p f p' f'"
  shows "md_inv (s\<lparr>st_db := (st_db s)\<lparr>md_stores := (md_stores (st_db s))(mf_pStore f \<mapsto> p')\<rparr>, st_files := (st_files s)(c \<mapsto> f')\<rparr>)"
proof -
  note inv = md_invD [OF assms(1)]
  let ?a = "mf_pStore f"
  have post: "store_ok p'" "ms_zFName p' = ms_zFName p" "ms_nRef p' = ms_nRef p" "mf_pStore f' = ?a" "0 \<le> mf_eLock f'"
    using assms(4) by (simp_all add: method_post_def)
  have other: "holders ((st_files s)(c \<mapsto> f')) b k = holders (st_files s) b k" if "b \<noteq> ?a" for b k
    using that post(4) assms(2) by (auto simp: holders_upd holders_iff)
  have same: "card (holders ((st_files s)(c \<mapsto> f')) ?a 0) = card (holders (st_files s) ?a 0)"
    using card_holders_upd [OF inv(1) assms(2) post(4), of 0] inv(4) [OF assms(2)] post(5) by (simp add: level_def)
  have own: "store_inv ((st_files s)(c \<mapsto> f')) ?a p'"
    using inv(7) [OF assms(3)] assms(4) card_holders_upd [OF inv(1) assms(2) post(4)] unfolding store_inv_def same
    by (simp add: method_post_def)
  have rest: "store_inv ((st_files s)(c \<mapsto> f')) b q" if "b \<noteq> ?a" "md_stores (st_db s) b = Some q" for b q
    using inv(7) [OF that(2)] other [OF that(1)] by (simp add: store_inv_def)
  have name: "\<exists>q'. md_stores (st_db s) b = Some q' \<and> ms_zFName q' = ms_zFName q"
    if "((md_stores (st_db s))(?a \<mapsto> p')) b = Some q" for b q
    using that assms(3) post(2) by (auto split: if_splits)
  have "md_inv \<lparr>st_db = \<lparr>md_stores = (md_stores (st_db s))(?a \<mapsto> p'), md_apMemStore = md_apMemStore (st_db s)\<rparr>,
      st_files = (st_files s)(c \<mapsto> f')\<rparr>"
  proof (rule md_invI)
    show "finite (dom ((st_files s)(c \<mapsto> f')))" using inv(1) by simp
    show "((md_stores (st_db s))(?a \<mapsto> p')) (mf_pStore g) \<noteq> None \<and> 0 \<le> mf_eLock g" if "((st_files s)(c \<mapsto> f')) d = Some g" for d g
      using that inv(3,4) [of d g] post(4,5) by (auto split: if_splits)
    show "distinct (md_apMemStore (st_db s))" by (rule inv(2))
    show "b \<in> set (md_apMemStore (st_db s)) \<longleftrightarrow> (\<exists>q. ((md_stores (st_db s))(?a \<mapsto> p')) b = Some q \<and> ms_zFName q \<noteq> None)" for b
      using inv(5) [of b] assms(3) post(2) by auto
    show "b = d" if "((md_stores (st_db s))(?a \<mapsto> p')) b = Some q" "((md_stores (st_db s))(?a \<mapsto> p')) d = Some r"
      "ms_zFName q = ms_zFName r" "ms_zFName q \<noteq> None" for b d q r
      using name [OF that(1)] name [OF that(2)] that(3,4) inv(6) [of b _ d] by auto
    show "store_inv ((st_files s)(c \<mapsto> f')) b q" if "((md_stores (st_db s))(?a \<mapsto> p')) b = Some q" for b q
      using that own rest by (cases "b = ?a") auto
  qed
  then show ?thesis by (simp only: state_upd)
qed

lemma method_post_store:
  "store_ok q \<Longrightarrow> same_head p q \<Longrightarrow> 0 \<le> mf_eLock f \<Longrightarrow> ms_nWrLock p \<le> 1 \<Longrightarrow> method_post p f q f"
  by (simp add: method_post_def same_head_def)

text \<open>Locking: the counters move with the level of the handle, and a second writer is refused.\<close>

lemma memdbLock_post:
  assumes "store_ok p" "0 \<le> mf_eLock f" "0 \<le> e" "SQLITE_LOCK_SHARED < e \<longrightarrow> SQLITE_LOCK_SHARED \<le> mf_eLock f"
    and "ms_nWrLock p \<le> 1" "level f SQLITE_LOCK_RESERVED \<le> ms_nWrLock p" "memdbLock p f e = (rc, q, f')"
  shows "method_post p f q f'"
proof -
  have n: "ms_nWrLock p = 1" if "2 \<le> mf_eLock f" using that assms(5,6) by (simp add: level_def lock_levels)
  consider "e = mf_eLock f" | "e \<noteq> mf_eLock f" "1 < e" | "e \<noteq> mf_eLock f" "e = 1" | "e \<noteq> mf_eLock f" "e = 0" using assms(3) by linarith
  then show ?thesis
  proof cases
    case 1
    then show ?thesis using assms by (auto simp: memdbLock_def method_post_def)
  next
    case 2
    then show ?thesis using assms n
      by (auto simp: memdbLock_def method_post_def level_def lock_levels store_ok_def memdb_codes split: if_splits)
  next
    case 3
    then show ?thesis using assms n
      by (auto simp: memdbLock_def method_post_def level_def lock_levels store_ok_def memdb_codes split: if_splits)
  next
    case 4
    then show ?thesis using assms n
      by (auto simp: memdbLock_def method_post_def level_def lock_levels store_ok_def memdb_codes Let_def split: if_splits)
  qed
qed

lemma fetch_i64: "in_reach n i \<Longrightarrow> i64 (int i + int n) = Some (int i + int n)"
  using in_reach_i64 by blast

lemma store_method_post:
  assumes "md_inv s" "legal c r s" "st_files s c = Some f" "md_stores (st_db s) (mf_pStore f) = Some p"
    and "r \<noteq> RClose" "\<forall>env z fl. r \<noteq> ROpen env z fl"
  shows "\<exists>rep q f'. store_method r p f = Some (rep, q, f') \<and> method_post p f q f'"
proof -
  note inv = md_invD [OF assms(1)]
  have p: "store_ok p" "ms_nWrLock p \<le> 1" and w: "ms_nWrLock p = int (card (holders (st_files s) (mf_pStore f) SQLITE_LOCK_RESERVED))"
    using inv(7) [OF assms(4)] by (simp_all add: store_inv_def)
  have "0 < card (holders (st_files s) (mf_pStore f) SQLITE_LOCK_RESERVED)" if "SQLITE_LOCK_RESERVED \<le> mf_eLock f"
    using that holders_iff [of "st_files s" c f "mf_pStore f" SQLITE_LOCK_RESERVED] assms(3) holders_finite [OF inv(1)] by (auto simp: card_gt_0_iff)
  then have lw: "level f SQLITE_LOCK_RESERVED \<le> ms_nWrLock p" using w by (auto simp: level_def)
  note e = inv(4) [OF assms(3)]
  note keep = method_post_store [OF _ _ e p(2)]
  note lg = assms(2) [unfolded legal_def]
  show ?thesis
  proof (cases r)
    case (RRead n i)
    then have "int (i + n) \<le> LARGEST_INT64" using lg assms(3) by (simp add: in_reach_def i64_bounds)
    from memdbRead_ok [OF p(1) this] RRead show ?thesis using keep [OF p(1)] by simp
  next
    case (RWrite al z i)
    then obtain rc q where "memdbWrite al p z i = Some (rc, q)" "store_ok q" "same_head p q"
      using lg assms(3) memdbWrite_ok [OF p(1), of al z i] by auto
    with RWrite show ?thesis using keep by simp
  next
    case (RTruncate n)
    then have "store_ok (snd (memdbTruncate p n))" "same_head p (snd (memdbTruncate p n))"
      using lg assms(3) p(1) by (auto simp: memdbTruncate_def store_ok_def)
    with RTruncate show ?thesis using keep by (cases "memdbTruncate p n") auto
  next
    case (RLock l)
    then have l: "0 \<le> l" "SQLITE_LOCK_SHARED < l \<longrightarrow> SQLITE_LOCK_SHARED \<le> mf_eLock f" using lg assms(3) by simp_all
    obtain rc q f' where "memdbLock p f l = (rc, q, f')" by (metis prod_cases3)
    with RLock show ?thesis using memdbLock_post [OF p(1) e l p(2) lw] by simp
  next
    case (RFileControl op n)
    then have "n \<le> LARGEST_INT64" using lg assms(3) by simp
    then have "method_post p f (snd (snd (memdbFileControl p op n))) f"
      using p e by (auto simp: memdbFileControl_def Let_def method_post_def store_ok_def)
    with RFileControl show ?thesis by (cases "memdbFileControl p op n") auto
  next
    case (RFetch n i)
    then have "method_post p f p f" "method_post p f (p\<lparr>ms_nMmap := ms_nMmap p + 1\<rparr>) f"
      using p e by (auto simp: method_post_def store_ok_def)
    with RFetch show ?thesis using lg assms(3) fetch_i64 [of n i] by (auto simp: memdbFetch_def)
  next
    case RUnfetch
    then show ?thesis using p e by (auto simp: memdbUnfetch_def method_post_def store_ok_def)
  next
    case (RDeserialize mx d n fl)
    then show ?thesis using lg assms(3) p e by (auto simp: memdb_deserialize_def method_post_def store_ok_def)
  qed (use assms in auto)
qed

lemma on_store_inv:
  assumes "md_inv s" "legal c r s" "r \<noteq> RClose" "\<forall>env z fl. r \<noteq> ROpen env z fl"
  shows "\<exists>rep s'. on_store s c (store_method r) = Some (rep, s') \<and> md_inv s'"
proof -
  obtain f where f: "st_files s c = Some f" using assms(2-4) by (cases r) (auto simp: legal_def split: option.splits)
  from md_invD(3) [OF assms(1) f] obtain p where p: "md_stores (st_db s) (mf_pStore f) = Some p" by blast
  from store_method_post [OF assms(1,2) f p assms(3,4)] obtain rep q f' where
    m: "store_method r p f = Some (rep, q, f')" "method_post p f q f'" by blast
  show ?thesis using method_post_inv [OF assms(1) f p m(2)] f p m(1) by (simp add: on_store_def)
qed

text \<open>Opening.\<close>

lemma find_store_spec:
  assumes "\<And>a. a \<in> set as \<Longrightarrow> st a \<noteq> None"
  shows "\<exists>r. find_store st z as = Some r
    \<and> (case r of None \<Rightarrow> \<forall>a \<in> set as. \<forall>p. st a = Some p \<longrightarrow> ms_zFName p \<noteq> Some z
       | Some a \<Rightarrow> a \<in> set as \<and> (\<exists>p. st a = Some p \<and> ms_zFName p = Some z))"
  using assms
proof (induction as)
  case (Cons b as)
  then obtain p where "st b = Some p" by fastforce
  with Cons show ?case by (cases "ms_zFName p = Some z") (auto split: option.splits)
qed simp

lemma holders_empty:
  assumes "md_inv s" "md_stores (st_db s) a = None"
  shows "holders (st_files s) a k = {}"
  using md_invD(3) [OF assms(1)] assms(2) by (fastforce simp: holders_def)

lemma store_inv_other:
  "store_inv fs b q \<Longrightarrow> (\<And>k. holders fs' b k = holders fs b k) \<Longrightarrow> store_inv fs' b q"
  by (simp add: store_inv_def)

text \<open>A new store with its first user.\<close>

lemma open_new_inv:
  assumes "md_inv s" "st_files s c = None" "md_stores (st_db s) a = None" "0 \<le> oe_mxMemdbSize env" "oe_mxMemdbSize env \<le> LARGEST_INT64"
    and "(n, zo, g) = (0, None, md_apMemStore (st_db s)) \<or> (n = 1 \<and> zo \<noteq> None \<and> g = md_apMemStore (st_db s) @ [a]
      \<and> (\<forall>b q. md_stores (st_db s) b = Some q \<longrightarrow> ms_zFName q \<noteq> zo))"
  shows "md_inv \<lparr>st_db = \<lparr>md_stores = (md_stores (st_db s))(a \<mapsto> new_store env n zo), md_apMemStore = g\<rparr>,
    st_files = (st_files s)(c \<mapsto> \<lparr>mf_pStore = a, mf_eLock = 0\<rparr>)\<rparr>"
proof (rule md_invI)
  note inv = md_invD [OF assms(1)]
  let ?st = "(md_stores (st_db s))(a \<mapsto> new_store env n zo)" and ?fs = "(st_files s)(c \<mapsto> \<lparr>mf_pStore = a, mf_eLock = 0\<rparr>)"
  note zero = holders_empty [OF assms(1,3)]
  have other: "holders ?fs b k = holders (st_files s) b k" if "b \<noteq> a" for b k
    using that holders_closed [of "st_files s" c, OF assms(2)] by (auto simp: holders_upd)
  show "finite (dom ?fs)" using inv(1) by simp
  show "?st (mf_pStore f) \<noteq> None \<and> 0 \<le> mf_eLock f" if "?fs d = Some f" for d f
    using that inv(3,4) [of d f] by (auto split: if_splits)
  show "distinct g" using inv(2,5) assms(3,6) by auto
  show "b \<in> set g \<longleftrightarrow> (\<exists>p. ?st b = Some p \<and> ms_zFName p \<noteq> None)" for b
    using inv(5) [of b] assms(3,6) by (auto simp: new_store_def)
  show "b = d" if "?st b = Some p" "?st d = Some q" "ms_zFName p = ms_zFName q" "ms_zFName p \<noteq> None" for b d p q
    using that inv(6) [of b p d q] assms(6) by (auto simp: new_store_def split: if_splits)
  show "store_inv ?fs b p" if "?st b = Some p" for b p
  proof (cases "b = a")
    case True
    with that have "p = new_store env n zo" by simp
    then show ?thesis using True assms(4-6)
      by (auto simp: store_inv_def store_ok_def new_store_def holders_upd zero lock_levels i64_bounds)
  next
    case False
    then show ?thesis using that inv(7) [of b p] other by (auto intro: store_inv_other)
  qed
qed

text \<open>One more user of a shared store.\<close>

lemma open_shared_inv:
  assumes "md_inv s" "st_files s c = None" "md_stores (st_db s) a = Some p" "ms_zFName p \<noteq> None"
  shows "md_inv \<lparr>st_db = \<lparr>md_stores = (md_stores (st_db s))(a \<mapsto> p\<lparr>ms_nRef := ms_nRef p + 1\<rparr>), md_apMemStore = md_apMemStore (st_db s)\<rparr>,
    st_files = (st_files s)(c \<mapsto> \<lparr>mf_pStore = a, mf_eLock = 0\<rparr>)\<rparr>"
proof (rule md_invI)
  note inv = md_invD [OF assms(1)]
  let ?q = "p\<lparr>ms_nRef := ms_nRef p + 1\<rparr>"
  let ?st = "(md_stores (st_db s))(a \<mapsto> ?q)" and ?fs = "(st_files s)(c \<mapsto> \<lparr>mf_pStore = a, mf_eLock = 0\<rparr>)"
  note no = holders_closed [of "st_files s" c, OF assms(2)]
  note fin = holders_finite [OF inv(1)]
  have other: "holders ?fs b k = holders (st_files s) b k" if "b \<noteq> a \<or> 0 < k" for b k
    using that no by (auto simp: holders_upd)
  show "finite (dom ?fs)" using inv(1) by simp
  show "?st (mf_pStore f) \<noteq> None \<and> 0 \<le> mf_eLock f" if "?fs d = Some f" for d f
    using that inv(3,4) [of d f] by (auto split: if_splits)
  show "distinct (md_apMemStore (st_db s))" by (rule inv(2))
  show "b \<in> set (md_apMemStore (st_db s)) \<longleftrightarrow> (\<exists>p. ?st b = Some p \<and> ms_zFName p \<noteq> None)" for b
    using inv(5) [of b] assms(3,4) by auto
  show "b = d" if "?st b = Some u" "?st d = Some v" "ms_zFName u = ms_zFName v" "ms_zFName u \<noteq> None" for b d u v
    using that inv(6) [of b "if b = a then p else u" d "if d = a then p else v"] assms(3) by (auto split: if_splits)
  show "store_inv ?fs b u" if "?st b = Some u" for b u
  proof (cases "b = a")
    case True
    with that have "u = ?q" by simp
    moreover have "card (holders ?fs a 0) = Suc (card (holders (st_files s) a 0))" using no fin by (simp add: holders_upd)
    ultimately show ?thesis using True inv(7) [OF assms(3)] assms(4) other [of a]
      by (simp add: store_inv_def store_ok_def lock_levels)
  next
    case False
    then show ?thesis using that inv(7) [of b u] other by (auto intro: store_inv_other)
  qed
qed

lemma open_inv:
  assumes "md_inv s" "legal c (ROpen env z fl) s"
  shows "\<exists>rep s'. md_exec c (ROpen env z fl) s = Some (rep, s') \<and> md_inv s'"
proof -
  note inv = md_invD [OF assms(1)]
  have c: "st_files s c = None" and a: "\<And>a. oe_malloc env = Some a \<Longrightarrow> md_stores (st_db s) a = None"
    and m: "0 \<le> oe_mxMemdbSize env" "oe_mxMemdbSize env \<le> LARGEST_INT64"
    using assms(2) by (simp_all add: legal_def)
  have same: "md_inv \<lparr>st_db = st_db s, st_files = (st_files s)(c := None)\<rparr>" using assms(1) c by (cases s) (simp add: fun_upd_idem)
  have upd: "w\<lparr>md_stores := st, md_apMemStore := g\<rparr> = \<lparr>md_stores = st, md_apMemStore = g\<rparr>"
    "w\<lparr>md_stores := st\<rparr> = \<lparr>md_stores = st, md_apMemStore = md_apMemStore w\<rparr>" for w :: memdb and st g by (cases w, simp)+
  obtain r where r: "find_store (md_stores (st_db s)) z (md_apMemStore (st_db s)) = Some r"
    "case r of None \<Rightarrow> \<forall>a \<in> set (md_apMemStore (st_db s)). \<forall>p. md_stores (st_db s) a = Some p \<longrightarrow> ms_zFName p \<noteq> Some z
       | Some a \<Rightarrow> \<exists>p. md_stores (st_db s) a = Some p \<and> ms_zFName p = Some z"
    using find_store_spec [of "md_apMemStore (st_db s)" "md_stores (st_db s)" z] inv(5) by (force split: option.splits)
  show ?thesis
  proof (cases "length z > 1 \<and> cat z 0 = 47")
    case shared: True
    show ?thesis
    proof (cases r)
      case None
      with r(2) inv(5) have new: "\<forall>b q. md_stores (st_db s) b = Some q \<longrightarrow> ms_zFName q \<noteq> Some z" by fastforce
      show ?thesis
      proof (cases "oe_malloc env")
        case (Some a)
        show ?thesis using Some shared None r(1) same open_new_inv [OF assms(1) c a [OF Some] m, of 1 "Some z"] new
          by (auto simp: md_exec_def memdbOpen_def upd)
      qed (use same shared None r(1) in \<open>auto simp: md_exec_def memdbOpen_def\<close>)
    next
      case (Some a)
      with r(2) obtain p where "md_stores (st_db s) a = Some p" "ms_zFName p = Some z" by auto
      with Some shared r(1) open_shared_inv [OF assms(1) c, of a p] show ?thesis by (auto simp: md_exec_def memdbOpen_def upd)
    qed
  next
    case False
    then have *: "memdbOpen env (st_db s) z fl =
      (case oe_malloc env of
         None \<Rightarrow> Some (SQLITE_NOMEM, st_db s, None)
       | Some a \<Rightarrow> Some (SQLITE_OK, (st_db s)\<lparr>md_stores := (md_stores (st_db s))(a \<mapsto> new_store env 0 None)\<rparr>,
           Some (\<lparr>mf_pStore = a, mf_eLock = 0\<rparr>, fl OR SQLITE_OPEN_MEMORY)))"
      by (auto simp: memdbOpen_def Let_def)
    show ?thesis
    proof (cases "oe_malloc env")
      case (Some a)
      show ?thesis using Some open_new_inv [OF assms(1) c a [OF Some] m, of 0 None] by (simp add: md_exec_def * upd)
    qed (use same in \<open>simp add: md_exec_def *\<close>)
  qed
qed

text \<open>Closing.\<close>

lemma array_remove_spec:
  "distinct as \<Longrightarrow> a \<in> set as \<Longrightarrow> \<exists>g. array_remove a as = Some g \<and> distinct g \<and> set g = set as - {a}"
proof (induction as)
  case (Cons b as)
  then show ?case by (cases as rule: rev_cases) auto
qed simp

lemma close_store_inv:
  assumes "md_inv s" "st_files s c = Some f" "md_stores (st_db s) (mf_pStore f) = Some p" "mf_eLock f = SQLITE_LOCK_NONE"
    and "last_user \<longleftrightarrow> card (holders (st_files s) (mf_pStore f) 0) = 1"
    and "st' = (if last_user then (md_stores (st_db s))(mf_pStore f := None)
      else (md_stores (st_db s))(mf_pStore f \<mapsto> p\<lparr>ms_nRef := ms_nRef p - 1\<rparr>))"
    and "distinct g" "set g = (if last_user then set (md_apMemStore (st_db s)) - {mf_pStore f} else set (md_apMemStore (st_db s)))"
  shows "md_inv \<lparr>st_db = \<lparr>md_stores = st', md_apMemStore = g\<rparr>, st_files = (st_files s)(c := None)\<rparr>"
proof (rule md_invI)
  note inv = md_invD [OF assms(1)]
  let ?a = "mf_pStore f" and ?fs = "(st_files s)(c := None)"
  note fin = holders_finite [OF inv(1)]
  have c0: "c \<in> holders (st_files s) ?a 0" using assms(2,4) by (simp add: holders_def lock_levels)
  have none: "d = c" if last_user "st_files s d = Some f'" "mf_pStore f' = ?a" for d f'
  proof -
    have "d \<in> holders (st_files s) ?a 0" using that(2,3) inv(4) by (auto simp: holders_def)
    moreover have "is_singleton (holders (st_files s) ?a 0)" using assms(5) that(1) by (simp add: is_singleton_altdef)
    then obtain x where "holders (st_files s) ?a 0 = {x}" by (rule is_singletonE)
    ultimately show ?thesis using c0 by simp
  qed
  have other: "holders ?fs b k = holders (st_files s) b k" if "b \<noteq> ?a \<or> 0 < k" for b k
    using that assms(2,4) by (auto simp: holders_upd holders_def lock_levels)
  show "finite (dom ?fs)" using inv(1) by simp
  show "st' (mf_pStore f') \<noteq> None \<and> 0 \<le> mf_eLock f'" if "?fs d = Some f'" for d f'
    using that inv(3,4) [of d f'] none [of d f'] assms(6) by (auto split: if_splits)
  show "distinct g" by (rule assms(7))
  show "b \<in> set g \<longleftrightarrow> (\<exists>q. st' b = Some q \<and> ms_zFName q \<noteq> None)" for b
    using inv(5) [of b] assms(3,6,8) by auto
  show "b = d" if "st' b = Some u" "st' d = Some v" "ms_zFName u = ms_zFName v" "ms_zFName u \<noteq> None" for b d u v
  proof -
    have "\<exists>w. md_stores (st_db s) x = Some w \<and> ms_zFName w = ms_zFName y" if "st' x = Some y" for x y
      using that assms(3,6) by (auto split: if_splits)
    from this [OF that(1)] this [OF that(2)] that(3,4) inv(6) [of b _ d] show ?thesis by auto
  qed
  show "store_inv ?fs b u" if "st' b = Some u" for b u
  proof (cases "b = ?a")
    case True
    with that assms(6) have u: "\<not> last_user" "u = p\<lparr>ms_nRef := ms_nRef p - 1\<rparr>" by (auto split: if_splits)
    have "int (card (holders ?fs ?a 0)) = int (card (holders (st_files s) ?a 0)) - 1"
      using card_remove_int [OF fin c0] by (simp only: holders_upd)
    then show ?thesis using True u inv(7) [OF assms(3)] assms(5) other [of ?a]
      by (auto simp: store_inv_def store_ok_def lock_levels split: if_splits)
  next
    case False
    then show ?thesis using that assms(6) inv(7) [of b u] other by (auto intro: store_inv_other split: if_splits)
  qed
qed

lemma close_inv:
  assumes "md_inv s" "legal c RClose s"
  shows "\<exists>rep s'. md_exec c RClose s = Some (rep, s') \<and> md_inv s'"
proof -
  note inv = md_invD [OF assms(1)]
  obtain f where f: "st_files s c = Some f" "mf_eLock f = SQLITE_LOCK_NONE" using assms(2) by (auto simp: legal_def split: option.splits)
  from inv(3) [OF f(1)] obtain p where p: "md_stores (st_db s) (mf_pStore f) = Some p" "store_inv (st_files s) (mf_pStore f) p" by blast
  let ?n = "card (holders (st_files s) (mf_pStore f) 0)"
  let ?g = "if ms_zFName p = None then Some (md_apMemStore (st_db s))
    else do { g \<leftarrow> array_remove (mf_pStore f) (md_apMemStore (st_db s)); Some (if ms_nRef p = 1 then g else md_apMemStore (st_db s)) }"
  have ref: "if ms_zFName p = None then ms_nRef p = 0 \<and> ?n = 1 else ms_nRef p = int ?n \<and> 0 < ?n"
    using p(2) by (simp add: store_inv_def)
  then have n: "ms_nRef p - 1 \<le> 0 \<longleftrightarrow> ?n = 1" by (cases "ms_zFName p") auto
  have "\<exists>g. ?g = Some g \<and> distinct g
    \<and> set g = (if ?n = 1 then set (md_apMemStore (st_db s)) - {mf_pStore f} else set (md_apMemStore (st_db s)))"
  proof (cases "ms_zFName p = None")
    case True
    then have "mf_pStore f \<notin> set (md_apMemStore (st_db s))" using inv(5) [of "mf_pStore f"] p(1) by simp
    with True show ?thesis using inv(2) by simp
  next
    case False
    then have "mf_pStore f \<in> set (md_apMemStore (st_db s))" using inv(5) [of "mf_pStore f"] p(1) by simp
    from array_remove_spec [OF inv(2) this] obtain g where "array_remove (mf_pStore f) (md_apMemStore (st_db s)) = Some g"
      "distinct g" "set g = set (md_apMemStore (st_db s)) - {mf_pStore f}" by blast
    moreover obtain z where "ms_zFName p = Some z" using False by blast
    moreover from this have "ms_nRef p = int ?n" using ref by simp
    ultimately show ?thesis using inv(2)
      by (intro exI [of _ "if ?n = 1 then g else md_apMemStore (st_db s)"]) (simp split: if_split)
  qed
  then obtain g where g: "?g = Some g" "distinct g"
    "set g = (if ?n = 1 then set (md_apMemStore (st_db s)) - {mf_pStore f} else set (md_apMemStore (st_db s)))"
    by (elim exE conjE) (rule that)
  let ?st = "if ?n = 1 then (md_stores (st_db s))(mf_pStore f := None)
    else (md_stores (st_db s))(mf_pStore f \<mapsto> p\<lparr>ms_nRef := ms_nRef p - 1\<rparr>)"
  have "w\<lparr>md_apMemStore := g, md_stores := st\<rparr> = \<lparr>md_stores = st, md_apMemStore = g\<rparr>" for w :: memdb and st by (cases w) simp
  then have "memdbClose (st_db s) f = Some (SQLITE_OK, \<lparr>md_stores = ?st, md_apMemStore = g\<rparr>)"
    unfolding memdbClose_def p(1) option.case g(1) using n by (simp add: Let_def)
  then show ?thesis using close_store_inv [OF assms(1) f(1) p(1) f(2) refl refl g(2,3)] f(1) unfolding md_exec_def by simp
qed

text \<open>The invariant holds in every reachable state, and every legal request is defined there.\<close>

lemma exec_inv:
  assumes "md_inv s" "legal c r s"
  shows "\<exists>rep s'. md_exec c r s = Some (rep, s') \<and> md_inv s'"
  using assms on_store_inv [OF assms] close_inv [of s c] open_inv [of s c] by (cases r) (auto simp: md_exec_def)

lemma reach_inv: "md_reach s \<Longrightarrow> md_inv s"
proof (induction rule: md_reach.induct)
  case md_init
  show ?case by (rule md_invI) simp_all
next
  case (md_step s c r rep s')
  then show ?case using exec_inv by fastforce
qed

subsection \<open>Properties\<close>

text \<open>
  C6. In-memory databases are memory safe under sharing: in every state that any number of connections can reach by opening, closing,
  reading, writing, truncating, locking and resizing in any order, every further legal request is defined.  No store is used after it
  was freed, no access leaves the block, no size overflows, and the array of shared stores never holds a store that is gone.
\<close>

theorem memdb_safe:
  assumes "md_reach s" "legal c r s"
  shows "\<exists>rep s'. md_exec c r s = Some (rep, s') \<and> md_reach s'
    \<and> (\<forall>d f. st_files s' d = Some f \<longrightarrow> md_stores (st_db s') (mf_pStore f) \<noteq> None)"
proof -
  from exec_inv [OF reach_inv [OF assms(1)] assms(2)] obtain rep s' where s': "md_exec c r s = Some (rep, s')" "md_inv s'" by blast
  then have "md_stores (st_db s') (mf_pStore f) \<noteq> None" if "st_files s' d = Some f" for d f using md_invD(3) [OF s'(2) that] by auto
  then show ?thesis using s'(1) md_step [OF assms s'(1)] by blast
qed

text \<open>A run of several requests, for examples.\<close>

fun md_go :: "(nat \<times> request) list \<Rightarrow> md_state \<Rightarrow> md_state option" where
  "md_go [] s = Some s"
| "md_go ((c, r) # rs) s = (case md_exec c r s of None \<Rightarrow> None | Some (rep, s') \<Rightarrow> if legal c r s then md_go rs s' else None)"

lemma md_go_reach: "md_reach s \<Longrightarrow> md_go rs s = Some s' \<Longrightarrow> md_reach s'"
proof (induction rs arbitrary: s)
  case (Cons r rs)
  then show ?case by (cases r) (auto dest: md_step split: option.splits if_splits)
qed simp

definition zero_alloc :: "int \<Rightarrow> u8 list option" where
  "zero_alloc n = (if 0 \<le> n then Some (replicate (nat n) 0) else None)"

definition md_zero :: md_state where
  "md_zero = \<lparr>st_db = \<lparr>md_stores = Map.empty, md_apMemStore = []\<rparr>, st_files = Map.empty\<rparr>"

definition env_at :: "nat \<Rightarrow> open_env" where
  "env_at a = \<lparr>oe_malloc = Some a, oe_realloc = True, oe_mutex = True, oe_mxMemdbSize = 1073741824\<rparr>"

lemma md_zero_reach [simp]: "md_reach md_zero"
  unfolding md_zero_def by (rule md_init)

theorem memdb_safe_witness:
  "\<exists>rep s'. md_exec 1 (ROpen (env_at 7) [47, 97] 0) md_zero = Some (rep, s') \<and> md_reach s'
    \<and> (\<forall>d f. st_files s' d = Some f \<longrightarrow> md_stores (st_db s') (mf_pStore f) \<noteq> None)"
  by (rule memdb_safe) (simp_all add: legal_def env_at_def i64_bounds md_zero_def [symmetric], simp_all add: md_zero_def)

text \<open>
  C7. The lock counters of a store count the locks: in every reachable state \<open>nRdLock\<close> is the number of connections that hold at least a
  \<open>SHARED\<close> lock, \<open>nWrLock\<close> the number of those that hold more, and no two connections hold more than a \<open>SHARED\<close> lock on the
  same store.
\<close>

theorem memdb_locks:
  assumes "md_reach s" "md_stores (st_db s) a = Some p"
  shows "ms_nRdLock p = int (card {c. \<exists>f. st_files s c = Some f \<and> mf_pStore f = a \<and> SQLITE_LOCK_SHARED \<le> mf_eLock f})
    \<and> ms_nWrLock p = int (card {c. \<exists>f. st_files s c = Some f \<and> mf_pStore f = a \<and> SQLITE_LOCK_RESERVED \<le> mf_eLock f})
    \<and> (\<forall>c d f g. st_files s c = Some f \<and> mf_pStore f = a \<and> SQLITE_LOCK_RESERVED \<le> mf_eLock f
        \<and> st_files s d = Some g \<and> mf_pStore g = a \<and> SQLITE_LOCK_RESERVED \<le> mf_eLock g \<longrightarrow> c = d)"
proof -
  note inv = md_invD [OF reach_inv [OF assms(1)]]
  from inv(7) [OF assms(2)] have p: "ms_nRdLock p = int (card (holders (st_files s) a SQLITE_LOCK_SHARED))"
    "ms_nWrLock p = int (card (holders (st_files s) a SQLITE_LOCK_RESERVED))" "card (holders (st_files s) a SQLITE_LOCK_RESERVED) \<le> 1"
    by (simp_all add: store_inv_def)
  have "c = d" if "c \<in> holders (st_files s) a SQLITE_LOCK_RESERVED" "d \<in> holders (st_files s) a SQLITE_LOCK_RESERVED" for c d
    using that p(3) card_le_Suc0_iff_eq [OF holders_finite [OF inv(1)]] by auto
  then have "c = d" if "st_files s c = Some f" "mf_pStore f = a" "SQLITE_LOCK_RESERVED \<le> mf_eLock f"
    "st_files s d = Some g" "mf_pStore g = a" "SQLITE_LOCK_RESERVED \<le> mf_eLock g" for c d f g
    using that by (simp add: holders_def)
  then show ?thesis unfolding p(1,2) holders_def by (intro conjI refl allI impI) blast
qed

text \<open>What a connection sees: the contents of its file, and the name under which the file is shared.\<close>

definition file_store :: "md_state \<Rightarrow> nat \<Rightarrow> MemStore option" where
  "file_store s c = do { f \<leftarrow> st_files s c; md_stores (st_db s) (mf_pStore f) }"

definition shares :: "md_state \<Rightarrow> nat \<Rightarrow> nat \<Rightarrow> bool" where
  "shares s c d \<longleftrightarrow> c = d \<or> (\<exists>p q z. file_store s c = Some p \<and> file_store s d = Some q \<and> ms_zFName p = Some z \<and> ms_zFName q = Some z)"

lemma shares_store:
  assumes "md_inv s" "st_files s c = Some f" "st_files s d = Some g"
  shows "shares s c d \<longleftrightarrow> mf_pStore f = mf_pStore g"
proof -
  note inv = md_invD [OF assms(1)]
  from inv(3) [OF assms(2)] obtain p where p: "md_stores (st_db s) (mf_pStore f) = Some p" "store_inv (st_files s) (mf_pStore f) p" by blast
  from inv(3) [OF assms(3)] obtain q where q: "md_stores (st_db s) (mf_pStore g) = Some q" by blast
  have "c = d" if "mf_pStore f = mf_pStore g" "ms_zFName p = None"
  proof -
    have "c \<in> holders (st_files s) (mf_pStore f) 0" "d \<in> holders (st_files s) (mf_pStore f) 0"
      using assms(2,3) that(1) inv(4) [OF assms(2)] inv(4) [OF assms(3)] by (auto simp: holders_def)
    moreover have "card (holders (st_files s) (mf_pStore f) 0) = 1" using p(2) that(2) by (simp add: store_inv_def)
    ultimately show ?thesis using card_le_Suc0_iff_eq [OF holders_finite [OF inv(1)], of "mf_pStore f" 0] by auto
  qed
  moreover have "mf_pStore f = mf_pStore g" if "ms_zFName p = Some z" "ms_zFName q = Some z" for z
    using inv(6) [OF p(1) q] that by simp
  moreover have "\<exists>z. ms_zFName p = Some z \<and> ms_zFName q = Some z" if "mf_pStore f = mf_pStore g" "ms_zFName p \<noteq> None"
    using that p(1) q by auto
  ultimately show ?thesis using assms(2,3) p(1) q by (auto simp: shares_def file_store_def)
qed

lemma on_store_files:
  assumes "md_inv s" "on_store s c m = Some (rep, s')" "st_files s c = Some f" "md_stores (st_db s) (mf_pStore f) = Some p"
    "m p f = Some (rep, q, f)"
  shows "file_store s' d = (if shares s c d then Some q else file_store s d)"
proof -
  have s': "s' = s\<lparr>st_db := (st_db s)\<lparr>md_stores := (md_stores (st_db s))(mf_pStore f \<mapsto> q)\<rparr>, st_files := (st_files s)(c \<mapsto> f)\<rparr>"
    using assms(2-5) by (simp add: on_store_def)
  then have fs: "st_files s' = st_files s" "md_stores (st_db s') = (md_stores (st_db s))(mf_pStore f \<mapsto> q)" using assms(3) by auto
  show ?thesis
  proof (cases "st_files s d")
    case None
    then show ?thesis using fs assms(3) by (auto simp: file_store_def shares_def)
  next
    case (Some g)
    then show ?thesis using fs shares_store [OF assms(1,3) Some] by (auto simp: file_store_def)
  qed
qed

text \<open>
  C8. A write through one connection is seen by exactly the connections that share the file: after a successful \<open>xWrite\<close> every connection
  that has the same name open sees the written bytes at the offset (with zeros in a gap) and the rest as before, every other
  connection sees its own file unchanged; after an error nobody sees a change.
\<close>

theorem memdb_write_visible:
  assumes "md_reach s" "legal c (RWrite al z i) s" "md_exec c (RWrite al z i) s = Some (RC rc, s')"
  shows "map_option store_content (file_store s' d) =
    (if rc = SQLITE_OK \<and> shares s c d then map_option (\<lambda>p. file_write (store_content p) i z) (file_store s c)
     else map_option store_content (file_store s d))"
proof -
  note inv = reach_inv [OF assms(1)]
  obtain f where f: "st_files s c = Some f" "realloc_ok al" "in_reach (length z) i"
    using assms(2) by (auto simp: legal_def split: option.splits)
  from md_invD(3) [OF inv f(1)] obtain p where p: "md_stores (st_db s) (mf_pStore f) = Some p" "store_ok p" by (auto simp: store_inv_def)
  from memdbWrite_ok [OF p(2) f(2,3)] obtain rc' q where q: "memdbWrite al p z i = Some (rc', q)" "rc' \<noteq> SQLITE_OK \<longrightarrow> q = p"
    "rc' = SQLITE_OK \<longrightarrow> store_content q = file_write (store_content p) i z" by blast
  have "on_store s c (store_method (RWrite al z i)) = Some (RC rc, s')" using assms(3) by (simp add: md_exec_def)
  moreover from this have "rc' = rc" using f(1) p(1) q(1) by (simp add: on_store_def)
  ultimately have "file_store s' d = (if shares s c d then Some q else file_store s d)"
    using on_store_files [OF inv _ f(1) p(1), of "store_method (RWrite al z i)" "RC rc" s' q d] q(1) by simp
  moreover have "file_store s d = Some p" if "shares s c d"
  proof (cases "st_files s d")
    case None
    then show ?thesis using that f(1) by (auto simp: shares_def file_store_def)
  next
    case (Some g)
    then show ?thesis using that shares_store [OF inv f(1) Some] p(1) by (simp add: file_store_def)
  qed
  moreover have "file_store s c = Some p" using f(1) p(1) by (simp add: file_store_def)
  ultimately show ?thesis using q(2,3) \<open>rc' = rc\<close> by auto
qed

text \<open>Two connections that share the file \<open>/a\<close>: the first has a \<open>SHARED\<close> lock, the second an \<open>EXCLUSIVE\<close> one.\<close>

definition two_users :: "(nat \<times> request) list" where
  "two_users =
     [(1, ROpen (env_at 7) [47, 97] 0), (1, RWrite zero_alloc [1] 0), (2, ROpen (env_at 8) [47, 97] 0),
      (1, RLock SQLITE_LOCK_SHARED), (2, RLock SQLITE_LOCK_SHARED), (2, RLock SQLITE_LOCK_EXCLUSIVE)]"

definition shared_store :: "u8 \<Rightarrow> MemStore" where
  "shared_store b =
     \<lparr>ms_sz = 1, ms_szAlloc = 2, ms_szMax = 1073741824, ms_aData = [b, 0], ms_nMmap = 0, ms_mFlags = 3,
      ms_nRdLock = 2, ms_nWrLock = 1, ms_nRef = 2, ms_zFName = Some [47, 97]\<rparr>"

definition shared_state :: "u8 \<Rightarrow> md_state" where
  "shared_state b =
     \<lparr>st_db = \<lparr>md_stores = [7 \<mapsto> shared_store b], md_apMemStore = [7]\<rparr>,
      st_files = [1 \<mapsto> \<lparr>mf_pStore = 7, mf_eLock = SQLITE_LOCK_SHARED\<rparr>, 2 \<mapsto> \<lparr>mf_pStore = 7, mf_eLock = SQLITE_LOCK_EXCLUSIVE\<rparr>]\<rparr>"

lemma zero_alloc_ok [simp]: "realloc_ok zero_alloc"
  by (simp add: realloc_ok_def zero_alloc_def)

lemmas md_eval = md_exec_def memdbOpen_def new_store_def on_store_def memdbWrite_def memdbWrite_extend_def memdbEnlarge_def memdbLock_def
  has_flag_def put_bytes_def get_bytes_def move_block_def memdbRead_def i64_def in_i64_def i64_bounds in_reach_def
  SQLITE_DESERIALIZE_FREEONCLOSE_def SQLITE_DESERIALIZE_RESIZEABLE_def SQLITE_DESERIALIZE_READONLY_def

lemma two_users_go: "md_go two_users md_zero = Some (shared_state 1)"
  by (simp add: two_users_def md_zero_def env_at_def legal_def md_eval lock_levels memdb_codes shared_state_def shared_store_def
      zero_alloc_def [of 2] Let_def)

lemma shared_state_reach: "md_reach (shared_state 1)"
  by (rule md_go_reach [OF md_zero_reach two_users_go])

lemma shared_state_write: "md_exec 2 (RWrite zero_alloc [2] 0) (shared_state 1) = Some (RC SQLITE_OK, shared_state 2)"
  "legal 2 (RWrite zero_alloc [2] 0) (shared_state 1)"
  by (simp_all add: shared_state_def shared_store_def legal_def md_eval lock_levels memdb_codes)

lemma shared_state_read: "md_exec 1 (RRead 1 0) (shared_state b) = Some (RBuf SQLITE_OK [b], shared_state b)"
  by (simp add: shared_state_def shared_store_def md_eval lock_levels memdb_codes, rule ext, simp)

theorem memdb_locks_witness:
  "int (card {c. \<exists>f. st_files (shared_state 1) c = Some f \<and> mf_pStore f = 7 \<and> SQLITE_LOCK_SHARED \<le> mf_eLock f}) = 2
   \<and> int (card {c. \<exists>f. st_files (shared_state 1) c = Some f \<and> mf_pStore f = 7 \<and> SQLITE_LOCK_RESERVED \<le> mf_eLock f}) = 1"
proof -
  have p: "md_stores (st_db (shared_state 1)) 7 = Some (shared_store 1)" by (simp add: shared_state_def)
  have n: "ms_nRdLock (shared_store 1) = 2" "ms_nWrLock (shared_store 1) = 1" by (simp_all add: shared_store_def)
  from memdb_locks [OF shared_state_reach p] show ?thesis unfolding n by (elim conjE) (intro conjI; rule sym)
qed

text \<open>
  C11. Every store stays well formed: in every reachable state the size of the file lies between zero and the size of its block, which
  is a 64-bit number, and the store is listed in \<open>memdb_g\<close> exactly when it has a name.  A store with a name counts its users in
  \<open>nRef\<close>; a private store has \<open>nRef = 0\<close> and exactly one user.  Every store has a user, so that none is leaked.
\<close>

theorem memdb_store_well_formed:
  assumes "md_reach s" "md_stores (st_db s) a = Some p"
  shows "0 \<le> ms_sz p \<and> ms_sz p \<le> ms_szAlloc p \<and> ms_szAlloc p = int (length (ms_aData p)) \<and> ms_szAlloc p \<le> LARGEST_INT64
    \<and> (a \<in> set (md_apMemStore (st_db s)) \<longleftrightarrow> ms_zFName p \<noteq> None)
    \<and> (ms_zFName p \<noteq> None \<longrightarrow> ms_nRef p = int (card {c. \<exists>f. st_files s c = Some f \<and> mf_pStore f = a}))
    \<and> (ms_zFName p = None \<longrightarrow> ms_nRef p = 0 \<and> (\<exists>!c. \<exists>f. st_files s c = Some f \<and> mf_pStore f = a))
    \<and> (\<exists>c f. st_files s c = Some f \<and> mf_pStore f = a)"
proof -
  note inv = md_invD [OF reach_inv [OF assms(1)]]
  have u: "holders (st_files s) a 0 = {c. \<exists>f. st_files s c = Some f \<and> mf_pStore f = a}" using inv(4) by (auto simp: holders_def)
  have i: "store_inv (st_files s) a p" by (rule inv(7) [OF assms(2)])
  then have "store_ok p" "card (holders (st_files s) a 0) \<noteq> 0" "ms_zFName p \<noteq> None \<Longrightarrow> ms_nRef p = int (card (holders (st_files s) a 0))"
    by (auto simp: store_inv_def split: if_splits)
  moreover from this(2) have "holders (st_files s) a 0 \<noteq> {}" by (metis card.empty)
  moreover have "ms_nRef p = 0 \<and> (\<exists>!c. \<exists>f. st_files s c = Some f \<and> mf_pStore f = a)" if "ms_zFName p = None"
  proof -
    have "ms_nRef p = 0" "card {c. \<exists>f. st_files s c = Some f \<and> mf_pStore f = a} = 1"
      using i that unfolding u [symmetric] by (auto simp: store_inv_def)
    moreover from this(2) obtain c where "{c. \<exists>f. st_files s c = Some f \<and> mf_pStore f = a} = {c}" by (rule card_1_singletonE)
    ultimately show ?thesis by (simp add: set_eq_iff)
  qed
  ultimately show ?thesis using inv(5) [of a] assms(2) unfolding u store_ok_def by simp
qed

theorem memdb_store_well_formed_witness:
  "int (card {c. \<exists>f. st_files (shared_state 1) c = Some f \<and> mf_pStore f = 7}) = 2"
proof -
  have p: "md_stores (st_db (shared_state 1)) 7 = Some (shared_store 1)" by (simp add: shared_state_def)
  have n: "ms_nRef (shared_store 1) = 2" "ms_zFName (shared_store 1) \<noteq> None" by (simp_all add: shared_store_def)
  from memdb_store_well_formed [OF shared_state_reach p] have
    "ms_zFName (shared_store 1) \<noteq> None \<longrightarrow> ms_nRef (shared_store 1) = int (card {c. \<exists>f. st_files (shared_state 1) c = Some f \<and> mf_pStore f = 7})"
    by (elim conjE)
  with n(2) show ?thesis unfolding n(1) by (metis)
qed

theorem memdb_write_visible_witness:
  "map_option store_content (file_store (shared_state 2) 1) = Some [2]"
proof -
  have "shares (shared_state 1) 2 1" "file_store (shared_state 1) 2 = Some (shared_store 1)"
    by (auto simp: shares_def file_store_def shared_state_def shared_store_def)
  then show ?thesis using memdb_write_visible [OF shared_state_reach shared_state_write(2,1), of 1]
    by (simp add: store_content_def shared_store_def file_write_def)
qed

text \<open>
  C39. An \<open>EXCLUSIVE\<close> lock does not exclude readers: \<open>memdbLock\<close> never looks at \<open>nRdLock\<close>, so there is a reachable state in which one
  connection holds an \<open>EXCLUSIVE\<close> lock while another holds a \<open>SHARED\<close> lock on the same file, and the reader, which keeps its lock, reads
  one value before and another after a write of the first.
\<close>

theorem memdb_exclusive_admits_reader:
  "\<exists>s s' f g. md_reach s \<and> md_reach s' \<and> st_files s 1 = Some f \<and> st_files s 2 = Some g \<and> mf_pStore f = mf_pStore g
    \<and> mf_eLock f = SQLITE_LOCK_SHARED \<and> mf_eLock g = SQLITE_LOCK_EXCLUSIVE \<and> st_files s' = st_files s
    \<and> md_exec 2 (RWrite zero_alloc [2] 0) s = Some (RC SQLITE_OK, s')
    \<and> md_exec 1 (RRead 1 0) s = Some (RBuf SQLITE_OK [1], s) \<and> md_exec 1 (RRead 1 0) s' = Some (RBuf SQLITE_OK [2], s')"
proof -
  have "md_reach (shared_state 2)" by (rule md_step [OF shared_state_reach shared_state_write(2,1)])
  with shared_state_reach shared_state_write(1) shared_state_read [of 1] shared_state_read [of 2] show ?thesis
    by (intro exI [of _ "shared_state 1"] exI [of _ "shared_state 2"]) (simp add: shared_state_def)
qed

text \<open>
  C9. An in-memory database refines a plain sequence of bytes: any list of reads, writes and truncations on a sound store, with any
  allocator, is defined and keeps the store sound, and if no call reports an error, the reads return and the store finally holds
  what the same operations give on the sequence.  No call reports an error when the file may grow, nothing is written past its
  size limit and the allocator can serve that limit.
\<close>

theorem memdb_refines_file:
  assumes "realloc_ok al" "store_ok p" "flat_legal (\<lambda>_. in_reach) ops (store_content p)"
  shows "\<exists>rc rs q. run_file (memdbWrite al) (\<lambda>p n i. map_option (\<lambda>(rc, bs). (rc, bs, p)) (memdbRead p n i))
      (\<lambda>p n. Some (memdbTruncate p (int n))) ops p = Some (rc, rs, q) \<and> store_ok q
    \<and> (rc = SQLITE_OK \<longrightarrow> (rs, store_content q) = flat_ops ops (store_content p))
    \<and> (can_grow al M p \<and> flat_legal (\<lambda>_ n i. int i + int n \<le> M) ops (store_content p) \<longrightarrow> rc = SQLITE_OK)"
proof -
  let ?run = "run_file (memdbWrite al) (\<lambda>p n i. map_option (\<lambda>(rc, bs). (rc, bs, p)) (memdbRead p n i))
      (\<lambda>p n. Some (memdbTruncate p (int n))) ops p"
  from mdb.run_flat [of al "\<lambda>_. in_reach" p ops] assms obtain rc rs q where "?run = Some (rc, rs, q)" "store_ok q"
    "rc = SQLITE_OK \<longrightarrow> (rs, store_content q) = flat_ops ops (store_content p)" by blast
  moreover from this(1) have "rc = SQLITE_OK" if "can_grow al M p" "flat_legal (\<lambda>_ n i. int i + int n \<le> M) ops (store_content p)"
    using mdbr.run_reliable [of al M "\<lambda>_ n i. int i + int n \<le> M" p ops] that by auto
  ultimately show ?thesis by blast
qed

theorem memdb_refines_file_witness:
  "\<exists>rs q. run_file (memdbWrite zero_alloc) (\<lambda>p n i. map_option (\<lambda>(rc, bs). (rc, bs, p)) (memdbRead p n i))
      (\<lambda>p n. Some (memdbTruncate p (int n))) [FWrite [1, 2] 3, FRead 4 1, FTrunc 4] (new_store (env_at 0) 0 None) = Some (SQLITE_OK, rs, q)
    \<and> store_ok q \<and> (rs, store_content q) = ([[0, 0, 1, 2]], [0, 0, 0, 1])"
proof -
  let ?ops = "[FWrite [1, 2] 3, FRead 4 1, FTrunc 4]" and ?p = "new_store (env_at 0) 0 None"
  have p: "store_ok ?p" "store_content ?p = []" and g: "can_grow zero_alloc 1073741824 ?p"
    by (simp_all add: can_grow_def store_ok_def store_content_def new_store_def env_at_def i64_bounds has_flag_def zero_alloc_def realloc_ok_def
        SQLITE_DESERIALIZE_RESIZEABLE_def SQLITE_DESERIALIZE_READONLY_def SQLITE_DESERIALIZE_FREEONCLOSE_def)
  have f: "flat_ops ?ops [] = ([[0, 0, 1, 2]], [0, 0, 0, 1])" "flat_legal (\<lambda>_. in_reach) ?ops []"
    by (simp_all add: file_write_def in_reach_def numeral_eq_Suc)
  have l: "flat_legal (\<lambda>_ n i. int i + int n \<le> 1073741824) ?ops []" by (simp add: file_write_def)
  from memdb_refines_file [OF zero_alloc_ok p(1), of ?ops 1073741824, unfolded p(2), OF f(2)] obtain rc rs q where
    r: "run_file (memdbWrite zero_alloc) (\<lambda>p n i. map_option (\<lambda>(rc, bs). (rc, bs, p)) (memdbRead p n i))
      (\<lambda>p n. Some (memdbTruncate p (int n))) ?ops ?p = Some (rc, rs, q)" "store_ok q"
    "rc = SQLITE_OK \<longrightarrow> (rs, store_content q) = flat_ops ?ops []"
    "can_grow zero_alloc 1073741824 ?p \<and> flat_legal (\<lambda>_ n i. int i + int n \<le> 1073741824) ?ops [] \<longrightarrow> rc = SQLITE_OK"
    by (elim exE conjE) (rule that)
  from r(4) l g have rc: "rc = SQLITE_OK" by blast
  with r(3) f(1) have "(rs, store_content q) = ([[0, 0, 1, 2]], [0, 0, 0, 1])" by (simp only: simp_thms)
  with r(1,2) show ?thesis unfolding rc by blast
qed

text \<open>
  The size limit does not bound the size when the block is already larger: after four bytes were written, which allocates eight, the
  limit is set to four, and a write of four more bytes succeeds.
\<close>

lemma memdb_limit_exceeded:
  assumes "memdbWrite zero_alloc (new_store (env_at 0) 0 None) [1, 2, 3, 4] 0 = Some (SQLITE_OK, p)"
    and "memdbFileControl p SQLITE_FCNTL_SIZE_LIMIT 4 = (SQLITE_OK, lim, q)"
  shows "lim = 4 \<and> ms_szMax q = 4 \<and> (\<exists>r. memdbWrite zero_alloc q [5, 6, 7, 8] 4 = Some (SQLITE_OK, r) \<and> ms_sz r = 8)"
proof -
  let ?p = "\<lparr>ms_sz = 4, ms_szAlloc = 8, ms_szMax = 1073741824, ms_aData = [1, 2, 3, 4] @ replicate 4 0, ms_nMmap = 0, ms_mFlags = 3,
    ms_nRdLock = 0, ms_nWrLock = 0, ms_nRef = 0, ms_zFName = None\<rparr>"
  have "p = ?p" using assms(1) by (simp add: md_eval env_at_def memdb_codes zero_alloc_def [of 8])
  then have "lim = 4" "q = ?p\<lparr>ms_szMax := 4\<rparr>" using assms(2) by (simp_all add: memdbFileControl_def Let_def)
  then show ?thesis by (simp add: md_eval memdb_codes)
qed

end
