(* ===== verification/MemJournal.thy ===== *)
theory MemJournal
  imports ByteFile
begin

text \<open>
  The in-memory rollback journal of SQLite (\<open>memjournal.c\<close>): a file kept as a linked list of chunks of equal size, with a cursor at its end
  and a cursor behind the last read, which is spilled to a real file when it grows past a limit.  The chunks are in an explicit
  heap and the cursors are addresses in it; the real file system is a parameter.

  The theory shows that the list, the cursors and the spilling do not matter to a client: a journal behaves like a plain sequence of bytes
  that is appended to, read anywhere and truncated.  It relies on the contract \<open>byte_file\<close> for the real file and provides the same
  contract.
\<close>

subsection \<open>The journal\<close>

record FileChunk =
  fc_pNext :: "nat option"
  fc_zChunk :: "u8 list"

type_synonym chunks = "nat \<rightharpoonup> FileChunk"

record FilePoint =
  fp_iOffset :: nat
  fp_pChunk :: "nat option"

text \<open>The file system \<open>pVfs\<close> is a parameter of the operations that use it.\<close>

record MemJournal =
  mj_nChunkSize :: nat
  mj_nSpill :: int
  mj_pFirst :: "nat option"
  mj_endpoint :: FilePoint
  mj_readpoint :: FilePoint
  mj_flags :: int
  mj_zJournal :: "cstr option"

text \<open>The search for the chunk of an offset.  The result is \<open>None\<close> when a chunk was freed or the loop does not end.\<close>

partial_function (option) seek_loop :: "chunks \<Rightarrow> nat \<Rightarrow> nat \<Rightarrow> nat option \<Rightarrow> nat \<Rightarrow> nat option option" where
  "seek_loop h nChunk iOfst pChunk iOff =
     (case pChunk of
        None \<Rightarrow> Some None
      | Some a \<Rightarrow>
          if iOff + nChunk \<le> iOfst then
            (case h a of None \<Rightarrow> None | Some k \<Rightarrow> seek_loop h nChunk iOfst (fc_pNext k) (iOff + nChunk))
          else Some (Some a))"

text \<open>The loop that copies out: the bytes, and the chunk the cursor is left in.\<close>

partial_function (option) copy_loop :: "chunks \<Rightarrow> nat \<Rightarrow> nat option \<Rightarrow> int \<Rightarrow> nat \<Rightarrow> (u8 list \<times> nat option) option" where
  "copy_loop h nChunk pChunk nRead iChunkOffset =
     (case pChunk of
        None \<Rightarrow> None
      | Some a \<Rightarrow>
          (case h a of
             None \<Rightarrow> None
           | Some k \<Rightarrow>
               do { bs \<leftarrow> get_bytes (fc_zChunk k) iChunkOffset (nat (min nRead (int nChunk - int iChunkOffset)));
                    let nRead = nRead - (int nChunk - int iChunkOffset);
                    if nRead \<ge> 0 then
                      (case fc_pNext k of
                         None \<Rightarrow> Some (bs, None)
                       | Some b \<Rightarrow>
                           if nRead > 0 then
                             do { r \<leftarrow> copy_loop h nChunk (Some b) nRead 0; Some (bs @ fst r, snd r) }
                           else Some (bs, Some b))
                    else Some (bs, Some a) }))"

definition memjrnlRead :: "chunks \<Rightarrow> MemJournal \<Rightarrow> nat \<Rightarrow> nat \<Rightarrow> (int \<times> u8 list \<times> MemJournal) option" where
  "memjrnlRead h p iAmt iOfst =
     (if iAmt + iOfst > fp_iOffset (mj_endpoint p) then Some (SQLITE_IOERR_SHORT_READ, [], p)
      else do { pChunk \<leftarrow> (if fp_iOffset (mj_readpoint p) \<noteq> iOfst \<or> iOfst = 0
                           then seek_loop h (mj_nChunkSize p) iOfst (mj_pFirst p) 0
                           else Some (fp_pChunk (mj_readpoint p)));
                (bs, pChunk) \<leftarrow> copy_loop h (mj_nChunkSize p) pChunk (int iAmt) (iOfst mod mj_nChunkSize p);
                Some (SQLITE_OK, bs,
                  p\<lparr>mj_readpoint := \<lparr>fp_iOffset = (if pChunk = None then 0 else iOfst + iAmt), fp_pChunk = pChunk\<rparr>\<rparr>) })"

partial_function (option) memjrnlFreeChunks :: "chunks \<Rightarrow> nat option \<Rightarrow> chunks option" where
  "memjrnlFreeChunks h pFirst =
     (case pFirst of
        None \<Rightarrow> Some h
      | Some a \<Rightarrow> (case h a of None \<Rightarrow> None | Some k \<Rightarrow> memjrnlFreeChunks (h(a := None)) (fc_pNext k)))"

text \<open>
  The file system below: open, and the methods of an open file.  A journal handle is either in memory or the handle of a real file; which
  one it is the code reads off the method table \<open>pMethods\<close>.
\<close>

record 'f vfs =
  vf_open :: "cstr option \<Rightarrow> int \<Rightarrow> int \<times> 'f"
  vf_write :: "'f \<Rightarrow> u8 list \<Rightarrow> nat \<Rightarrow> int \<times> 'f"
  vf_read :: "'f \<Rightarrow> nat \<Rightarrow> nat \<Rightarrow> int \<times> u8 list \<times> 'f"
  vf_truncate :: "'f \<Rightarrow> nat \<Rightarrow> int \<times> 'f"

datatype 'f jfile = InMem MemJournal | Real 'f

text \<open>The loop that writes the chunks to the real file; the last one only as far as the journal goes.\<close>

partial_function (option) spill_loop :: "'f vfs \<Rightarrow> chunks \<Rightarrow> nat \<Rightarrow> nat \<Rightarrow> nat option \<Rightarrow> nat \<Rightarrow> 'f \<Rightarrow> (int \<times> 'f) option" where
  "spill_loop V h nChunk iEnd pIter iOff f =
     (case pIter of
        None \<Rightarrow> Some (SQLITE_OK, f)
      | Some a \<Rightarrow>
          (case h a of
             None \<Rightarrow> None
           | Some k \<Rightarrow>
               (let nChunk = (if iOff + nChunk > iEnd then iEnd - iOff else nChunk)
                in do { bs \<leftarrow> get_bytes (fc_zChunk k) 0 nChunk;
                        (case vf_write V f bs iOff of
                           (rc, f) \<Rightarrow> if rc \<noteq> SQLITE_OK then Some (rc, f)
                                      else spill_loop V h nChunk iEnd (fc_pNext k) (iOff + nChunk) f) })))"

definition memjrnlCreateFile :: "'f vfs \<Rightarrow> chunks \<Rightarrow> MemJournal \<Rightarrow> (int \<times> chunks \<times> 'f jfile) option" where
  "memjrnlCreateFile V h p =
     (case vf_open V (mj_zJournal p) (mj_flags p) of
        (rc, f) \<Rightarrow>
          if rc \<noteq> SQLITE_OK then Some (rc, h, InMem p)
          else do { (rc, f) \<leftarrow> spill_loop V h (mj_nChunkSize p) (fp_iOffset (mj_endpoint p)) (mj_pFirst p) 0 f;
                    if rc \<noteq> SQLITE_OK then Some (rc, h, InMem p)
                    else do { h \<leftarrow> memjrnlFreeChunks h (mj_pFirst p); Some (SQLITE_OK, h, Real f) } })"

text \<open>
  The loop that appends.  \<open>al h n\<close> is the address and the contents of the block that \<open>sqlite3_malloc\<close> returns for a chunk of \<open>n\<close> bytes.
  The offset of the call is not used: the code only asserts that it is the end of the journal.
\<close>

partial_function (option) write_loop ::
    "(chunks \<Rightarrow> nat \<Rightarrow> (nat \<times> u8 list) option) \<Rightarrow> chunks \<Rightarrow> MemJournal \<Rightarrow> u8 list \<Rightarrow> (int \<times> chunks \<times> MemJournal) option" where
  "write_loop al h p zWrite =
     (if zWrite = [] then Some (SQLITE_OK, h, p)
      else
        let iChunkOffset = fp_iOffset (mj_endpoint p) mod mj_nChunkSize p;
            iSpace = min (length zWrite) (mj_nChunkSize p - iChunkOffset)
        in do { new \<leftarrow> (if iChunkOffset = 0 then
                          (case al h (mj_nChunkSize p) of
                             None \<Rightarrow> Some None
                           | Some (a, b) \<Rightarrow>
                               (let h = h(a \<mapsto> \<lparr>fc_pNext = None, fc_zChunk = b\<rparr>); e = (mj_endpoint p)\<lparr>fp_pChunk := Some a\<rparr>
                                in case fp_pChunk (mj_endpoint p) of
                                     None \<Rightarrow> Some (Some (h, p\<lparr>mj_pFirst := Some a, mj_endpoint := e\<rparr>))
                                   | Some c \<Rightarrow>
                                       (case h c of
                                          None \<Rightarrow> None
                                        | Some k \<Rightarrow> Some (Some (h(c \<mapsto> k\<lparr>fc_pNext := Some a\<rparr>), p\<lparr>mj_endpoint := e\<rparr>)))))
                        else Some (Some (h, p)));
                (case new of
                   None \<Rightarrow> Some (SQLITE_IOERR_NOMEM, h, p)
                 | Some (h, p) \<Rightarrow>
                     (case fp_pChunk (mj_endpoint p) of
                        None \<Rightarrow> None
                      | Some c \<Rightarrow>
                          (case h c of
                             None \<Rightarrow> None
                           | Some k \<Rightarrow>
                               do { d \<leftarrow> put_bytes (fc_zChunk k) iChunkOffset (take iSpace zWrite);
                                    write_loop al (h(c \<mapsto> k\<lparr>fc_zChunk := d\<rparr>))
                                      (p\<lparr>mj_endpoint := (mj_endpoint p)\<lparr>fp_iOffset := fp_iOffset (mj_endpoint p) + iSpace\<rparr>\<rparr>)
                                      (drop iSpace zWrite) }))) })"

definition memjrnlWrite :: "(chunks \<Rightarrow> nat \<Rightarrow> (nat \<times> u8 list) option) \<Rightarrow> 'f vfs \<Rightarrow> chunks \<Rightarrow> MemJournal \<Rightarrow> u8 list \<Rightarrow> nat
    \<Rightarrow> (int \<times> chunks \<times> 'f jfile) option" where
  "memjrnlWrite al V h p zBuf iOfst =
     (if mj_nSpill p > 0 \<and> int (length zBuf + iOfst) > mj_nSpill p then
        do { (rc, h, j) \<leftarrow> memjrnlCreateFile V h p;
             (case j of
                Real f \<Rightarrow> if rc = SQLITE_OK then (case vf_write V f zBuf iOfst of (rc, f) \<Rightarrow> Some (rc, h, Real f)) else Some (rc, h, j)
              | InMem p \<Rightarrow> Some (rc, h, j)) }
      else do { (rc, h, p) \<leftarrow> write_loop al h p zBuf; Some (rc, h, InMem p) })"

text \<open>The loop of the truncation: the chunk that holds the last byte that stays.\<close>

partial_function (option) trunc_loop :: "chunks \<Rightarrow> nat \<Rightarrow> nat \<Rightarrow> nat option \<Rightarrow> nat \<Rightarrow> nat option option" where
  "trunc_loop h nChunk nByte pIter iOff =
     (case pIter of
        None \<Rightarrow> Some None
      | Some a \<Rightarrow>
          if iOff < nByte then
            (case h a of None \<Rightarrow> None | Some k \<Rightarrow> trunc_loop h nChunk nByte (fc_pNext k) (iOff + nChunk))
          else Some (Some a))"

definition memjrnlTruncate :: "chunks \<Rightarrow> MemJournal \<Rightarrow> nat \<Rightarrow> (int \<times> chunks \<times> MemJournal) option" where
  "memjrnlTruncate h p nByte =
     (if nByte < fp_iOffset (mj_endpoint p) then
        do { (h, p, pIter) \<leftarrow>
               (if nByte = 0 then do { h \<leftarrow> memjrnlFreeChunks h (mj_pFirst p); Some (h, p\<lparr>mj_pFirst := None\<rparr>, None) }
                else do { pIter \<leftarrow> trunc_loop h (mj_nChunkSize p) nByte (mj_pFirst p) (mj_nChunkSize p);
                          (case pIter of
                             None \<Rightarrow> Some (h, p, None)
                           | Some a \<Rightarrow>
                               (case h a of
                                  None \<Rightarrow> None
                                | Some k \<Rightarrow>
                                    do { h \<leftarrow> memjrnlFreeChunks h (fc_pNext k);
                                         (case h a of None \<Rightarrow> None | Some k \<Rightarrow> Some (h(a \<mapsto> k\<lparr>fc_pNext := None\<rparr>), p, Some a)) })) });
             Some (SQLITE_OK, h, p\<lparr>mj_endpoint := \<lparr>fp_iOffset = nByte, fp_pChunk = pIter\<rparr>,
                                   mj_readpoint := \<lparr>fp_iOffset = 0, fp_pChunk = None\<rparr>\<rparr>) }
      else Some (SQLITE_OK, h, p))"

definition memjrnlClose :: "chunks \<Rightarrow> MemJournal \<Rightarrow> (int \<times> chunks) option" where
  "memjrnlClose h p = do { h \<leftarrow> memjrnlFreeChunks h (mj_pFirst p); Some (SQLITE_OK, h) }"

definition memjrnlFileSize :: "MemJournal \<Rightarrow> int \<times> nat" where
  "memjrnlFileSize p = (SQLITE_OK, fp_iOffset (mj_endpoint p))"

text \<open>The size of a chunk is the limit for spilling or, without one, such that a \<open>FileChunk\<close> (with an 8-byte pointer) has 1024 bytes.\<close>

definition sqlite3JournalOpen :: "'f vfs \<Rightarrow> cstr option \<Rightarrow> int \<Rightarrow> int \<Rightarrow> int \<times> 'f jfile" where
  "sqlite3JournalOpen V zName flags nSpill =
     (if nSpill = 0 then (case vf_open V zName flags of (rc, f) \<Rightarrow> (rc, Real f))
      else (SQLITE_OK,
        InMem \<lparr>mj_nChunkSize = (if nSpill > 0 then nat nSpill else 8 + 1024 - 16), mj_nSpill = nSpill, mj_pFirst = None,
             mj_endpoint = \<lparr>fp_iOffset = 0, fp_pChunk = None\<rparr>, mj_readpoint = \<lparr>fp_iOffset = 0, fp_pChunk = None\<rparr>,
             mj_flags = flags, mj_zJournal = zName\<rparr>))"

definition sqlite3MemJournalOpen :: "'f vfs \<Rightarrow> 'f jfile" where
  "sqlite3MemJournalOpen V = snd (sqlite3JournalOpen V None 0 (- 1))"

fun sqlite3JournalIsInMemory :: "'f jfile \<Rightarrow> bool" where
  "sqlite3JournalIsInMemory (InMem p) = True"
| "sqlite3JournalIsInMemory (Real f) = False"

text \<open>The calls through the method table of the handle: \<open>sqlite3OsWrite\<close>, \<open>sqlite3OsRead\<close> and \<open>sqlite3OsTruncate\<close>.\<close>

type_synonym 'f jstate = "chunks \<times> 'f jfile"

fun osWrite :: "(chunks \<Rightarrow> nat \<Rightarrow> (nat \<times> u8 list) option) \<Rightarrow> 'f vfs \<Rightarrow> 'f jstate \<Rightarrow> u8 list \<Rightarrow> nat \<Rightarrow> (int \<times> 'f jstate) option" where
  "osWrite al V (h, InMem p) bs i = memjrnlWrite al V h p bs i"
| "osWrite al V (h, Real f) bs i = (case vf_write V f bs i of (rc, f) \<Rightarrow> Some (rc, h, Real f))"

fun osRead :: "'f vfs \<Rightarrow> 'f jstate \<Rightarrow> nat \<Rightarrow> nat \<Rightarrow> (int \<times> u8 list \<times> 'f jstate) option" where
  "osRead V (h, InMem p) n i = do { (rc, bs, p) \<leftarrow> memjrnlRead h p n i; Some (rc, bs, h, InMem p) }"
| "osRead V (h, Real f) n i = (case vf_read V f n i of (rc, bs, f) \<Rightarrow> Some (rc, bs, h, Real f))"

fun osTruncate :: "'f vfs \<Rightarrow> 'f jstate \<Rightarrow> nat \<Rightarrow> (int \<times> 'f jstate) option" where
  "osTruncate V (h, InMem p) n = do { (rc, h, p) \<leftarrow> memjrnlTruncate h p n; Some (rc, h, InMem p) }"
| "osTruncate V (h, Real f) n = (case vf_truncate V f n of (rc, f) \<Rightarrow> Some (rc, h, Real f))"

subsection \<open>The list of chunks\<close>

fun chain :: "chunks \<Rightarrow> nat option \<Rightarrow> nat list \<Rightarrow> bool" where
  "chain h q [] \<longleftrightarrow> q = None"
| "chain h q (a # as) \<longleftrightarrow> q = Some a \<and> (\<exists>k. h a = Some k \<and> chain h (fc_pNext k) as)"

definition chunk :: "chunks \<Rightarrow> nat \<Rightarrow> u8 list" where
  "chunk h a = (case h a of None \<Rightarrow> [] | Some k \<Rightarrow> fc_zChunk k)"

definition data :: "chunks \<Rightarrow> nat list \<Rightarrow> u8 list" where
  "data h as = concat (map (chunk h) as)"

definition full :: "chunks \<Rightarrow> nat \<Rightarrow> nat list \<Rightarrow> bool" where
  "full h n as \<longleftrightarrow> (\<forall>a \<in> set as. length (chunk h a) = n)"

lemma data_simps [simp]: "data h [] = []" "data h (a # as) = chunk h a @ data h as" "data h (as @ bs) = data h as @ data h bs"
  by (simp_all add: data_def)

lemma full_simps [simp]: "full h n []" "full h n (a # as) \<longleftrightarrow> length (chunk h a) = n \<and> full h n as"
  "full h n (as @ bs) \<longleftrightarrow> full h n as \<and> full h n bs"
  by (auto simp: full_def)

lemma chunk_Some [simp]: "h a = Some k \<Longrightarrow> chunk h a = fc_zChunk k"
  by (simp add: chunk_def)

lemma length_data: "full h n as \<Longrightarrow> length (data h as) = length as * n"
  by (induction as) simp_all

lemma chain_drop: "chain h q as \<Longrightarrow> j < length as \<Longrightarrow> chain h (Some (as ! j)) (drop j as)"
proof (induction as arbitrary: q j)
  case (Cons a as)
  then show ?case by (cases j) auto
qed simp

lemma full_drop: "full h n as \<Longrightarrow> full h n (drop j as)"
  by (auto simp: full_def dest: in_set_dropD)

lemma data_drop: "full h n as \<Longrightarrow> data h (drop j as) = drop (j * n) (data h as)"
proof (induction as arbitrary: j)
  case (Cons a as)
  then show ?case by (cases j) simp_all
qed simp

lemma data_take: "full h n as \<Longrightarrow> data h (take j as) = take (j * n) (data h as)"
proof (induction as arbitrary: j)
  case (Cons a as)
  then show ?case by (cases j) simp_all
qed simp

text \<open>The chunk of an offset.\<close>

definition chunk_at :: "nat list \<Rightarrow> nat \<Rightarrow> nat option" where
  "chunk_at as j = (if j < length as then Some (as ! j) else None)"

lemma chunk_at_Cons [simp]: "chunk_at (a # as) 0 = Some a" "chunk_at (a # as) (Suc j) = chunk_at as j" "chunk_at [] j = None"
  by (simp_all add: chunk_at_def)

lemma chunk_at_drop: "chunk_at (drop i as) j = chunk_at as (i + j)"
  by (auto simp: chunk_at_def)

lemma chain_first: "chain h q as \<Longrightarrow> q = chunk_at as 0"
  by (cases as) auto

lemma seek_chain:
  assumes "chain h q as" "0 < n" "iOff \<le> i"
  shows "seek_loop h n i q iOff = Some (chunk_at as ((i - iOff) div n))"
  using assms(1,3)
proof (induction as arbitrary: q iOff)
  case Nil
  then show ?case by (simp add: seek_loop.simps)
next
  case (Cons a as)
  then obtain k where k: "q = Some a" "h a = Some k" "chain h (fc_pNext k) as" by auto
  show ?case
  proof (cases "iOff + n \<le> i")
    case True
    then have "i - iOff = (i - (iOff + n)) + n" by simp
    then have "(i - iOff) div n = Suc ((i - (iOff + n)) div n)" using assms(2) by (metis div_add_self2 Suc_eq_plus1 neq0_conv)
    with True k Cons.IH [OF k(3) True] show ?thesis by (simp add: seek_loop.simps [of h n i "Some a"])
  next
    case False
    then have "(i - iOff) div n = 0" using Cons.prems(2) by simp
    with False k show ?thesis by (simp add: seek_loop.simps [of h n i "Some a"])
  qed
qed

lemma copy_chain:
  assumes "chain h q as" "full h n as" "co < n" "0 < m" "co + m \<le> length as * n"
  shows "copy_loop h n q (int m) co = Some (take m (drop co (data h as)), chunk_at as ((co + m) div n))"
  using assms
proof (induction as arbitrary: q co m)
  case (Cons a as)
  then obtain k where k: "q = Some a" "h a = Some k" "chain h (fc_pNext k) as" "length (fc_zChunk k) = n" by auto
  have g: "get_bytes (fc_zChunk k) co (nat (min (int m) (int n - int co))) = Some (take (min m (n - co)) (drop co (fc_zChunk k)))"
  proof -
    have "nat (min (int m) (int n - int co)) = min m (n - co)" using Cons.prems(3) by (auto simp: min_def nat_diff_distrib')
    then show ?thesis using k(4) Cons.prems(3) by (simp add: get_bytes_def)
  qed
  have t: "take m (drop co (fc_zChunk k @ data h as)) = take (min m (n - co)) (drop co (fc_zChunk k)) @ take (m - (n - co)) (data h as)"
    using k(4) Cons.prems(3) by (auto simp: min_def)
  consider "m < n - co" | "m = n - co" | "n - co < m" by linarith
  then show ?case
  proof cases
    case 1
    then have "(co + m) div n = 0" "\<not> int n - int co \<le> int m" by auto
    with 1 k g t show ?thesis by (simp add: copy_loop.simps [of h n "Some a"] Let_def)
  next
    case 2
    then have e: "co + m = n" using Cons.prems(3) by simp
    then have d: "(co + m) div n = 1" using Cons.prems(3) by simp
    with 2 k g t chain_first [OF k(3)] Cons.prems(3) show ?thesis
      by (auto simp: copy_loop.simps [of h n "Some a"] Let_def split: option.splits)
  next
    case 3
    have e: "co + m = (m - (n - co)) + n" using 3 Cons.prems(3) by simp
    then have d: "(co + m) div n = Suc ((m - (n - co)) div n)" using Cons.prems(3) by (metis div_add_self2 Suc_eq_plus1 gr_implies_not0)
    have b: "m - (n - co) \<le> length as * n" using e Cons.prems(5) by simp
    then obtain c where c: "fc_pNext k = Some c" using k(3) 3 by (cases as) auto
    have i: "int m - (int n - int co) = int (m - (n - co))" using 3 Cons.prems(3) by simp
    have "copy_loop h n (Some c) (int m - (int n - int co)) 0 = Some (take (m - (n - co)) (data h as), chunk_at as ((m - (n - co)) div n))"
      unfolding i using Cons.IH [of "Some c" 0 "m - (n - co)"] k(3) c 3 b Cons.prems(2,3) by simp
    moreover have "int n - int co < int m" using 3 Cons.prems(3) by linarith
    ultimately show ?thesis using 3 k g t c d Cons.prems(3) by (simp add: copy_loop.simps [of h n "Some a"] Let_def)
  qed
qed simp

subsection \<open>The representation\<close>

text \<open>
  A journal with the chunks \<open>as\<close>: they are full blocks, all but the last in use, the end cursor is in the last chunk, and the read
  cursor is either unset or in the chunk of its offset.
\<close>

definition jrep :: "chunks \<Rightarrow> MemJournal \<Rightarrow> nat list \<Rightarrow> bool" where
  "jrep h p as \<longleftrightarrow> chain h (mj_pFirst p) as \<and> distinct as \<and> full h (mj_nChunkSize p) as \<and> 0 < mj_nChunkSize p
    \<and> fp_iOffset (mj_endpoint p) \<le> length as * mj_nChunkSize p \<and> length as * mj_nChunkSize p < fp_iOffset (mj_endpoint p) + mj_nChunkSize p
    \<and> fp_pChunk (mj_endpoint p) = (if as = [] then None else Some (last as))
    \<and> (fp_iOffset (mj_readpoint p) = 0
       \<or> fp_pChunk (mj_readpoint p) = chunk_at as (fp_iOffset (mj_readpoint p) div mj_nChunkSize p)
         \<and> fp_iOffset (mj_readpoint p) div mj_nChunkSize p < length as)"

text \<open>The number of chunks follows from the size, so the contents can be read off the heap.\<close>

fun walk :: "nat \<Rightarrow> chunks \<Rightarrow> nat option \<Rightarrow> nat list" where
  "walk 0 h q = []"
| "walk (Suc n) h q = (case q of None \<Rightarrow> [] | Some a \<Rightarrow> (case h a of None \<Rightarrow> [] | Some k \<Rightarrow> a # walk n h (fc_pNext k)))"

definition jcontent :: "chunks \<Rightarrow> MemJournal \<Rightarrow> u8 list" where
  "jcontent h p =
     take (fp_iOffset (mj_endpoint p))
       (data h (walk ((fp_iOffset (mj_endpoint p) + mj_nChunkSize p - 1) div mj_nChunkSize p) h (mj_pFirst p)))"

lemma walk_chain: "chain h q as \<Longrightarrow> walk (length as) h q = as"
  by (induction as arbitrary: q) auto

lemma chunk_count:
  assumes "0 < n" "e \<le> l * n" "l * n < e + n"
  shows "(e + n - Suc 0) div n = (l :: nat)"
proof (rule div_nat_eqI)
  show "n * l \<le> e + n - Suc 0" "e + n - Suc 0 < n * Suc l" using assms by (auto simp: mult.commute)
qed

lemma jcontent_rep: "jrep h p as \<Longrightarrow> jcontent h p = take (fp_iOffset (mj_endpoint p)) (data h as)"
  using walk_chain [of h "mj_pFirst p" as] chunk_count [of "mj_nChunkSize p" "fp_iOffset (mj_endpoint p)" "length as"]
  by (simp add: jrep_def jcontent_def)

lemma length_jcontent: "jrep h p as \<Longrightarrow> length (jcontent h p) = fp_iOffset (mj_endpoint p)"
  using length_data [of h "mj_nChunkSize p" as] by (simp add: jcontent_rep min_absorb2) (simp add: jrep_def)

definition jok :: "chunks \<Rightarrow> MemJournal \<Rightarrow> bool" where
  "jok h p \<longleftrightarrow> (\<exists>as. jrep h p as)"

lemma jokE:
  assumes "jok h p"
  obtains as where "jrep h p as" "jcontent h p = take (fp_iOffset (mj_endpoint p)) (data h as)"
    "length (jcontent h p) = fp_iOffset (mj_endpoint p)"
  using assms jcontent_rep length_jcontent unfolding jok_def by blast

text \<open>Reading.\<close>

lemma memjrnlRead_ok:
  assumes "jok h p" "0 < n" "i + n \<le> length (jcontent h p)"
  shows "\<exists>q. memjrnlRead h p n i = Some (SQLITE_OK, take n (drop i (jcontent h p)), q) \<and> jok h q \<and> jcontent h q = jcontent h p
    \<and> mj_nSpill q = mj_nSpill p"
proof -
  from assms(1) obtain as where r: "jrep h p as" "jcontent h p = take (fp_iOffset (mj_endpoint p)) (data h as)"
    "length (jcontent h p) = fp_iOffset (mj_endpoint p)" by (rule jokE)
  let ?c = "mj_nChunkSize p" and ?e = "fp_iOffset (mj_endpoint p)"
  have rep: "chain h (mj_pFirst p) as" "full h ?c as" "0 < ?c" "?e \<le> length as * ?c" using r(1) by (simp_all add: jrep_def)
  have ie: "i + n \<le> ?e" using assms(3) r(3) by simp
  then have "i < length as * ?c" using rep(4) assms(2) by linarith
  then have j: "i div ?c < length as" using rep(3) by (simp add: less_mult_imp_div_less)
  have m: "i mod ?c + n \<le> length (drop (i div ?c) as) * ?c"
  proof -
    have "i + n \<le> length as * ?c" using ie rep(4) by simp
    moreover have "i div ?c * ?c + i mod ?c = i" by simp
    ultimately show ?thesis unfolding length_drop diff_mult_distrib by linarith
  qed
  have s: "(if fp_iOffset (mj_readpoint p) \<noteq> i \<or> i = 0 then seek_loop h ?c i (mj_pFirst p) 0 else Some (fp_pChunk (mj_readpoint p)))
      = Some (Some (as ! (i div ?c)))"
  proof (cases "fp_iOffset (mj_readpoint p) \<noteq> i \<or> i = 0")
    case True
    then show ?thesis using seek_chain [OF rep(1,3), of 0 i] j by (simp add: chunk_at_def)
  next
    case False
    then show ?thesis using r(1) j by (simp add: chunk_at_def jrep_def)
  qed
  have d: "take n (drop (i mod ?c) (data h (drop (i div ?c) as))) = take n (drop i (jcontent h p))"
  proof -
    have "take n (drop i (jcontent h p)) = take n (drop i (data h as))" using ie r(2) by (simp add: take_drop [symmetric] drop_take min_def)
    then show ?thesis by (simp add: data_drop [OF rep(2)])
  qed
  have q: "(i mod ?c + n) div ?c + i div ?c = (i + n) div ?c"
  proof -
    have "i + n = (i mod ?c + n) + i div ?c * ?c" using div_mult_mod_eq [of i ?c] by linarith
    then show ?thesis using rep(3) div_mult_self1 [of ?c "i mod ?c + n" "i div ?c"] by simp
  qed
  let ?b = "chunk_at as ((i + n) div ?c)"
  let ?q = "p\<lparr>mj_readpoint := \<lparr>fp_iOffset = (if ?b = None then 0 else i + n), fp_pChunk = ?b\<rparr>\<rparr>"
  have "copy_loop h ?c (Some (as ! (i div ?c))) (int n) (i mod ?c) = Some (take n (drop i (jcontent h p)), ?b)"
    using copy_chain [OF chain_drop [OF rep(1) j] full_drop [OF rep(2)] _ assms(2) m] rep(3) d q by (simp add: chunk_at_drop add.commute)
  then have "memjrnlRead h p n i = Some (SQLITE_OK, take n (drop i (jcontent h p)), ?q)"
    using ie s by (simp add: memjrnlRead_def add.commute)
  moreover have "jrep h ?q as" using r(1) by (auto simp: jrep_def chunk_at_def)
  ultimately show ?thesis using jcontent_rep [of h ?q as] r(2) by (auto simp: jok_def)
qed

text \<open>Freeing chunks, and keeping the others.\<close>

lemma chain_frame: "(\<And>a. a \<in> set as \<Longrightarrow> h' a = h a) \<Longrightarrow> chain h' q as = chain h q as"
proof (induction as arbitrary: q)
  case (Cons a as)
  then have "h' a = h a" "\<And>q. chain h' q as = chain h q as" by simp_all
  then show ?case by simp
qed simp

lemma chunk_frame: "h' a = h a \<Longrightarrow> chunk h' a = chunk h a"
  by (simp add: chunk_def)

lemma data_cong: "(\<And>a. a \<in> set as \<Longrightarrow> chunk h' a = chunk h a) \<Longrightarrow> data h' as = data h as"
  unfolding data_def by (metis map_cong)

lemma full_cong: "(\<And>a. a \<in> set as \<Longrightarrow> chunk h' a = chunk h a) \<Longrightarrow> full h' n as = full h n as"
  by (simp add: full_def)

lemma free_chain: "chain h q as \<Longrightarrow> distinct as \<Longrightarrow> memjrnlFreeChunks h q = Some (\<lambda>a. if a \<in> set as then None else h a)"
proof (induction as arbitrary: h q)
  case Nil
  then show ?case by (simp add: memjrnlFreeChunks.simps)
next
  case (Cons a as)
  then obtain k where k: "q = Some a" "h a = Some k" "chain h (fc_pNext k) as" by auto
  have "chain (h(a := None)) (fc_pNext k) as" using k(3) Cons.prems(2) by (subst chain_frame) auto
  moreover have "(\<lambda>b. if b \<in> set (a # as) then None else h b) = (\<lambda>b. if b \<in> set as then None else (h(a := None)) b)" by auto
  moreover have "memjrnlFreeChunks h q = memjrnlFreeChunks (h(a := None)) (fc_pNext k)"
    using k by (simp add: memjrnlFreeChunks.simps [of h "Some a"])
  ultimately show ?case using Cons.IH Cons.prems(2) by simp
qed

lemma trunc_chain:
  assumes "chain h q as" "0 < n"
  shows "trunc_loop h n m q iOff = Some (chunk_at as ((m + n - Suc iOff) div n))"
  using assms(1)
proof (induction as arbitrary: q iOff)
  case Nil
  then show ?case by (simp add: trunc_loop.simps)
next
  case (Cons a as)
  then obtain k where k: "q = Some a" "h a = Some k" "chain h (fc_pNext k) as" by auto
  show ?case
  proof (cases "iOff < m")
    case True
    then have "m + n - Suc iOff = (m + n - Suc (iOff + n)) + n" by simp
    then have "(m + n - Suc iOff) div n = Suc ((m + n - Suc (iOff + n)) div n)" using assms(2) by (metis div_add_self2 Suc_eq_plus1 neq0_conv)
    with True k Cons.IH [OF k(3), of "iOff + n"] show ?thesis by (simp add: trunc_loop.simps [of h n m "Some a"])
  next
    case False
    then have "(m + n - Suc iOff) div n = 0" using assms(2) by simp
    with False k show ?thesis by (simp add: trunc_loop.simps [of h n m "Some a"])
  qed
qed

lemma chain_cut:
  assumes "chain h q as" "distinct as" "j < length as" "h (as ! j) = Some k"
    "h' (as ! j) = Some (k\<lparr>fc_pNext := None\<rparr>)" "\<And>a. a \<in> set (take j as) \<Longrightarrow> h' a = h a"
  shows "chain h' q (take (Suc j) as)"
  using assms
proof (induction as arbitrary: q j)
  case (Cons a as)
  show ?case
  proof (cases j)
    case 0
    then show ?thesis using Cons.prems by simp
  next
    case (Suc i)
    then have "h' a = h a" using Cons.prems(6) [of a] by simp
    then show ?thesis using Suc Cons.prems Cons.IH [of _ i] by auto
  qed
qed simp

text \<open>Truncating.\<close>

lemma memjrnlTruncate_ok:
  assumes "jok h p" "m \<le> length (jcontent h p)"
  shows "\<exists>h' q. memjrnlTruncate h p m = Some (SQLITE_OK, h', q) \<and> jok h' q \<and> jcontent h' q = take m (jcontent h p)
    \<and> mj_nSpill q = mj_nSpill p"
proof -
  from assms(1) obtain as where r: "jrep h p as" "jcontent h p = take (fp_iOffset (mj_endpoint p)) (data h as)"
    "length (jcontent h p) = fp_iOffset (mj_endpoint p)" by (rule jokE)
  let ?c = "mj_nChunkSize p" and ?e = "fp_iOffset (mj_endpoint p)"
  have rep: "chain h (mj_pFirst p) as" "distinct as" "full h ?c as" "0 < ?c" "?e \<le> length as * ?c"
    using r(1) by (simp_all add: jrep_def)
  consider "m = ?e" | "m < ?e" "m = 0" | "m < ?e" "0 < m" using assms(2) r(3) by linarith
  then show ?thesis
  proof cases
    case 1
    then show ?thesis using assms(1) r(3) by (simp add: memjrnlTruncate_def)
  next
    case 2
    let ?q = "p\<lparr>mj_pFirst := None, mj_endpoint := \<lparr>fp_iOffset = 0, fp_pChunk = None\<rparr>, mj_readpoint := \<lparr>fp_iOffset = 0, fp_pChunk = None\<rparr>\<rparr>"
    have "jrep h' ?q []" for h' using rep(4) by (simp add: jrep_def)
    then show ?thesis using 2 free_chain [OF rep(1,2)] jcontent_rep [of _ ?q "[]"] by (auto simp: memjrnlTruncate_def jok_def)
  next
    case 3
    define j where "j = (m - 1) div ?c"
    have jl: "j < length as" using 3 rep(4,5) unfolding j_def by (intro less_mult_imp_div_less) linarith
    have jm: "m \<le> Suc j * ?c" "j * ?c < m"
    proof -
      have "(m - 1) div ?c * ?c + (m - 1) mod ?c = m - 1" "(m - 1) mod ?c < ?c" using rep(4) by simp_all
      then show "m \<le> Suc j * ?c" "j * ?c < m" unfolding j_def mult_Suc using 3 by linarith+
    qed
    let ?a = "as ! j"
    have ch: "chain h (Some ?a) (drop j as)" by (rule chain_drop [OF rep(1) jl])
    then obtain k where k: "h ?a = Some k" "chain h (fc_pNext k) (drop (Suc j) as)" using jl by (auto simp: Cons_nth_drop_Suc [symmetric])
    have "distinct ((take j as @ [?a]) @ drop (Suc j) as)" using rep(2) jl by (metis append_take_drop_id take_Suc_conv_app_nth)
    then have dis: "distinct (drop (Suc j) as)" "?a \<notin> set (drop (Suc j) as)" "set (take (Suc j) as) \<inter> set (drop (Suc j) as) = {}"
      "?a \<notin> set (take j as)"
      using jl by (auto simp: take_Suc_conv_app_nth)
    let ?h = "\<lambda>a. if a \<in> set (drop (Suc j) as) then None else h a"
    let ?h' = "?h(?a \<mapsto> k\<lparr>fc_pNext := None\<rparr>)"
    let ?q = "p\<lparr>mj_endpoint := \<lparr>fp_iOffset = m, fp_pChunk = Some ?a\<rparr>, mj_readpoint := \<lparr>fp_iOffset = 0, fp_pChunk = None\<rparr>\<rparr>"
    have "memjrnlTruncate h p m = Some (SQLITE_OK, ?h', ?q)"
      using 3 trunc_chain [OF rep(1,4), of m ?c] free_chain [OF k(2) dis(1)] jl k(1) dis(2) unfolding j_def
      by (simp add: memjrnlTruncate_def chunk_at_def)
    moreover have same: "chunk ?h' b = chunk h b" if "b \<in> set (take (Suc j) as)" for b
      using that dis(3) k(1) by (auto simp: chunk_def)
    have rep': "jrep ?h' ?q (take (Suc j) as)"
    proof -
      have "?h' b = h b" if "b \<in> set (take j as)" for b using that dis(3,4) jl by (auto simp: take_Suc_conv_app_nth)
      then have "chain ?h' (mj_pFirst p) (take (Suc j) as)" by (intro chain_cut [OF rep(1,2) jl k(1)]) simp_all
      moreover have "full ?h' ?c (take (Suc j) as)" using rep(3) same by (auto simp: full_def dest: in_set_takeD)
      moreover have "last (take (Suc j) as) = ?a" using jl by (simp add: take_Suc_conv_app_nth)
      moreover have "min (length as) (Suc j) = Suc j" "as \<noteq> []" using jl by auto
      ultimately show ?thesis using rep(2,4) jm by (simp add: jrep_def)
    qed
    moreover have "jcontent ?h' ?q = take m (jcontent h p)"
    proof -
      have "data ?h' (take (Suc j) as) = take (Suc j * ?c) (data h as)" using data_cong [of "take (Suc j) as" ?h' h] same data_take [OF rep(3)] by simp
      then show ?thesis using jcontent_rep [OF rep'] r(2) 3 jm(1) by (simp add: min_def)
    qed
    ultimately show ?thesis by (auto simp: jok_def)
  qed
qed

text \<open>Appending.\<close>

definition jalloc_ok :: "(chunks \<Rightarrow> nat \<Rightarrow> (nat \<times> u8 list) option) \<Rightarrow> bool" where
  "jalloc_ok al \<longleftrightarrow> (\<forall>h n a b. al h n = Some (a, b) \<longrightarrow> h a = None \<and> length b = n)"

definition jalloc_total :: "(chunks \<Rightarrow> nat \<Rightarrow> (nat \<times> u8 list) option) \<Rightarrow> bool" where
  "jalloc_total al \<longleftrightarrow> (\<forall>h n. al h n \<noteq> None)"

text \<open>A journal with room at offset \<open>co\<close> of its last chunk.\<close>

definition jroom :: "chunks \<Rightarrow> MemJournal \<Rightarrow> nat list \<Rightarrow> nat \<Rightarrow> nat \<Rightarrow> bool" where
  "jroom h p as c co \<longleftrightarrow> chain h (mj_pFirst p) (as @ [c]) \<and> distinct (as @ [c]) \<and> full h (mj_nChunkSize p) (as @ [c])
    \<and> fp_iOffset (mj_endpoint p) = length as * mj_nChunkSize p + co \<and> co < mj_nChunkSize p
    \<and> fp_pChunk (mj_endpoint p) = Some c
    \<and> (fp_iOffset (mj_readpoint p) = 0
       \<or> fp_pChunk (mj_readpoint p) = chunk_at (as @ [c]) (fp_iOffset (mj_readpoint p) div mj_nChunkSize p)
         \<and> fp_iOffset (mj_readpoint p) div mj_nChunkSize p < Suc (length as))"

lemma chain_Some: "chain h q as \<Longrightarrow> a \<in> set as \<Longrightarrow> \<exists>k. h a = Some k"
  by (induction as arbitrary: q) auto

lemma chain_upd_chunk: "h c = Some k \<Longrightarrow> chain (h(c \<mapsto> k\<lparr>fc_zChunk := d\<rparr>)) q as = chain h q as"
  by (induction as arbitrary: q) auto

lemma chain_snoc:
  "chain h q (as @ [c]) \<Longrightarrow> distinct (as @ [c]) \<Longrightarrow> h c = Some k \<Longrightarrow> a \<notin> set (as @ [c]) \<Longrightarrow>
    chain (h(a \<mapsto> \<lparr>fc_pNext = None, fc_zChunk = b\<rparr>, c \<mapsto> k\<lparr>fc_pNext := Some a\<rparr>)) q ((as @ [c]) @ [a])"
  by (induction as arbitrary: q) auto

lemma put_room:
  assumes "jroom h p as c co" "0 < length bs" "co + length bs \<le> mj_nChunkSize p"
  shows "\<exists>k d. h c = Some k \<and> put_bytes (fc_zChunk k) co bs = Some d
    \<and> jrep (h(c \<mapsto> k\<lparr>fc_zChunk := d\<rparr>))
        (p\<lparr>mj_endpoint := (mj_endpoint p)\<lparr>fp_iOffset := fp_iOffset (mj_endpoint p) + length bs\<rparr>\<rparr>) (as @ [c])
    \<and> jcontent (h(c \<mapsto> k\<lparr>fc_zChunk := d\<rparr>))
        (p\<lparr>mj_endpoint := (mj_endpoint p)\<lparr>fp_iOffset := fp_iOffset (mj_endpoint p) + length bs\<rparr>\<rparr>)
      = take (fp_iOffset (mj_endpoint p)) (data h (as @ [c])) @ bs"
proof -
  note r = assms(1) [unfolded jroom_def]
  obtain k where k: "h c = Some k" using r chain_Some [of h "mj_pFirst p" "as @ [c]" c] by auto
  let ?n = "mj_nChunkSize p"
  have l: "length (fc_zChunk k) = ?n" using r k by simp
  define d where "d = take co (fc_zChunk k) @ bs @ drop (co + length bs) (fc_zChunk k)"
  have d: "put_bytes (fc_zChunk k) co bs = Some d" "length d = ?n" using l assms(3) by (simp_all add: put_bytes_def d_def)
  let ?h = "h(c \<mapsto> k\<lparr>fc_zChunk := d\<rparr>)"
  let ?p = "p\<lparr>mj_endpoint := (mj_endpoint p)\<lparr>fp_iOffset := fp_iOffset (mj_endpoint p) + length bs\<rparr>\<rparr>"
  have same: "chunk ?h b = chunk h b" if "b \<in> set as" for b using that r by (auto simp: chunk_def)
  then have "full ?h ?n as" "data ?h as = data h as" using r full_cong [of as ?h h] data_cong [of as ?h h] by simp_all
  moreover have "chunk ?h c = d" by (simp add: chunk_def)
  moreover have "length (data h as) = length as * ?n" using r by (intro length_data) simp
  moreover have n: "0 < ?n" using r by (metis gr_zeroI not_less_zero)
  moreover have j: "jrep ?h ?p (as @ [c])"
    using r assms(2,3) d(2) n calculation(1,3) chain_upd_chunk [of h c k, OF k] by (auto simp: jrep_def)
  ultimately have "jcontent ?h ?p = take (fp_iOffset (mj_endpoint p)) (data h (as @ [c])) @ bs"
    using jcontent_rep [OF j] r assms(3) l k by (simp add: d_def)
  with k d(1) j show ?thesis by blast
qed

lemma room_old:
  assumes "jrep h p as" "fp_iOffset (mj_endpoint p) mod mj_nChunkSize p \<noteq> 0"
  shows "\<exists>bs c. as = bs @ [c] \<and> jroom h p bs c (fp_iOffset (mj_endpoint p) mod mj_nChunkSize p)"
proof -
  let ?n = "mj_nChunkSize p" and ?e = "fp_iOffset (mj_endpoint p)"
  note r = assms(1) [unfolded jrep_def]
  have "as \<noteq> []" using r assms(2) by auto
  then obtain bs c where as: "as = bs @ [c]" by (metis append_butlast_last_id)
  have "?e < Suc (length bs) * ?n"
    using r assms(2) as by (metis length_append_singleton mod_mult_self2_is_0 nat_less_le)
  moreover have "length bs * ?n < ?e" using r as by simp
  ultimately have "?e div ?n = length bs" by (intro div_nat_eqI) (simp_all add: mult.commute)
  then have "?e = length bs * ?n + ?e mod ?n" by (metis div_mult_mod_eq)
  then show ?thesis using r as by (auto simp: jroom_def)
qed

text \<open>The first part of a round of the loop: a new chunk when the last one is full.\<close>

lemma room_new:
  assumes "jrep h p as" "fp_iOffset (mj_endpoint p) mod mj_nChunkSize p = 0" "h a = None" "length b = mj_nChunkSize p"
  defines "h1 \<equiv> h(a \<mapsto> \<lparr>fc_pNext = None, fc_zChunk = b\<rparr>)"
  shows "as = [] \<Longrightarrow> fp_pChunk (mj_endpoint p) = None
      \<and> jroom h1 (p\<lparr>mj_pFirst := Some a, mj_endpoint := (mj_endpoint p)\<lparr>fp_pChunk := Some a\<rparr>\<rparr>) [] a 0 \<and> jcontent h p = []"
    and "as = bs @ [c] \<Longrightarrow> \<exists>k. fp_pChunk (mj_endpoint p) = Some c \<and> h1 c = Some k
      \<and> jroom (h1(c \<mapsto> k\<lparr>fc_pNext := Some a\<rparr>)) (p\<lparr>mj_endpoint := (mj_endpoint p)\<lparr>fp_pChunk := Some a\<rparr>\<rparr>) as a 0
      \<and> jcontent h p = data (h1(c \<mapsto> k\<lparr>fc_pNext := Some a\<rparr>)) as"
proof -
  let ?n = "mj_nChunkSize p" and ?e = "fp_iOffset (mj_endpoint p)"
  note r = assms(1) [unfolded jrep_def]
  have e: "?e = length as * ?n"
  proof -
    obtain t where t: "?e = t * ?n" using assms(2) by (metis div_mult_mod_eq add_0_right)
    have "t * ?n \<le> length as * ?n" "length as * ?n < Suc t * ?n" using r t by simp_all
    then have "t \<le> length as" "length as < Suc t" using r by (meson mult_le_cancel2 mult_less_cancel2)+
    with t show ?thesis by simp
  qed
  have na: "a \<notin> set as" using chain_Some [of h "mj_pFirst p" as a] r assms(3) by auto
  show "fp_pChunk (mj_endpoint p) = None
      \<and> jroom h1 (p\<lparr>mj_pFirst := Some a, mj_endpoint := (mj_endpoint p)\<lparr>fp_pChunk := Some a\<rparr>\<rparr>) [] a 0 \<and> jcontent h p = []" if "as = []"
    using that r e assms(4) jcontent_rep [OF assms(1)] by (auto simp: jroom_def h1_def)
  show "\<exists>k. fp_pChunk (mj_endpoint p) = Some c \<and> h1 c = Some k
      \<and> jroom (h1(c \<mapsto> k\<lparr>fc_pNext := Some a\<rparr>)) (p\<lparr>mj_endpoint := (mj_endpoint p)\<lparr>fp_pChunk := Some a\<rparr>\<rparr>) as a 0
      \<and> jcontent h p = data (h1(c \<mapsto> k\<lparr>fc_pNext := Some a\<rparr>)) as" if as: "as = bs @ [c]"
  proof -
    obtain k where k: "h c = Some k" using chain_Some [of h "mj_pFirst p" as c] r as by auto
    have ca: "c \<noteq> a" using na as by auto
    let ?h = "h1(c \<mapsto> k\<lparr>fc_pNext := Some a\<rparr>)"
    have same: "chunk ?h x = chunk h x" if "x \<in> set as" for x using that na k by (auto simp: chunk_def h1_def)
    have "chain ?h (mj_pFirst p) (as @ [a])" unfolding as h1_def using r na as k by (intro chain_snoc) auto
    moreover have "full ?h ?n (as @ [a])" using r full_cong [of as ?h h] same ca assms(4) by (simp add: chunk_def h1_def)
    moreover have "fp_pChunk (mj_readpoint p) = chunk_at (as @ [a]) i" if "fp_pChunk (mj_readpoint p) = chunk_at as i" "i < length as" for i
      using that by (simp add: chunk_at_def nth_append)
    ultimately have "jroom ?h (p\<lparr>mj_endpoint := (mj_endpoint p)\<lparr>fp_pChunk := Some a\<rparr>\<rparr>) as a 0"
      using r na e unfolding jroom_def by (auto simp: less_Suc_eq)
    moreover have "jcontent h p = data ?h as"
      using jcontent_rep [OF assms(1)] e r data_cong [of as ?h h] same length_data [of h ?n as] by simp
    ultimately show ?thesis using r as k ca by (simp add: h1_def)
  qed
qed

text \<open>What a call of the loop gives: the journal grows by a prefix of the text, all of it unless memory runs out.\<close>

definition write_res :: "(chunks \<Rightarrow> nat \<Rightarrow> (nat \<times> u8 list) option) \<Rightarrow> chunks \<Rightarrow> MemJournal \<Rightarrow> u8 list \<Rightarrow> int \<Rightarrow> chunks \<Rightarrow> MemJournal \<Rightarrow> bool" where
  "write_res al h p z rc h' p' \<longleftrightarrow> jok h' p' \<and> mj_nSpill p' = mj_nSpill p
    \<and> (rc = SQLITE_OK \<longrightarrow> jcontent h' p' = jcontent h p @ z) \<and> (\<exists>k. jcontent h' p' = jcontent h p @ take k z)
    \<and> (jalloc_total al \<longrightarrow> rc = SQLITE_OK)"

definition write_post :: "(chunks \<Rightarrow> nat \<Rightarrow> (nat \<times> u8 list) option) \<Rightarrow> chunks \<Rightarrow> MemJournal \<Rightarrow> u8 list \<Rightarrow> bool" where
  "write_post al h p z \<longleftrightarrow> (\<exists>rc h' p'. write_loop al h p z = Some (rc, h', p') \<and> write_res al h p z rc h' p')"

lemma write_postI: "write_loop al h p z = Some (rc, h', p') \<Longrightarrow> write_res al h p z rc h' p' \<Longrightarrow> write_post al h p z"
  unfolding write_post_def by blast

lemma write_res_step:
  assumes "write_res al h1 p1 (drop sp z) rc h' p'" "jcontent h1 p1 = jcontent h p @ take sp z" "mj_nSpill p1 = mj_nSpill p"
  shows "write_res al h p z rc h' p'"
proof -
  have "take sp z @ take m (drop sp z) = take (sp + m) z" for m by (simp add: take_add)
  then have "\<exists>k. jcontent h' p' = jcontent h p @ take k z" using assms(1,2) unfolding write_res_def by (metis append.assoc)
  then show ?thesis using assms by (simp add: write_res_def)
qed

lemma write_round:
  assumes "jroom h1 p1 as c co" "z \<noteq> []" "sp = min (length z) (mj_nChunkSize p1 - co)"
    and "\<And>h' p'. jok h' p' \<Longrightarrow> write_post al h' p' (drop sp z)"
    and "jcontent h p = take (fp_iOffset (mj_endpoint p1)) (data h1 (as @ [c]))" "mj_nSpill p1 = mj_nSpill p"
  obtains k d rc h' p' where "h1 c = Some k" "put_bytes (fc_zChunk k) co (take sp z) = Some d"
    "write_loop al (h1(c \<mapsto> k\<lparr>fc_zChunk := d\<rparr>))
        (p1\<lparr>mj_endpoint := (mj_endpoint p1)\<lparr>fp_iOffset := fp_iOffset (mj_endpoint p1) + sp\<rparr>\<rparr>) (drop sp z) = Some (rc, h', p')"
    "write_res al h p z rc h' p'"
proof -
  have sp: "0 < sp" "sp \<le> length z" "co + sp \<le> mj_nChunkSize p1" using assms(1,2,3) by (auto simp: jroom_def)
  then have l: "length (take sp z) = sp" by simp
  from put_room [OF assms(1), of "take sp z", unfolded l, OF sp(1,3)] obtain k d where
    k: "h1 c = Some k" "put_bytes (fc_zChunk k) co (take sp z) = Some d"
    and j: "jrep (h1(c \<mapsto> k\<lparr>fc_zChunk := d\<rparr>)) (p1\<lparr>mj_endpoint := (mj_endpoint p1)\<lparr>fp_iOffset := fp_iOffset (mj_endpoint p1) + sp\<rparr>\<rparr>) (as @ [c])"
    and ct: "jcontent (h1(c \<mapsto> k\<lparr>fc_zChunk := d\<rparr>)) (p1\<lparr>mj_endpoint := (mj_endpoint p1)\<lparr>fp_iOffset := fp_iOffset (mj_endpoint p1) + sp\<rparr>\<rparr>)
      = take (fp_iOffset (mj_endpoint p1)) (data h1 (as @ [c])) @ take sp z" by (elim exE conjE) (rule that)
  let ?h = "h1(c \<mapsto> k\<lparr>fc_zChunk := d\<rparr>)" and ?p = "p1\<lparr>mj_endpoint := (mj_endpoint p1)\<lparr>fp_iOffset := fp_iOffset (mj_endpoint p1) + sp\<rparr>\<rparr>"
  have "jok ?h ?p" using j unfolding jok_def by blast
  from assms(4) [OF this] obtain rc h' p' where w: "write_loop al ?h ?p (drop sp z) = Some (rc, h', p')" "write_res al ?h ?p (drop sp z) rc h' p'"
    unfolding write_post_def by blast
  have "write_res al h p z rc h' p'" by (rule write_res_step [OF w(2)]) (simp_all add: ct assms(5,6))
  with k w(1) show thesis by (rule that)
qed

lemma write_loop_ok:
  assumes "jok h p" "jalloc_ok al"
  shows "write_post al h p z"
  using assms(1)
proof (induction "length z" arbitrary: z h p rule: less_induct)
  case less
  from less.prems obtain as where r: "jrep h p as" "jcontent h p = take (fp_iOffset (mj_endpoint p)) (data h as)" by (rule jokE)
  let ?n = "mj_nChunkSize p" and ?e = "fp_iOffset (mj_endpoint p)"
  let ?co = "?e mod ?n"
  have n: "0 < ?n" using r(1) by (simp add: jrep_def)
  show ?case
  proof (cases "z = []")
    case True
    then show ?thesis using less.prems by (auto simp: write_post_def write_res_def write_loop.simps)
  next
    case z: False
    define sp where "sp = min (length z) (?n - ?co)"
    have "0 < sp" using z n by (simp add: sp_def)
    then have ih: "write_post al h' p' (drop sp z)" if "jok h' p'" for h' p'
      using that z by (intro less.hyps) (simp_all)
    show ?thesis
    proof (cases "?co = 0")
      case False
      from room_old [OF r(1) False] obtain bs c where as: "as = bs @ [c]" "jroom h p bs c ?co" by blast
      then have pc: "fp_pChunk (mj_endpoint p) = Some c" by (simp add: jroom_def)
      obtain k d rc h' p' where w: "h c = Some k" "put_bytes (fc_zChunk k) ?co (take sp z) = Some d"
        "write_loop al (h(c \<mapsto> k\<lparr>fc_zChunk := d\<rparr>)) (p\<lparr>mj_endpoint := (mj_endpoint p)\<lparr>fp_iOffset := ?e + sp\<rparr>\<rparr>) (drop sp z) = Some (rc, h', p')"
        "write_res al h p z rc h' p'"
        by (rule write_round [OF as(2) z sp_def ih r(2) [unfolded as(1)] refl]) (assumption, rule that)
      have "write_loop al h p z = Some (rc, h', p')"
        using z False pc w(1-3) by (subst write_loop.simps) (simp add: sp_def [symmetric] Let_def)
      then show ?thesis using w(4) by (rule write_postI)
    next
      case co: True
      show ?thesis
      proof (cases "al h ?n")
        case None
        then have "\<not> jalloc_total al" unfolding jalloc_total_def by blast
        then show ?thesis using None less.prems z co unfolding write_post_def write_res_def
          by (subst write_loop.simps) (auto simp: SQLITE_OK_def SQLITE_IOERR_NOMEM_def intro!: exI [of _ 0])
      next
        case (Some ab)
        obtain a b where ab: "ab = (a, b)" by fastforce
        have f: "h a = None" "length b = ?n" using Some ab assms(2) by (auto simp: jalloc_ok_def)
        show ?thesis
        proof (cases as rule: rev_cases)
          case Nil
          let ?h = "h(a \<mapsto> \<lparr>fc_pNext = None, fc_zChunk = b\<rparr>)"
          let ?p = "p\<lparr>mj_pFirst := Some a, mj_endpoint := (mj_endpoint p)\<lparr>fp_pChunk := Some a\<rparr>\<rparr>"
          from room_new(1) [OF r(1) co f Nil] have q: "fp_pChunk (mj_endpoint p) = None" "jroom ?h ?p [] a 0" "jcontent h p = []" by auto
          then have e: "?e = 0" by (simp add: jroom_def)
          have sp: "sp = min (length z) (mj_nChunkSize ?p - 0)" and ns: "mj_nSpill ?p = mj_nSpill p" using co by (simp_all add: sp_def)
          have c: "jcontent h p = take (fp_iOffset (mj_endpoint ?p)) (data ?h ([] @ [a]))" using q(3) e by simp
          obtain k d rc h' p' where w: "?h a = Some k" "put_bytes (fc_zChunk k) 0 (take sp z) = Some d"
            "write_loop al (?h(a \<mapsto> k\<lparr>fc_zChunk := d\<rparr>))
              (?p\<lparr>mj_endpoint := (mj_endpoint ?p)\<lparr>fp_iOffset := fp_iOffset (mj_endpoint ?p) + sp\<rparr>\<rparr>) (drop sp z) = Some (rc, h', p')"
            "write_res al h p z rc h' p'"
            by (rule write_round [OF q(2) z sp ih c ns]) (assumption, rule that)
          have "write_loop al h p z = Some (rc, h', p')"
            using z co q(1) w(1-3) Some ab by (subst write_loop.simps) (simp add: sp [symmetric, simplified] Let_def)
          then show ?thesis using w(4) by (rule write_postI)
        next
          case (snoc bs c)
          let ?h = "h(a \<mapsto> \<lparr>fc_pNext = None, fc_zChunk = b\<rparr>)" and ?p = "p\<lparr>mj_endpoint := (mj_endpoint p)\<lparr>fp_pChunk := Some a\<rparr>\<rparr>"
          from room_new(2) [OF r(1) co f snoc] obtain k where q: "fp_pChunk (mj_endpoint p) = Some c" "?h c = Some k"
            "jroom (?h(c \<mapsto> k\<lparr>fc_pNext := Some a\<rparr>)) ?p as a 0" "jcontent h p = data (?h(c \<mapsto> k\<lparr>fc_pNext := Some a\<rparr>)) as" by auto
          let ?h2 = "?h(c \<mapsto> k\<lparr>fc_pNext := Some a\<rparr>)"
          have "length (data ?h2 as) = ?e" using length_jcontent [OF r(1)] q(4) by simp
          then have ct: "jcontent h p = take (fp_iOffset (mj_endpoint ?p)) (data ?h2 (as @ [a]))" using q(4) by simp
          have sp: "sp = min (length z) (mj_nChunkSize ?p - 0)" and ns: "mj_nSpill ?p = mj_nSpill p" using co by (simp_all add: sp_def)
          obtain k2 d rc h' p' where w: "?h2 a = Some k2" "put_bytes (fc_zChunk k2) 0 (take sp z) = Some d"
            "write_loop al (?h2(a \<mapsto> k2\<lparr>fc_zChunk := d\<rparr>))
              (?p\<lparr>mj_endpoint := (mj_endpoint ?p)\<lparr>fp_iOffset := fp_iOffset (mj_endpoint ?p) + sp\<rparr>\<rparr>) (drop sp z) = Some (rc, h', p')"
            "write_res al h p z rc h' p'"
            by (rule write_round [OF q(3) z sp ih ct ns]) (assumption, rule that)
          have "write_loop al h p z = Some (rc, h', p')"
            using z co q(1,2) w(1-3) Some ab by (subst write_loop.simps) (simp add: sp [symmetric, simplified] Let_def)
          then show ?thesis using w(4) by (rule write_postI)
        qed
      qed
    qed
  qed
qed

subsection \<open>Spilling to a real file\<close>

text \<open>
  What the journal relies on: the real file is a \<open>byte_file\<close> that can be written anywhere, and a file that was just opened is empty (a journal
  is a new file).
\<close>

definition vfs_ok :: "'f vfs \<Rightarrow> ('f \<Rightarrow> bool) \<Rightarrow> ('f \<Rightarrow> u8 list) \<Rightarrow> bool" where
  "vfs_ok V vok vcont \<longleftrightarrow> (\<forall>z fl f. vf_open V z fl = (SQLITE_OK, f) \<longrightarrow> vok f \<and> vcont f = [])
    \<and> byte_file vok vcont (\<lambda>f n i. True) (\<lambda>f bs i. Some (vf_write V f bs i)) (\<lambda>f n i. Some (vf_read V f n i))
        (\<lambda>f n. Some (vf_truncate V f n))"

lemma vfs_okD:
  assumes "vfs_ok V vok vcont"
  shows "vf_open V z fl = (SQLITE_OK, f) \<Longrightarrow> vok f \<and> vcont f = []"
    "byte_file vok vcont (\<lambda>f n i. True) (\<lambda>f bs i. Some (vf_write V f bs i)) (\<lambda>f n i. Some (vf_read V f n i))
      (\<lambda>f n. Some (vf_truncate V f n))"
    "vok f \<Longrightarrow> \<exists>rc f'. vf_write V f bs i = (rc, f') \<and> vok f' \<and> (rc = SQLITE_OK \<longrightarrow> vcont f' = file_write (vcont f) i bs)"
  using assms byte_file.wr_law [of vok vcont "\<lambda>f n i. True" "\<lambda>f bs i. Some (vf_write V f bs i)"] unfolding vfs_ok_def by auto

lemma spill_chain:
  assumes "vfs_ok V vok vcont" "chain h q as" "full h n as" "0 < n"
    and "vok f" "length (vcont f) = i" "e \<le> i + length as * n" "as \<noteq> [] \<Longrightarrow> i + length as * n < e + n"
  shows "\<exists>rc f'. spill_loop V h n e q i f = Some (rc, f') \<and> vok f' \<and> (rc = SQLITE_OK \<longrightarrow> vcont f' = vcont f @ take (e - i) (data h as))"
  using assms(2,3,5-8)
proof (induction as arbitrary: q f i)
  case Nil
  then show ?case by (simp add: spill_loop.simps)
next
  case (Cons a as)
  then obtain k where k: "q = Some a" "h a = Some k" "chain h (fc_pNext k) as" "length (fc_zChunk k) = n" by auto
  define m where "m = (if i + n > e then e - i else n)"
  have m: "m \<le> n" "i < e \<Longrightarrow> i + m \<le> e" by (auto simp: m_def)
  have ie: "i < e" using Cons.prems(6) by simp
  from vfs_okD(3) [OF assms(1) Cons.prems(3), of "take m (fc_zChunk k)" i] obtain rc f1 where
    w: "vf_write V f (take m (fc_zChunk k)) i = (rc, f1)" "vok f1" "rc = SQLITE_OK \<longrightarrow> vcont f1 = vcont f @ take m (fc_zChunk k)"
    using file_write_end [of "vcont f"] Cons.prems(4) by auto
  have g: "get_bytes (fc_zChunk k) 0 m = Some (take m (fc_zChunk k))" using k(4) m(1) by (simp add: get_bytes_def)
  have step: "spill_loop V h n e q i f = (if rc \<noteq> SQLITE_OK then Some (rc, f1) else spill_loop V h m e (fc_pNext k) (i + m) f1)"
    using k(1,2) w(1) g by (simp add: spill_loop.simps [of V h n e "Some a"] m_def [symmetric])
  show ?case
  proof (cases "rc = SQLITE_OK")
    case True
    then have f1: "vcont f1 = vcont f @ take m (fc_zChunk k)" "length (vcont f1) = i + m" using w(3) k(4) m(1) Cons.prems(4) by auto
    show ?thesis
    proof (cases "as = []")
      case last: True
      then have "m = e - i" using Cons.prems(5) by (auto simp: m_def)
      with last True step k f1 w(2) show ?thesis by (simp add: spill_loop.simps)
    next
      case False
      then have "n \<le> length as * n" by (cases as) auto
      moreover have "i + length as * n < e" using Cons.prems(6) by simp
      ultimately have "i + n \<le> e" by linarith
      then have mn: "m = n" "i + n \<le> e" by (simp_all add: m_def)
      have "e \<le> i + n + length as * n" "as \<noteq> [] \<Longrightarrow> i + n + length as * n < e + n" using Cons.prems(5,6) by simp_all
      with Cons.IH [OF k(3) _ w(2), of "i + n"] f1 mn Cons.prems(2) obtain rc' f' where
        "spill_loop V h n e (fc_pNext k) (i + n) f1 = Some (rc', f')" "vok f'"
        "rc' = SQLITE_OK \<longrightarrow> vcont f' = vcont f1 @ take (e - (i + n)) (data h as)" by auto
      with True step mn f1(1) k show ?thesis by simp
    qed
  qed (use step w(2) in simp)
qed

lemma memjrnlCreateFile_ok:
  assumes "vfs_ok V vok vcont" "jok h p"
  shows "\<exists>rc h' j. memjrnlCreateFile V h p = Some (rc, h', j)
    \<and> (if rc = SQLITE_OK then \<exists>f. j = Real f \<and> vok f \<and> vcont f = jcontent h p else h' = h \<and> j = InMem p)"
proof -
  from assms(2) obtain as where r: "jrep h p as" "jcontent h p = take (fp_iOffset (mj_endpoint p)) (data h as)" by (rule jokE)
  obtain rc f where o: "vf_open V (mj_zJournal p) (mj_flags p) = (rc, f)" by fastforce
  show ?thesis
  proof (cases "rc = SQLITE_OK")
    case True
    then have f: "vok f" "vcont f = []" using vfs_okD(1) [OF assms(1)] o by auto
    have "\<exists>rc f'. spill_loop V h (mj_nChunkSize p) (fp_iOffset (mj_endpoint p)) (mj_pFirst p) 0 f = Some (rc, f') \<and> vok f'
      \<and> (rc = SQLITE_OK \<longrightarrow> vcont f' = vcont f @ take (fp_iOffset (mj_endpoint p) - 0) (data h as))"
      by (rule spill_chain [OF assms(1)]) (use r(1) f in \<open>simp_all add: jrep_def\<close>)
    then obtain rc' f' where "spill_loop V h (mj_nChunkSize p) (fp_iOffset (mj_endpoint p)) (mj_pFirst p) 0 f = Some (rc', f')"
      "vok f'" "rc' = SQLITE_OK \<longrightarrow> vcont f' = jcontent h p" using f(2) r(2) by auto
    moreover have "memjrnlFreeChunks h (mj_pFirst p) = Some (\<lambda>a. if a \<in> set as then None else h a)"
      using r(1) by (intro free_chain) (simp_all add: jrep_def)
    ultimately show ?thesis using o True by (cases "rc' = SQLITE_OK") (simp_all add: memjrnlCreateFile_def)
  qed (use o in \<open>simp add: memjrnlCreateFile_def\<close>)
qed

subsection \<open>The journal as a file\<close>

fun js_ok :: "('f \<Rightarrow> bool) \<Rightarrow> 'f jstate \<Rightarrow> bool" where
  "js_ok vok (h, InMem p) = jok h p"
| "js_ok vok (h, Real f) = vok f"

fun js_content :: "('f \<Rightarrow> u8 list) \<Rightarrow> 'f jstate \<Rightarrow> u8 list" where
  "js_content vcont (h, InMem p) = jcontent h p"
| "js_content vcont (h, Real f) = vcont f"

lemma osWrite_ok:
  assumes "vfs_ok V vok vcont" "jalloc_ok al" "js_ok vok s" "i = length (js_content vcont s)"
  shows "\<exists>rc s'. osWrite al V s bs i = Some (rc, s') \<and> js_ok vok s'
    \<and> (rc = SQLITE_OK \<longrightarrow> js_content vcont s' = file_write (js_content vcont s) i bs)"
proof -
  obtain h j where s: "s = (h, j)" by fastforce
  show ?thesis
  proof (cases j)
    case (Real f)
    then show ?thesis using s assms(3) vfs_okD(3) [OF assms(1), of f bs i] by auto
  next
    case (InMem p)
    then have jp: "jok h p" and i: "i = length (jcontent h p)" using s assms(3,4) by simp_all
    show ?thesis
    proof (cases "mj_nSpill p > 0 \<and> int (length bs + i) > mj_nSpill p")
      case True
      from memjrnlCreateFile_ok [OF assms(1) jp] obtain rc h' j' where c: "memjrnlCreateFile V h p = Some (rc, h', j')"
        "if rc = SQLITE_OK then \<exists>f. j' = Real f \<and> vok f \<and> vcont f = jcontent h p else h' = h \<and> j' = InMem p" by blast
      show ?thesis
      proof (cases "rc = SQLITE_OK")
        case ok: True
        with c(2) obtain f where "j' = Real f" "vok f" "vcont f = jcontent h p" by auto
        with ok c(1) True s InMem vfs_okD(3) [OF assms(1), of f bs i] show ?thesis by (auto simp: memjrnlWrite_def)
      next
        case False
        with c True s InMem jp show ?thesis by (auto simp: memjrnlWrite_def)
      qed
    next
      case False
      from write_loop_ok [OF jp assms(2), of bs] obtain rc h' p' where "write_loop al h p bs = Some (rc, h', p')" "write_res al h p bs rc h' p'"
        unfolding write_post_def by blast
      with False s InMem i show ?thesis by (auto simp: memjrnlWrite_def write_res_def file_write_end)
    qed
  qed
qed

interpretation jrn: byte_file "\<lambda>s. vfs_ok V vok vcont \<and> jalloc_ok al \<and> js_ok vok s" "js_content vcont"
  "\<lambda>s n i. i = length (js_content vcont s)" "osWrite al V" "osRead V" "osTruncate V" for al V vok vcont
proof unfold_locales
  fix s i and bs :: "u8 list"
  assume "vfs_ok V vok vcont \<and> jalloc_ok al \<and> js_ok vok s" "i = length (js_content vcont s)"
  then show "\<exists>rc s'. osWrite al V s bs i = Some (rc, s') \<and> (vfs_ok V vok vcont \<and> jalloc_ok al \<and> js_ok vok s')
      \<and> (rc = SQLITE_OK \<longrightarrow> js_content vcont s' = file_write (js_content vcont s) i bs)"
    using osWrite_ok [of V vok vcont al s i bs] by blast
next
  fix s n i
  assume a: "vfs_ok V vok vcont \<and> jalloc_ok al \<and> js_ok vok s" "0 < n" "i + n \<le> length (js_content vcont s)"
  obtain h j where s: "s = (h, j)" by fastforce
  show "\<exists>rc bs s'. osRead V s n i = Some (rc, bs, s') \<and> (vfs_ok V vok vcont \<and> jalloc_ok al \<and> js_ok vok s')
      \<and> js_content vcont s' = js_content vcont s \<and> (rc = SQLITE_OK \<longrightarrow> bs = take n (drop i (js_content vcont s)))"
  proof (cases j)
    case (Real f)
    then show ?thesis using a s byte_file.rd_law [OF vfs_okD(2), of V vok vcont f n i] by fastforce
  next
    case (InMem p)
    then show ?thesis using a s memjrnlRead_ok [of h p n i] by fastforce
  qed
next
  fix s n
  assume a: "vfs_ok V vok vcont \<and> jalloc_ok al \<and> js_ok vok s" "n \<le> length (js_content vcont s)"
  obtain h j where s: "s = (h, j)" by fastforce
  show "\<exists>rc s'. osTruncate V s n = Some (rc, s') \<and> (vfs_ok V vok vcont \<and> jalloc_ok al \<and> js_ok vok s')
      \<and> (rc = SQLITE_OK \<longrightarrow> js_content vcont s' = take n (js_content vcont s))"
  proof (cases j)
    case (Real f)
    then show ?thesis using a s byte_file.tr_law [OF vfs_okD(2), of V vok vcont f n] by fastforce
  next
    case (InMem p)
    then show ?thesis using a s memjrnlTruncate_ok [of h p n] by fastforce
  qed
qed

text \<open>A journal that stays in memory, with an allocator that does not fail.\<close>

fun js_mem :: "'f jstate \<Rightarrow> bool" where
  "js_mem (h, InMem p) \<longleftrightarrow> jok h p \<and> mj_nSpill p < 0"
| "js_mem (h, Real f) \<longleftrightarrow> False"

lemma js_memE:
  assumes "js_mem s"
  obtains h p where "s = (h, InMem p)" "jok h p" "mj_nSpill p < 0"
  using assms by (cases s rule: js_mem.cases) auto

interpretation jmem: reliable_file "\<lambda>s. jalloc_ok al \<and> jalloc_total al \<and> js_mem s" "js_content vcont"
  "\<lambda>s n i. i = length (js_content vcont s)" "osWrite al V" "osRead V" "osTruncate V" for al V vcont
proof -
  have w: "\<exists>h' p'. osWrite al V s bs i = Some (SQLITE_OK, h', InMem p') \<and> js_mem (h', InMem p')
      \<and> jcontent h' p' = file_write (js_content vcont s) i bs"
    if "jalloc_ok al \<and> jalloc_total al \<and> js_mem s" "i = length (js_content vcont s)" for s bs i
  proof -
    from that(1) obtain h p where s: "s = (h, InMem p)" "jok h p" "mj_nSpill p < 0" by (auto elim: js_memE)
    from write_loop_ok [OF s(2), of al bs] that(1) obtain rc h' p' where "write_loop al h p bs = Some (rc, h', p')" "write_res al h p bs rc h' p'"
      unfolding write_post_def by blast
    with s that show ?thesis by (auto simp: memjrnlWrite_def write_res_def file_write_end)
  qed
  have r: "\<exists>p. osRead V s n i = Some (SQLITE_OK, take n (drop i (js_content vcont s)), fst s, InMem p) \<and> js_mem (fst s, InMem p)
      \<and> jcontent (fst s) p = js_content vcont s"
    if "js_mem s" "0 < n" "i + n \<le> length (js_content vcont s)" for s n i
  proof -
    from that(1) obtain h p where s: "s = (h, InMem p)" "jok h p" "mj_nSpill p < 0" by (rule js_memE)
    then show ?thesis using memjrnlRead_ok [OF s(2) that(2), of i] that(3) by auto
  qed
  have t: "\<exists>h' p'. osTruncate V s n = Some (SQLITE_OK, h', InMem p') \<and> js_mem (h', InMem p') \<and> jcontent h' p' = take n (js_content vcont s)"
    if "js_mem s" "n \<le> length (js_content vcont s)" for s n
  proof -
    from that(1) obtain h p where s: "s = (h, InMem p)" "jok h p" "mj_nSpill p < 0" by (rule js_memE)
    then show ?thesis using memjrnlTruncate_ok [OF s(2), of n] that(2) by auto
  qed
  show "reliable_file (\<lambda>s. jalloc_ok al \<and> jalloc_total al \<and> js_mem s) (js_content vcont)
      (\<lambda>s n i. i = length (js_content vcont s)) (osWrite al V) (osRead V) (osTruncate V)"
  proof unfold_locales
    fix s i and bs :: "u8 list"
    assume a: "jalloc_ok al \<and> jalloc_total al \<and> js_mem s" "i = length (js_content vcont s)"
    from w [OF this, of bs] a(1) show "\<exists>rc s'. osWrite al V s bs i = Some (rc, s') \<and> (jalloc_ok al \<and> jalloc_total al \<and> js_mem s')
        \<and> (rc = SQLITE_OK \<longrightarrow> js_content vcont s' = file_write (js_content vcont s) i bs)" by (metis js_content.simps(1))
    fix rc s'
    assume "osWrite al V s bs i = Some (rc, s')"
    with w [OF a, of bs] show "rc = SQLITE_OK" by auto
  next
    fix s n i
    assume a: "jalloc_ok al \<and> jalloc_total al \<and> js_mem s" "0 < n" "i + n \<le> length (js_content vcont s)"
    from r [OF _ a(2,3)] a(1) show "\<exists>rc bs s'. osRead V s n i = Some (rc, bs, s') \<and> (jalloc_ok al \<and> jalloc_total al \<and> js_mem s')
        \<and> js_content vcont s' = js_content vcont s \<and> (rc = SQLITE_OK \<longrightarrow> bs = take n (drop i (js_content vcont s)))"
      by (metis js_content.simps(1))
    fix rc bs s'
    assume "osRead V s n i = Some (rc, bs, s')"
    with r [OF _ a(2,3)] a(1) show "rc = SQLITE_OK" by auto
  next
    fix s n
    assume a: "jalloc_ok al \<and> jalloc_total al \<and> js_mem s" "n \<le> length (js_content vcont s)"
    from t [OF _ a(2)] a(1) show "\<exists>rc s'. osTruncate V s n = Some (rc, s') \<and> (jalloc_ok al \<and> jalloc_total al \<and> js_mem s')
        \<and> (rc = SQLITE_OK \<longrightarrow> js_content vcont s' = take n (js_content vcont s))" by (metis js_content.simps(1))
    fix rc s'
    assume "osTruncate V s n = Some (rc, s')"
    with t [OF _ a(2)] a(1) show "rc = SQLITE_OK" by auto
  qed
qed

text \<open>
  C10. A rollback journal behaves like a plain file: however its chunks are linked, wherever its cursors are and whenever it is spilled to the
  real file, every list of appends, reads and truncations on a journal that was just opened is defined, and if no call reports an error, the reads
  return and the journal finally holds what the same operations give on a sequence of bytes.  A journal without a limit
  reports no error while memory can be allocated.
\<close>

theorem journal_refines_file:
  assumes "vfs_ok V vok vcont" "jalloc_ok al" "sqlite3JournalOpen V zName flags nSpill = (SQLITE_OK, j)" "flat_legal (\<lambda>l n i. i = l) ops []"
  shows "\<exists>rc rs s. run_file (osWrite al V) (osRead V) (osTruncate V) ops (Map.empty, j) = Some (rc, rs, s)
    \<and> (rc = SQLITE_OK \<longrightarrow> (rs, js_content vcont s) = flat_ops ops []) \<and> (nSpill < 0 \<and> jalloc_total al \<longrightarrow> rc = SQLITE_OK)"
proof -
  have mem: "jok Map.empty p \<and> jcontent Map.empty p = [] \<and> mj_nSpill p = nSpill" if "j = InMem p" for p
  proof -
    have "jrep Map.empty p []" "mj_nSpill p = nSpill"
      using assms(3) that by (auto simp: sqlite3JournalOpen_def jrep_def split: if_splits prod.splits)
    then show ?thesis using jcontent_rep [of Map.empty p "[]"] by (auto simp: jok_def)
  qed
  moreover have "vok f \<and> vcont f = [] \<and> nSpill = 0" if "j = Real f" for f
    using assms(3) that vfs_okD(1) [OF assms(1)] by (auto simp: sqlite3JournalOpen_def split: if_splits prod.splits)
  ultimately have o: "js_ok vok (Map.empty, j)" "js_content vcont (Map.empty, j) = []" "nSpill < 0 \<longrightarrow> js_mem (Map.empty, j)"
    by (cases j; simp)+
  obtain rc rs s where r: "run_file (osWrite al V) (osRead V) (osTruncate V) ops (Map.empty, j) = Some (rc, rs, s)"
    "rc = SQLITE_OK \<longrightarrow> (rs, js_content vcont s) = flat_ops ops []"
    using jrn.run_flat [of V vok vcont al "\<lambda>l n i. i = l" "(Map.empty, j)" ops] assms o(1,2) by auto
  moreover have "rc = SQLITE_OK" if "nSpill < 0" "jalloc_total al"
    using jmem.run_reliable [where w = "\<lambda>l n i. i = l" and s = "(Map.empty, j)" and ops = ops and al = al and V = V and vcont = vcont] that assms(2,4) o(2,3) r(1) by auto
  ultimately show ?thesis by blast
qed

text \<open>A file system with one plain file, and an allocator with ten addresses.\<close>

definition flat_vfs :: "u8 list vfs" where
  "flat_vfs = \<lparr>vf_open = \<lambda>_ _. (SQLITE_OK, []), vf_write = \<lambda>f bs i. (SQLITE_OK, file_write f i bs),
     vf_read = \<lambda>f n i. (SQLITE_OK, take n (drop i f), f), vf_truncate = \<lambda>f n. (SQLITE_OK, take n f)\<rparr>"

definition ten_alloc :: "chunks \<Rightarrow> nat \<Rightarrow> (nat \<times> u8 list) option" where
  "ten_alloc h n = map_option (\<lambda>a. (a, replicate n 0)) (find (\<lambda>a. h a = None) [0..<10])"

lemma flat_vfs_ok: "vfs_ok flat_vfs (\<lambda>_. True) (\<lambda>f. f)"
  unfolding vfs_ok_def by (intro conjI, simp add: flat_vfs_def, unfold_locales) (simp_all add: flat_vfs_def)

lemma ten_alloc_ok: "jalloc_ok ten_alloc"
  by (auto simp: jalloc_ok_def ten_alloc_def find_Some_iff)

theorem journal_refines_file_witness:
  "\<exists>rc rs s. run_file (osWrite ten_alloc flat_vfs) (osRead flat_vfs) (osTruncate flat_vfs)
      [FWrite [1, 2, 3] 0, FRead 2 1, FWrite [4, 5, 6] 3, FRead 4 2, FTrunc 2]
      (Map.empty, snd (sqlite3JournalOpen flat_vfs None 0 4)) = Some (rc, rs, s)
    \<and> (rc = SQLITE_OK \<longrightarrow> (rs, js_content (\<lambda>f. f) s) = ([[2, 3], [3, 4, 5, 6]], [1, 2]))"
proof -
  let ?ops = "[FWrite [1, 2, 3] 0, FRead 2 1, FWrite [4, 5, 6] 3, FRead 4 2, FTrunc 2]"
  have f: "flat_ops ?ops [] = ([[2, 3], [3, 4, 5, 6]], [1, 2])" "flat_legal (\<lambda>l n i. i = l) ?ops []"
    by (simp_all add: file_write_def numeral_eq_Suc)
  have "sqlite3JournalOpen flat_vfs None 0 4 = (SQLITE_OK, snd (sqlite3JournalOpen flat_vfs None 0 4))"
    by (simp add: sqlite3JournalOpen_def)
  from journal_refines_file [OF flat_vfs_ok ten_alloc_ok this f(2)] f(1) show ?thesis
    by (simp del: run_file.simps flat_ops.simps flat_legal.simps)
qed

end
