(* ===== verification/Serial.thy ===== *)
theory Serial
  imports Varint
begin

text \<open>
  The cells that hold SQL values and the serial form of a single value in SQLite's record format:
  the buffer management of \<open>vdbemem.c\<close> and \<open>sqlite3VdbeSerialPut\<close> and
  \<open>sqlite3VdbeSerialGet\<close> of \<open>vdbeaux.c\<close> (\<open>src/src/db/sqlite3/core/sqlite3.c\<close>, lines
  77466 to 77540, 77590 to 77615 and 82888 to 83168).

  The union \<open>Mem.u\<close> is its 64 bits: \<open>u.i\<close> is their signed reading, \<open>u.r\<close> is the double with these
  bits and \<open>u.nZero\<close> the signed low half, as on a little-endian machine. \<open>Mem.z\<close> is null, the
  cell's own allocation \<open>Mem.zMalloc\<close>, or a pointer to other memory. The allocator is a parameter:
  \<open>al n\<close> is what an allocation of \<open>n\<close> bytes returns, the initial content of the
  block with its usable size, or \<open>None\<close>. The value \<open>None\<close> of \<open>sqlite3VdbeSerialPut\<close> stands
  for the dereference of a null pointer. The destructor call for a \<open>MEM_Dyn\<close> value, which does not
  touch the cell, is not modelled.
\<close>

unbundle bit_operations_syntax

subsection \<open>Memory cells\<close>

definition MEM_Null :: u16 where "MEM_Null = 0x0001"
definition MEM_Str :: u16 where "MEM_Str = 0x0002"
definition MEM_Int :: u16 where "MEM_Int = 0x0004"
definition MEM_Real :: u16 where "MEM_Real = 0x0008"
definition MEM_Blob :: u16 where "MEM_Blob = 0x0010"
definition MEM_IntReal :: u16 where "MEM_IntReal = 0x0020"
definition MEM_Term :: u16 where "MEM_Term = 0x0200"
definition MEM_Dyn :: u16 where "MEM_Dyn = 0x0400"
definition MEM_Static :: u16 where "MEM_Static = 0x0800"
definition MEM_Ephem :: u16 where "MEM_Ephem = 0x1000"
definition MEM_Zero :: u16 where "MEM_Zero = 0x4000"

lemmas MEM_defs =
  MEM_Null_def MEM_Str_def MEM_Int_def MEM_Real_def MEM_Blob_def MEM_IntReal_def MEM_Term_def
  MEM_Dyn_def MEM_Static_def MEM_Ephem_def MEM_Zero_def

datatype zptr = Znull | Zown | Zext mem

record Mem =
  mu :: u64
  mflags :: u16
  mn :: int
  mptr :: zptr
  zMalloc :: mem
  szMalloc :: int
  uTemp :: u32

definition has :: "Mem \<Rightarrow> u16 \<Rightarrow> bool" where
  "has m f \<longleftrightarrow> mflags m AND f \<noteq> 0"

definition u_i :: "Mem \<Rightarrow> int" where
  "u_i m = sint (mu m)"

definition u_nZero :: "Mem \<Rightarrow> int" where
  "u_nZero m = sint (ucast (mu m) :: u32)"

definition set_nZero :: "int \<Rightarrow> Mem \<Rightarrow> Mem" where
  "set_nZero k m = m\<lparr>mu := (mu m AND push_bit 32 0xffffffff) OR ucast (word_of_int k :: u32)\<rparr>"

definition zmem :: "Mem \<Rightarrow> mem option" where
  "zmem m = (case mptr m of Znull \<Rightarrow> None | Zown \<Rightarrow> Some (zMalloc m) | Zext p \<Rightarrow> Some p)"

definition sqlite3VdbeMemSetNull :: "Mem \<Rightarrow> Mem" where
  "sqlite3VdbeMemSetNull m = m\<lparr>mflags := MEM_Null\<rparr>"

definition sqlite3VdbeMemGrow ::
    "(int \<Rightarrow> (mem \<times> int) option) \<Rightarrow> Mem \<Rightarrow> int \<Rightarrow> bool \<Rightarrow> Mem \<times> int" where
  "sqlite3VdbeMemGrow al m n bPreserve =
     (case al n of
        None \<Rightarrow> ((sqlite3VdbeMemSetNull m)\<lparr>mptr := Znull, szMalloc := 0\<rparr>, SQLITE_NOMEM)
      | Some (blk, sz) \<Rightarrow>
          let realloc = 0 < szMalloc m \<and> bPreserve \<and> mptr m = Zown;
              blk = (if realloc
                     then mem_write blk 0 (mem_bytes (zMalloc m) (nat (min (szMalloc m) n)))
                     else blk);
              bPreserve = (bPreserve \<and> \<not> realloc);
              blk = (case zmem m of
                       Some z \<Rightarrow> if bPreserve then mem_write blk 0 (mem_bytes z (nat (mn m))) else blk
                     | None \<Rightarrow> blk)
          in (m\<lparr>zMalloc := blk, szMalloc := sz, mptr := Zown,
                mflags := mflags m AND NOT (MEM_Dyn OR MEM_Ephem OR MEM_Static)\<rparr>, SQLITE_OK))"

definition sqlite3VdbeMemClearAndResize ::
    "(int \<Rightarrow> (mem \<times> int) option) \<Rightarrow> Mem \<Rightarrow> int \<Rightarrow> Mem \<times> int" where
  "sqlite3VdbeMemClearAndResize al m szNew =
     (if szMalloc m < szNew then sqlite3VdbeMemGrow al m szNew False
      else (m\<lparr>mptr := Zown,
              mflags := mflags m AND (MEM_Null OR MEM_Int OR MEM_Real OR MEM_IntReal)\<rparr>, SQLITE_OK))"

definition sqlite3VdbeMemExpandBlob ::
    "(int \<Rightarrow> (mem \<times> int) option) \<Rightarrow> Mem \<Rightarrow> Mem \<times> int" where
  "sqlite3VdbeMemExpandBlob al m =
     (let nByte = mn m + u_nZero m in
      if nByte \<le> 0 \<and> \<not> has m MEM_Blob then (m, SQLITE_OK)
      else let (m', rc) = sqlite3VdbeMemGrow al m (if nByte \<le> 0 then 1 else nByte) True in
        if rc \<noteq> SQLITE_OK then (m', SQLITE_NOMEM)
        else (m'\<lparr>zMalloc := mem_write (zMalloc m') (nat (mn m')) (replicate (nat (u_nZero m')) 0),
                mn := mn m' + u_nZero m',
                mflags := mflags m' AND NOT (MEM_Zero OR MEM_Term)\<rparr>, SQLITE_OK))"

subsection \<open>Single values\<close>

definition sqlite3SmallTypeSizes :: "u8 list" where
  "sqlite3SmallTypeSizes =
     [0,  1,  2,  3,  4,  6,  8,  8,  0,  0,
      0,  0,  0,  0,  1,  1,  2,  2,  3,  3,
      4,  4,  5,  5,  6,  6,  7,  7,  8,  8,
      9,  9, 10, 10, 11, 11, 12, 12, 13, 13,
     14, 14, 15, 15, 16, 16, 17, 17, 18, 18,
     19, 19, 20, 20, 21, 21, 22, 22, 23, 23,
     24, 24, 25, 25, 26, 26, 27, 27, 28, 28,
     29, 29, 30, 30, 31, 31, 32, 32, 33, 33,
     34, 34, 35, 35, 36, 36, 37, 37, 38, 38,
     39, 39, 40, 40, 41, 41, 42, 42, 43, 43,
     44, 44, 45, 45, 46, 46, 47, 47, 48, 48,
     49, 49, 50, 50, 51, 51, 52, 52, 53, 53,
     54, 54, 55, 55, 56, 56, 57, 57]"

definition sqlite3VdbeSerialTypeLen :: "u32 \<Rightarrow> u32" where
  "sqlite3VdbeSerialTypeLen serial_type =
     (if 128 \<le> serial_type then (serial_type - 12) div 2
      else ucast (sqlite3SmallTypeSizes ! unat serial_type))"

definition sqlite3VdbeOneByteSerialTypeLen :: "u8 \<Rightarrow> u8" where
  "sqlite3VdbeOneByteSerialTypeLen serial_type = sqlite3SmallTypeSizes ! unat serial_type"

fun put_be :: "mem \<Rightarrow> nat \<Rightarrow> u64 \<Rightarrow> mem" where
  "put_be buf 0 v = buf"
| "put_be buf (Suc i) v = put_be (buf(i := ucast (v AND 0xff))) i (drop_bit 8 v)"

definition sqlite3VdbeSerialPut :: "mem \<Rightarrow> Mem \<Rightarrow> u32 \<Rightarrow> (mem \<times> nat) option" where
  "sqlite3VdbeSerialPut buf m serial_type =
     (if serial_type \<le> 7 \<and> 0 < serial_type
      then let len = unat (sqlite3SmallTypeSizes ! unat serial_type)
           in Some (put_be buf len (mu m), len)
      else if 12 \<le> serial_type
      then let len = nat (mn m) in
           if 0 < len
           then (case zmem m of None \<Rightarrow> None | Some z \<Rightarrow> Some (mem_write buf 0 (mem_bytes z len), len))
           else Some (buf, len)
      else Some (buf, 0))"

definition TWO_BYTE_INT :: "mem \<Rightarrow> int" where
  "TWO_BYTE_INT x = (256 * sint (x 0)) OR uint (x 1)"

definition THREE_BYTE_INT :: "mem \<Rightarrow> int" where
  "THREE_BYTE_INT x = (65536 * sint (x 0)) OR push_bit 8 (uint (x 1)) OR uint (x 2)"

definition FOUR_BYTE_UINT :: "mem \<Rightarrow> u32" where
  "FOUR_BYTE_UINT x =
     push_bit 24 (ucast (x 0)) OR push_bit 16 (ucast (x 1)) OR push_bit 8 (ucast (x 2)) OR ucast (x 3)"

definition FOUR_BYTE_INT :: "mem \<Rightarrow> int" where
  "FOUR_BYTE_INT x =
     (16777216 * sint (x 0)) OR push_bit 16 (uint (x 1)) OR push_bit 8 (uint (x 2)) OR uint (x 3)"

definition EXP754 :: u64 where "EXP754 = push_bit 52 0x7ff"
definition MAN754 :: u64 where "MAN754 = push_bit 52 1 - 1"

definition IsNaN :: "u64 \<Rightarrow> bool" where
  "IsNaN x \<longleftrightarrow> x AND EXP754 = EXP754 \<and> x AND MAN754 \<noteq> 0"

definition set_i :: "int \<Rightarrow> Mem \<Rightarrow> Mem" where
  "set_i i m = m\<lparr>mu := word_of_int i, mflags := MEM_Int\<rparr>"

definition serialGet :: "mem \<Rightarrow> u32 \<Rightarrow> Mem \<Rightarrow> Mem \<times> nat" where
  "serialGet buf serial_type m =
     (let x = ucast (FOUR_BYTE_UINT buf) :: u64;
          y = FOUR_BYTE_UINT (mem_at buf 4);
          x = push_bit 32 x + ucast y
      in (if serial_type = 6 then m\<lparr>mu := x, mflags := MEM_Int\<rparr>
          else m\<lparr>mu := x, mflags := (if IsNaN x then MEM_Null else MEM_Real)\<rparr>, 8))"

definition sqlite3VdbeSerialGet :: "mem \<Rightarrow> u32 \<Rightarrow> Mem \<Rightarrow> Mem \<times> nat" where
  "sqlite3VdbeSerialGet buf serial_type m =
     (if serial_type = 10
      then (set_nZero 0 (m\<lparr>mflags := MEM_Null OR MEM_Zero, mn := 0\<rparr>), 0)
      else if serial_type = 11 \<or> serial_type = 0 then (m\<lparr>mflags := MEM_Null\<rparr>, 0)
      else if serial_type = 1 then (set_i (sint (buf 0)) m, 1)
      else if serial_type = 2 then (set_i (TWO_BYTE_INT buf) m, 2)
      else if serial_type = 3 then (set_i (THREE_BYTE_INT buf) m, 3)
      else if serial_type = 4 then (set_i (FOUR_BYTE_INT buf) m, 4)
      else if serial_type = 5
      then (set_i (uint (FOUR_BYTE_UINT (mem_at buf 2)) + push_bit 32 1 * TWO_BYTE_INT buf) m, 6)
      else if serial_type = 6 \<or> serial_type = 7 then serialGet buf serial_type m
      else if serial_type = 8 \<or> serial_type = 9 then (set_i (uint (serial_type - 8)) m, 0)
      else let n = (serial_type - 12) div 2
           in (m\<lparr>mptr := Zext buf, mn := uint n,
                 mflags := (if serial_type AND 1 = 0 then MEM_Blob OR MEM_Ephem
                            else MEM_Str OR MEM_Ephem)\<rparr>, unat n))"

text \<open>The conversion of a 64-bit integer to a double, to nearest with ties to even.\<close>

definition i64_to_double :: "int \<Rightarrow> u64" where
  "i64_to_double i =
     (let m = nat \<bar>i\<bar>; e = bit_length m - 1;
          q = (if e \<le> 52 then m * 2 ^ (52 - e)
               else let s = e - 52; q = m div 2 ^ s; r = m mod 2 ^ s; half = 2 ^ (s - 1)
                    in if half < r \<or> (r = half \<and> odd q) then q + 1 else q)
      in if i = 0 then 0
         else of_nat ((1023 + e) * 2 ^ 52 + (q - 2 ^ 52)) OR (if i < 0 then push_bit 63 1 else 0))"

text \<open>Memory with the bytes from offset \<open>k\<close> on replaced: the effect of a callee that was handed \<open>p + k\<close>.\<close>

definition mem_splice :: "mem \<Rightarrow> nat \<Rightarrow> mem \<Rightarrow> mem" where
  "mem_splice p k q = (\<lambda>i. if i < k then p i else q (i - k))"

definition putVarint32 :: "mem \<Rightarrow> u32 \<Rightarrow> mem \<times> nat" where
  "putVarint32 p v = (if v < 0x80 then (p(0 := ucast v), 1) else sqlite3PutVarint p (ucast v))"

subsection \<open>Bytes in memory\<close>

text \<open>\<open>holds p k bs\<close>: the bytes \<open>bs\<close> stand at offset \<open>k\<close>.\<close>

definition holds :: "mem \<Rightarrow> nat \<Rightarrow> u8 list \<Rightarrow> bool" where
  "holds p k bs \<longleftrightarrow> (\<forall>i < length bs. p (k + i) = bs ! i)"

lemma holds_Nil [simp]: "holds p k []"
  by (simp add: holds_def)

lemma holds_append [simp]: "holds p k (bs @ cs) \<longleftrightarrow> holds p k bs \<and> holds p (k + length bs) cs"
proof
  assume a: "holds p k (bs @ cs)"
  have "p (k + length bs + i) = cs ! i" if "i < length cs" for i
    using a that by (auto simp: holds_def dest!: spec [of _ "length bs + i"] simp: add.assoc)
  with a show "holds p k bs \<and> holds p (k + length bs) cs"
    by (auto simp: holds_def nth_append dest!: spec)
next
  assume b: "holds p k bs \<and> holds p (k + length bs) cs"
  show "holds p k (bs @ cs)"
    unfolding holds_def
  proof (intro allI impI)
    fix i
    assume "i < length (bs @ cs)"
    then show "p (k + i) = (bs @ cs) ! i"
      using b by (cases "i < length bs") (auto simp: holds_def nth_append dest!: spec [of _ "i - length bs"])
  qed
qed

lemma holds_mem_at [simp]: "holds (mem_at p j) k bs \<longleftrightarrow> holds p (j + k) bs"
  by (simp add: holds_def add.assoc)

lemma holds_frame: "holds p k bs \<Longrightarrow> (\<And>i. k \<le> i \<Longrightarrow> i < k + length bs \<Longrightarrow> q i = p i) \<Longrightarrow> holds q k bs"
  by (simp add: holds_def)

lemma holds_write: "holds (mem_write p k bs) k bs"
  by (simp add: holds_def mem_write_apply)

lemma write_holds: "holds p k bs \<Longrightarrow> mem_write p k bs = p"
proof
  fix j
  assume h: "holds p k bs"
  have "bs ! (j - k) = p j" if "k \<le> j" "j < k + length bs"
  proof -
    from that have "j - k < length bs" by linarith
    with h have "p (k + (j - k)) = bs ! (j - k)" by (simp only: holds_def)
    with that show ?thesis by simp
  qed
  then show "mem_write p k bs j = p j" by (simp add: mem_write_apply)
qed

lemma splice_write: "mem_splice p k (mem_write (mem_at p k) 0 bs) = mem_write p k bs"
  by (rule ext) (auto simp: mem_splice_def mem_write_apply)

lemma holds_bytes: "holds p k bs \<longleftrightarrow> mem_bytes (mem_at p k) (length bs) = bs"
  by (auto simp: holds_def list_eq_iff_nth_eq)

text \<open>
  The interface between the writer and the reader of one kind of value: what is stored is a code
  that does not depend on the memory it is stored in, and the reader recognises the code whatever follows it.
\<close>

locale prefix_code =
  fixes get :: "mem \<Rightarrow> 'a \<times> nat"
    and put :: "mem \<Rightarrow> 'a \<Rightarrow> mem \<times> nat"
    and code :: "'a \<Rightarrow> u8 list"
  assumes put_code: "put p v = (mem_write p 0 (code v), length (code v))"
    and get_code: "holds p 0 (code v) \<Longrightarrow> get p = (v, length (code v))"
begin

lemma get_at: "holds p k (code v) \<Longrightarrow> get (mem_at p k) = (v, length (code v))"
  by (rule get_code) simp

lemma put_at:
  "put (mem_at p k) v = (q, n) \<Longrightarrow> mem_splice p k q = mem_write p k (code v) \<and> n = length (code v)"
  by (auto simp: put_code splice_write)

end

subsection \<open>Variable-length integers of the header\<close>

definition hdr_code :: "u32 \<Rightarrow> u8 list" where
  "hdr_code v = (let (q, n) = putVarint32 (\<lambda>_. 0) v in mem_bytes q n)"

lemma unat_u32_u64: "unat (ucast (v::u32) :: u64) = unat v"
  using unsigned_less [of v, where ?'a = nat]
  by (simp add: unsigned_ucast_eq take_bit_nat_eq_self_iff)

lemma putVarint32_eq: "putVarint32 p v = sqlite3PutVarint p (ucast v)"
proof (cases "v < 0x80")
  case True
  then have "unat v < 128" by (simp add: word_less_nat_alt)
  then have "(ucast v :: u64) AND 0x7f = ucast v" by (intro small_group) (simp add: unat_u32_u64)
  moreover have "(ucast v :: u64) \<le> 0x7f"
    using \<open>unat v < 128\<close> by (simp add: word_le_nat_alt unat_u32_u64)
  moreover have "(ucast (ucast v :: u64) :: u8) = ucast v" by (simp add: word8_eq_bits bit_unsigned_iff)
  ultimately show ?thesis using True by (simp add: putVarint32_def sqlite3PutVarint_def)
qed (simp add: putVarint32_def)

lemma unat_u32_small: "unat (ucast (v::u32) :: u64) < 2 ^ 56"
  using unsigned_less [of v, where ?'a = nat] by (simp add: unat_u32_u64)

lemma PutVarint_write:
  assumes "unat v < 2 ^ 56"
  obtains bs where "\<And>p. sqlite3PutVarint p v = (mem_write p 0 bs, length bs)"
proof -
  consider "v \<le> 0x7f" | "\<not> v \<le> 0x7f" "v \<le> 0x3fff" | "\<not> v \<le> 0x7f" "\<not> v \<le> 0x3fff" by blast
  then show ?thesis
  proof cases
    case 1
    then show ?thesis using that [of "[ucast (v AND 0x7f)]"] by (simp add: PutVarint_1)
  next
    case 2
    then show ?thesis
      using that [of "[ucast ((drop_bit 7 v AND 0x7f) OR 0x80), ucast (v AND 0x7f)]"]
      by (simp add: PutVarint_2)
  next
    case 3
    then show ?thesis
      using that [of "rev ((putVarint_buf v)[0 := hd (putVarint_buf v) AND 0x7f])"]
        assms top_byte_clear [of v]
      by (simp add: sqlite3PutVarint_def putVarint64_def Let_def)
  qed
qed

lemma putVarint32_code: "putVarint32 p v = (mem_write p 0 (hdr_code v), length (hdr_code v))"
proof -
  obtain bs where bs: "\<And>p. sqlite3PutVarint p (ucast v) = (mem_write p 0 bs, length bs)"
    using PutVarint_write [OF unat_u32_small [of v]] by blast
  then have "hdr_code v = bs"
    using holds_write [of "\<lambda>_. 0" 0 bs] by (simp add: hdr_code_def putVarint32_eq holds_bytes)
  then show ?thesis by (simp add: putVarint32_eq bs)
qed

lemma length_hdr_code: "length (hdr_code v) = sqlite3VarintLen (ucast v)"
  using VarintLen_predicts [of "ucast v" "\<lambda>_. 0"] putVarint32_code [of "\<lambda>_. 0" v] unat_u32_small [of v]
  by (simp add: putVarint32_eq)

lemma getVarint32_code: "holds p 0 (hdr_code v) \<Longrightarrow> getVarint32 p = (v, length (hdr_code v))"
proof -
  assume "holds p 0 (hdr_code v)"
  then have "putVarint32 p v = (p, length (hdr_code v))" by (simp add: putVarint32_code write_holds)
  then have "sqlite3GetVarint p = (ucast v, length (hdr_code v))"
    using PutVarint_roundtrip [where p = p and v = "ucast v"] by (simp add: putVarint32_eq)
  moreover have "(ucast (ucast v :: u64) :: u32) = v" by (simp add: word32_eq_bits bit_unsigned_iff)
  ultimately show ?thesis
    using unsigned_less [of v, where ?'a = nat] by (simp add: getVarint32_clamps unat_u32_u64)
qed

interpretation hdr: prefix_code getVarint32 putVarint32 hdr_code
  by unfold_locales (rule putVarint32_code, rule getVarint32_code)

lemma length_hdr_code_bounds: "1 \<le> length (hdr_code v)" "length (hdr_code v) \<le> 5"
proof -
  have "unat (ucast v :: u64) < 2 ^ (7 * 5)"
    using unsigned_less [of v, where ?'a = nat] by (simp add: unat_u32_u64)
  from length_putVarint_buf [OF this] show "length (hdr_code v) \<le> 5" by (simp add: length_hdr_code VarintLen_buf)
  show "1 \<le> length (hdr_code v)"
    by (simp add: length_hdr_code VarintLen_buf putVarint_buf.simps [of "ucast v"])
qed

subsection \<open>Single values\<close>

definition be_bytes :: "nat \<Rightarrow> u64 \<Rightarrow> u8 list" where
  "be_bytes k v = map (\<lambda>i. ucast (drop_bit (8 * (k - 1 - i)) v)) [0..<k]"

lemma length_be_bytes [simp]: "length (be_bytes k v) = k"
  by (simp add: be_bytes_def)

lemma put_be_write: "put_be p k v = mem_write p 0 (be_bytes k v)"
proof (induction k arbitrary: p v)
  case 0
  then show ?case by (simp add: be_bytes_def)
next
  case (Suc k)
  have low: "ucast (v AND 0xff) = (ucast v :: u8)"
    by (simp add: word8_eq_bits bit_and_iff bit_unsigned_iff)
  have shift: "8 * (k - Suc i) + 8 = 8 * (k - i)" if "i < k" for i using that by linarith
  show ?case
    by (rule ext) (auto simp: Suc.IH mem_write_apply be_bytes_def low less_Suc_eq nth_append shift)
qed

lemma holds_be: "holds p k (be_bytes n v) \<Longrightarrow> i < n \<Longrightarrow> p (k + i) = ucast (drop_bit (8 * (n - 1 - i)) v)"
  by (simp add: holds_def be_bytes_def)

text \<open>A signed value that needs only \<open>k\<close> bits besides its sign.\<close>

definition fits :: "nat \<Rightarrow> u64 \<Rightarrow> bool" where
  "fits k v \<longleftrightarrow> (\<forall>j < 64. k \<le> j \<longrightarrow> bit v j = bit v 63)"

lemma sint_neg_bit: "sint (v::u64) < 0 \<longleftrightarrow> bit v 63"
  by (simp add: sint_uint bit_uint_iff flip: not_le)

lemma high_bit_clear:
  assumes "drop_bit k (w::u64) = 0" "k \<le> j"
  shows "\<not> bit w j"
proof -
  have "bit (drop_bit k w) (j - k) = bit w j" using assms(2) by (simp add: bit_drop_bit_eq)
  with assms(1) show ?thesis by simp
qed

lemma fitsI:
  assumes "(if sint v < 0 then NOT v else v) \<le> c" "unat c < 2 ^ k"
  shows "fits k v"
proof -
  let ?u = "if sint v < 0 then NOT v else v"
  have "unat ?u < 2 ^ k" using assms by (simp only: word_le_nat_alt)
  then have z: "\<not> bit ?u j" if "k \<le> j" for j
    by (intro high_bit_clear [OF _ that]) (simp only: drop_bit_eq_0)
  show ?thesis
    unfolding fits_def
  proof (intro allI impI)
    fix j :: nat
    assume j: "j < 64" "k \<le> j"
    show "bit v j = bit v 63"
    proof (cases "sint v < 0")
      case True
      then have "\<not> bit (NOT v) j" using z [OF j(2)] by simp
      with j have "bit v j" by (simp add: bit_not_iff)
      with True show ?thesis by (simp only: sint_neg_bit)
    next
      case False
      then have "\<not> bit v j" using z [OF j(2)] by simp
      with False show ?thesis by (simp only: sint_neg_bit)
    qed
  qed
qed

lemma fitsD: "fits k v \<Longrightarrow> k \<le> j \<Longrightarrow> j < 63 \<Longrightarrow> bit v j = bit v 63"
  unfolding fits_def by (drule spec [of _ j]) simp

lemmas get_unfold =
  word64_eq_bits bit_or_iff bit_and_iff bit_push_bit_iff bit_drop_bit_eq bit_unsigned_iff bit_sint_iff
  bit_uint_iff bit_of_int_iff bit_signed_iff

lemma get_1: "(p::mem) 0 = ucast v \<Longrightarrow> fits 7 v \<Longrightarrow> word_of_int (sint (p 0)) = v"
  by (simp add: get_unfold fitsD [of 7 v])

lemma get_2:
  assumes "p 0 = ucast (drop_bit 8 v)" "p (Suc 0) = ucast v" "fits 15 v"
  shows "word_of_int (TWO_BYTE_INT p) = v"
proof -
  have "TWO_BYTE_INT p = push_bit 8 (sint (p 0)) OR uint (p 1)"
    by (simp add: TWO_BYTE_INT_def push_bit_eq_mult mult.commute)
  then show ?thesis using assms(1,2) by (simp add: get_unfold fitsD [OF assms(3)])
qed

lemma get_3:
  assumes "p 0 = ucast (drop_bit 16 v)" "p (Suc 0) = ucast (drop_bit 8 v)" "p 2 = ucast v" "fits 23 v"
  shows "word_of_int (THREE_BYTE_INT p) = v"
proof -
  have "THREE_BYTE_INT p = push_bit 16 (sint (p 0)) OR push_bit 8 (uint (p 1)) OR uint (p 2)"
    by (simp add: THREE_BYTE_INT_def push_bit_eq_mult mult.commute)
  then show ?thesis using assms(1-3) by (simp add: get_unfold fitsD [OF assms(4)])
qed

lemma get_4:
  assumes "p 0 = ucast (drop_bit 24 v)" "p (Suc 0) = ucast (drop_bit 16 v)"
    "p 2 = ucast (drop_bit 8 v)" "p 3 = ucast v" "fits 31 v"
  shows "word_of_int (FOUR_BYTE_INT p) = v"
proof -
  have "FOUR_BYTE_INT p =
      push_bit 24 (sint (p 0)) OR push_bit 16 (uint (p 1)) OR push_bit 8 (uint (p 2)) OR uint (p 3)"
    by (simp add: FOUR_BYTE_INT_def push_bit_eq_mult mult.commute)
  then show ?thesis using assms(1-4) by (simp add: get_unfold fitsD [OF assms(5)])
qed

text \<open>The sum of a 32-bit word and a word shifted by 32 has no carries.\<close>

lemma add_or_32: "push_bit 32 (x::u64) + ucast (y::u32) = push_bit 32 x OR ucast y"
  by (rule disjunctive_add) (auto simp: bit_push_bit_iff bit_unsigned_iff u32_bit_high)

lemma get_6:
  assumes "p 0 = ucast (drop_bit 40 v)" "p (Suc 0) = ucast (drop_bit 32 v)"
    "p 2 = ucast (drop_bit 24 v)" "p 3 = ucast (drop_bit 16 v)"
    "p 4 = ucast (drop_bit 8 v)" "p 5 = ucast v" "fits 47 v"
  shows "word_of_int (uint (FOUR_BYTE_UINT (mem_at p 2)) + push_bit 32 1 * TWO_BYTE_INT p) = v"
proof -
  have "word_of_int (uint (FOUR_BYTE_UINT (mem_at p 2)) + push_bit 32 1 * TWO_BYTE_INT p) =
      push_bit 32 (word_of_int (TWO_BYTE_INT p) :: u64) + ucast (FOUR_BYTE_UINT (mem_at p 2))"
    by (simp add: push_bit_eq_mult unsigned_of_int)
  also have "\<dots> = push_bit 32 (word_of_int (push_bit 8 (sint (p 0)) OR uint (p 1)))
      OR ucast (FOUR_BYTE_UINT (mem_at p 2))"
    unfolding add_or_32 by (simp add: TWO_BYTE_INT_def push_bit_eq_mult mult.commute)
  also have "\<dots> = v"
    using assms(1-6) by (simp add: get_unfold FOUR_BYTE_UINT_def fitsD [OF assms(7)])
  finally show ?thesis .
qed

lemma get_8:
  fixes v :: u64
  assumes "p 0 = ucast (drop_bit 56 v)" "p (Suc 0) = ucast (drop_bit 48 v)"
    "p 2 = ucast (drop_bit 40 v)" "p 3 = ucast (drop_bit 32 v)"
    "p 4 = ucast (drop_bit 24 v)" "p 5 = ucast (drop_bit 16 v)"
    "p 6 = ucast (drop_bit 8 v)" "p 7 = ucast v"
  shows "push_bit 32 (ucast (FOUR_BYTE_UINT p)) + ucast (FOUR_BYTE_UINT (mem_at p 4)) = v"
  unfolding add_or_32 using assms by (simp add: FOUR_BYTE_UINT_def get_unfold)

subsection \<open>The values of cells\<close>

datatype sqlval = VNull | VNoChange | VInt int | VReal u64 | VText "u8 list" | VBlob "u8 list"

definition content :: "Mem \<Rightarrow> u8 list" where
  "content m =
     (case zmem m of None \<Rightarrow> [] | Some z \<Rightarrow> mem_bytes z (nat (mn m)))
       @ (if has m MEM_Zero then replicate (nat (u_nZero m)) 0 else [])"

definition cell_value :: "Mem \<Rightarrow> sqlval" where
  "cell_value m =
     (if has m MEM_Null then if has m MEM_Zero then VNoChange else VNull
      else if has m (MEM_Int OR MEM_IntReal) then VInt (u_i m)
      else if has m MEM_Real then VReal (mu m)
      else if has m MEM_Str then VText (content m) else VBlob (content m))"

text \<open>
  What a record keeps of a cell: an integer flagged as a real number becomes a double when it needs
  more than six bytes, and a double that is not a number becomes NULL.
\<close>

definition stored :: "Mem \<Rightarrow> sqlval" where
  "stored m =
     (case cell_value m of
        VInt i \<Rightarrow> if has m MEM_IntReal \<and> \<not> (- 140737488355328 \<le> i \<and> i \<le> 140737488355327)
                  then VReal (i64_to_double i) else VInt i
      | VReal x \<Rightarrow> if IsNaN x then VNull else VReal x
      | v \<Rightarrow> v)"

definition decodes :: "u8 list \<Rightarrow> u32 \<Rightarrow> sqlval \<Rightarrow> bool" where
  "decodes bs t v \<longleftrightarrow>
     (\<forall>buf m. holds buf 0 bs \<longrightarrow>
        (\<exists>c. sqlite3VdbeSerialGet buf t m = (c, length bs) \<and> cell_value c = v))"

definition puts :: "Mem \<Rightarrow> u8 list \<Rightarrow> bool" where
  "puts m bs \<longleftrightarrow> (\<forall>buf. sqlite3VdbeSerialPut buf m (uTemp m) = Some (mem_write buf 0 bs, length bs))"

lemmas get_simps = sqlite3VdbeSerialGet_def set_i_def set_nZero_def serialGet_def Let_def
lemmas value_simps = cell_value_def has_def MEM_defs u_i_def

lemma decodes_null: "decodes [] 0 VNull" "decodes [] 10 VNoChange"
  by (simp_all add: decodes_def get_simps value_simps)

lemma decodes_const: "decodes [] 8 (VInt 0)" "decodes [] 9 (VInt 1)"
  by (simp_all add: decodes_def get_simps value_simps)

lemma decodes_set_i:
  assumes "\<And>buf m. sqlite3VdbeSerialGet buf t m = (set_i (f buf) m, length bs)"
    and "\<And>buf. holds buf 0 bs \<Longrightarrow> word_of_int (f buf) = (v::u64)"
  shows "decodes bs t (VInt (sint v))"
  using assms by (simp add: decodes_def set_i_def value_simps)

lemma holds_be_0: "holds buf 0 (be_bytes n v) \<Longrightarrow> i < n \<Longrightarrow> buf i = ucast (drop_bit (8 * (n - 1 - i)) v)"
  using holds_be [of buf 0 n v i] by simp

lemma decodes_int:
  shows decodes_int1: "fits 7 v \<Longrightarrow> decodes (be_bytes (Suc 0) v) 1 (VInt (sint v))"
    and decodes_int2: "fits 15 v \<Longrightarrow> decodes (be_bytes 2 v) 2 (VInt (sint v))"
    and decodes_int3: "fits 23 v \<Longrightarrow> decodes (be_bytes 3 v) 3 (VInt (sint v))"
    and decodes_int4: "fits 31 v \<Longrightarrow> decodes (be_bytes 4 v) 4 (VInt (sint v))"
    and decodes_int6: "fits 47 v \<Longrightarrow> decodes (be_bytes 6 v) 5 (VInt (sint v))"
proof -
  show "decodes (be_bytes (Suc 0) v) 1 (VInt (sint v))" if "fits 7 v"
    by (rule decodes_set_i [where f = "\<lambda>buf. sint (buf 0)"])
      (simp add: sqlite3VdbeSerialGet_def, rule get_1 [OF _ that], simp add: holds_be_0)
  show "decodes (be_bytes 2 v) 2 (VInt (sint v))" if "fits 15 v"
    by (rule decodes_set_i [where f = TWO_BYTE_INT])
      (simp add: sqlite3VdbeSerialGet_def, rule get_2 [OF _ _ that], simp_all add: holds_be_0)
  show "decodes (be_bytes 3 v) 3 (VInt (sint v))" if "fits 23 v"
    by (rule decodes_set_i [where f = THREE_BYTE_INT])
      (simp add: sqlite3VdbeSerialGet_def, rule get_3 [OF _ _ _ that], simp_all add: holds_be_0)
  show "decodes (be_bytes 4 v) 4 (VInt (sint v))" if "fits 31 v"
    by (rule decodes_set_i [where f = FOUR_BYTE_INT])
      (simp add: sqlite3VdbeSerialGet_def, rule get_4 [OF _ _ _ _ that], simp_all add: holds_be_0)
  show "decodes (be_bytes 6 v) 5 (VInt (sint v))" if "fits 47 v"
    by (rule decodes_set_i
          [where f = "\<lambda>p. uint (FOUR_BYTE_UINT (mem_at p 2)) + push_bit 32 1 * TWO_BYTE_INT p"])
      (simp add: sqlite3VdbeSerialGet_def, rule get_6 [OF _ _ _ _ _ _ that], simp_all add: holds_be_0)
qed

lemma serialGet_be:
  assumes "holds buf 0 (be_bytes 8 v)"
  shows "serialGet buf t m =
    (m\<lparr>mu := v, mflags := (if t = 6 then MEM_Int else if IsNaN v then MEM_Null else MEM_Real)\<rparr>, 8)"
proof -
  have "push_bit 32 (ucast (FOUR_BYTE_UINT buf)) + ucast (FOUR_BYTE_UINT (mem_at buf 4)) = v"
    by (rule get_8) (simp_all add: holds_be_0 [OF assms])
  then show ?thesis by (simp add: serialGet_def Let_def)
qed

lemma decodes_int8: "decodes (be_bytes 8 v) 6 (VInt (sint v))"
  by (simp add: decodes_def sqlite3VdbeSerialGet_def serialGet_be value_simps)

lemma decodes_real: "decodes (be_bytes 8 v) 7 (if IsNaN v then VNull else VReal v)"
  by (simp add: decodes_def sqlite3VdbeSerialGet_def serialGet_be value_simps)

lemma decodes_bytes:
  assumes "unat t = 2 * length bs + (if s then 13 else 12)"
  shows "decodes bs t (if s then VText bs else VBlob bs)"
proof -
  have ge: "12 \<le> unat t" using assms by (simp split: if_splits)
  have "unat (t - 12) = unat t - 12"
    by (subst unat_sub) (simp_all add: word_le_nat_alt ge)
  then have n: "unat ((t - 12) div 2) = length bs"
    using assms by (simp add: unat_div split: if_splits)
  have odd: "t AND 1 = 0 \<longleftrightarrow> \<not> s"
  proof -
    have "t AND 1 = 0 \<longleftrightarrow> unat t mod 2 = 0"
      by (simp only: and_one_eq unat_mod flip: unat_eq_0_iff) simp
    then show ?thesis using assms by (cases s) presburger+
  qed
  have small: "t \<noteq> k" if "unat k < 12" for k using that ge by auto
  have "uint ((t - 12) div 2) = int (length bs)" using n by (simp add: uint_nat)
  then have get: "sqlite3VdbeSerialGet buf t m =
      (m\<lparr>mptr := Zext buf, mn := int (length bs),
         mflags := (if s then MEM_Str OR MEM_Ephem else MEM_Blob OR MEM_Ephem)\<rparr>, length bs)" for buf m
    using n odd small by (simp add: sqlite3VdbeSerialGet_def Let_def)
  have "mem_bytes buf (length bs) = bs" if "holds buf 0 bs" for buf
    using that by (simp add: holds_bytes)
  then show ?thesis
    by (simp add: decodes_def get cell_value_def has_def MEM_defs content_def zmem_def)
qed

lemma sizes_nth: "sqlite3SmallTypeSizes ! 1 = 1" "sqlite3SmallTypeSizes ! Suc 0 = 1"
  "sqlite3SmallTypeSizes ! 2 = 2" "sqlite3SmallTypeSizes ! 3 = 3" "sqlite3SmallTypeSizes ! 4 = 4"
  "sqlite3SmallTypeSizes ! 5 = 6" "sqlite3SmallTypeSizes ! 6 = 8" "sqlite3SmallTypeSizes ! 7 = 8"
  by (simp_all add: sqlite3SmallTypeSizes_def)

lemma puts_simps:
  "puts (m\<lparr>uTemp := 1\<rparr>) (be_bytes (Suc 0) (mu m))" "puts (m\<lparr>uTemp := 2\<rparr>) (be_bytes 2 (mu m))"
  "puts (m\<lparr>uTemp := 3\<rparr>) (be_bytes 3 (mu m))" "puts (m\<lparr>uTemp := 4\<rparr>) (be_bytes 4 (mu m))"
  "puts (m\<lparr>uTemp := 5\<rparr>) (be_bytes 6 (mu m))" "puts (m\<lparr>uTemp := 6\<rparr>) (be_bytes 8 (mu m))"
  "puts (m\<lparr>uTemp := 7\<rparr>) (be_bytes 8 (mu m))" "puts (m\<lparr>uTemp := 0\<rparr>) []" "puts (m\<lparr>uTemp := 8\<rparr>) []"
  "puts (m\<lparr>uTemp := 9\<rparr>) []" "puts (m\<lparr>uTemp := 10\<rparr>) []"
  by (simp_all add: puts_def sqlite3VdbeSerialPut_def sizes_nth put_be_write)

lemma puts_bytes:
  assumes "12 \<le> uTemp m" "0 < mn m \<Longrightarrow> zmem m \<noteq> None"
  shows "puts m (case zmem m of None \<Rightarrow> [] | Some z \<Rightarrow> mem_bytes z (nat (mn m)))"
proof -
  have "\<not> uTemp m \<le> 7" using assms(1) by (simp add: word_le_nat_alt)
  moreover have "mem_bytes z 0 = []" for z by (simp add: mem_bytes_def)
  ultimately show ?thesis
    using assms by (cases "0 < mn m") (auto simp: puts_def sqlite3VdbeSerialPut_def Let_def split: option.splits)
qed

text \<open>The magnitude that selects the width of an integer.\<close>

lemma sint_nonneg_uint: "0 \<le> sint w \<Longrightarrow> uint w = sint w" for w :: u64
  by (rule bit_eqI)
    (auto simp: bit_uint_iff bit_sint_iff sint_neg_bit min_def dest: bit_imp_le_length simp flip: not_less)

lemma sint_not: "sint (NOT v) = - sint v - 1" for v :: u64
proof -
  have "sint (NOT v) = NOT (sint v)"
    by (rule bit_eqI) (auto simp: bit_sint_iff bit_not_iff dest: bit_imp_le_length)
  then show ?thesis by (simp add: not_eq_complement)
qed

lemma magnitude:
  "(if sint v < 0 then NOT v else v) \<le> c \<longleftrightarrow> - uint c - 1 \<le> sint v \<and> sint v \<le> uint c" for v c :: u64
proof (cases "sint v < 0")
  case True
  then have "uint (NOT v) = - sint v - 1" using sint_nonneg_uint [of "NOT v"] by (simp add: sint_not)
  with True show ?thesis using uint_ge_0 [of c] by (simp add: word_le_def) linarith
next
  case False
  then show ?thesis
    using sint_nonneg_uint [of v] uint_ge_0 [of c] by (simp add: word_le_def) linarith
qed

text \<open>The double of an integer is a number.\<close>

lemma significand_le:
  assumes "e = bit_length m - 1" "0 < m"
  shows "(if e \<le> 52 then m * 2 ^ (52 - e)
          else let s = e - 52; q = m div 2 ^ s; r = m mod 2 ^ s; half = 2 ^ (s - 1)
               in if half < r \<or> (r = half \<and> odd q) then q + 1 else q) \<le> 2 ^ 53"
proof -
  have "0 < bit_length m" using assms(2) by (simp add: bit_length.simps [of m])
  then have m: "m < 2 ^ (e + 1)" using bit_length_bounds(1) [of m] assms(1) by simp
  show ?thesis
  proof (cases "e \<le> 52")
    case True
    have "m * 2 ^ (52 - e) < 2 ^ (e + 1) * 2 ^ (52 - e)" using m by simp
    also have "\<dots> = 2 ^ 53" using True by (simp flip: power_add)
    finally show ?thesis using True by simp
  next
    case False
    have "e + 1 = 53 + (e - 52)" using False by simp
    then have "(2::nat) ^ (e + 1) = 2 ^ 53 * 2 ^ (e - 52)" by (simp only: power_add)
    then have "m div 2 ^ (e - 52) < 2 ^ 53" using m by (intro less_mult_imp_div_less) simp
    then show ?thesis using False by (simp add: Let_def)
  qed
qed

lemma i64_to_double_number:
  assumes "- 9223372036854775808 \<le> i" "i \<le> 9223372036854775807"
  shows "\<not> IsNaN (i64_to_double i)"
proof (cases "i = 0")
  case True
  then show ?thesis by (simp add: i64_to_double_def IsNaN_def)
next
  case False
  define m where "m = nat \<bar>i\<bar>"
  define e where "e = bit_length m - 1"
  define q where "q = (if e \<le> 52 then m * 2 ^ (52 - e)
          else let s = e - 52; q = m div 2 ^ s; r = m mod 2 ^ s; half = 2 ^ (s - 1)
               in if half < r \<or> (r = half \<and> odd q) then q + 1 else q)"
  define n where "n = (1023 + e) * 2 ^ 52 + (q - 2 ^ 52)"
  let ?s = "if i < 0 then push_bit 63 1 else 0 :: u64"
  have x: "i64_to_double i = of_nat n OR ?s"
    unfolding i64_to_double_def n_def q_def e_def m_def Let_def by (simp only: False if_False)
  have "0 < m" using False by (simp add: m_def)
  moreover have "\<bar>i\<bar> < 2 ^ 64" using assms by simp
  then have "m < 2 ^ 64" by (simp only: m_def nat_less_iff) simp
  ultimately have "e \<le> 63" "q \<le> 2 ^ 53"
    using bit_length_le [of m 64] significand_le [OF e_def, folded q_def] by (simp_all add: e_def)
  then have "(1023 + e) * 2 ^ 52 \<le> 1086 * 2 ^ 52" "q - 2 ^ 52 \<le> 2 ^ 52"
    by simp_all
  then have "n \<le> 1086 * 2 ^ 52 + 2 ^ 52" unfolding n_def by (rule add_mono)
  then have n: "n < 2047 * 2 ^ 52" by (rule le_less_trans) simp
  then have u: "unat (of_nat n :: u64) = n" by (intro unat_of_nat_less) simp
  have "?s AND EXP754 = 0" by (simp add: EXP754_def)
  then have "i64_to_double i AND EXP754 = of_nat n AND EXP754"
    by (simp only: x bit.conj_disj_distrib2 or.right_neutral)
  moreover have "unat (of_nat n AND EXP754) \<le> n"
    using word_and_le2 [of "of_nat n" EXP754] u by (simp add: word_le_nat_alt)
  moreover have "unat EXP754 = 2047 * 2 ^ 52" by (simp add: EXP754_def)
  ultimately show ?thesis using n by (auto simp: IsNaN_def)
qed

end
