(* ===== verification/RecordFormat.thy ===== *)
theory RecordFormat
  imports Serial
begin

text \<open>
  SQLite's record format: the encoder, the opcode \<open>OP_MakeRecord\<close> of \<open>vdbe.c\<close>, and the decoder
  \<open>sqlite3VdbeRecordUnpack\<close> of \<open>vdbeaux.c\<close>
  (\<open>src/src/db/sqlite3/core/sqlite3.c\<close>, lines 83200 to 83243 and 89896 to 90050).

  The allocator is a parameter: \<open>al i n\<close> answers the allocation of \<open>n\<close> bytes for register \<open>i\<close>. The
  value \<open>None\<close> of a definition in the option type stands for undefined behaviour: the
  dereference of a null pointer or a store past the array of cells. The affinity pass at the head
  of the opcode is not modelled.
\<close>

unbundle bit_operations_syntax

subsection \<open>Decoding a record\<close>

fun RecordUnpack_loop ::
    "mem \<Rightarrow> u32 \<Rightarrow> u32 \<Rightarrow> u16 \<Rightarrow> Mem list \<Rightarrow> u32 \<Rightarrow> u32 \<Rightarrow> u16 \<Rightarrow> Mem list \<Rightarrow>
       (Mem list \<times> Mem list \<times> u32 \<times> u16) option" where
  "RecordUnpack_loop aKey nKey szHdr nField don idx d u rest =
     (if idx < szHdr \<and> d \<le> nKey
      then (case rest of
              [] \<Rightarrow> None
            | m # ms \<Rightarrow>
                let (serial_type, k) = getVarint32 (mem_at aKey (unat idx));
                    idx = idx + of_nat k;
                    m = m\<lparr>szMalloc := 0, mptr := Znull\<rparr>;
                    (m, k) = sqlite3VdbeSerialGet (mem_at aKey (unat d)) serial_type m;
                    d = d + of_nat k;
                    u = u + 1
                in if nField \<le> u then Some (don @ [m], ms, d, u)
                   else RecordUnpack_loop aKey nKey szHdr nField (don @ [m]) idx d u ms)
      else Some (don, rest, d, u))"

declare RecordUnpack_loop.simps [simp del]

definition sqlite3VdbeRecordUnpack ::
    "int \<Rightarrow> mem \<Rightarrow> Mem list \<Rightarrow> u16 \<Rightarrow> (Mem list \<times> u16) option" where
  "sqlite3VdbeRecordUnpack nKey aKey aMem nField =
     (let (szHdr, idx) = getVarint32 aKey in
      case RecordUnpack_loop aKey (word_of_int nKey) szHdr nField [] (of_nat idx) szHdr 0 aMem of
        None \<Rightarrow> None
      | Some (don, rest, d, u) \<Rightarrow>
          let don = (if word_of_int nKey < d \<and> u \<noteq> 0
                     then butlast don @ [sqlite3VdbeMemSetNull (last don)] else don)
          in Some (don @ rest, u))"

subsection \<open>Encoding a record\<close>

datatype enc_error = No_mem | Too_big

text \<open>
  One round of the sizing loop: the state is \<open>nData\<close>, \<open>nHdr\<close> (an \<open>int\<close> that counts at most nine
  bytes per field, kept as a natural number) and \<open>nZero\<close>.
\<close>

type_synonym enc_sizes = "u64 \<times> nat \<times> int"

definition MakeRecord_field ::
    "int \<Rightarrow> (int \<Rightarrow> (mem \<times> int) option) \<Rightarrow> Mem \<Rightarrow> enc_sizes \<Rightarrow> enc_error + Mem \<times> enc_sizes" where
  "MakeRecord_field file_format al m = (\<lambda>(nData, nHdr, nZero).
     if has m MEM_Null
     then Inr (m\<lparr>uTemp := (if has m MEM_Zero then 10 else 0)\<rparr>, nData, nHdr + 1, nZero)
     else if has m (MEM_Int OR MEM_IntReal)
     then let i = u_i m; uu = (if i < 0 then NOT (mu m) else mu m); nHdr = nHdr + 1 in
       if uu \<le> 127
       then if i AND 1 = i \<and> 4 \<le> file_format
            then Inr (m\<lparr>uTemp := 8 + ucast uu\<rparr>, nData, nHdr, nZero)
            else Inr (m\<lparr>uTemp := 1\<rparr>, nData + 1, nHdr, nZero)
       else if uu \<le> 32767 then Inr (m\<lparr>uTemp := 2\<rparr>, nData + 2, nHdr, nZero)
       else if uu \<le> 8388607 then Inr (m\<lparr>uTemp := 3\<rparr>, nData + 3, nHdr, nZero)
       else if uu \<le> 2147483647 then Inr (m\<lparr>uTemp := 4\<rparr>, nData + 4, nHdr, nZero)
       else if uu \<le> 140737488355327 then Inr (m\<lparr>uTemp := 5\<rparr>, nData + 6, nHdr, nZero)
       else if has m MEM_IntReal
       then Inr (m\<lparr>mu := i64_to_double i, mflags := (mflags m AND NOT MEM_IntReal) OR MEM_Real,
                   uTemp := 7\<rparr>, nData + 8, nHdr, nZero)
       else Inr (m\<lparr>uTemp := 6\<rparr>, nData + 8, nHdr, nZero)
     else if has m MEM_Real then Inr (m\<lparr>uTemp := 7\<rparr>, nData + 8, nHdr + 1, nZero)
     else let len = word_of_int (mn m) :: u32;
              serial_type = len * 2 + 12 + (if has m MEM_Str then 1 else 0);
              serial_type = (if has m MEM_Zero then serial_type + word_of_int (u_nZero m * 2)
                             else serial_type);
              finish = (\<lambda>m len nZero.
                Inr (m\<lparr>uTemp := serial_type\<rparr>, nData + ucast (len::u32),
                     nHdr + sqlite3VarintLen (ucast serial_type), nZero))
          in if has m MEM_Zero
             then if nData \<noteq> 0
                  then let (m, rc) = sqlite3VdbeMemExpandBlob al m in
                       if rc \<noteq> SQLITE_OK then Inl No_mem
                       else finish m (len + word_of_int (u_nZero m)) nZero
                  else finish m len (nZero + u_nZero m)
             else finish m len nZero)"

text \<open>The sizing loop runs from the last field to the first; \<open>i\<close> is the register of the first.\<close>

fun MakeRecord_sizes ::
    "int \<Rightarrow> (nat \<Rightarrow> int \<Rightarrow> (mem \<times> int) option) \<Rightarrow> nat \<Rightarrow> Mem list \<Rightarrow>
       enc_error + Mem list \<times> enc_sizes" where
  "MakeRecord_sizes file_format al i [] = Inr ([], 0, 0, 0)"
| "MakeRecord_sizes file_format al i (m # ms) =
     (case MakeRecord_sizes file_format al (Suc i) ms of
        Inl e \<Rightarrow> Inl e
      | Inr (ms', st) \<Rightarrow>
          (case MakeRecord_field file_format (al i) m st of
             Inl e \<Rightarrow> Inl e
           | Inr (m', st') \<Rightarrow> Inr (m' # ms', st')))"

definition MakeRecord_nHdr :: "nat \<Rightarrow> nat" where
  "MakeRecord_nHdr nHdr =
     (if nHdr \<le> 126 then nHdr + 1
      else let nVarint = sqlite3VarintLen (of_nat nHdr); nHdr = nHdr + nVarint
           in if nVarint < sqlite3VarintLen (of_nat nHdr) then nHdr + 1 else nHdr)"

definition MakeRecord_out ::
    "(int \<Rightarrow> (mem \<times> int) option) \<Rightarrow> int \<Rightarrow> Mem \<Rightarrow> int \<Rightarrow> int \<Rightarrow> enc_error + Mem" where
  "MakeRecord_out al limit pOut nByte nZero =
     (let prepared =
        (if nByte + nZero \<le> szMalloc pOut then Inr (pOut\<lparr>mptr := Zown\<rparr>)
         else if limit < nByte + nZero then Inl Too_big
         else let (pOut, rc) = sqlite3VdbeMemClearAndResize al pOut nByte
              in if rc \<noteq> SQLITE_OK then Inl No_mem else Inr pOut)
      in case prepared of
           Inl e \<Rightarrow> Inl e
         | Inr pOut \<Rightarrow>
             let pOut = pOut\<lparr>mn := nByte, mflags := MEM_Blob\<rparr>
             in Inr (if nZero \<noteq> 0
                     then (set_nZero nZero pOut)\<lparr>mflags := MEM_Blob OR MEM_Zero\<rparr> else pOut))"

fun MakeRecord_write :: "Mem list \<Rightarrow> mem \<Rightarrow> nat \<Rightarrow> nat \<Rightarrow> (mem \<times> nat \<times> nat) option" where
  "MakeRecord_write [] p zHdr zPayload = Some (p, zHdr, zPayload)"
| "MakeRecord_write (m # ms) p zHdr zPayload =
     (let (q, k) = putVarint32 (mem_at p zHdr) (uTemp m);
          p = mem_splice p zHdr q; zHdr = zHdr + k
      in case sqlite3VdbeSerialPut (mem_at p zPayload) m (uTemp m) of
           None \<Rightarrow> None
         | Some (q, k) \<Rightarrow> MakeRecord_write ms (mem_splice p zPayload q) zHdr (zPayload + k))"

definition OP_MakeRecord ::
    "(nat \<Rightarrow> int \<Rightarrow> (mem \<times> int) option) \<Rightarrow> int \<Rightarrow> int \<Rightarrow> Mem list \<Rightarrow> nat \<Rightarrow> nat \<Rightarrow> nat \<Rightarrow>
       (enc_error + Mem list) option" where
  "OP_MakeRecord al limit file_format aMem p1 p2 p3 =
     (case MakeRecord_sizes file_format al p1 (take p2 (drop p1 aMem)) of
        Inl e \<Rightarrow> Some (Inl e)
      | Inr (ms, nData, nHdr, nZero) \<Rightarrow>
          let nHdr = MakeRecord_nHdr nHdr; nByte = sint (of_nat nHdr + nData) in
          (case MakeRecord_out (al p3) limit (aMem ! p3) nByte nZero of
             Inl e \<Rightarrow> Some (Inl e)
           | Inr pOut \<Rightarrow>
               let (p, zHdr) = putVarint32 (zMalloc pOut) (of_nat nHdr) in
               (case MakeRecord_write ms p zHdr nHdr of
                  None \<Rightarrow> None
                | Some (p, zHdr, zPayload) \<Rightarrow>
                    Some (Inr ((take p1 aMem @ ms @ drop (p1 + p2) aMem)
                      [p3 := pOut\<lparr>zMalloc := p\<rparr>])))))"

definition field_ok :: "Mem \<Rightarrow> bool" where
  "field_ok m \<longleftrightarrow>
     has m MEM_Null \<or> has m (MEM_Int OR MEM_IntReal) \<or> has m MEM_Real \<or>
     (0 \<le> mn m \<and> (0 < mn m \<longrightarrow> zmem m \<noteq> None) \<and> (mptr m = Zown \<longrightarrow> mn m \<le> szMalloc m)
      \<and> (has m MEM_Zero \<longrightarrow> 0 \<le> u_nZero m \<and> mn m + u_nZero m \<le> 1000000000) \<and> mn m \<le> 1000000000)"

subsection \<open>The sizing loop\<close>

text \<open>An upper bound for the bytes of a field.\<close>

definition cell_size :: "Mem \<Rightarrow> nat" where
  "cell_size m =
     (if has m MEM_Null \<or> has m (MEM_Int OR MEM_IntReal) \<or> has m MEM_Real then 8
      else length (content m))"

definition field_post :: "Mem \<Rightarrow> enc_sizes \<Rightarrow> Mem \<Rightarrow> enc_sizes \<Rightarrow> bool" where
  "field_post m st m' st' \<longleftrightarrow>
     (\<exists>bs z. puts m' bs \<and> decodes (bs @ replicate z 0) (uTemp m') (stored m)
        \<and> length bs + z \<le> cell_size m \<and> (0 < z \<longrightarrow> fst st = 0)
        \<and> st' = (fst st + of_nat (length bs), fst (snd st) + length (hdr_code (uTemp m')),
                 snd (snd st) + int z))"

lemma field_postI:
  assumes "puts m' bs" "decodes (bs @ replicate z 0) (uTemp m') (stored m)"
    "length bs + z \<le> cell_size m" "0 < z \<Longrightarrow> nData = 0"
    "nHdr' = nHdr + length (hdr_code (uTemp m'))" "nData' = nData + of_nat (length bs)" "nZero' = nZero + int z"
  shows "field_post m (nData, nHdr, nZero) m' (nData', nHdr', nZero')"
  unfolding field_post_def using assms by (intro exI [of _ bs] exI [of _ z]) simp

text \<open>A field of fixed size, whose type takes one byte of the header.\<close>

lemma field_post_fixed:
  assumes "puts m' bs" "decodes bs (uTemp m') (stored m)" "length bs \<le> 8" "uTemp m' < 128"
    "has m MEM_Null \<or> has m (MEM_Int OR MEM_IntReal) \<or> has m MEM_Real"
  shows "field_post m (nData, nHdr, nZero) m' (nData + of_nat (length bs), nHdr + 1, nZero)"
proof -
  have "length (hdr_code (uTemp m')) = 1"
    using assms(4) putVarint32_code [of "\<lambda>_. 0" "uTemp m'"] by (simp add: putVarint32_def)
  then show ?thesis using assms by (intro field_postI [of _ bs 0]) (simp_all add: cell_size_def)
qed

text \<open>The rounds of the sizing loop, one kind of value at a time.\<close>

lemma field_null:
  assumes "has m MEM_Null"
  shows "\<exists>m' st'. MakeRecord_field fmt al m st = Inr (m', st') \<and> field_post m st m' st'"
proof (cases st)
  case (fields a b c)
  have "stored m = (if has m MEM_Zero then VNoChange else VNull)"
    using assms by (simp add: stored_def cell_value_def)
  then show ?thesis
    using assms fields field_post_fixed [of "m\<lparr>uTemp := 10\<rparr>" "[]" m a b c]
      field_post_fixed [of "m\<lparr>uTemp := 0\<rparr>" "[]" m a b c]
    by (simp add: MakeRecord_field_def puts_simps decodes_null)
qed

lemma field_real:
  assumes "\<not> has m MEM_Null" "\<not> has m (MEM_Int OR MEM_IntReal)" "has m MEM_Real"
  shows "\<exists>m' st'. MakeRecord_field fmt al m st = Inr (m', st') \<and> field_post m st m' st'"
proof (cases st)
  case (fields a b c)
  have "stored m = (if IsNaN (mu m) then VNull else VReal (mu m))"
    using assms by (simp add: stored_def cell_value_def)
  then show ?thesis
    using assms fields decodes_real [of "mu m"]
      field_post_fixed [of "m\<lparr>uTemp := 7\<rparr>" "be_bytes 8 (mu m)" m a b c]
    by (simp add: MakeRecord_field_def puts_simps)
qed

lemma field_int_post:
  assumes "puts m' bs" "decodes bs (uTemp m') (VInt (u_i m))" "length bs \<le> 8" "uTemp m' < 128"
    "stored m = VInt (u_i m)" "has m (MEM_Int OR MEM_IntReal)" "nData' = nData + of_nat (length bs)" "nHdr' = nHdr + 1"
  shows "field_post m (nData, nHdr, nZero) m' (nData', nHdr', nZero)"
  using field_post_fixed [of m' bs m nData nHdr nZero] assms by simp

lemma int_const:
  assumes "i AND 1 = (i::int)"
  shows "i = 0 \<or> i = 1"
proof -
  have "i mod 2 = i" using assms by (simp add: and_one_eq)
  then show ?thesis by presburger
qed

lemma field_int:
  assumes "\<not> has m MEM_Null" "has m (MEM_Int OR MEM_IntReal)"
  shows "\<exists>m' st'. MakeRecord_field fmt al m st = Inr (m', st') \<and> field_post m st m' st'"
proof (cases st)
  case (fields a b c)
  let ?i = "u_i m"
  define uu where "uu = (if ?i < 0 then NOT (mu m) else mu m)"
  have int: "cell_value m = VInt ?i" using assms by (simp add: cell_value_def)
  have wide: "uu \<le> 140737488355327 \<longleftrightarrow> - 140737488355328 \<le> ?i \<and> ?i \<le> 140737488355327"
    using magnitude [of "mu m" 140737488355327] by (simp add: u_i_def uu_def)
  have kept: "stored m = VInt ?i" if "uu \<le> 140737488355327 \<or> \<not> has m MEM_IntReal"
    using that wide by (auto simp: stored_def int)
  have fits: "fits k (mu m)" if "uu \<le> d" "unat d < 2 ^ k" for d k
    using that fitsI [of "mu m" d k] by (simp add: u_i_def uu_def)
  have le: "uu \<le> 140737488355327" if "uu \<le> d" "unat d \<le> 140737488355327" for d
    using that by (simp add: word_le_nat_alt)
  note step = MakeRecord_field_def assms fields Let_def uu_def [symmetric]
  note int_post = field_int_post [of _ _ m _ a _ b c]
  consider
      "uu \<le> 127" "?i AND 1 = ?i \<and> 4 \<le> fmt" | "uu \<le> 127" "\<not> (?i AND 1 = ?i \<and> 4 \<le> fmt)"
    | "\<not> uu \<le> 127" "uu \<le> 32767" | "\<not> uu \<le> 127" "\<not> uu \<le> 32767" "uu \<le> 8388607"
    | "\<not> uu \<le> 127" "\<not> uu \<le> 32767" "\<not> uu \<le> 8388607" "uu \<le> 2147483647"
    | "\<not> uu \<le> 127" "\<not> uu \<le> 32767" "\<not> uu \<le> 8388607" "\<not> uu \<le> 2147483647"
      "uu \<le> 140737488355327"
    | "\<not> uu \<le> 127" "\<not> uu \<le> 32767" "\<not> uu \<le> 8388607" "\<not> uu \<le> 2147483647"
      "\<not> uu \<le> 140737488355327" "has m MEM_IntReal"
    | "\<not> uu \<le> 127" "\<not> uu \<le> 32767" "\<not> uu \<le> 8388607" "\<not> uu \<le> 2147483647"
      "\<not> uu \<le> 140737488355327" "\<not> has m MEM_IntReal"
    by blast
  then show ?thesis
  proof cases
    case 1
    then have "?i = 0 \<or> ?i = 1" by (intro int_const) simp
    moreover have "mu m = word_of_int ?i" by (simp add: u_i_def)
    ultimately have "uu = mu m" "mu m = 0 \<and> ?i = 0 \<or> mu m = 1 \<and> ?i = 1"
      by (auto simp: uu_def)
    with 1 show ?thesis
      using int_post [of "m\<lparr>uTemp := 8 + ucast uu\<rparr>" "[]" a "b + 1"] kept le [of 127]
      by (auto simp: step puts_simps decodes_const)
  next
    case 2
    with int_post [of "m\<lparr>uTemp := 1\<rparr>" "be_bytes (Suc 0) (mu m)" "a + 1" "b + 1"] show ?thesis
      by (auto simp: step puts_simps decodes_int1 [of "mu m", folded u_i_def] fits [of 127] kept le [of 127])
  next
    case 3
    with int_post [of "m\<lparr>uTemp := 2\<rparr>" "be_bytes 2 (mu m)" "a + 2" "b + 1"] show ?thesis
      by (simp add: step puts_simps decodes_int2 [of "mu m", folded u_i_def] fits [of 32767] kept le [of 32767])
  next
    case 4
    with int_post [of "m\<lparr>uTemp := 3\<rparr>" "be_bytes 3 (mu m)" "a + 3" "b + 1"] show ?thesis
      by (simp add: step puts_simps decodes_int3 [of "mu m", folded u_i_def] fits [of 8388607] kept le [of 8388607])
  next
    case 5
    with int_post [of "m\<lparr>uTemp := 4\<rparr>" "be_bytes 4 (mu m)" "a + 4" "b + 1"] show ?thesis
      by (simp add: step puts_simps decodes_int4 [of "mu m", folded u_i_def] fits [of 2147483647] kept le [of 2147483647])
  next
    case 6
    with int_post [of "m\<lparr>uTemp := 5\<rparr>" "be_bytes 6 (mu m)" "a + 6" "b + 1"] show ?thesis
      by (simp add: step puts_simps decodes_int6 [of "mu m", folded u_i_def] fits [of 140737488355327] kept)
  next
    case 7
    let ?m = "m\<lparr>mu := i64_to_double ?i, mflags := (mflags m AND NOT MEM_IntReal) OR MEM_Real\<rparr>"
    have "- 9223372036854775808 \<le> ?i" "?i \<le> 9223372036854775807"
      using sint_ge [of "mu m"] sint_lt [of "mu m"] by (simp_all add: u_i_def)
    then have "\<not> IsNaN (i64_to_double ?i)" by (rule i64_to_double_number)
    moreover have "stored m = VReal (i64_to_double ?i)" using 7 wide by (simp add: stored_def int)
    ultimately show ?thesis
      using 7 field_post_fixed [of "?m\<lparr>uTemp := 7\<rparr>" "be_bytes 8 (i64_to_double ?i)" m a b c]
        decodes_real [of "i64_to_double ?i"] puts_simps(7) [of ?m]
      by (simp add: step)
  next
    case 8
    with int_post [of "m\<lparr>uTemp := 6\<rparr>" "be_bytes 8 (mu m)" "a + 8" "b + 1"] show ?thesis
      by (simp add: step puts_simps decodes_int8 [of "mu m", folded u_i_def] kept)
  qed
qed

text \<open>Expanding the zero tail of a blob keeps its content.\<close>

lemma Grow_bytes:
  assumes "sqlite3VdbeMemGrow al m n True = (m', SQLITE_OK)" "0 \<le> mn m" "mn m \<le> n"
    "mptr m = Zown \<longrightarrow> mn m \<le> szMalloc m"
  shows "mptr m' = Zown" "mn m' = mn m" "mu m' = mu m" "mflags m' = mflags m AND NOT (MEM_Dyn OR MEM_Ephem OR MEM_Static)"
    "\<forall>z. zmem m = Some z \<longrightarrow> mem_bytes (zMalloc m') (nat (mn m)) = mem_bytes z (nat (mn m))"
proof -
  from assms(1) obtain blk sz where al: "al n = Some (blk, sz)"
    by (auto simp: sqlite3VdbeMemGrow_def SQLITE_OK_def SQLITE_NOMEM_def split: option.splits)
  show "mptr m' = Zown" "mn m' = mn m" "mu m' = mu m"
    "mflags m' = mflags m AND NOT (MEM_Dyn OR MEM_Ephem OR MEM_Static)"
    using assms(1) al by (auto simp: sqlite3VdbeMemGrow_def Let_def)
  show "\<forall>z. zmem m = Some z \<longrightarrow> mem_bytes (zMalloc m') (nat (mn m)) = mem_bytes z (nat (mn m))"
  proof (intro allI impI)
    fix z
    assume z: "zmem m = Some z"
    have "zMalloc m' i = z i" if "i < nat (mn m)" for i
      using assms al z that
      by (cases "mptr m") (auto simp: sqlite3VdbeMemGrow_def Let_def zmem_def mem_write_apply)
    then show "mem_bytes (zMalloc m') (nat (mn m)) = mem_bytes z (nat (mn m))"
      by (simp add: list_eq_iff_nth_eq)
  qed
qed

definition base :: "Mem \<Rightarrow> u8 list" where
  "base m = (case zmem m of None \<Rightarrow> [] | Some z \<Rightarrow> mem_bytes z (nat (mn m)))"

lemma zmem_uTemp [simp]: "zmem (m\<lparr>uTemp := t\<rparr>) = zmem m"
  by (cases "mptr m") (simp_all add: zmem_def)

lemma base_uTemp [simp]: "base (m\<lparr>uTemp := t\<rparr>) = base m"
  by (cases "zmem m") (simp_all add: base_def)

lemma content_base: "content m = base m @ (if has m MEM_Zero then replicate (nat (u_nZero m)) 0 else [])"
  by (simp add: content_def base_def)

lemma length_base: "(0 < mn m \<Longrightarrow> zmem m \<noteq> None) \<Longrightarrow> length (base m) = nat (mn m)"
  by (cases "0 < mn m") (auto simp: base_def mem_bytes_def split: option.splits)

lemma bytes_write: "mem_bytes (mem_write p k bs) (k + length bs) = mem_bytes p k @ bs"
  by (rule nth_equalityI) (auto simp: mem_write_apply nth_append)

lemma ExpandBlob_content:
  assumes "sqlite3VdbeMemExpandBlob al m = (m', SQLITE_OK)" "has m MEM_Zero" "0 \<le> mn m" "0 \<le> u_nZero m"
    "0 < mn m \<longrightarrow> zmem m \<noteq> None" "mptr m = Zown \<longrightarrow> mn m \<le> szMalloc m"
  shows "mn m' = mn m + u_nZero m" "base m' = content m" "0 < mn m' \<longrightarrow> zmem m' \<noteq> None"
    "u_nZero m' = u_nZero m"
proof -
  let ?n = "if mn m + u_nZero m \<le> 0 then 1 else mn m + u_nZero m"
  have "mn m' = mn m + u_nZero m \<and> base m' = content m \<and> (0 < mn m' \<longrightarrow> zmem m' \<noteq> None)
      \<and> u_nZero m' = u_nZero m"
  proof (cases "mn m + u_nZero m \<le> 0 \<and> \<not> has m MEM_Blob")
    case True
    with assms have "m' = m" "mn m = 0" "u_nZero m = 0"
      by (auto simp: sqlite3VdbeMemExpandBlob_def Let_def)
    then show ?thesis by (simp add: content_base)
  next
    case False
    obtain m1 rc where g: "sqlite3VdbeMemGrow al m ?n True = (m1, rc)" by fastforce
    with assms(1) False have rc: "rc = SQLITE_OK"
      and m': "m' = m1\<lparr>zMalloc := mem_write (zMalloc m1) (nat (mn m1)) (replicate (nat (u_nZero m1)) 0),
          mn := mn m1 + u_nZero m1, mflags := mflags m1 AND NOT (MEM_Zero OR MEM_Term)\<rparr>"
      by (auto simp: sqlite3VdbeMemExpandBlob_def Let_def SQLITE_OK_def SQLITE_NOMEM_def
          split: prod.splits if_splits)
    have "mn m \<le> ?n" using assms(3,4) by simp
    note m1 = Grow_bytes [OF g [unfolded rc] assms(3) this assms(6)]
    have "base m = mem_bytes (zMalloc m1) (nat (mn m))"
      using m1(5) assms(3,5) by (cases "zmem m") (auto simp: base_def mem_bytes_def)
    moreover have "nat (mn m + u_nZero m) = nat (mn m) + nat (u_nZero m)"
      using assms(3,4) by (simp add: nat_add_distrib)
    moreover have nz: "u_nZero m1 = u_nZero m" using m1(3) by (simp add: u_nZero_def)
    moreover have z': "zmem m' = Some (mem_write (zMalloc m1) (nat (mn m)) (replicate (nat (u_nZero m)) 0))"
      and n': "mn m' = mn m + u_nZero m" using m1 nz by (simp_all add: m' zmem_def)
    ultimately have "base m' = content m"
      using bytes_write [of "zMalloc m1" "nat (mn m)" "replicate (nat (u_nZero m)) 0"] assms(2)
      by (simp add: content_base base_def [of m'])
    then show ?thesis using z' n' m1(3) by (simp add: m' u_nZero_def)
  qed
  then show "mn m' = mn m + u_nZero m" "base m' = content m" "0 < mn m' \<longrightarrow> zmem m' \<noteq> None"
    "u_nZero m' = u_nZero m" by simp_all
qed

lemma ExpandBlob_rc:
  "sqlite3VdbeMemExpandBlob al m = (m', rc) \<Longrightarrow> rc = SQLITE_OK \<or> (\<exists>n. al n = None)"
  by (auto simp: sqlite3VdbeMemExpandBlob_def sqlite3VdbeMemGrow_def Let_def SQLITE_OK_def
      split: if_splits option.splits)

lemma unat_of_int: "0 \<le> i \<Longrightarrow> i < 4294967296 \<Longrightarrow> unat (word_of_int i :: u32) = nat i"
  by (simp add: unat_eq_nat_uint uint_word_of_int)

lemma ucast_len:
  "0 \<le> i \<Longrightarrow> i < 4294967296 \<Longrightarrow> (ucast (word_of_int i :: u32) :: u64) = word_of_int i"
  by (simp add: word_uint_eq_iff unsigned_ucast_eq uint_word_of_int take_bit_eq_mod)

lemma field_bytes_post:
  assumes "puts m' bs" "bs @ replicate z 0 = content m"
    "\<not> has m MEM_Null" "\<not> has m (MEM_Int OR MEM_IntReal)" "\<not> has m MEM_Real"
    "unat (uTemp m') = 2 * length (content m) + (if has m MEM_Str then 13 else 12)"
    "0 < z \<Longrightarrow> nData = 0" "nData' = nData + of_nat (length bs)" "nZero' = nZero + int z"
  shows "field_post m (nData, nHdr, nZero) m' (nData', nHdr + sqlite3VarintLen (ucast (uTemp m')), nZero')"
proof (rule field_postI [of _ bs z])
  show "decodes (bs @ replicate z 0) (uTemp m') (stored m)"
    using decodes_bytes [OF assms(6)] assms(2-5) by (simp add: stored_def cell_value_def split: if_splits)
  have "length (bs @ replicate z 0) = length (content m)" by (simp only: assms(2))
  with assms(3-5) show "length bs + z \<le> cell_size m" by (simp add: cell_size_def)
qed (use assms in \<open>simp_all add: length_hdr_code\<close>)

lemma field_bytes:
  assumes "field_ok m" and kind: "\<not> has m MEM_Null" "\<not> has m (MEM_Int OR MEM_IntReal)" "\<not> has m MEM_Real"
  shows "(\<exists>m' st'. MakeRecord_field fmt al m st = Inr (m', st') \<and> field_post m st m' st')
    \<or> (MakeRecord_field fmt al m st = Inl No_mem \<and> (\<exists>n. al n = None))"
proof (cases st)
  case (fields a b c)
  define nz where "nz = (if has m MEM_Zero then u_nZero m else 0)"
  define t :: u32 where "t = word_of_int (mn m) * 2 + 12 + (if has m MEM_Str then 1 else 0)"
  define t' where "t' = (if has m MEM_Zero then t + word_of_int (u_nZero m * 2) else t)"
  have ok: "0 \<le> mn m" "0 < mn m \<longrightarrow> zmem m \<noteq> None" "mptr m = Zown \<longrightarrow> mn m \<le> szMalloc m"
    "0 \<le> nz" "mn m + nz \<le> 1000000000"
    using assms by (auto simp: field_ok_def nz_def)
  have len: "length (content m) = nat (mn m) + nat nz"
    using ok(2) by (simp add: content_base length_base nz_def)
  have "t' = word_of_int (mn m * 2 + (if has m MEM_Str then 13 else 12) + nz * 2)"
    by (simp add: t'_def t_def nz_def)
  then have "unat t' = nat (mn m * 2 + (if has m MEM_Str then 13 else 12) + nz * 2)"
    using ok by (simp only:) (rule unat_of_int; auto)
  then have t': "unat t' = 2 * length (content m) + (if has m MEM_Str then 13 else 12)"
    unfolding len using ok(1,4) by (auto simp: nat_add_distrib nat_mult_distrib)
  then have big: "12 \<le> t'" by (auto simp: word_le_nat_alt)
  have puts: "puts (m'\<lparr>uTemp := t'\<rparr>) (base m')" if "0 < mn m' \<longrightarrow> zmem m' \<noteq> None" for m'
    using that big puts_bytes [of "m'\<lparr>uTemp := t'\<rparr>", folded base_def] by simp
  note step = MakeRecord_field_def kind fields Let_def t_def [symmetric] t'_def [symmetric]
  note post = field_bytes_post [OF _ _ kind, of "m'\<lparr>uTemp := t'\<rparr>" for m', simplified, OF _ _ t']
  consider "\<not> has m MEM_Zero" | "has m MEM_Zero" "a = 0" | "has m MEM_Zero" "a \<noteq> 0" by blast
  then show ?thesis
  proof cases
    case 1
    then have c: "content m = base m" using ok by (simp add: content_base)
    have "field_post m (a, b, c) (m\<lparr>uTemp := t'\<rparr>)
        (a + ucast (word_of_int (mn m) :: u32), b + sqlite3VarintLen (ucast t'), c)"
      by (rule post [of m "base m" 0])
        (use c ok puts [OF ok(2)] in \<open>simp_all add: length_base ucast_len\<close>)
    moreover have "t' = t" using 1 by (simp add: t'_def)
    ultimately show ?thesis using 1 by (simp add: step)
  next
    case 2
    then have c: "content m = base m @ replicate (nat nz) 0" "nz = u_nZero m"
      by (simp_all add: content_base nz_def)
    have "field_post m (a, b, c) (m\<lparr>uTemp := t'\<rparr>)
        (a + ucast (word_of_int (mn m) :: u32), b + sqlite3VarintLen (ucast t'), c + u_nZero m)"
      by (rule post [of m "base m" "nat nz"])
        (use 2 c ok puts [OF ok(2)] in \<open>simp_all add: length_base ucast_len\<close>)
    moreover have "t' = t + word_of_int (u_nZero m) * 2" using 2 by (simp add: t'_def)
    ultimately show ?thesis using 2 by (simp add: step)
  next
    case 3
    obtain m1 rc where x: "sqlite3VdbeMemExpandBlob al m = (m1, rc)" by fastforce
    show ?thesis
    proof (cases "rc = SQLITE_OK")
      case True
      have nz: "nz = u_nZero m" using 3 by (simp add: nz_def)
      note m1 = ExpandBlob_content [OF x [unfolded True] 3(1) ok(1) ok(4) [unfolded nz] ok(2,3)]
      have "word_of_int (mn m) + word_of_int (u_nZero m1) = (word_of_int (mn m1) :: u32)"
        by (simp add: m1)
      moreover have "length (content m) = nat (mn m1)" "0 \<le> mn m1" "mn m1 \<le> 1000000000"
        using ok nz m1(1) len by (simp_all add: nat_add_distrib)
      then have "field_post m (a, b, c) (m1\<lparr>uTemp := t'\<rparr>)
          (a + ucast (word_of_int (mn m1) :: u32), b + sqlite3VarintLen (ucast t'), c)"
        by (intro post [of m1 "base m1" 0]) (use puts [OF m1(3)] m1(2) in \<open>simp_all add: ucast_len\<close>)
      moreover have "t' = t + word_of_int (u_nZero m) * 2" using 3 by (simp add: t'_def)
      ultimately show ?thesis using 3 True x by (simp add: step)
    next
      case False
      with 3 x ExpandBlob_rc [OF x] show ?thesis by (simp add: step)
    qed
  qed
qed

lemma MakeRecord_field_post:
  assumes "field_ok m"
  shows "(\<exists>m' st'. MakeRecord_field fmt al m st = Inr (m', st') \<and> field_post m st m' st')
    \<or> (MakeRecord_field fmt al m st = Inl No_mem \<and> (\<exists>n. al n = None))"
  using field_null [of m] field_int [of m] field_real [of m] field_bytes [OF assms] by blast

text \<open>
  The whole loop: every field gets the bytes \<open>bs\<close> it will put into the record and the
  bytes \<open>full\<close> a reader is to find for it; the two differ by a tail of zero bytes that the record
  does not store.
\<close>

definition planned :: "Mem \<Rightarrow> Mem \<times> u8 list \<times> u8 list \<Rightarrow> bool" where
  "planned m = (\<lambda>(m', bs, full). puts m' bs \<and> decodes full (uTemp m') (stored m))"

definition plan_bytes :: "(Mem \<times> u8 list \<times> u8 list) list \<Rightarrow> u8 list" where
  "plan_bytes xs = concat (map (\<lambda>x. fst (snd x)) xs)"

definition plan_full :: "(Mem \<times> u8 list \<times> u8 list) list \<Rightarrow> u8 list" where
  "plan_full xs = concat (map (\<lambda>x. snd (snd x)) xs)"

definition plan_types :: "(Mem \<times> u8 list \<times> u8 list) list \<Rightarrow> u8 list" where
  "plan_types xs = concat (map (\<lambda>x. hdr_code (uTemp (fst x))) xs)"

lemma plan_simps [simp]:
  "plan_bytes [] = []" "plan_bytes (x # xs) = fst (snd x) @ plan_bytes xs"
  "plan_full [] = []" "plan_full (x # xs) = snd (snd x) @ plan_full xs"
  "plan_types [] = []" "plan_types (x # xs) = hdr_code (uTemp (fst x)) @ plan_types xs"
  by (simp_all add: plan_bytes_def plan_full_def plan_types_def)

definition sizes_post :: "Mem list \<Rightarrow> (Mem \<times> u8 list \<times> u8 list) list \<Rightarrow> enc_sizes \<Rightarrow> bool" where
  "sizes_post ms xs st \<longleftrightarrow>
     list_all2 planned ms xs
     \<and> (\<exists>z. plan_full xs = plan_bytes xs @ replicate z 0
        \<and> length (plan_bytes xs) + z \<le> sum_list (map cell_size ms)
        \<and> st = (of_nat (length (plan_bytes xs)), length (plan_types xs), int z))"

lemma sizes_post_Cons:
  assumes "sizes_post ms xs st" "field_post m st m' st'" "sum_list (map cell_size ms) < 2 ^ 64"
  obtains x where "fst x = m'" "sizes_post (m # ms) (x # xs) st'"
proof -
  obtain z0 where s: "list_all2 planned ms xs" "plan_full xs = plan_bytes xs @ replicate z0 0"
    "length (plan_bytes xs) + z0 \<le> sum_list (map cell_size ms)"
    "st = (of_nat (length (plan_bytes xs)), length (plan_types xs), int z0)"
    using assms(1) unfolding sizes_post_def by (elim exE conjE) (rule that)
  obtain bs z where f: "puts m' bs" "decodes (bs @ replicate z 0) (uTemp m') (stored m)"
    "length bs + z \<le> cell_size m" "0 < z \<longrightarrow> fst st = 0"
    "st' = (fst st + of_nat (length bs), fst (snd st) + length (hdr_code (uTemp m')), snd (snd st) + int z)"
    using assms(2) unfolding field_post_def by (elim exE conjE) (rule that)
  have "length (plan_bytes xs) < 2 ^ 64" using s(3) assms(3) by linarith
  then have "plan_bytes xs = []" if "0 < z"
    using f(4) that s(4) unat_of_nat_less [of "length (plan_bytes xs)", where ?'a = 64] by simp
  then have "bs @ replicate z 0 @ plan_full xs = bs @ plan_bytes xs @ replicate (z + z0) 0"
    using s(2) by (cases "0 < z") (simp_all add: replicate_add)
  then have "sizes_post (m # ms) ((m', bs, bs @ replicate z 0) # xs) st'"
    unfolding sizes_post_def
    using s f by (intro conjI exI [of _ "z + z0"]) (simp_all add: planned_def add.commute)
  then show ?thesis using that [of "(m', bs, bs @ replicate z 0)"] by simp
qed

lemma cell_size_le: "field_ok m \<Longrightarrow> cell_size m \<le> 1000000000"
  using length_base [of m] by (auto simp: field_ok_def cell_size_def content_base)

lemma cell_sizes: "list_all field_ok ms \<Longrightarrow> sum_list (map cell_size ms) \<le> 1000000000 * length ms"
  by (induction ms) (auto dest: cell_size_le)

lemma MakeRecord_sizes_post:
  assumes "list_all field_ok ms" "length ms \<le> 65535"
  shows "(\<exists>xs st. MakeRecord_sizes fmt al i ms = Inr (map fst xs, st) \<and> sizes_post ms xs st)
    \<or> (MakeRecord_sizes fmt al i ms = Inl No_mem \<and> (\<exists>j n. al j n = None))"
  using assms
proof (induction ms arbitrary: i)
  case Nil
  then show ?case by (simp add: sizes_post_def)
next
  case (Cons m ms)
  show ?case
  proof (cases "MakeRecord_sizes fmt al (Suc i) ms")
    case (Inl e)
    with Cons.IH [of "Suc i"] Cons.prems show ?thesis by auto
  next
    case (Inr r)
    then obtain xs st where r: "MakeRecord_sizes fmt al (Suc i) ms = Inr (map fst xs, st)"
      and post: "sizes_post ms xs st"
      using Cons.IH [of "Suc i"] Cons.prems by auto
    have "field_ok m" using Cons.prems by simp
    from MakeRecord_field_post [OF this, of fmt "al i" st] show ?thesis
    proof (elim disjE exE conjE)
      fix m' st'
      assume m': "MakeRecord_field fmt (al i) m st = Inr (m', st')" "field_post m st m' st'"
      have "sum_list (map cell_size ms) < 2 ^ 64" using cell_sizes [of ms] Cons.prems by simp
      with post m'(2) obtain x where x: "fst x = m'" "sizes_post (m # ms) (x # xs) st'"
        by (rule sizes_post_Cons)
      with r m'(1) show ?thesis by (intro disjI1 exI [of _ "x # xs"] exI [of _ st']) simp
    qed (use r in auto)
  qed
qed

subsection \<open>The size of the header\<close>

lemma VarintLen_nat:
  assumes "n < 2097152"
  shows "sqlite3VarintLen (of_nat n) = (if n < 128 then 1 else if n < 16384 then 2 else 3)"
proof -
  have u: "unat (of_nat n :: u64) = n" using assms by (intro unat_of_nat_less) simp
  note le = length_putVarint_buf [of "of_nat n", unfolded u]
    and ge = length_putVarint_buf_lower [of _ "of_nat n", unfolded u]
  define l where "l = length (putVarint_buf (of_nat n))"
  have "n < 128 \<Longrightarrow> l \<le> 1" "n < 16384 \<Longrightarrow> l \<le> 2" "l \<le> 3" "1 \<le> l"
    "128 \<le> n \<Longrightarrow> 1 < l" "16384 \<le> n \<Longrightarrow> 2 < l"
    using assms le [of 1] le [of 2] le [of 3] ge [of 1] ge [of 2]
    by (simp_all add: l_def) (simp add: putVarint_buf.simps [of "of_nat n"])
  then have "l = (if n < 128 then 1 else if n < 16384 then 2 else 3)" by (auto simp: not_less)
  then show ?thesis by (simp add: VarintLen_buf l_def)
qed

lemma length_hdr_code_nat: "n < 4294967296 \<Longrightarrow> length (hdr_code (of_nat n)) = sqlite3VarintLen (of_nat n)"
  using ucast_len [of "int n"] by (simp add: length_hdr_code)

lemma MakeRecord_nHdr_correct:
  assumes "n < 1000000"
  shows "MakeRecord_nHdr n = length (hdr_code (of_nat (MakeRecord_nHdr n))) + n"
    and "MakeRecord_nHdr n \<le> n + 5"
proof -
  have len: "sqlite3VarintLen (of_nat k) = (if k < 128 then 1 else if k < 16384 then 2 else 3)" if "k \<le> 1000005" for k
    using that VarintLen_nat [of k] by simp
  define h where "h = MakeRecord_nHdr n"
  consider "n \<le> 126" | "n = 127" | "128 \<le> n" "n < 16382" | "16382 \<le> n" "n < 16384" | "16384 \<le> n" by linarith
  then have "h = (if n \<le> 126 then n + 1 else if n < 16382 then n + 2 else n + 3)"
    using assms len [of n] len [of "n + 1"] len [of "n + 2"] len [of "n + 3"]
    by cases (simp_all add: h_def MakeRecord_nHdr_def Let_def add.commute)
  moreover from this have "h \<le> 1000005" using assms by simp
  then have "length (hdr_code (of_nat h)) = (if h < 128 then 1 else if h < 16384 then 2 else 3)"
    using len [of h] length_hdr_code_nat [of h] by simp
  ultimately show "MakeRecord_nHdr n = length (hdr_code (of_nat (MakeRecord_nHdr n))) + n" "MakeRecord_nHdr n \<le> n + 5"
    unfolding h_def [symmetric] by (simp_all split: if_splits)
qed

subsection \<open>Writing the record\<close>

lemma MakeRecord_write_post:
  assumes "list_all (\<lambda>x. puts (fst x) (fst (snd x))) xs" "h + length (plan_types xs) \<le> d"
  shows "\<exists>q. MakeRecord_write (map fst xs) p h d
      = Some (q, h + length (plan_types xs), d + length (plan_bytes xs))
    \<and> holds q h (plan_types xs) \<and> holds q d (plan_bytes xs)
    \<and> (\<forall>i. i < h \<or> h + length (plan_types xs) \<le> i \<and> i < d \<or> d + length (plan_bytes xs) \<le> i
          \<longrightarrow> q i = p i)"
  using assms
proof (induction xs arbitrary: p h d)
  case Nil
  then show ?case by simp
next
  case (Cons x xs)
  obtain m bs full where x: "x = (m, bs, full)" by (cases x)
  let ?e = "hdr_code (uTemp m)"
  let ?p1 = "mem_write p h ?e"
  let ?p2 = "mem_write ?p1 d bs"
  from Cons.prems have le: "h + length ?e + length (plan_types xs) \<le> d" by (simp add: x)
  obtain q where q: "MakeRecord_write (map fst xs) ?p2 (h + length ?e) (d + length bs)
        = Some (q, h + length ?e + length (plan_types xs), d + length bs + length (plan_bytes xs))"
      "holds q (h + length ?e) (plan_types xs)" "holds q (d + length bs) (plan_bytes xs)"
    and frame: "\<And>i. i < h + length ?e \<or> h + length ?e + length (plan_types xs) \<le> i \<and> i < d + length bs
        \<or> d + length bs + length (plan_bytes xs) \<le> i \<Longrightarrow> q i = ?p2 i"
    using Cons.IH [of "h + length ?e" "d + length bs" ?p2] Cons.prems le by (auto simp: x)
  have put: "sqlite3VdbeSerialPut (mem_at ?p1 d) m (uTemp m) = Some (mem_write (mem_at ?p1 d) 0 bs, length bs)"
    using Cons.prems by (simp add: x puts_def)
  have run: "MakeRecord_write (map fst (x # xs)) p h d
      = Some (q, h + length (plan_types (x # xs)), d + length (plan_bytes (x # xs)))"
    using q(1) by (simp add: x hdr.put_code splice_write put add.assoc)
  have "holds q h ?e"
    by (rule holds_frame [OF holds_write [of p h ?e]]) (use le in \<open>simp add: frame mem_write_apply\<close>)
  moreover have "holds q d bs"
    by (rule holds_frame [OF holds_write [of ?p1 d bs]]) (use le in \<open>simp add: frame\<close>)
  ultimately show ?case
    using run q frame le by (auto simp: x mem_write_apply add.assoc)
qed

subsection \<open>Reading the record\<close>

lemma of_nat_u32: "a < 4294967296 \<Longrightarrow> unat (of_nat a :: u32) = a"
  by (rule unat_of_nat_less) simp

lemma RecordUnpack_loop_reads:
  assumes "list_all2 planned ms xs" "holds p i (plan_types xs)" "holds p d (plan_full xs)"
    "i + length (plan_types xs) = szHdr" "d + length (plan_full xs) = nKey" "szHdr \<le> nKey" "nKey < 4294967296"
    "u + length xs \<le> unat nField" "length xs \<le> length rest"
  shows "\<exists>cs. RecordUnpack_loop p (of_nat nKey) (of_nat szHdr) nField don (of_nat i) (of_nat d) (of_nat u) rest
      = Some (don @ cs, drop (length xs) rest, of_nat nKey, of_nat (u + length xs))
    \<and> map cell_value cs = map stored ms"
  using assms
proof (induction ms xs arbitrary: i d u don rest rule: list_all2_induct)
  case Nil
  then show ?case by (simp add: RecordUnpack_loop.simps)
next
  case (Cons m ms x xs)
  obtain m' bs full where x: "x = (m', bs, full)" by (cases x)
  let ?t = "uTemp m'"
  from Cons.prems obtain c rest' where rest: "rest = c # rest'" by (cases rest) auto
  have bounds: "i < szHdr" "d \<le> nKey" "i + length (hdr_code ?t) < 4294967296" "d + length full < 4294967296"
    using Cons.prems length_hdr_code_bounds(1) [of ?t] by (simp_all add: x)
  have go: "(of_nat i :: u32) < of_nat szHdr \<and> (of_nat d :: u32) \<le> of_nat nKey"
    using bounds Cons.prems by (simp add: word_less_nat_alt word_le_nat_alt of_nat_u32)
  have type: "getVarint32 (mem_at p i) = (?t, length (hdr_code ?t))"
    using Cons.prems by (intro hdr.get_at) (simp add: x)
  have "holds (mem_at p d) 0 full" using Cons.prems by (simp add: x)
  moreover have "decodes full ?t (stored m)" using Cons.hyps(1) by (simp add: x planned_def)
  ultimately obtain c' where c': "sqlite3VdbeSerialGet (mem_at p d) ?t (c\<lparr>szMalloc := 0, mptr := Znull\<rparr>) = (c', length full)"
      "cell_value c' = stored m"
    unfolding decodes_def by blast
  have pos: "unat (of_nat i :: u32) = i" "unat (of_nat d :: u32) = d"
    using bounds by (simp_all add: of_nat_u32)
  let ?u = "of_nat (Suc u) :: u16"
  have step: "RecordUnpack_loop p (of_nat nKey) (of_nat szHdr) nField don (of_nat i) (of_nat d) (of_nat u) rest =
      (if nField \<le> ?u then Some (don @ [c'], rest', of_nat (d + length full), ?u)
       else RecordUnpack_loop p (of_nat nKey) (of_nat szHdr) nField (don @ [c']) (of_nat (i + length (hdr_code ?t)))
         (of_nat (d + length full)) ?u rest')"
    by (subst RecordUnpack_loop.simps) (simp add: go rest pos type c'(1) add.commute)
  have room: "Suc u + length xs \<le> unat nField" using Cons.prems by simp
  then have u: "unat ?u = Suc u"
    using unsigned_less [of nField, where ?'a = nat] by (intro unat_of_nat_less) simp
  have last: "length xs = 0" if "nField \<le> ?u"
    using that room u unfolding word_le_nat_alt by linarith
  have "\<exists>cs. RecordUnpack_loop p (of_nat nKey) (of_nat szHdr) nField (don @ [c']) (of_nat (i + length (hdr_code ?t)))
      (of_nat (d + length full)) ?u rest'
      = Some ((don @ [c']) @ cs, drop (length xs) rest', of_nat nKey, of_nat (Suc u + length xs))
    \<and> map cell_value cs = map stored ms"
    by (rule Cons.IH) (use Cons.prems in \<open>simp_all add: x rest add.assoc\<close>)
  then obtain cs where cs: "RecordUnpack_loop p (of_nat nKey) (of_nat szHdr) nField (don @ [c'])
      (of_nat (i + length (hdr_code ?t))) (of_nat (d + length full)) ?u rest'
      = Some ((don @ [c']) @ cs, drop (length xs) rest', of_nat nKey, of_nat (Suc u + length xs))"
    and vs: "map cell_value cs = map stored ms" by blast
  show ?case
  proof (cases "nField \<le> ?u")
    case True
    with last Cons.hyps(2) have "xs = []" "ms = []" by auto
    moreover from this have "nKey = d + length full" using Cons.prems(4) by (simp add: x)
    ultimately show ?thesis using True step c'(2) by (intro exI [of _ "[c']"]) (simp add: rest)
  next
    case False
    with step cs vs c'(2) show ?thesis by (intro exI [of _ "c' # cs"]) (simp add: rest)
  qed
qed

subsection \<open>The output register\<close>

lemma u_nZero_set: "in_i32 k \<Longrightarrow> u_nZero (set_nZero k m) = k"
proof -
  assume k: "in_i32 k"
  let ?w = "word_of_int k :: u32"
  have "ucast ((mu m AND push_bit 32 0xffffffff) OR ucast ?w) = ?w"
    by (simp add: word32_eq_bits bit_unsigned_iff bit_or_iff bit_and_iff bit_push_bit_iff)
  then have "u_nZero (set_nZero k m) = sint ?w" by (simp only: u_nZero_def set_nZero_def) simp
  also have "\<dots> = k"
    using k by (simp add: in_i32_def signed_of_int signed_take_bit_int_eq_self)
  finally show ?thesis .
qed

definition block_ok :: "(int \<Rightarrow> (mem \<times> int) option) \<Rightarrow> bool" where
  "block_ok al \<longleftrightarrow> (\<forall>n blk sz. al n = Some (blk, sz) \<longrightarrow> n \<le> sz)"

lemma Resize_post:
  assumes "sqlite3VdbeMemClearAndResize al m n = (m', rc)"
  shows "rc = SQLITE_OK \<longrightarrow> mptr m' = Zown \<and> (block_ok al \<longrightarrow> n \<le> szMalloc m')"
    and "rc \<noteq> SQLITE_OK \<longrightarrow> (\<exists>n. al n = None)"
  using assms
  by (auto simp: sqlite3VdbeMemClearAndResize_def sqlite3VdbeMemGrow_def Let_def SQLITE_OK_def SQLITE_NOMEM_def
      block_ok_def split: if_splits option.splits)

lemma MakeRecord_out_error:
  assumes "MakeRecord_out al limit m nByte nZero = Inl e"
  shows "case e of Too_big \<Rightarrow> limit < nByte + nZero | No_mem \<Rightarrow> \<exists>n. al n = None"
  using assms Resize_post(2) [of al m nByte]
  by (auto simp: MakeRecord_out_def Let_def split: if_splits prod.splits)

lemma MakeRecord_out_post:
  assumes "MakeRecord_out al limit m nByte nZero = Inr m'" "0 \<le> nByte" "0 \<le> nZero" "in_i32 limit" "in_i32 (szMalloc m)"
  shows "mptr m' = Zown" "mn m' = nByte" "nByte + nZero \<le> 2147483647" "block_ok al \<Longrightarrow> nByte \<le> szMalloc m'"
    "cell_value (m'\<lparr>zMalloc := q\<rparr>) = VBlob (mem_bytes q (nat nByte) @ replicate (nat nZero) 0)"
    "content (m'\<lparr>zMalloc := q\<rparr>) = mem_bytes q (nat nByte) @ replicate (nat nZero) 0"
proof -
  obtain m1 where m1: "mptr m1 = Zown" "block_ok al \<longrightarrow> nByte \<le> szMalloc m1"
    and size: "nByte + nZero \<le> 2147483647"
    and m': "m' = (let m2 = m1\<lparr>mn := nByte, mflags := MEM_Blob\<rparr>
      in if nZero \<noteq> 0 then (set_nZero nZero m2)\<lparr>mflags := MEM_Blob OR MEM_Zero\<rparr> else m2)"
  proof (cases "nByte + nZero \<le> szMalloc m")
    case True
    with assms show thesis
      by (intro that [of "m\<lparr>mptr := Zown\<rparr>"]) (auto simp: MakeRecord_out_def Let_def in_i32_def split: if_splits)
  next
    case False
    obtain m1 rc where r: "sqlite3VdbeMemClearAndResize al m nByte = (m1, rc)" by fastforce
    with False assms Resize_post(1) [OF r] show thesis
      by (intro that [of m1]) (auto simp: MakeRecord_out_def Let_def in_i32_def split: if_splits)
  qed
  show "nByte + nZero \<le> 2147483647" by (rule size)
  show "mptr m' = Zown" "mn m' = nByte" using m1 by (simp_all add: m' Let_def set_nZero_def)
  show "nByte \<le> szMalloc m'" if "block_ok al" using m1 that by (simp add: m' Let_def set_nZero_def)
  have nz: "u_nZero (set_nZero nZero m) = nZero" for m
    using assms(2,3) size by (intro u_nZero_set) (simp add: in_i32_def)
  have z: "zmem (m'\<lparr>zMalloc := q\<rparr>) = Some q" using m1 by (simp add: zmem_def m' Let_def set_nZero_def)
  show c: "content (m'\<lparr>zMalloc := q\<rparr>) = mem_bytes q (nat nByte) @ replicate (nat nZero) 0"
    unfolding content_def z
    by (simp add: m' Let_def has_def MEM_defs nz [unfolded u_nZero_def set_nZero_def, simplified] u_nZero_def set_nZero_def)
  show "cell_value (m'\<lparr>zMalloc := q\<rparr>) = VBlob (mem_bytes q (nat nByte) @ replicate (nat nZero) 0)"
    unfolding cell_value_def c by (simp add: m' Let_def has_def MEM_defs)
qed

subsection \<open>The opcode\<close>

definition regs_ok :: "int \<Rightarrow> Mem list \<Rightarrow> nat \<Rightarrow> nat \<Rightarrow> nat \<Rightarrow> bool" where
  "regs_ok limit aMem p1 p2 p3 \<longleftrightarrow>
     0 < p2 \<and> p2 \<le> 65535 \<and> p1 + p2 \<le> length aMem \<and> p3 < length aMem \<and> (p3 < p1 \<or> p1 + p2 \<le> p3)
     \<and> list_all field_ok (take p2 (drop p1 aMem)) \<and> in_i32 limit \<and> in_i32 (szMalloc (aMem ! p3))"

definition record_image :: "(Mem \<times> u8 list \<times> u8 list) list \<Rightarrow> u8 list" where
  "record_image xs =
     hdr_code (of_nat (MakeRecord_nHdr (length (plan_types xs)))) @ plan_types xs @ plan_full xs"

lemma length_plan_types: "length (plan_types xs) \<le> 5 * length xs"
proof (induction xs)
  case (Cons x xs)
  then show ?case using length_hdr_code_bounds(2) [of "uTemp (fst x)"] by simp
qed simp

lemma sint_of_nat_u64: "n < 9223372036854775808 \<Longrightarrow> sint (of_nat n :: u64) = int n"
  using signed_of_int [of "int n", where ?'a = int and ?'b = 64]
  by (simp add: signed_take_bit_int_eq_self)

text \<open>The bytes of the record, written behind the size of the header.\<close>

lemma record_written:
  assumes "list_all2 planned ms xs" "length xs \<le> 65535" "plan_full xs = plan_bytes xs @ replicate z 0"
  defines "h \<equiv> MakeRecord_nHdr (length (plan_types xs))"
  obtains q where "MakeRecord_write (map fst xs) (mem_write p 0 (hdr_code (of_nat h))) (length (hdr_code (of_nat h))) h
      = Some (q, h, h + length (plan_bytes xs))"
    and "mem_bytes q (h + length (plan_bytes xs)) @ replicate z 0 = record_image xs"
proof -
  let ?e = "hdr_code (of_nat h)"
  have "length (plan_types xs) < 1000000" using length_plan_types [of xs] assms(2) by linarith
  then have h: "h = length ?e + length (plan_types xs)"
    unfolding h_def by (rule MakeRecord_nHdr_correct)
  have "list_all (\<lambda>x. puts (fst x) (fst (snd x))) xs"
    using assms(1) by (induction rule: list_all2_induct) (auto simp: planned_def)
  from MakeRecord_write_post [OF this, of "length ?e" h "mem_write p 0 ?e"] h
  obtain q where q: "MakeRecord_write (map fst xs) (mem_write p 0 ?e) (length ?e) h
      = Some (q, h, h + length (plan_bytes xs))"
    "holds q (length ?e) (plan_types xs)" "holds q h (plan_bytes xs)"
    "\<And>i. i < length ?e \<Longrightarrow> q i = mem_write p 0 ?e i" by auto
  have "holds q 0 ?e" by (rule holds_frame [OF holds_write [of p 0 ?e]]) (simp add: q(4))
  then have "holds q 0 (?e @ plan_types xs @ plan_bytes xs)" using q(2,3) by (simp add: h [symmetric])
  moreover have len: "length (?e @ plan_types xs @ plan_bytes xs) = h + length (plan_bytes xs)"
    using h by simp
  ultimately have "mem_bytes q (h + length (plan_bytes xs)) = ?e @ plan_types xs @ plan_bytes xs"
    unfolding holds_bytes len by simp
  with q(1) show thesis by (intro that [of q]) (simp_all add: record_image_def h_def assms(3))
qed

lemma MakeRecord_spec:
  assumes "regs_ok limit aMem p1 p2 p3"
  defines "ms \<equiv> take p2 (drop p1 aMem)"
  obtains (No_mem) i n where "OP_MakeRecord al limit fmt aMem p1 p2 p3 = Some (Inl No_mem)" "al i n = None"
  | (Too_big) "OP_MakeRecord al limit fmt aMem p1 p2 p3 = Some (Inl Too_big)"
      "limit < 5 + (\<Sum>m\<leftarrow>ms. 5 + int (cell_size m))"
  | (Done) xs out where "OP_MakeRecord al limit fmt aMem p1 p2 p3
        = Some (Inr ((take p1 aMem @ map fst xs @ drop (p1 + p2) aMem)[p3 := out]))"
      "list_all2 planned ms xs" "cell_value out = VBlob (record_image xs)" "content out = record_image xs"
      "int (length (record_image xs)) \<le> 2147483647" "block_ok (al p3) \<Longrightarrow> mn out \<le> szMalloc out"
proof -
  from assms have ms: "list_all field_ok ms" "length ms = p2" "p2 \<le> 65535" by (auto simp: regs_ok_def)
  then consider "MakeRecord_sizes fmt al p1 ms = Inl No_mem" "\<exists>j n. al j n = None"
    | xs st where "MakeRecord_sizes fmt al p1 ms = Inr (map fst xs, st)" "sizes_post ms xs st"
    using MakeRecord_sizes_post [of ms fmt al p1] by auto
  then show thesis
  proof cases
    case 1
    then show thesis using No_mem by (auto simp: OP_MakeRecord_def ms_def)
  next
    case (2 xs st)
    from 2(2) obtain z where planned: "list_all2 planned ms xs"
      and full: "plan_full xs = plan_bytes xs @ replicate z 0"
      and small: "length (plan_bytes xs) + z \<le> sum_list (map cell_size ms)"
      and st: "st = (of_nat (length (plan_bytes xs)), length (plan_types xs), int z)"
      unfolding sizes_post_def by (elim exE conjE) (rule that)
    have len: "length xs = p2" using planned ms(2) by (simp add: list_all2_lengthD)
    define h where "h = MakeRecord_nHdr (length (plan_types xs))"
    have types: "length (plan_types xs) \<le> 5 * p2" using length_plan_types [of xs] len by simp
    then have h: "h \<le> length (plan_types xs) + 5" "h = length (hdr_code (of_nat h)) + length (plan_types xs)"
      using MakeRecord_nHdr_correct [of "length (plan_types xs)"] ms(3) by (simp_all add: h_def)
    define n where "n = int h + int (length (plan_bytes xs))"
    have "sum_list (map cell_size ms) \<le> 1000000000 * p2" using cell_sizes [OF ms(1)] ms(2) by simp
    then have "h + length (plan_bytes xs) < 9223372036854775808" using small h(1) types ms(3) by linarith
    then have n: "sint (of_nat h + of_nat (length (plan_bytes xs)) :: u64) = n"
      using sint_of_nat_u64 [of "h + length (plan_bytes xs)"] by (simp add: n_def)
    show thesis
    proof (cases "MakeRecord_out (al p3) limit (aMem ! p3) n (int z)")
      case (Inl e)
      have "(\<Sum>m\<leftarrow>ms. 5 + int (cell_size m)) = 5 * int p2 + int (sum_list (map cell_size ms))"
        unfolding ms(2) [symmetric] by (induction ms) simp_all
      then have "n + int z \<le> 5 + (\<Sum>m\<leftarrow>ms. 5 + int (cell_size m))"
        using small h(1) types unfolding n_def by linarith
      with Inl MakeRecord_out_error [OF Inl] 2(1) show thesis
        using No_mem [of p3] Too_big
        by (cases e) (auto simp: OP_MakeRecord_def ms_def st n h_def [symmetric])
    next
      case (Inr out)
      obtain q where q: "MakeRecord_write (map fst xs) (mem_write (zMalloc out) 0 (hdr_code (of_nat h)))
          (length (hdr_code (of_nat h))) h = Some (q, h, h + length (plan_bytes xs))"
        "mem_bytes q (h + length (plan_bytes xs)) @ replicate z 0 = record_image xs"
        using record_written [OF planned _ full, of "zMalloc out"] len ms(3) unfolding h_def by blast
      have "0 \<le> n" "0 \<le> int z" "in_i32 limit" "in_i32 (szMalloc (aMem ! p3))"
        using assms by (auto simp: regs_ok_def n_def)
      note out = MakeRecord_out_post [OF Inr this]
      have "nat n = h + length (plan_bytes xs)" by (simp add: n_def)
      moreover have "int (length (record_image xs)) = n + int z" by (simp add: n_def flip: q(2))
      ultimately show thesis
        using Done [of xs "out\<lparr>zMalloc := q\<rparr>"] out(2-4) out(5,6) [of q] planned q 2(1) Inr
        by (simp add: OP_MakeRecord_def ms_def st n h_def [symmetric] hdr.put_code n_def)
    qed
  qed
qed

subsection \<open>Damaged records\<close>

lemma getVarint32_agree:
  assumes "\<And>i. i < 9 \<Longrightarrow> p i = p' i"
  shows "getVarint32 p = getVarint32 p'"
proof -
  have "mem_bytes p 9 = mem_bytes p' 9" using assms by (simp add: list_eq_iff_nth_eq)
  then show ?thesis by (simp add: getVarint32_clamps GetVarint_ref)
qed

lemma SerialGet_agree:
  assumes "\<forall>i < 8. p i = p' i"
  shows "\<exists>c c' k. sqlite3VdbeSerialGet p t m = (c, k) \<and> sqlite3VdbeSerialGet p' t m = (c', k) \<and> k < 2147483648
    \<and> ((\<forall>i < k. p i = p' i) \<longrightarrow> cell_value c = cell_value c')"
proof (cases "12 \<le> unat t")
  case True
  then have "t \<noteq> k" if "unat k < 12" for k using that by auto
  then have get: "sqlite3VdbeSerialGet p t m = (m\<lparr>mptr := Zext p, mn := uint ((t - 12) div 2),
      mflags := (if t AND 1 = 0 then MEM_Blob OR MEM_Ephem else MEM_Str OR MEM_Ephem)\<rparr>, unat ((t - 12) div 2))" for p
    by (simp add: sqlite3VdbeSerialGet_def Let_def)
  have "unat ((t - 12) div 2) < 2147483648"
    using unsigned_less [of "t - 12", where ?'a = nat] by (simp add: unat_div)
  moreover have "mem_bytes p (nat (uint ((t - 12) div 2))) = mem_bytes p' (nat (uint ((t - 12) div 2)))"
    if "\<forall>i < unat ((t - 12) div 2). p i = p' i"
    using that by (simp add: list_eq_iff_nth_eq)
  ultimately show ?thesis
    by (simp add: get cell_value_def has_def MEM_defs content_def zmem_def)
next
  case False
  have b: "p 0 = p' 0" "p (Suc 0) = p' (Suc 0)" "p 2 = p' 2" "p 3 = p' 3" "p 4 = p' 4" "p 5 = p' 5" "p 6 = p' 6"
    "p 7 = p' 7" using assms by simp_all
  have "unat t = 0 \<or> unat t = 1 \<or> unat t = 2 \<or> unat t = 3 \<or> unat t = 4 \<or> unat t = 5 \<or> unat t = 6 \<or> unat t = 7
      \<or> unat t = 8 \<or> unat t = 9 \<or> unat t = 10 \<or> unat t = 11" using False by presburger
  then have "t = 0 \<or> t = 1 \<or> t = 2 \<or> t = 3 \<or> t = 4 \<or> t = 5 \<or> t = 6 \<or> t = 7 \<or> t = 8 \<or> t = 9 \<or> t = 10 \<or> t = 11"
    by (simp add: word_unat_eq_iff)
  then have "sqlite3VdbeSerialGet p t m = sqlite3VdbeSerialGet p' t m \<and> snd (sqlite3VdbeSerialGet p t m) < 2147483648"
    by (elim disjE) (simp_all add: sqlite3VdbeSerialGet_def serialGet_def TWO_BYTE_INT_def THREE_BYTE_INT_def
        FOUR_BYTE_INT_def FOUR_BYTE_UINT_def Let_def b)
  then show ?thesis by (cases "sqlite3VdbeSerialGet p' t m") auto
qed

definition same_values :: "Mem list \<Rightarrow> Mem list \<Rightarrow> bool" where
  "same_values cs cs' \<longleftrightarrow> map cell_value cs = map cell_value cs'"

text \<open>
  Two memories that agree up to nine bytes past the record: the decoder leaves the same
  values, except in the last cell when its field ends beyond the record.
\<close>

lemma RecordUnpack_loop_agree:
  assumes "\<And>i. i < nKey + 9 \<Longrightarrow> p i = p' i" "nKey < 2147483648" "length don = length don'"
    "szHdr \<le> d" "unat d \<le> nKey \<longrightarrow> same_values don don'" "same_values (butlast don) (butlast don')"
    "unat nField \<le> unat u + length rest" "u < nField" "don \<noteq> [] \<longleftrightarrow> u \<noteq> 0"
  shows "\<exists>res res' rs e v. RecordUnpack_loop p (of_nat nKey) szHdr nField don idx d u rest = Some (res, rs, e, v)
    \<and> RecordUnpack_loop p' (of_nat nKey) szHdr nField don' idx d u rest = Some (res', rs, e, v)
    \<and> length res = length res' \<and> (unat e \<le> nKey \<longrightarrow> same_values res res')
    \<and> same_values (butlast res) (butlast res') \<and> (res \<noteq> [] \<longleftrightarrow> v \<noteq> 0) \<and> v \<le> nField"
  using assms(3-)
proof (induction rest arbitrary: don don' idx d u)
  case Nil
  then show ?case by (simp add: word_less_nat_alt)
next
  case (Cons c rest)
  have k: "unat (of_nat nKey :: u32) = nKey" using assms(2) by (simp add: of_nat_u32)
  show ?case
  proof (cases "idx < szHdr \<and> d \<le> of_nat nKey")
    case False
    have "RecordUnpack_loop q (of_nat nKey) szHdr nField ms idx d u (c # rest) = Some (ms, c # rest, d, u)" for q ms
      by (subst RecordUnpack_loop.simps) (simp only: False if_False)
    with Cons.prems show ?thesis by simp
  next
    case True
    then have d: "unat d \<le> nKey" "unat idx < nKey"
      using Cons.prems(2) by (auto simp: word_less_nat_alt word_le_nat_alt k)
    obtain t n where t: "getVarint32 (mem_at p (unat idx)) = (t, n)" by fastforce
    moreover have "getVarint32 (mem_at p (unat idx)) = getVarint32 (mem_at p' (unat idx))"
      using d assms(1) by (intro getVarint32_agree) simp
    ultimately have t': "getVarint32 (mem_at p' (unat idx)) = (t, n)" by simp
    have near: "\<forall>i < 8. mem_at p (unat d) i = mem_at p' (unat d) i" using d assms(1) by simp
    obtain c1 c2 l where get: "sqlite3VdbeSerialGet (mem_at p (unat d)) t (c\<lparr>szMalloc := 0, mptr := Znull\<rparr>) = (c1, l)"
        "sqlite3VdbeSerialGet (mem_at p' (unat d)) t (c\<lparr>szMalloc := 0, mptr := Znull\<rparr>) = (c2, l)"
        "l < 2147483648" and val: "(\<forall>i < l. mem_at p (unat d) i = mem_at p' (unat d) i)
          \<longrightarrow> cell_value c1 = cell_value c2"
      using SerialGet_agree [of "mem_at p (unat d)" "mem_at p' (unat d)" t "c\<lparr>szMalloc := 0, mptr := Znull\<rparr>", OF near]
      by (elim exE conjE) (rule that)
    let ?d = "d + of_nat l"
    have e: "unat ?d = unat d + l" 
      using d get(3) assms(2) by (simp add: unat_word_ariths unat_of_nat_less)
    have inside: "cell_value c1 = cell_value c2" if "unat ?d \<le> nKey"
      using that e assms(1) by (intro val [rule_format]) simp
    have step: "RecordUnpack_loop p (of_nat nKey) szHdr nField don idx d u (c # rest) =
       (if nField \<le> u + 1 then Some (don @ [c1], rest, ?d, u + 1)
        else RecordUnpack_loop p (of_nat nKey) szHdr nField (don @ [c1]) (idx + of_nat n) ?d (u + 1) rest)"
      by (subst RecordUnpack_loop.simps) (use True t get in simp)
    have step': "RecordUnpack_loop p' (of_nat nKey) szHdr nField don' idx d u (c # rest) =
       (if nField \<le> u + 1 then Some (don' @ [c2], rest, ?d, u + 1)
        else RecordUnpack_loop p' (of_nat nKey) szHdr nField (don' @ [c2]) (idx + of_nat n) ?d (u + 1) rest)"
      by (subst RecordUnpack_loop.simps) (use True t' get in simp)
    have u: "unat (u + 1) = unat u + 1" "u + 1 \<noteq> 0" "u + 1 \<le> nField"
    proof -
      have "unat u + 1 < 65536"
        using Cons.prems(6) unsigned_less [of nField, where ?'a = nat] by (simp add: word_less_nat_alt)
      then show v: "unat (u + 1) = unat u + 1" by (simp add: unat_word_ariths)
      then show "u + 1 \<noteq> 0" by (metis add_is_0 unat_0 zero_neq_one)
      show "u + 1 \<le> nField" using Cons.prems(6) by (rule inc_le)
    qed
    have don: "length (don @ [c1]) = length (don' @ [c2])"
      "unat ?d \<le> nKey \<longrightarrow> same_values (don @ [c1]) (don' @ [c2])"
      "same_values (butlast (don @ [c1])) (butlast (don' @ [c2]))"
      using Cons.prems(1,3) d(1) inside by (simp_all add: same_values_def)
    show ?thesis
    proof (cases "nField \<le> u + 1")
      case True
      with step step' don u show ?thesis by simp
    next
      case False
      have "szHdr \<le> ?d" using Cons.prems(2) e by (simp add: word_le_nat_alt)
      moreover have "unat nField \<le> unat (u + 1) + length rest" using Cons.prems(5) u(1) by simp
      moreover have "u + 1 < nField" using False by simp
      ultimately show ?thesis
        using Cons.IH [OF don(1) _ don(2,3), where idx = "idx + of_nat n" and u = "u + 1"] False step step' u(2)
        by simp
    qed
  qed
qed

subsection \<open>Properties\<close>

text \<open>
  C12. What \<open>OP_MakeRecord\<close> stores is what \<open>sqlite3VdbeRecordUnpack\<close> reads: from any memory that starts with the
  content of the output register, zero tail included, and whatever follows it, the decoder fills one cell
  per field of the record and no other, with the values of the input registers (NULL, every 64-bit integer in
  its shortest form, doubles bit by bit, text and blobs byte by byte, blobs with a
  zero-filled tail wherever they stand). Integers that are flagged as reals and need eight
  bytes come back as the double of the integer, and a double that is not a number as NULL.
\<close>

theorem record_roundtrip:
  assumes "regs_ok limit aMem p1 p2 p3"
    and "OP_MakeRecord al limit fmt aMem p1 p2 p3 = Some (Inr aMem')"
    and "holds p 0 (content (aMem' ! p3))" "nKey = int (length (content (aMem' ! p3)))"
    and "p2 \<le> unat nField" "p2 \<le> length cells"
  shows "\<exists>cs. sqlite3VdbeRecordUnpack nKey p cells nField = Some (cs @ drop p2 cells, of_nat p2)
    \<and> map cell_value cs = map stored (take p2 (drop p1 aMem))"
  using assms(1)
proof (cases rule: MakeRecord_spec [where al = al and fmt = fmt])
  case (Done xs out)
  have regs: "length (take p2 (drop p1 aMem)) = p2" "p2 \<le> 65535" "p3 < length aMem" "p1 + p2 \<le> length aMem"
    using assms(1) by (auto simp: regs_ok_def)
  with Done(2) have len: "length xs = p2" by (auto dest: list_all2_lengthD)
  from Done(1) assms(2) len regs have out: "aMem' ! p3 = out" by auto
  define h where "h = MakeRecord_nHdr (length (plan_types xs))"
  let ?e = "hdr_code (of_nat h)"
  have h: "h = length ?e + length (plan_types xs)"
    using MakeRecord_nHdr_correct(1) [of "length (plan_types xs)"] length_plan_types [of xs] len regs(2)
    by (simp add: h_def)
  have image: "record_image xs = ?e @ plan_types xs @ plan_full xs" by (simp add: record_image_def h_def)
  have n: "nKey = int (h + length (plan_full xs))" using assms(4) h by (simp add: out Done(4) image)
  have p: "holds p 0 ?e" "holds p (length ?e) (plan_types xs)" "holds p h (plan_full xs)"
    using assms(3) by (simp_all add: out Done(4) image h [symmetric])
  obtain cs where cs: "RecordUnpack_loop p (of_nat (h + length (plan_full xs))) (of_nat h) nField []
      (of_nat (length ?e)) (of_nat h) (of_nat 0) cells
      = Some ([] @ cs, drop (length xs) cells, of_nat (h + length (plan_full xs)), of_nat (0 + length xs))"
    "map cell_value cs = map stored (take p2 (drop p1 aMem))"
    using RecordUnpack_loop_reads [OF Done(2) p(2,3), where szHdr = h and nKey = "h + length (plan_full xs)"
        and u = 0 and nField = nField and rest = cells and don = "[]"] Done(5) assms(5,6) h len
    by (auto simp: image)
  have "getVarint32 p = (of_nat h, length ?e)" using p(1) by (rule getVarint32_code)
  with cs show ?thesis by (simp add: sqlite3VdbeRecordUnpack_def n len)
qed (use assms(2) in simp_all)

text \<open>
  C14. \<open>OP_MakeRecord\<close> always ends in one of its three ways: out of memory only when an
  allocation fails, \<open>SQLITE_TOOBIG\<close> only when the record may exceed the limit, and otherwise with a
  blob that lies inside the buffer of the output register. No null pointer is read, and registers other
  than the inputs and the output keep their contents.
\<close>

theorem MakeRecord_outcome:
  assumes "regs_ok limit aMem p1 p2 p3" "\<And>i. block_ok (al i)"
  shows "case OP_MakeRecord al limit fmt aMem p1 p2 p3 of
      None \<Rightarrow> False
    | Some (Inl No_mem) \<Rightarrow> \<exists>i n. al i n = None
    | Some (Inl Too_big) \<Rightarrow> limit < 5 + (\<Sum>m\<leftarrow>take p2 (drop p1 aMem). 5 + int (cell_size m))
    | Some (Inr aMem') \<Rightarrow> length aMem' = length aMem
        \<and> (\<forall>j < length aMem. j \<noteq> p3 \<and> \<not> (p1 \<le> j \<and> j < p1 + p2) \<longrightarrow> aMem' ! j = aMem ! j)
        \<and> mn (aMem' ! p3) \<le> szMalloc (aMem' ! p3)
        \<and> cell_value (aMem' ! p3) = VBlob (content (aMem' ! p3))
        \<and> length (content (aMem' ! p3)) \<le> 2147483647"
  using assms(1)
proof (cases rule: MakeRecord_spec [where al = al and fmt = fmt])
  case (Done xs out)
  have regs: "length (take p2 (drop p1 aMem)) = p2" "p3 < length aMem" "p1 + p2 \<le> length aMem"
    using assms(1) by (auto simp: regs_ok_def)
  with Done(2) have len: "length xs = p2" by (auto dest: list_all2_lengthD)
  then have "(take p1 aMem @ map fst xs @ drop (p1 + p2) aMem) ! j = aMem ! j"
    if "j < length aMem" "\<not> (p1 \<le> j \<and> j < p1 + p2)" for j
    using that regs by (auto simp: nth_append min_def)
  with Done len regs assms(2) show ?thesis by (auto simp: Done(1))
qed auto

text \<open>
  C13. The decoder is safe on damaged records, whatever their bytes: it returns for every content,
  it never stores outside the cells it is given, and the values it leaves depend on at most nine bytes past
  the end of the record, so that strings are never taken from beyond it.
\<close>

theorem RecordUnpack_bounded:
  assumes "0 \<le> nKey" "nKey \<le> 2147483647" "\<And>i. i < nat nKey + 9 \<Longrightarrow> p i = p' i"
    and "0 < nField" "unat nField \<le> length cells"
  shows "\<exists>cs cs' n. sqlite3VdbeRecordUnpack nKey p cells nField = Some (cs, n)
    \<and> sqlite3VdbeRecordUnpack nKey p' cells nField = Some (cs', n)
    \<and> map cell_value cs = map cell_value cs' \<and> n \<le> nField"
proof -
  obtain szHdr idx where v: "getVarint32 p = (szHdr, idx)" by fastforce
  moreover have "getVarint32 p = getVarint32 p'" using assms(3) by (intro getVarint32_agree) simp
  ultimately have v': "getVarint32 p' = (szHdr, idx)" by simp
  let ?n = "word_of_int nKey :: u32"
  have n: "?n = of_nat (nat nKey)" "unat ?n = nat nKey" using assms(1,2) by (simp_all add: unat_of_int)
  have "\<exists>res res' rs e v. RecordUnpack_loop p (of_nat (nat nKey)) szHdr nField [] (of_nat idx) szHdr 0 cells = Some (res, rs, e, v)
    \<and> RecordUnpack_loop p' (of_nat (nat nKey)) szHdr nField [] (of_nat idx) szHdr 0 cells = Some (res', rs, e, v)
    \<and> length res = length res' \<and> (unat e \<le> nat nKey \<longrightarrow> same_values res res')
    \<and> same_values (butlast res) (butlast res') \<and> (res \<noteq> [] \<longleftrightarrow> v \<noteq> 0) \<and> v \<le> nField"
    by (rule RecordUnpack_loop_agree) (use assms in \<open>simp_all add: same_values_def nat_less_iff\<close>)
  from this [folded n(1)] obtain res res' rs e v where loop:
      "RecordUnpack_loop p ?n szHdr nField [] (of_nat idx) szHdr 0 cells = Some (res, rs, e, v)"
      "RecordUnpack_loop p' ?n szHdr nField [] (of_nat idx) szHdr 0 cells = Some (res', rs, e, v)"
      "length res = length res'" "unat e \<le> nat nKey \<longrightarrow> same_values res res'"
      "same_values (butlast res) (butlast res')" "res \<noteq> [] \<longleftrightarrow> v \<noteq> 0" "v \<le> nField"
    by (elim exE conjE) (rule that)
  show ?thesis
  proof (cases "?n < e \<and> v \<noteq> 0")
    case True
    with loop v v' show ?thesis
      by (simp add: sqlite3VdbeRecordUnpack_def same_values_def sqlite3VdbeMemSetNull_def cell_value_def has_def MEM_defs)
  next
    case False
    then have "same_values res res'"
      using loop(3,4,6) n(2) by (cases "v = 0") (auto simp: word_less_nat_alt same_values_def)
    with False loop v v' show ?thesis by (auto simp: sqlite3VdbeRecordUnpack_def same_values_def)
  qed
qed

text \<open>A record of a blob with a zero tail, the integer 300 and a NULL.\<close>

definition null_cell :: Mem where
  "null_cell = \<lparr>mu = 0, mflags = MEM_Null, mn = 0, mptr = Znull, zMalloc = (\<lambda>_. 0), szMalloc = 0, uTemp = 0\<rparr>"

definition sample_regs :: "Mem list" where
  "sample_regs =
     [null_cell, null_cell\<lparr>mu := 2, mflags := MEM_Blob OR MEM_Zero, mn := 1, mptr := Zext (\<lambda>_. 7)\<rparr>,
      null_cell\<lparr>mu := 300, mflags := MEM_Int\<rparr>, null_cell]"

definition zero_block :: "nat \<Rightarrow> int \<Rightarrow> (mem \<times> int) option" where
  "zero_block i n = Some (\<lambda>_. 0, n)"

lemma sample_regs_ok: "regs_ok 1000000 sample_regs 1 3 0"
  by (simp add: regs_ok_def sample_regs_def null_cell_def field_ok_def has_def MEM_defs zmem_def u_nZero_def
      in_i32_def numeral_3_eq_3)

lemma sample_done: "\<exists>aMem'. OP_MakeRecord zero_block 1000000 4 sample_regs 1 3 0 = Some (Inr aMem')"
  using sample_regs_ok
proof (cases rule: MakeRecord_spec [where al = zero_block and fmt = 4])
  case Too_big
  then show ?thesis
    by (simp add: sample_regs_def null_cell_def cell_size_def has_def MEM_defs content_def zmem_def u_nZero_def
        numeral_3_eq_3)
qed (auto simp: zero_block_def)

lemma sample_stored: "map stored (take 3 (drop 1 sample_regs)) = [VBlob [7, 0, 0], VInt 300, VNull]"
  by code_simp

theorem record_roundtrip_witness:
  "\<exists>aMem' cs. OP_MakeRecord zero_block 1000000 4 sample_regs 1 3 0 = Some (Inr aMem')
    \<and> sqlite3VdbeRecordUnpack (int (length (content (aMem' ! 0)))) (cat (content (aMem' ! 0)))
         [null_cell, null_cell, null_cell] 3 = Some (cs, 3)
    \<and> map cell_value cs = [VBlob [7, 0, 0], VInt 300, VNull]"
proof -
  obtain aMem' where made: "OP_MakeRecord zero_block 1000000 4 sample_regs 1 3 0 = Some (Inr aMem')"
    using sample_done by blast
  have "holds (cat bs) 0 bs" for bs by (simp add: holds_def cat_def)
  from record_roundtrip [OF sample_regs_ok made this refl, of 3 "[null_cell, null_cell, null_cell]"]
  show ?thesis using made sample_stored by auto
qed

theorem MakeRecord_outcome_witness:
  "\<exists>aMem'. OP_MakeRecord zero_block 1000000 4 sample_regs 1 3 0 = Some (Inr aMem')
    \<and> length aMem' = 4 \<and> mn (aMem' ! 0) \<le> szMalloc (aMem' ! 0)"
  using MakeRecord_outcome [OF sample_regs_ok, of zero_block 4] sample_done
  by (auto simp: block_ok_def zero_block_def sample_regs_def)

theorem RecordUnpack_bounded_witness:
  "\<exists>cs cs' n. sqlite3VdbeRecordUnpack 3 (\<lambda>_. 200) [null_cell] 1 = Some (cs, n)
    \<and> sqlite3VdbeRecordUnpack 3 (\<lambda>i. if i < 12 then 200 else 0) [null_cell] 1 = Some (cs', n)
    \<and> map cell_value cs = map cell_value cs' \<and> n \<le> 1"
  by (rule RecordUnpack_bounded) simp_all

end
