(* ===== verification/Double.thy ===== *)
theory Double
  imports Complex_Main Prelude
begin

text \<open>
  Double-precision arithmetic, as far as the sources use it on numbers of moderate size: a double
  is the rational number it stands for, and every operation rounds its exact result to 53
  significant bits, to nearest with ties to even. Overflow, subnormal numbers, infinities and
  NaN do not occur for the values the models compute with.

  The locale \<open>rounding\<close> is the contract the clients rely on (a relative error of at most
  \<open>2 ^ -53\<close>, and no error for numbers that have 53 bits); \<open>dbl\<close> is its interpretation.
\<close>

definition pow2 :: "int \<Rightarrow> rat" where
  "pow2 e = (if 0 \<le> e then 2 ^ nat e else 1 / 2 ^ nat (- e))"

function int_length :: "int \<Rightarrow> nat" where
  "int_length n = (if n \<le> 0 then 0 else Suc (int_length (n div 2)))"
  by pat_completeness auto
termination
  by (relation "measure nat") (simp_all add: nat_less_eq_zless)

declare int_length.simps [simp del]

text \<open>The exponent \<open>e\<close> with \<open>2 ^ e \<le> x < 2 ^ (e + 1)\<close> of a positive number.\<close>

definition binade :: "rat \<Rightarrow> int" where
  "binade x =
     (let (n, d) = quotient_of x; e = int (int_length n) - int (int_length d)
      in if pow2 e \<le> x then e else e - 1)"

definition round_even :: "rat \<Rightarrow> int" where
  "round_even y =
     (let f = \<lfloor>y\<rfloor>; d = y - of_int f
      in if d < 1 / 2 \<or> (d = 1 / 2 \<and> even f) then f else f + 1)"

definition rnd :: "rat \<Rightarrow> rat" where
  "rnd x =
     (if x = 0 then 0
      else let e = binade \<bar>x\<bar> - 52 in of_int (round_even (x / pow2 e)) * pow2 e)"

text \<open>The conversion of a double to an integer truncates towards zero.\<close>

definition ctrunc :: "rat \<Rightarrow> int" where
  "ctrunc x = (if 0 \<le> x then \<lfloor>x\<rfloor> else \<lceil>x\<rceil>)"

subsection \<open>Rounding\<close>

lemma pow2_pos [simp]: "0 < pow2 e"
  by (simp add: pow2_def)

lemma pow2_nonzero [simp]: "pow2 e \<noteq> 0"
  using pow2_pos [of e] by linarith

lemma pow2_Suc: "pow2 (e + 1) = 2 * pow2 e"
proof (cases "0 \<le> e")
  case True
  then show ?thesis by (simp add: pow2_def nat_add_distrib)
next
  case False
  then have "nat (- e) = Suc (nat (- (e + 1)))" by simp
  with False show ?thesis by (auto simp: pow2_def)
qed

lemma pow2_add: "pow2 (a + int n) = pow2 a * 2 ^ n"
proof (induction n)
  case (Suc n)
  have "a + int (Suc n) = (a + int n) + 1" by simp
  with Suc show ?case by (simp only: pow2_Suc) simp
qed simp

lemma pow2_diff: "pow2 (int m - int n) = 2 ^ m / 2 ^ n"
  using pow2_add [of "int m - int n" n] by (simp add: pow2_def)

lemma pow2_less: "a < b \<Longrightarrow> 2 * pow2 a \<le> pow2 b"
  using pow2_add [of "a + 1" "nat (b - a - 1)"] by (simp add: pow2_Suc)

lemma int_length_nat: "int_length n = bit_length (nat n)"
proof (induction n rule: int_length.induct)
  case (1 n)
  then show ?case
    by (subst int_length.simps, subst bit_length.simps) (simp add: nat_div_distrib)
qed

lemma int_length_rat:
  assumes "0 < n"
  shows "(of_int n :: rat) < 2 ^ int_length n" "2 ^ (int_length n - 1) \<le> (of_int n :: rat)"
  unfolding int_length_nat
proof -
  have n: "(of_int n :: rat) = of_nat (nat n)" using assms by (simp add: of_nat_nat)
  have "nat n < 2 ^ bit_length (nat n)" "2 ^ (bit_length (nat n) - 1) \<le> nat n"
    using assms bit_length_bounds [of "nat n"] by simp_all
  then have "(of_nat (nat n) :: rat) < of_nat (2 ^ bit_length (nat n))"
    "(of_nat (2 ^ (bit_length (nat n) - 1)) :: rat) \<le> of_nat (nat n)"
    by (simp_all only: of_nat_less_iff of_nat_le_iff)
  then show "(of_int n :: rat) < 2 ^ bit_length (nat n)" "2 ^ (bit_length (nat n) - 1) \<le> (of_int n :: rat)"
    unfolding n by simp_all
qed

lemma binade_bounds:
  assumes "0 < x"
  shows "pow2 (binade x) \<le> x" "x < pow2 (binade x + 1)"
proof -
  obtain n d where q: "quotient_of x = (n, d)" by fastforce
  then have x: "x = of_int n / of_int d" "0 < d" by (simp_all add: quotient_of_div quotient_of_denom_pos)
  with assms have "0 < n" by (simp add: zero_less_divide_iff)
  let ?l = "int_length n" and ?m = "int_length d"
  obtain l m where lm: "?l = Suc l" "?m = Suc m"
    using \<open>0 < n\<close> \<open>0 < d\<close> by (simp add: int_length.simps [of n] int_length.simps [of d])
  have n: "(of_int n :: rat) < 2 * 2 ^ l" "2 ^ l \<le> (of_int n :: rat)"
    using int_length_rat [OF \<open>0 < n\<close>] lm by simp_all
  have d: "(of_int d :: rat) < 2 * 2 ^ m" "2 ^ m \<le> (of_int d :: rat)"
    using int_length_rat [OF \<open>0 < d\<close>] lm by simp_all
  define e where "e = int ?l - int ?m"
  have e: "pow2 e = 2 ^ l / 2 ^ m" using pow2_diff [of l m] by (simp add: e_def lm)
  have "x * 2 ^ m \<le> of_int n" using d(2) \<open>0 < d\<close> \<open>0 < n\<close> unfolding x(1)
    by (simp add: field_simps mult_left_mono)
  with n(1) have "x * 2 ^ m < 2 * 2 ^ l" by linarith
  then have upper: "x < 2 * pow2 e" unfolding e by (simp add: field_simps)
  have "of_int n < x * (2 * 2 ^ m)" using d(1) \<open>0 < d\<close> \<open>0 < n\<close> unfolding x(1)
    by (simp add: field_simps)
  with n(2) have "2 ^ l < x * (2 * 2 ^ m)" by linarith
  then have lower: "pow2 e < 2 * x" unfolding e by (simp add: field_simps)
  have down: "2 * pow2 (e - 1) = pow2 e" using pow2_Suc [of "e - 1"] by simp
  have "binade x = (if pow2 e \<le> x then e else e - 1)" by (simp add: binade_def q e_def)
  then show "pow2 (binade x) \<le> x" "x < pow2 (binade x + 1)"
    using upper lower down by (auto simp: pow2_Suc)
qed

lemma round_even_near: "\<bar>of_int (round_even y) - y\<bar> \<le> 1 / 2"
proof -
  have "of_int \<lfloor>y\<rfloor> \<le> y" "y < of_int \<lfloor>y\<rfloor> + 1" by linarith+
  then show ?thesis by (auto simp: round_even_def Let_def)
qed

lemma round_even_int [simp]: "round_even (of_int k) = k"
  by (simp add: round_even_def)

lemma rnd_scale:
  assumes "x \<noteq> 0"
  obtains e where "rnd x = of_int (round_even (x / pow2 e)) * pow2 e"
    "pow2 e * 2 ^ 52 \<le> \<bar>x\<bar>" "\<bar>x\<bar> < pow2 e * 2 ^ 53"
proof -
  define e where "e = binade \<bar>x\<bar> - 52"
  have "rnd x = of_int (round_even (x / pow2 e)) * pow2 e" using assms by (simp add: rnd_def e_def Let_def)
  moreover have "pow2 (e + int 52) \<le> \<bar>x\<bar>" "\<bar>x\<bar> < pow2 (e + int 53)"
    using binade_bounds [of "\<bar>x\<bar>"] assms by (simp_all add: e_def add.commute)
  ultimately show thesis by (intro that [of e]) (simp_all only: pow2_add)
qed

lemma rnd_near: "\<bar>rnd x - x\<bar> \<le> \<bar>x\<bar> / 2 ^ 53"
proof (cases "x = 0")
  case True
  then show ?thesis by (simp add: rnd_def)
next
  case False
  then obtain e where e: "rnd x = of_int (round_even (x / pow2 e)) * pow2 e" "pow2 e * 2 ^ 52 \<le> \<bar>x\<bar>"
    by (rule rnd_scale)
  have "rnd x - x = (of_int (round_even (x / pow2 e)) - x / pow2 e) * pow2 e"
    by (simp add: e(1) left_diff_distrib)
  then have "\<bar>rnd x - x\<bar> = \<bar>of_int (round_even (x / pow2 e)) - x / pow2 e\<bar> * pow2 e"
    by (simp add: abs_mult less_imp_le)
  also have "\<dots> \<le> 1 / 2 * pow2 e" by (intro mult_right_mono round_even_near) (simp add: less_imp_le)
  also have "\<dots> \<le> \<bar>x\<bar> / 2 ^ 53" using e(2) by simp
  finally show ?thesis .
qed

lemma rnd_integral:
  assumes "x / pow2 e = of_int i"
  shows "of_int (round_even (x / pow2 e)) * pow2 e = x"
  using assms by (simp add: field_simps)

lemma rnd_exact: "\<bar>k\<bar> \<le> 2 ^ 53 \<Longrightarrow> rnd (of_int k / 2 ^ j) = of_int k / 2 ^ j"
proof (cases "k = 0")
  case True
  then show ?thesis by (simp add: rnd_def)
next
  case False
  assume k: "\<bar>k\<bar> \<le> 2 ^ 53"
  let ?x = "of_int k / 2 ^ j :: rat"
  have "?x \<noteq> 0" using False by simp
  then obtain e where e: "rnd ?x = of_int (round_even (?x / pow2 e)) * pow2 e" "pow2 e * 2 ^ 52 \<le> \<bar>?x\<bar>"
    by (rule rnd_scale)
  have "(of_int \<bar>k\<bar> :: rat) \<le> of_int (2 ^ 53)" using k by (simp only: of_int_le_iff)
  then have kr: "\<bar>of_int k :: rat\<bar> \<le> 2 ^ 53" by simp
  have big: "pow2 (e + int j) * 2 ^ 52 \<le> \<bar>of_int k\<bar>"
    using e(2) by (simp add: pow2_add field_simps)
  have "\<exists>i. ?x / pow2 e = of_int i"
  proof (cases "e + int j \<le> 0")
    case True
    then have "pow2 (e + int j) = 1 / 2 ^ nat (- (e + int j))"
      unfolding pow2_def by (cases "e + int j = 0") auto
    then have "pow2 e * 2 ^ j = 1 / 2 ^ nat (- (e + int j))" unfolding pow2_add .
    then have "?x / pow2 e = of_int (k * 2 ^ nat (- (e + int j)))"
      by (simp add: field_simps)
    then show ?thesis by blast
  next
    case False
    have "e + int j = 1"
    proof (rule ccontr)
      assume "e + int j \<noteq> 1"
      then have "2 * pow2 1 \<le> pow2 (e + int j)" using False by (intro pow2_less) simp
      with big kr show False by (simp add: pow2_def)
    qed
    then have "pow2 (e + int j) = 2" by (simp add: pow2_def)
    then have p: "pow2 e * 2 ^ j = 2" unfolding pow2_add .
    with big \<open>e + int j = 1\<close> have "2 ^ 53 \<le> \<bar>of_int k :: rat\<bar>" by (simp add: pow2_def)
    with kr have "\<bar>of_int k :: rat\<bar> = of_int (2 ^ 53)" by simp
    then have "\<bar>k\<bar> = 2 ^ 53" by (simp only: of_int_abs [symmetric] of_int_eq_iff)
    then have "k = 2 * 2 ^ 52 \<or> k = 2 * - (2 ^ 52)" by (auto simp: abs_if split: if_splits)
    then obtain i where "k = 2 * i" by blast
    then have "?x / pow2 e = of_int i" using p by (simp add: field_simps)
    then show ?thesis by blast
  qed
  then show ?thesis using e(1) rnd_integral by metis
qed

subsection \<open>What a client relies on\<close>

locale rounding =
  fixes fl :: "rat \<Rightarrow> rat"
  assumes fl_near: "\<bar>fl x - x\<bar> \<le> \<bar>x\<bar> / 2 ^ 53"
    and fl_exact: "\<bar>k\<bar> \<le> 2 ^ 53 \<Longrightarrow> fl (of_int k / 2 ^ j) = of_int k / 2 ^ j"
begin

lemma fl_int [simp]: "\<bar>k\<bar> \<le> 2 ^ 53 \<Longrightarrow> fl (of_int k) = of_int k"
  using fl_exact [of k 0] by simp

lemma fl_within: "\<bar>x\<bar> \<le> b \<Longrightarrow> \<bar>fl x - x\<bar> \<le> b / 2 ^ 53"
  using fl_near [of x] by (rule order_trans) (simp add: divide_right_mono)

end

interpretation dbl: rounding rnd
  by unfold_locales (rule rnd_near, rule rnd_exact)

subsection \<open>Truncation\<close>

lemma ctrunc_int [simp]: "ctrunc (of_int k) = k"
  by (simp add: ctrunc_def)

text \<open>
  Truncating a value close to the fraction \<open>k / n\<close> is C's integer division, unless the fraction is an integer.
\<close>

lemma ctrunc_close:
  assumes "0 < n" "\<not> n dvd k" "\<bar>y - of_int k / of_int n\<bar> * of_int n < 1"
  shows "ctrunc y = cdiv k n"
proof -
  define q where "q = k div n"
  define r where "r = k mod n"
  have k: "k = q * n + r" by (simp add: q_def r_def)
  have "0 \<le> r" "r < n" "r \<noteq> 0" using assms(1,2) by (simp_all add: r_def dvd_eq_mod_eq_0)
  then have r: "0 < r" "r < n" by simp_all
  have "of_int k / of_int n = of_int q + (of_int r / of_int n :: rat)"
    using assms(1) by (simp add: k add_divide_distrib)
  then have "\<bar>y - of_int q - of_int r / of_int n\<bar> * of_int n < 1" using assms(3) by (simp add: algebra_simps)
  moreover have "\<bar>y - of_int q - of_int r / of_int n\<bar> * of_int n
      = \<bar>(y - of_int q - of_int r / of_int n) * of_int n\<bar>"
    using assms(1) by (simp add: abs_mult)
  moreover have "(y - of_int q - of_int r / of_int n) * of_int n = (y - of_int q) * of_int n - of_int r"
    using assms(1) by (simp add: left_diff_distrib)
  ultimately have "\<bar>(y - of_int q) * of_int n - of_int r\<bar> < 1" by simp
  then have "of_int r - 1 < (y - of_int q) * of_int n" "(y - of_int q) * of_int n < of_int r + 1" by linarith+
  moreover have "(0::rat) \<le> of_int r - 1" "(of_int r + 1 :: rat) \<le> of_int n" using r by linarith+
  ultimately have "0 < (y - of_int q) * of_int n" "(y - of_int q) * of_int n < 1 * of_int n" by linarith+
  then have y: "of_int q < y" "y < of_int q + 1"
    using assms(1) by (simp_all add: zero_less_mult_iff mult_less_cancel_right_pos)
  show ?thesis
  proof (cases "0 \<le> k")
    case True
    then have "0 \<le> q" using assms(1) by (simp add: q_def pos_imp_zdiv_nonneg_iff)
    moreover have "cdiv k n = q" using True assms(1) by (auto simp: cdiv_def q_def sgn_if)
    ultimately show ?thesis using y by (auto simp: ctrunc_def) linarith+
  next
    case False
    then have "q < 0" using assms(1) by (simp add: q_def pos_imp_zdiv_neg_iff)
    moreover have "(- k) div n = - q - 1"
      by (rule int_div_pos_eq [where r = "n - r"]) (use r in \<open>simp_all add: k algebra_simps\<close>)
    then have "cdiv k n = q + 1" using False assms(1) by (simp add: cdiv_def)
    ultimately show ?thesis using y by (auto simp: ctrunc_def) linarith+
  qed
qed

end
