(* ===== verification/Date.thy ===== *)
theory Date
  imports Double NumText
begin

text \<open>
  Dates and times of SQLite, module \<open>date.c\<close> (\<open>src/src/db/sqlite3/core/sqlite3.c\<close>, lines 22765 to
  23180, 23322 to 23555 and 23640 to 23710): parsing of time strings, the conversion between calendar dates and the
  Julian day number in milliseconds, the modifiers that move a date, and the text of a date.

  \<open>DateTime\<close> has the fields of the C structure. Signed integers are \<open>int\<close>; none of the
  expressions leaves the range of its type for the values that the parser and the range
  checks admit. Doubles are rationals that are rounded after every operation (theory
  \<open>Double\<close>). Division and remainder of integers truncate (\<open>cdiv\<close>, \<open>crem\<close>).

  Not modelled: \<open>sqlite3AtoF\<close>, whose result is an argument of the modifiers that use it, the
  modifiers that ask the operating system for the time zone, and the calling convention of SQL functions.
\<close>

unbundle bit_operations_syntax

subsection \<open>The structure and its parser\<close>

record DateTime =
  iJD :: int
  dt_Y :: int
  dt_M :: int
  dt_D :: int
  dt_h :: int
  dt_m :: int
  dt_tz :: int
  dt_s :: rat
  validJD :: bool
  rawS :: bool
  validYMD :: bool
  validHMS :: bool
  validTZ :: bool
  tzSet :: bool
  isError :: bool

definition zero_DateTime :: DateTime where
  "zero_DateTime =
     \<lparr>iJD = 0, dt_Y = 0, dt_M = 0, dt_D = 0, dt_h = 0, dt_m = 0, dt_tz = 0, dt_s = 0, validJD = False,
      rawS = False, validYMD = False, validHMS = False, validTZ = False, tzSet = False, isError = False\<rparr>"

definition crem :: "int \<Rightarrow> int \<Rightarrow> int" where
  "crem a b = a - b * cdiv a b"

definition aMx :: "int list" where
  "aMx = [12, 14, 24, 31, 59, 9999]"

fun digits_loop :: "nat \<Rightarrow> cstr \<Rightarrow> int \<Rightarrow> (int \<times> cstr) option" where
  "digits_loop 0 zDate val = Some (val, zDate)"
| "digits_loop (Suc N) zDate val =
     (if \<not> sqlite3Isdigit (cat zDate 0) then None
      else digits_loop N (drop 1 zDate) (val * 10 + uint (cat zDate 0) - 48))"

text \<open>The values that were converted and stored, in order; the C function returns their number.\<close>

fun getDigits :: "cstr \<Rightarrow> cstr \<Rightarrow> int list" where
  "getDigits zDate (n # lo # hi # zFormat) =
     (let mx = aMx ! unat (hi - 97); nextC = cat zFormat 0 in
      case digits_loop (unat (n - 48)) zDate 0 of
        None \<Rightarrow> []
      | Some (val, zDate) \<Rightarrow>
          if val < uint (lo - 48) \<or> mx < val \<or> (nextC \<noteq> 0 \<and> nextC \<noteq> cat zDate 0) then []
          else val # (if nextC \<noteq> 0 then getDigits (drop 1 zDate) (drop 1 zFormat) else []))"
| "getDigits zDate _ = []"

definition skip_spaces :: "cstr \<Rightarrow> cstr" where
  "skip_spaces z = dropWhile sqlite3Isspace z"

definition zulu_time :: "cstr \<Rightarrow> DateTime \<Rightarrow> DateTime \<times> bool" where
  "zulu_time zDate p = (let zDate = skip_spaces zDate in (p\<lparr>tzSet := True\<rparr>, cat zDate 0 \<noteq> 0))"

text \<open>The parsers return the structure and whether there was an error.\<close>

definition parseTimezone :: "cstr \<Rightarrow> DateTime \<Rightarrow> DateTime \<times> bool" where
  "parseTimezone zDate p =
     (let zDate = skip_spaces zDate; p = p\<lparr>dt_tz := 0\<rparr>; c = cat zDate 0 in
      if c = ch CHR ''-'' \<or> c = ch CHR ''+''
      then let sgn = (if c = ch CHR ''-'' then - 1 else 1); zDate = drop 1 zDate in
           (case getDigits zDate (cstring ''20b:20e'') of
              [nHr, nMn] \<Rightarrow> zulu_time (drop 5 zDate) (p\<lparr>dt_tz := sgn * (nMn + nHr * 60)\<rparr>)
            | _ \<Rightarrow> (p, True))
      else if c = ch CHR ''Z'' \<or> c = ch CHR ''z'' then zulu_time (drop 1 zDate) p
      else (p, c \<noteq> 0))"

fun fraction_loop :: "cstr \<Rightarrow> rat \<Rightarrow> rat \<Rightarrow> rat \<times> rat \<times> cstr" where
  "fraction_loop [] ms rScale = (ms, rScale, [])"
| "fraction_loop (c # zDate) ms rScale =
     (if sqlite3Isdigit c
      then fraction_loop zDate (rnd (rnd (rnd (ms * 10) + of_int (uint c)) - 48)) (rnd (rScale * 10))
      else (ms, rScale, c # zDate))"

definition parse_seconds :: "cstr \<Rightarrow> (int \<times> rat \<times> cstr) option" where
  "parse_seconds zDate =
     (if cat zDate 0 = ch CHR '':''
      then let zDate = drop 1 zDate in
           (case getDigits zDate (cstring ''20e'') of
              [s] \<Rightarrow>
                let zDate = drop 2 zDate in
                if cat zDate 0 = ch CHR ''.'' \<and> sqlite3Isdigit (cat zDate 1)
                then let (ms, rScale, zDate) = fraction_loop (drop 1 zDate) 0 1
                     in Some (s, rnd (ms / rScale), zDate)
                else Some (s, 0, zDate)
            | _ \<Rightarrow> None)
      else Some (0, 0, zDate))"

definition parseHhMmSs :: "cstr \<Rightarrow> DateTime \<Rightarrow> DateTime \<times> bool" where
  "parseHhMmSs zDate p =
     (case getDigits zDate (cstring ''20c:20e'') of
        [h, m] \<Rightarrow>
          (case parse_seconds (drop 5 zDate) of
             None \<Rightarrow> (p, True)
           | Some (s, ms, zDate) \<Rightarrow>
               let p = p\<lparr>validJD := False, rawS := False, validHMS := True, dt_h := h, dt_m := m,
                         dt_s := rnd (of_int s + ms)\<rparr>;
                   (p, rc) = parseTimezone zDate p
               in if rc then (p, True) else (p\<lparr>validTZ := dt_tz p \<noteq> 0\<rparr>, False))
      | _ \<Rightarrow> (p, True))"

definition datetimeError :: "DateTime \<Rightarrow> DateTime" where
  "datetimeError p = zero_DateTime\<lparr>isError := True\<rparr>"

subsection \<open>Julian days\<close>

definition computeJD :: "DateTime \<Rightarrow> DateTime" where
  "computeJD p =
     (if validJD p then p
      else let (Y, M, D) = (if validYMD p then (dt_Y p, dt_M p, dt_D p) else (2000, 1, 1)) in
      if Y < - 4713 \<or> 9999 < Y \<or> rawS p then datetimeError p
      else let (Y, M) = (if M \<le> 2 then (Y - 1, M + 12) else (Y, M));
               A = cdiv Y 100;
               B = 2 - A + cdiv A 4;
               X1 = cdiv (36525 * (Y + 4716)) 100;
               X2 = cdiv (306001 * (M + 1)) 10000;
               p = p\<lparr>iJD := ctrunc (rnd (rnd (of_int (X1 + X2 + D + B) - 1524.5) * 86400000)),
                     validJD := True\<rparr>
           in if validHMS p
              then let p = p\<lparr>iJD := iJD p + (dt_h p * 3600000 + dt_m p * 60000
                                 + ctrunc (rnd (dt_s p * 1000)))\<rparr>
                   in if validTZ p
                      then p\<lparr>iJD := iJD p - dt_tz p * 60000, validYMD := False, validHMS := False,
                             validTZ := False\<rparr>
                      else p
              else p)"

definition skip_T :: "cstr \<Rightarrow> cstr" where
  "skip_T z = dropWhile (\<lambda>c. sqlite3Isspace c \<or> c = ch CHR ''T'') z"

definition parseYyyyMmDd :: "cstr \<Rightarrow> DateTime \<Rightarrow> DateTime \<times> bool" where
  "parseYyyyMmDd zDate p =
     (let neg = cat zDate 0 = ch CHR ''-'';
          zDate = (if neg then drop 1 zDate else zDate)
      in case getDigits zDate (cstring ''40f-21a-21d'') of
           [Y, M, D] \<Rightarrow>
             let zDate = skip_T (drop 10 zDate);
                 (p, rc) = parseHhMmSs zDate p
             in if rc \<and> cat zDate 0 \<noteq> 0 then (p, True)
                else let p = (if rc then p\<lparr>validHMS := False\<rparr> else p);
                         p = p\<lparr>validJD := False, validYMD := True, dt_Y := (if neg then - Y else Y),
                               dt_M := M, dt_D := D\<rparr>
                     in (if validTZ p then computeJD p else p, False)
         | _ \<Rightarrow> (p, True))"

definition setRawDateNumber :: "DateTime \<Rightarrow> rat \<Rightarrow> DateTime" where
  "setRawDateNumber p r =
     (let p = p\<lparr>dt_s := r, rawS := True\<rparr> in
      if 0 \<le> r \<and> r < 5373484.5
      then p\<lparr>iJD := ctrunc (rnd (rnd (r * 86400000) + 0.5)), validJD := True\<rparr> else p)"

definition validJulianDay :: "int \<Rightarrow> bool" where
  "validJulianDay jd \<longleftrightarrow> 0 \<le> jd \<and> jd \<le> 464269060799999"

definition computeYMD :: "DateTime \<Rightarrow> DateTime" where
  "computeYMD p =
     (if validYMD p then p
      else if \<not> validJD p then p\<lparr>dt_Y := 2000, dt_M := 1, dt_D := 1, validYMD := True\<rparr>
      else if \<not> validJulianDay (iJD p) then datetimeError p
      else let Z = cdiv (iJD p + 43200000) 86400000;
               A = ctrunc (rnd (rnd (of_int Z - 1867216.25) / 36524.25));
               A = Z + 1 + A - cdiv A 4;
               B = A + 1524;
               C = ctrunc (rnd (rnd (of_int B - rnd 122.1) / 365.25));
               D = cdiv (36525 * (C AND 32767)) 100;
               E = ctrunc (rnd (of_int (B - D) / rnd 30.6001));
               X1 = ctrunc (rnd (rnd 30.6001 * of_int E));
               M = (if E < 14 then E - 1 else E - 13)
           in p\<lparr>dt_D := B - D - X1, dt_M := M, dt_Y := (if 2 < M then C - 4716 else C - 4715),
                validYMD := True\<rparr>)"

definition computeHMS :: "DateTime \<Rightarrow> DateTime" where
  "computeHMS p =
     (if validHMS p then p
      else let p = computeJD p;
               s = crem (iJD p + 43200000) 86400000;
               fs = rnd (of_int s / 1000);
               s = ctrunc fs;
               fs = rnd (fs - of_int s);
               h = cdiv s 3600;
               s = s - h * 3600;
               m = cdiv s 60;
               fs = rnd (fs + of_int (s - m * 60))
           in p\<lparr>dt_s := fs, dt_h := h, dt_m := m, rawS := False, validHMS := True\<rparr>)"

definition computeYMD_HMS :: "DateTime \<Rightarrow> DateTime" where
  "computeYMD_HMS p = computeHMS (computeYMD p)"

definition clearYMD_HMS_TZ :: "DateTime \<Rightarrow> DateTime" where
  "clearYMD_HMS_TZ p = p\<lparr>validYMD := False, validHMS := False, validTZ := False\<rparr>"

subsection \<open>Modifiers\<close>

text \<open>The modifier \<open>start of TTTTT\<close>, from the text behind \<open>start of\<close> on.\<close>

definition modifier_start_of :: "cstr \<Rightarrow> DateTime \<Rightarrow> DateTime \<times> bool" where
  "modifier_start_of z p =
     (if \<not> validJD p \<and> \<not> validYMD p \<and> \<not> validHMS p then (p, True)
      else let p = computeYMD p;
               p = p\<lparr>validHMS := True, dt_h := 0, dt_m := 0, dt_s := 0, rawS := False, validTZ := False,
                     validJD := False\<rparr>
           in if sqlite3_stricmp (Some z) (Some (cstring ''month'')) = 0 then (p\<lparr>dt_D := 1\<rparr>, False)
              else if sqlite3_stricmp (Some z) (Some (cstring ''year'')) = 0
              then (p\<lparr>dt_M := 1, dt_D := 1\<rparr>, False)
              else (p, sqlite3_stricmp (Some z) (Some (cstring ''day'')) \<noteq> 0))"

text \<open>The modifier \<open>weekday N\<close>, for the number that was read.\<close>

definition modifier_weekday :: "int \<Rightarrow> DateTime \<Rightarrow> DateTime" where
  "modifier_weekday n p =
     (let p = computeYMD_HMS p;
          p = p\<lparr>validTZ := False, validJD := False\<rparr>;
          p = computeJD p;
          Z = crem (cdiv (iJD p + 129600000) 86400000) 7;
          Z = (if n < Z then Z - 7 else Z)
      in clearYMD_HMS_TZ (p\<lparr>iJD := iJD p + (n - Z) * 86400000\<rparr>))"

definition aXformType :: "(nat \<times> nat \<times> cstr \<times> rat \<times> rat) list" where
  "aXformType =
     [(0, 6, cstring ''second'', 464269060800, 1000),
      (0, 6, cstring ''minute'', 7737817680, 60000),
      (0, 4, cstring ''hour'', 128963628, 3600000),
      (0, 3, cstring ''day'', 5373485, 86400000),
      (1, 5, cstring ''month'', 176546, 2592000000),
      (2, 4, cstring ''year'', 14713, 31536000000)]"

definition xform_apply :: "nat \<Rightarrow> rat \<Rightarrow> rat \<Rightarrow> rat \<Rightarrow> DateTime \<Rightarrow> DateTime" where
  "xform_apply eType rXform rRounder r p =
     (let (p, r) =
        (if eType = 1
         then let p = computeYMD_HMS p;
                  M = dt_M p + ctrunc r;
                  x = (if 0 < M then cdiv (M - 1) 12 else cdiv (M - 12) 12)
              in (p\<lparr>dt_Y := dt_Y p + x, dt_M := M - x * 12, validJD := False\<rparr>, rnd (r - of_int (ctrunc r)))
         else if eType = 2
         then let p = computeYMD_HMS p
              in (p\<lparr>dt_Y := dt_Y p + ctrunc r, validJD := False\<rparr>, rnd (r - of_int (ctrunc r)))
         else (p, r));
          p = computeJD p
      in p\<lparr>iJD := iJD p + ctrunc (rnd (rnd (r * rXform) + rRounder))\<rparr>)"

fun xform_loop ::
    "(nat \<times> nat \<times> cstr \<times> rat \<times> rat) list \<Rightarrow> cstr \<Rightarrow> nat \<Rightarrow> rat \<Rightarrow> rat \<Rightarrow> DateTime \<Rightarrow> DateTime \<times> bool" where
  "xform_loop [] z n rRounder r p = (p, True)"
| "xform_loop ((eType, nName, zName, rLimit, rXform) # xs) z n rRounder r p =
     (if nName = n \<and> sqlite3_strnicmp (Some zName) (Some z) (int n) = 0 \<and> - rLimit < r \<and> r < rLimit
      then (xform_apply eType rXform rRounder r p, False)
      else xform_loop xs z n rRounder r p)"

text \<open>A modifier \<open>NNN units\<close>: the number \<open>r\<close> that was read and the text behind it.\<close>

definition modifier_shift :: "rat \<Rightarrow> cstr \<Rightarrow> DateTime \<Rightarrow> DateTime \<times> bool" where
  "modifier_shift r z p =
     (let z = skip_spaces z; n = sqlite3Strlen30 z in
      if 10 < n \<or> n < 3 then (p, True)
      else let n = (if sqlite3UpperToLower (cat z (n - 1)) = ch CHR ''s'' then n - 1 else n);
               rRounder = (if r < 0 then - 0.5 else 0.5);
               (p, rc) = xform_loop aXformType z n rRounder r (computeJD p)
           in (clearYMD_HMS_TZ p, rc))"

text \<open>The modifier \<open>unixepoch\<close>, which reads the number of the argument as seconds since 1970.\<close>

definition modifier_unixepoch :: "DateTime \<Rightarrow> DateTime \<times> bool" where
  "modifier_unixepoch p =
     (if rawS p
      then let r = rnd (rnd (dt_s p * 1000) + 210866760000000) in
           if 0 \<le> r \<and> r < 464269060800000
           then let p = clearYMD_HMS_TZ p
                in (p\<lparr>iJD := ctrunc (rnd (r + 0.5)), validJD := True, rawS := False\<rparr>, False)
           else (p, True)
      else (p, True))"

text \<open>A modifier \<open>+HH:MM:SS.FFF\<close> or \<open>-HH:MM:SS.FFF\<close>.\<close>

definition modifier_clock :: "cstr \<Rightarrow> DateTime \<Rightarrow> DateTime \<times> bool" where
  "modifier_clock z p =
     (let z2 = (if \<not> sqlite3Isdigit (cat z 0) then drop 1 z else z);
          (tx, rc) = parseHhMmSs z2 zero_DateTime
      in if rc then (p, True)
         else let tx = computeJD tx;
                  tx = tx\<lparr>iJD := iJD tx - 43200000\<rparr>;
                  day = cdiv (iJD tx) 86400000;
                  tx = tx\<lparr>iJD := iJD tx - day * 86400000\<rparr>;
                  tx = (if cat z 0 = ch CHR ''-'' then tx\<lparr>iJD := - iJD tx\<rparr> else tx);
                  p = clearYMD_HMS_TZ (computeJD p)
              in (p\<lparr>iJD := iJD p + iJD tx\<rparr>, False))"

text \<open>The end of \<open>isDate\<close>, after the last modifier: \<open>None\<close> is the result NULL.\<close>

definition isDate_finish :: "DateTime \<Rightarrow> DateTime option" where
  "isDate_finish p =
     (let p = computeJD p in if isError p \<or> \<not> validJulianDay (iJD p) then None else Some p)"

subsection \<open>The text of a date\<close>

definition zero_padded :: "nat \<Rightarrow> int \<Rightarrow> cstr" where
  "zero_padded n i =
     (let ds = dtext (nat \<bar>i\<bar>); sign = (if i < 0 then [ch CHR ''-''] else [])
      in sign @ replicate (n - length sign - length ds) (ch CHR ''0'') @ ds)"

definition date_text :: "DateTime \<Rightarrow> cstr" where
  "date_text x =
     (let x = computeYMD x in
      zero_padded 4 (dt_Y x) @ [ch CHR ''-''] @ zero_padded 2 (dt_M x) @ [ch CHR ''-'']
        @ zero_padded 2 (dt_D x))"

definition time_text :: "DateTime \<Rightarrow> cstr" where
  "time_text x =
     (let x = computeHMS x in
      zero_padded 2 (dt_h x) @ [ch CHR '':''] @ zero_padded 2 (dt_m x) @ [ch CHR '':'']
        @ zero_padded 2 (ctrunc (dt_s x)))"

definition datetime_text :: "DateTime \<Rightarrow> cstr" where
  "datetime_text x =
     (let x = computeYMD_HMS x in
      zero_padded 4 (dt_Y x) @ [ch CHR ''-''] @ zero_padded 2 (dt_M x) @ [ch CHR ''-'']
        @ zero_padded 2 (dt_D x) @ [ch CHR '' ''] @ zero_padded 2 (dt_h x) @ [ch CHR '':'']
        @ zero_padded 2 (dt_m x) @ [ch CHR '':''] @ zero_padded 2 (ctrunc (dt_s x)))"

end
