(* ===== verification/Calendar.thy ===== *)
theory Calendar
  imports Date
begin

text \<open>
  The date arithmetic of \<open>date.c\<close> against the Gregorian calendar: the double-precision
  expressions of \<open>computeYMD\<close> are integer divisions, \<open>computeJD\<close> counts the days of the calendar, and the two
  are inverse to each other, with one exception in ten thousand years.
\<close>

subsection \<open>The double-precision expressions\<close>

lemma ctrunc_quotient:
  assumes "0 < n" "\<bar>k\<bar> < 2 ^ 53"
  shows "ctrunc (rnd (of_int k / of_int n)) = cdiv k n"
proof (cases "n dvd k")
  case True
  then obtain q where k: "k = n * q" by blast
  have "\<bar>q\<bar> * 1 \<le> \<bar>q\<bar> * n" using assms(1) by (intro mult_left_mono) auto
  then have "\<bar>q\<bar> \<le> \<bar>k\<bar>" using assms(1) by (simp add: k abs_mult mult.commute)
  then have "rnd (of_int q) = of_int q" using assms(2) by simp
  moreover have "cdiv k n = q"
    using assms(1) by (cases "0 \<le> q") (simp_all add: k cdiv_pos cdiv_neg_pos mult_pos_neg flip: mult_minus_right)
  ultimately show ?thesis using assms(1) by (simp add: k)
next
  case False
  let ?x = "of_int k / of_int n :: rat"
  have "(of_int \<bar>k\<bar> :: rat) < of_int (2 ^ 53)" using assms(2) by (simp only: of_int_less_iff)
  then have "\<bar>of_int k :: rat\<bar> / 2 ^ 53 < 1" by simp
  moreover have "\<bar>rnd ?x - ?x\<bar> * of_int n \<le> \<bar>?x\<bar> / 2 ^ 53 * of_int n"
    using assms(1) by (intro mult_right_mono dbl.fl_near) simp
  moreover have "\<bar>?x\<bar> / 2 ^ 53 * of_int n = \<bar>of_int k\<bar> / 2 ^ 53"
    using assms(1) by (simp add: abs_divide)
  ultimately show ?thesis by (intro ctrunc_close assms False) linarith
qed

lemma decimals:
  "(365.25 :: rat) = 36525 / 100" "(30.6001 :: rat) = 306001 / 10000"
  "(36524.25 :: rat) = 146097 / 4" "(1867216.25 :: rat) = 7468865 / 4" "(1524.5 :: rat) = 3049 / 2"
  by simp_all

lemma ymd_century:
  assumes "0 \<le> Z" "Z \<le> 5373484"
  shows "ctrunc (rnd (rnd (of_int Z - 1867216.25) / 36524.25)) = cdiv (4 * Z - 7468865) 146097"
proof -
  have small: "\<bar>4 * Z - 7468865\<bar> < 2 ^ 53" using assms by simp
  have q: "of_int Z - 1867216.25 = (of_int (4 * Z - 7468865) / 2 ^ 2 :: rat)" by simp
  have "rnd (of_int Z - 1867216.25) = of_int (4 * Z - 7468865) / 2 ^ 2"
    unfolding q using small by (intro dbl.fl_exact) simp
  then have "rnd (of_int Z - 1867216.25) / 36524.25 = of_int (4 * Z - 7468865) / of_int 146097"
    unfolding decimals by simp
  then show ?thesis by (simp only: ctrunc_quotient [OF _ small] zero_less_numeral)
qed

lemma rnd_eps:
  obtains eps :: rat where "0 < eps" "eps \<le> 1 / 1000000000000000" "\<And>x b. \<bar>x\<bar> \<le> b \<Longrightarrow> \<bar>rnd x - x\<bar> \<le> b * eps"
proof
  show "\<bar>rnd x - x\<bar> \<le> b * (1 / 2 ^ 53)" if "\<bar>x\<bar> \<le> b" for x b using dbl.fl_within [OF that] by simp
qed simp_all

lemma scaled_error:
  fixes d :: rat
  assumes "\<bar>d\<bar> \<le> c * eps" "c * eps * m < 1" "0 \<le> m"
  shows "\<bar>d\<bar> * m < 1"
  using mult_right_mono [OF assms(1,3)] assms(2) by linarith

lemma ymd_year:
  assumes "0 \<le> B" "B \<le> 10000000"
  shows "ctrunc (rnd (rnd (of_int B - rnd 122.1) / 365.25)) = cdiv (100 * B - 12210) 36525"
  unfolding decimals
proof (rule ctrunc_close)
  show "\<not> 36525 dvd 100 * B - 12210"
  proof
    assume "36525 dvd 100 * B - 12210"
    then have "25 dvd 100 * B - 12210" by (rule dvd_trans [rotated]) simp
    then have "25 dvd 25 * (4 * B) - 12210" by simp
    then have "25 dvd (12210 :: int)" by (simp only: dvd_diff_right_iff dvd_triv_left)
    then show False by simp
  qed
  obtain eps where eps: "0 < eps" "eps \<le> 1 / 1000000000000000"
    and near: "\<And>x b. \<bar>x\<bar> \<le> b \<Longrightarrow> \<bar>rnd x - x\<bar> \<le> b * eps" using rnd_eps by metis
  define c where "c = rnd (1221 / 10)"
  define t where "t = rnd (of_int B - c)"
  define q where "q = rnd (t / (36525 / 100))"
  have b: "(0::rat) \<le> of_int B" "(of_int B :: rat) \<le> 10000000" using assms by simp_all
  have c: "\<bar>c - (1221 / 10)\<bar> \<le> 123 * eps" unfolding c_def by (rule near) simp
  have "\<bar>of_int B - c\<bar> \<le> 10000124" using b c eps by linarith
  then have t: "\<bar>t - (of_int B - c)\<bar> \<le> 10000124 * eps" unfolding t_def by (rule near)
  have "\<bar>t\<bar> \<le> 10000125" using t b c eps by linarith
  then have "\<bar>t * 4 / 1461\<bar> \<le> 10000125" by linarith
  then have "\<bar>rnd (t * 4 / 1461) - t * 4 / 1461\<bar> \<le> 10000125 * eps" by (rule near)
  moreover have "rnd (t * 4 / 1461) = q" by (simp add: q_def)
  ultimately have q: "\<bar>q - t * 4 / 1461\<bar> \<le> 10000125 * eps" by (simp only:)
  have "\<bar>q - (100 * of_int B - 12210) / 36525\<bar> \<le> 30000000 * eps"
    using t c q eps(1) unfolding diff_divide_distrib by linarith
  then have "\<bar>q - (100 * of_int B - 12210) / 36525\<bar> * 36525 < 1" using eps by (elim scaled_error) simp_all
  then show "\<bar>rnd (rnd (of_int B - rnd (1221 / 10)) / (36525 / 100)) - of_int (100 * B - 12210) / of_int 36525\<bar> * of_int 36525 < 1"
    unfolding q_def t_def c_def by simp
qed simp

lemma ymd_month:
  assumes "0 \<le> N" "N \<le> 1000"
  shows "ctrunc (rnd (of_int N / rnd 30.6001)) = cdiv (10000 * N) 306001"
proof (cases "N = 0")
  case True
  then show ?thesis by (simp add: rnd_def ctrunc_def cdiv_def)
next
  case False
  show ?thesis
    unfolding decimals
  proof (rule ctrunc_close)
    show "\<not> 306001 dvd 10000 * N"
    proof
      assume "306001 dvd 10000 * N"
      moreover have "coprime (306001::int) 10000" by code_simp
      ultimately have "306001 dvd N" by (simp add: coprime_dvd_mult_right_iff)
      then show False using False assms zdvd_imp_le [of 306001 N] by simp
    qed
    obtain eps where eps: "0 < eps" "eps \<le> 1 / 1000000000000000"
      and near: "\<And>x b. \<bar>x\<bar> \<le> b \<Longrightarrow> \<bar>rnd x - x\<bar> \<le> b * eps" using rnd_eps by metis
    define c where "c = rnd (306001 / 10000)"
    define x where "x = of_int N / c"
    have c: "\<bar>c - (306001 / 10000)\<bar> \<le> 31 * eps" unfolding c_def by (rule near) simp
    have c30: "30 \<le> c" using c eps by linarith
    have n: "(0::rat) \<le> of_int N" "(of_int N :: rat) \<le> 1000" using assms by simp_all
    have "x * c = of_int N" using c30 by (simp add: x_def)
    have "0 \<le> x" using n c30 by (simp add: x_def)
    moreover have "x * 30 \<le> x * c" using c30 \<open>0 \<le> x\<close> by (rule mult_left_mono)
    ultimately have x: "0 \<le> x" "x \<le> 34" using n \<open>x * c = of_int N\<close> by linarith+
    have "\<bar>x * (c - (306001 / 10000))\<bar> \<le> 34 * (31 * eps)"
      unfolding abs_mult using x c by (intro mult_mono) auto
    then have near_x: "\<bar>of_int N - x * (306001 / 10000)\<bar> \<le> 1054 * eps"
      using \<open>x * c = of_int N\<close> by (simp add: right_diff_distrib)
    have "\<bar>rnd x - x\<bar> \<le> 34 * eps" using x by (intro near) simp
    then have "\<bar>rnd x - 10000 * of_int N / 306001\<bar> \<le> 1088 * eps" using near_x by linarith
    then have "\<bar>rnd x - 10000 * of_int N / 306001\<bar> * 306001 < 1" using eps by (elim scaled_error) simp_all
    then show "\<bar>rnd (of_int N / rnd (306001 / 10000)) - of_int (10000 * N) / of_int 306001\<bar> * of_int 306001 < 1"
      unfolding x_def c_def by simp
  qed simp
qed

lemma ymd_day:
  assumes "0 \<le> E" "E \<le> 100"
  shows "ctrunc (rnd (rnd 30.6001 * of_int E)) = cdiv (306001 * E) 10000"
proof (cases "E = 0")
  case True
  then show ?thesis by (simp add: rnd_def ctrunc_def cdiv_def)
next
  case False
  show ?thesis
    unfolding decimals
  proof (rule ctrunc_close)
    show "\<not> 10000 dvd 306001 * E"
    proof
      assume "10000 dvd 306001 * E"
      moreover have "coprime (10000::int) 306001" by code_simp
      ultimately have "10000 dvd E" by (simp add: coprime_dvd_mult_right_iff)
      then show False using False assms zdvd_imp_le [of 10000 E] by simp
    qed
    obtain eps where eps: "0 < eps" "eps \<le> 1 / 1000000000000000"
      and near: "\<And>x b. \<bar>x\<bar> \<le> b \<Longrightarrow> \<bar>rnd x - x\<bar> \<le> b * eps" using rnd_eps by metis
    define c where "c = rnd (306001 / 10000)"
    define x where "x = c * of_int E"
    have c: "\<bar>c - (306001 / 10000)\<bar> \<le> 31 * eps" unfolding c_def by (rule near) simp
    have e: "(0::rat) \<le> of_int E" "(of_int E :: rat) \<le> 100" using assms by simp_all
    have "\<bar>(c - (306001 / 10000)) * of_int E\<bar> \<le> 31 * eps * 100"
      unfolding abs_mult using e c eps by (intro mult_mono) auto
    then have near_x: "\<bar>x - (306001 / 10000) * of_int E\<bar> \<le> 3100 * eps" by (simp add: x_def left_diff_distrib)
    then have "\<bar>x\<bar> \<le> 3100" using e eps by linarith
    then have "\<bar>rnd x - x\<bar> \<le> 3100 * eps" by (rule near)
    then have "\<bar>rnd x - 306001 * of_int E / 10000\<bar> \<le> 6200 * eps" using near_x by linarith
    then have "\<bar>rnd x - 306001 * of_int E / 10000\<bar> * 10000 < 1" using eps by (elim scaled_error) simp_all
    then show "\<bar>rnd (rnd (306001 / 10000) * of_int E) - of_int (306001 * E) / of_int 10000\<bar> * of_int 10000 < 1"
      unfolding x_def c_def by simp
  qed simp
qed

subsection \<open>The Gregorian calendar\<close>

definition leap_year :: "int \<Rightarrow> bool" where
  "leap_year Y \<longleftrightarrow> 4 dvd Y \<and> (100 dvd Y \<longrightarrow> 400 dvd Y)"

definition year_length :: "int \<Rightarrow> int" where
  "year_length Y = (if leap_year Y then 366 else 365)"

definition month_length :: "int \<Rightarrow> int \<Rightarrow> int" where
  "month_length Y M =
     (if M = 2 then if leap_year Y then 29 else 28 else if M \<in> {4, 6, 9, 11} then 30 else 31)"

definition valid_date :: "int \<Rightarrow> int \<Rightarrow> int \<Rightarrow> bool" where
  "valid_date Y M D \<longleftrightarrow> 0 \<le> Y \<and> Y \<le> 9999 \<and> 1 \<le> M \<and> M \<le> 12 \<and> 1 \<le> D \<and> D \<le> month_length Y M"

definition valid_time :: "int \<Rightarrow> int \<Rightarrow> int \<Rightarrow> bool" where
  "valid_time h m s \<longleftrightarrow> 0 \<le> h \<and> h < 24 \<and> 0 \<le> m \<and> m < 60 \<and> 0 \<le> s \<and> s < 60"

text \<open>The day number counts every day from 0000-01-01 on, which is day 1721060.\<close>

definition day_number :: "int \<Rightarrow> int \<Rightarrow> int \<Rightarrow> int" where
  "day_number Y M D =
     1721059 + (\<Sum>y\<leftarrow>[0..Y - 1]. year_length y) + (\<Sum>m\<leftarrow>[1..M - 1]. month_length Y m) + D"

definition leaps :: "int \<Rightarrow> int" where
  "leaps Y = Y div 4 - Y div 100 + Y div 400"

lemma div_step:
  "0 < n \<Longrightarrow> (Y :: int) div n = (Y - 1) div n + (if n dvd Y then 1 else 0)"
proof -
  assume n: "0 < n"
  have Y: "Y = n * (Y div n) + Y mod n" by simp
  show ?thesis
  proof (cases "Y mod n = 0")
    case True
    then have "n * (Y div n) = Y" using Y by linarith
    then have "Y - 1 = n * (Y div n - 1) + (n - 1)" by (simp add: right_diff_distrib)
    then have "(Y - 1) div n = Y div n - 1" using n by (intro int_div_pos_eq [where r = "n - 1"]) auto
    then show ?thesis using True by (simp add: dvd_eq_mod_eq_0)
  next
    case False
    then have "Y - 1 = n * (Y div n) + (Y mod n - 1)" by simp
    moreover have "0 \<le> Y mod n - 1" "Y mod n - 1 < n"
      using n False pos_mod_sign [of n Y] pos_mod_bound [of n Y] by linarith+
    ultimately have "(Y - 1) div n = Y div n" by (rule int_div_pos_eq)
    then show ?thesis using False by (simp add: dvd_eq_mod_eq_0)
  qed
qed

lemma leaps_step: "leaps Y = leaps (Y - 1) + (if leap_year Y then 1 else 0)"
proof -
  have "400 dvd Y \<Longrightarrow> 100 dvd Y" "100 dvd Y \<Longrightarrow> 4 dvd Y"
    using dvd_trans [of 100 400 Y] dvd_trans [of 4 100 Y] by simp_all
  then have leap: "(if leap_year Y then 1 else 0 :: int) =
      (if 4 dvd Y then 1 else 0) - (if 100 dvd Y then 1 else 0) + (if 400 dvd Y then 1 else 0)"
    unfolding leap_year_def by (cases "4 dvd Y"; cases "100 dvd Y") auto
  note div_step [of 4 Y, OF zero_less_numeral] div_step [of 100 Y, OF zero_less_numeral]
    div_step [of 400 Y, OF zero_less_numeral]
  then show ?thesis unfolding leaps_def leap by (simp only: algebra_simps)
qed

lemma days_before_year:
  assumes "0 \<le> Y"
  shows "(\<Sum>y\<leftarrow>[0..Y - 1]. year_length y) = 365 * Y + leaps (Y - 1) + 1"
  using assms
proof (induction Y rule: int_ge_induct)
  case base
  then show ?case by (simp add: leaps_def)
next
  case (step i)
  then have "[0..i] = [0..i - 1] @ [i]" by (intro upto_rec2)
  with step show ?case using leaps_step [of i] by (simp add: year_length_def)
qed

text \<open>Both conversions count years from March: January and February belong to the year before.\<close>

definition march_year :: "int \<Rightarrow> int \<Rightarrow> int" where
  "march_year Y M = (if M \<le> 2 then Y - 1 else Y)"

definition march_month :: "int \<Rightarrow> int" where
  "march_month M = (if M \<le> 2 then M + 12 else M)"

definition month_offset :: "int \<Rightarrow> int" where
  "month_offset M = cdiv (306001 * (march_month M + 1)) 10000"

lemma month_cases:
  fixes M :: int
  assumes "1 \<le> M" "M \<le> 12"
  obtains "M = 1" | "M = 2" | "M = 3" | "M = 4" | "M = 5" | "M = 6" | "M = 7" | "M = 8" | "M = 9" | "M = 10"
    | "M = 11" | "M = 12"
proof -
  have "M \<in> set [1..12]" using assms by simp
  then show thesis using that by (auto simp: upto.simps)
qed

lemma upto_months:
  "[1..0] = ([] :: int list)" "[1..1] = [1::int]" "[1..2] = [1, 2::int]" "[1..3] = [1, 2, 3::int]"
  "[1..4] = [1, 2, 3, 4::int]" "[1..5] = [1, 2, 3, 4, 5::int]" "[1..6] = [1, 2, 3, 4, 5, 6::int]"
  "[1..7] = [1, 2, 3, 4, 5, 6, 7::int]" "[1..8] = [1, 2, 3, 4, 5, 6, 7, 8::int]"
  "[1..9] = [1, 2, 3, 4, 5, 6, 7, 8, 9::int]" "[1..10] = [1, 2, 3, 4, 5, 6, 7, 8, 9, 10::int]"
  "[1..11] = [1, 2, 3, 4, 5, 6, 7, 8, 9, 10, 11::int]"
  by (simp_all add: upto.simps)

lemma days_before_month:
  assumes "1 \<le> M" "M \<le> 12"
  shows "(\<Sum>m\<leftarrow>[1..M - 1]. month_length Y m) =
    month_offset M - 63 + (if M \<le> 2 then - 365 else if leap_year Y then 1 else 0)"
  using assms
  by (cases M rule: month_cases)
    (simp_all add: upto_months month_length_def month_offset_def march_month_def cdiv_def)

lemma day_number_march:
  assumes "valid_date Y M D"
  shows "day_number Y M D =
    365 * march_year Y M + leaps (march_year Y M) + month_offset M + D + 1720997"
  using assms days_before_year [of Y] days_before_month [of M Y] leaps_step [of Y]
  by (auto simp: valid_date_def day_number_def march_year_def)

lemma march_year_bounds: "valid_date Y M D \<Longrightarrow> - 1 \<le> march_year Y M \<and> march_year Y M \<le> 9999"
  by (auto simp: valid_date_def march_year_def)

lemma day_of_march_year:
  assumes "valid_date Y M D"
  shows "123 \<le> month_offset M + D"
    "month_offset M + D \<le> 487 + (if leap_year (march_year Y M + 1) then 1 else 0)"
proof -
  have M: "1 \<le> M" "M \<le> 12" and D: "1 \<le> D" "D \<le> month_length Y M" using assms by (simp_all add: valid_date_def)
  from M show "123 \<le> month_offset M + D"
    by (cases M rule: month_cases) (use D in \<open>simp_all add: month_offset_def march_month_def cdiv_def\<close>)
  from M show "month_offset M + D \<le> 487 + (if leap_year (march_year Y M + 1) then 1 else 0)"
    by (cases M rule: month_cases)
      (use D in \<open>simp_all add: month_length_def month_offset_def march_month_def march_year_def cdiv_def split: if_splits\<close>)
qed

lemma days_in_julian_years: "36525 * w div 100 = 365 * w + w div (4 :: int)"
proof -
  have "36525 * w div 100 = (25 * (1461 * w)) div (25 * 4)" by simp
  also have "\<dots> = (w + 365 * w * 4) div 4" by (subst div_mult_mult1) simp_all
  also have "\<dots> = 365 * w + w div 4" by (subst div_mult_self1) simp_all
  finally show ?thesis .
qed

lemma century_correction:
  assumes "- 1 \<le> y"
  shows "cdiv (cdiv y 100) 4 - cdiv y 100 = y div 400 - y div 100"
proof (cases "y = - 1")
  case True
  then show ?thesis by (simp add: cdiv_def)
next
  case False
  with assms show ?thesis using zdiv_zmult2_eq [of 4 y 100] by (simp add: cdiv_pos pos_imp_zdiv_nonneg_iff)
qed

lemma julian_sum:
  assumes "- 1 \<le> y"
  shows "cdiv (36525 * (y + 4716)) 100 + (2 - cdiv y 100 + cdiv (cdiv y 100) 4) = 365 * y + leaps y + 1722521"
proof -
  have "(y + 4716) div 4 = y div 4 + 1179" by simp
  then have "cdiv (36525 * (y + 4716)) 100 = 365 * y + y div 4 + 1722519"
    using assms by (simp add: cdiv_pos days_in_julian_years)
  then show ?thesis using century_correction [OF assms] unfolding leaps_def by (simp only: algebra_simps)
qed

lemma leaps_mono: "i \<le> j \<Longrightarrow> leaps i \<le> leaps j"
proof (induction j rule: int_ge_induct)
  case (step j)
  then show ?case using leaps_step [of "j + 1"] by (simp split: if_splits)
qed simp

lemma day_number_bounds:
  assumes "valid_date Y M D"
  shows "1721060 \<le> day_number Y M D" "day_number Y M D \<le> 5373484"
proof -
  let ?y = "march_year Y M"
  have y: "- 1 \<le> ?y" "?y \<le> 9999" using march_year_bounds [OF assms] by simp_all
  have "leaps (- 1) = - 1" "leaps 9999 = 2424" by (simp_all add: leaps_def)
  with y have leaps: "- 1 \<le> leaps ?y" "leaps ?y \<le> 2424"
    using leaps_mono [of "- 1" ?y] leaps_mono [of ?y 9999] by linarith+
  have M: "1 \<le> M" "M \<le> 12" and D: "1 \<le> D" "D \<le> month_length Y M" and Y: "0 \<le> Y" "Y \<le> 9999"
    using assms by (simp_all add: valid_date_def)
  from M have "429 \<le> month_offset M + D + (if 3 \<le> M then 365 else 0)"
    "month_offset M + D \<le> (if 3 \<le> M then 428 else 488)"
    by (cases M rule: month_cases; use D in \<open>simp add: month_length_def month_offset_def march_month_def cdiv_def split: if_splits\<close>)+
  then show "1721060 \<le> day_number Y M D" "day_number Y M D \<le> 5373484"
    using leaps y Y unfolding day_number_march [OF assms] by (simp_all add: march_year_def split: if_splits)
qed

subsection \<open>From the calendar to day numbers\<close>

text \<open>The milliseconds since noon of day 0 of a date and a time of day.\<close>

definition julian_ms :: "int \<Rightarrow> int \<Rightarrow> int \<Rightarrow> int \<Rightarrow> int" where
  "julian_ms Y M D ms = 86400000 * day_number Y M D - 43200000 + ms"

lemma half_day_exact:
  assumes "0 \<le> k" "k \<le> 10000000"
  shows "ctrunc (rnd (rnd (of_int k - 1524.5) * 86400000)) = 86400000 * (k - 1524) - 43200000"
proof -
  have q: "of_int k - 1524.5 = (of_int (2 * k - 3049) / 2 ^ 1 :: rat)" by simp
  have "rnd (of_int k - 1524.5) = of_int (2 * k - 3049) / 2 ^ 1"
    unfolding q using assms by (intro dbl.fl_exact) simp
  then have "rnd (of_int k - 1524.5) * 86400000 = of_int ((2 * k - 3049) * 43200000)" by (simp only:) simp
  moreover have "rnd (of_int ((2 * k - 3049) * 43200000)) = of_int ((2 * k - 3049) * 43200000)"
    using assms by (intro dbl.fl_int) simp
  ultimately show ?thesis by (simp only: ctrunc_int) simp
qed

lemma computeJD_day:
  assumes "valid_date (dt_Y p) (dt_M p) (dt_D p)" "validYMD p" "\<not> validJD p" "\<not> rawS p"
  defines "p1 \<equiv> p\<lparr>iJD := julian_ms (dt_Y p) (dt_M p) (dt_D p) 0, validJD := True\<rparr>"
  shows "computeJD p =
    (if validHMS p
     then let p2 = p1\<lparr>iJD := iJD p1 + (dt_h p * 3600000 + dt_m p * 60000 + ctrunc (rnd (dt_s p * 1000)))\<rparr>
          in if validTZ p
             then p2\<lparr>iJD := iJD p2 - dt_tz p * 60000, validYMD := False, validHMS := False, validTZ := False\<rparr>
             else p2
     else p1)"
proof -
  let ?y = "march_year (dt_Y p) (dt_M p)"
  let ?k = "cdiv (36525 * (?y + 4716)) 100 + month_offset (dt_M p) + dt_D p
    + (2 - cdiv ?y 100 + cdiv (cdiv ?y 100) 4)"
  have k: "?k = day_number (dt_Y p) (dt_M p) (dt_D p) + 1524"
    using julian_sum [of ?y] march_year_bounds [OF assms(1)] unfolding day_number_march [OF assms(1)] by linarith
  then have jd: "ctrunc (rnd (rnd (of_int ?k - 1524.5) * 86400000)) = julian_ms (dt_Y p) (dt_M p) (dt_D p) 0"
    using half_day_exact [of ?k] day_number_bounds [OF assms(1)] by (simp add: julian_ms_def)
  have pair: "(if dt_M p \<le> 2 then (dt_Y p - 1, dt_M p + 12) else (dt_Y p, dt_M p)) =
      (march_year (dt_Y p) (dt_M p), march_month (dt_M p))"
    by (simp add: march_year_def march_month_def)
  have range: "(dt_Y p < - 4713 \<or> 9999 < dt_Y p \<or> rawS p) = False"
    using assms(1,4) by (auto simp: valid_date_def)
  have "computeJD p =
    (let p = p1 in
     if validHMS p
     then let p = p\<lparr>iJD := iJD p + (dt_h p * 3600000 + dt_m p * 60000 + ctrunc (rnd (dt_s p * 1000)))\<rparr>
          in if validTZ p
             then p\<lparr>iJD := iJD p - dt_tz p * 60000, validYMD := False, validHMS := False, validTZ := False\<rparr>
             else p
     else p)"
    unfolding computeJD_def p1_def
    by (simp only: assms(2,3) if_True if_False prod.case range pair Let_def flip: month_offset_def jd)
  then show ?thesis by (simp add: p1_def Let_def)
qed

subsection \<open>From day numbers to the calendar\<close>

lemma cdiv_quotient:
  assumes "0 \<le> r" "r < n"
  shows "cdiv (n * q + r) n = (if 0 \<le> q \<or> r = 0 then q else q + 1)"
proof (cases "0 \<le> q")
  case True
  then show ?thesis using assms by (simp add: cdiv_pos)
next
  case False
  then have "n * q \<le> n * - 1" using assms by (intro mult_left_mono) auto
  then have "cdiv (n * q + r) n = - ((n * - q + - r) div n)" using assms by (simp add: cdiv_neg_pos)
  also have "\<dots> = q - (- r) div n" using assms by (subst div_mult_self4) auto
  also have "(- r) div n = (if r = 0 then 0 else - 1)"
    using assms by (auto simp: zdiv_zminus1_eq_if)
  finally show ?thesis using False by simp
qed

text \<open>The days since the first of March of the century that \<open>march_year\<close> is in.\<close>

definition century_day :: "int \<Rightarrow> int \<Rightarrow> int \<Rightarrow> int" where
  "century_day Y M D =
     (let r = march_year Y M mod 100 in 365 * r + r div 4 + month_offset M + D - 123)"

lemma day_number_century:
  assumes "valid_date Y M D"
  defines "A \<equiv> march_year Y M div 100" and "t \<equiv> century_day Y M D"
  shows "4 * day_number Y M D - 7468865 = 146097 * (A - 4) + (4 * t - A mod 4 + 3)"
    "0 \<le> t" "4 * t - A mod 4 + 3 < 146097"
proof -
  let ?y = "march_year Y M"
  define r where "r = ?y mod 100"
  have y: "?y = 100 * A + r" "0 \<le> r" "r < 100" by (simp_all add: A_def r_def)
  have t: "t = 365 * r + r div 4 + month_offset M + D - 123" by (simp add: t_def century_day_def r_def Let_def)
  have "?y div 4 = (r + 25 * A * 4) div 4" using y by (simp add: algebra_simps)
  then have y4: "?y div 4 = r div 4 + 25 * A" by simp
  have y400: "?y div 400 = A div 4" using zdiv_zmult2_eq [of 4 ?y 100] by (simp add: A_def)
  have A4: "4 * (A div 4) = A - A mod 4" by (simp add: minus_mod_eq_mult_div)
  have "leaps ?y = r div 4 + 24 * A + A div 4" using y4 y400 by (simp add: leaps_def flip: A_def)
  moreover have "4 * (365 * z + l + x + D + 1720997) - 7468865
      = 146097 * (A - 4) + (4 * (365 * r + q + x + D - 123) - b + 3)"
    if "l = q + 24 * A + h" "z = 100 * A + r" "4 * h = A - b" for l z x h q b using that by simp
  ultimately show "4 * day_number Y M D - 7468865 = 146097 * (A - 4) + (4 * t - A mod 4 + 3)"
    unfolding day_number_march [OF assms(1)] t using y(1) A4 by simp
  note doy = day_of_march_year [OF assms(1)]
  have r4: "0 \<le> r div 4" "r div 4 \<le> 24" using y by linarith+
  then show "0 \<le> t" using doy(1) y(2) unfolding t by linarith
  show "4 * t - A mod 4 + 3 < 146097"
  proof (cases "leap_year (?y + 1) \<and> r = 99")
    case True
    then have "400 dvd 100 * (A + 1)" using y unfolding leap_year_def by (auto simp: algebra_simps)
    then have "100 * 4 dvd 100 * (A + 1)" by simp
    then have "4 dvd A + 1" by (subst (asm) dvd_times_left_cancel_iff) simp_all
    then have "A mod 4 = 3" by presburger
    then show ?thesis using doy(2) True r4 unfolding t by simp
  next
    case False
    moreover have "0 \<le> A mod 4" by simp
    ultimately show ?thesis using doy(2) r4 y(2,3) unfolding t by (auto split: if_splits)
  qed
qed

lemma century_day_zero:
  assumes "valid_date Y M D" "century_day Y M D = 0"
  shows "M = 3 \<and> D = 1 \<and> march_year Y M mod 100 = 0"
proof -
  let ?r = "march_year Y M mod 100"
  have r: "0 \<le> ?r" "0 \<le> ?r div 4" by simp_all
  with assms(2) day_of_march_year(1) [OF assms(1)]
  have z: "?r = 0" "month_offset M + D = 123" unfolding century_day_def Let_def by linarith+
  have M: "1 \<le> M" "M \<le> 12" and D: "1 \<le> D" using assms(1) by (simp_all add: valid_date_def)
  from M show ?thesis
    by (cases M rule: month_cases) (use D z in \<open>simp_all add: month_offset_def march_month_def cdiv_def\<close>)
qed

lemma century_term:
  assumes "valid_date Y M D" "(Y, M, D) \<noteq> (300, 3, 1)"
  defines "a \<equiv> cdiv (4 * day_number Y M D - 7468865) 146097" and "A \<equiv> march_year Y M div 100"
  shows "a - cdiv a 4 = A - A div 4 - 3"
proof -
  let ?r = "4 * century_day Y M D - A mod 4 + 3"
  note c = day_number_century [OF assms(1), folded A_def]
  have mod4: "0 \<le> A mod 4" "A mod 4 < 4" by simp_all
  have "0 \<le> ?r" using c(2) mod4 by linarith
  then have a: "a = (if 0 \<le> A - 4 \<or> ?r = 0 then A - 4 else A - 4 + 1)"
    unfolding a_def c(1) using c(3) by (rule cdiv_quotient)
  show ?thesis
  proof (cases "0 \<le> A - 4")
    case True
    then show ?thesis using a div_mult_self4 [of 4 A "- 1"] by (simp add: cdiv_pos)
  next
    case False
    have A: "- 1 \<le> A" using march_year_bounds [OF assms(1)] by (simp add: A_def) linarith
    have "?r \<noteq> 0"
    proof
      assume "?r = 0"
      then have "century_day Y M D = 0" "A mod 4 = 3" using c(2) mod4 by presburger+
      with century_day_zero [OF assms(1)] have "M = 3" "D = 1" "march_year Y M = 100 * A"
        by (auto simp: A_def)
      moreover have "A = - 1 \<or> A = 3" using \<open>A mod 4 = 3\<close> A False by presburger
      ultimately show False using assms(1,2) by (auto simp: march_year_def valid_date_def)
    qed
    then have "a = A - 3" using a False by simp
    moreover have "A = - 1 \<or> A = 0 \<or> A = 1 \<or> A = 2 \<or> A = 3" using A False by presburger
    ultimately show ?thesis by (auto simp: cdiv_def)
  qed
qed

lemma month_of_day:
  assumes "valid_date Y M D"
  shows "cdiv (10000 * (month_offset M + D)) 306001 = march_month M + 1"
proof -
  let ?m = "march_month M + 1"
  let ?r = "10000 * (month_offset M + D) - 306001 * ?m"
  have M: "1 \<le> M" "M \<le> 12" and D: "1 \<le> D" "D \<le> month_length Y M" using assms by (simp_all add: valid_date_def)
  from M have "0 \<le> ?r" "?r < 306001"
    by (cases M rule: month_cases;
        use D in \<open>simp add: month_length_def month_offset_def march_month_def cdiv_def split: if_splits\<close>)+
  then have "cdiv (306001 * ?m + ?r) 306001 = (if 0 \<le> ?m \<or> ?r = 0 then ?m else ?m + 1)"
    by (rule cdiv_quotient)
  moreover have "0 \<le> ?m" using M by (simp add: march_month_def)
  ultimately show ?thesis by simp
qed

lemma year_of_day:
  assumes "valid_date Y M D"
  defines "w \<equiv> march_year Y M + 4716"
  shows "cdiv (100 * (365 * w + w div 4 + month_offset M + D) - 12210) 36525 = w"
proof -
  let ?r = "100 * (month_offset M + D - 123) + 90 - 25 * (w mod 4)"
  note doy = day_of_march_year [OF assms(1)]
  have w4: "0 \<le> w mod 4" "w mod 4 \<le> 3" "4 * (w div 4) = w - w mod 4"
    using pos_mod_bound [of 4 w] by (simp_all add: minus_mod_eq_mult_div)
  have "?r < 36525"
  proof (cases "leap_year (march_year Y M + 1)")
    case True
    then have "4 dvd march_year Y M + 1" by (simp add: leap_year_def)
    then have "4 dvd w + 1" unfolding w_def by presburger
    then have "w mod 4 = 3" by presburger
    with True doy(2) show ?thesis by simp
  next
    case False
    with doy(2) w4 show ?thesis by simp
  qed
  moreover have "0 \<le> ?r" using doy(1) w4(1,2) by simp
  ultimately have "cdiv (36525 * w + ?r) 36525 = w"
    using march_year_bounds [OF assms(1)] by (subst cdiv_quotient) (simp_all add: w_def)
  moreover have "100 * (365 * w + w div 4 + month_offset M + D) - 12210 = 36525 * w + ?r" using w4(3) by simp
  ultimately show ?thesis by (simp only:)
qed

lemma low_bits: "0 \<le> w \<Longrightarrow> w < 32768 \<Longrightarrow> w AND 32767 = (w :: int)"
  using take_bit_eq_mask [of 15 w] by (simp add: mask_eq_exp_minus_1 take_bit_int_eq_self)

lemma julian_years_masked:
  assumes "0 \<le> w" "w < 32768"
  shows "cdiv (36525 * (w AND 32767)) 100 = 365 * w + w div 4"
  using low_bits [OF assms] cdiv_pos [of "36525 * w" 100] assms(1) by (simp only: days_in_julian_years)

lemma march_day_number:
  assumes "valid_date Y M D"
  defines "y \<equiv> march_year Y M"
  shows "day_number Y M D + (y div 100 - y div 100 div 4) + 1522
    = 365 * (y + 4716) + (y + 4716) div 4 + month_offset M + D"
proof -
  have "(y + 4716) div 4 = y div 4 + 1179" by simp
  moreover have "y div 400 = y div 100 div 4" using zdiv_zmult2_eq [of 4 y 100] by simp
  ultimately show ?thesis unfolding day_number_march [OF assms(1)] leaps_def by (simp add: y_def)
qed

lemma julian_ms_day:
  assumes "0 \<le> ms" "ms < 86400000" "valid_date Y M D"
  shows "cdiv (julian_ms Y M D ms + 43200000) 86400000 = day_number Y M D"
    "crem (julian_ms Y M D ms + 43200000) 86400000 = ms" "validJulianDay (julian_ms Y M D ms)"
proof -
  have eq: "julian_ms Y M D ms + 43200000 = 86400000 * day_number Y M D + ms" by (simp add: julian_ms_def)
  show div: "cdiv (julian_ms Y M D ms + 43200000) 86400000 = day_number Y M D"
    using assms(1,2) day_number_bounds [OF assms(3)] unfolding eq by (subst cdiv_quotient) simp_all
  show "crem (julian_ms Y M D ms + 43200000) 86400000 = ms" unfolding crem_def div by (simp add: eq)
  show "validJulianDay (julian_ms Y M D ms)"
    using assms(1,2) day_number_bounds [OF assms(3)] by (simp add: validJulianDay_def julian_ms_def)
qed

lemma computeYMD_day:
  assumes valid: "valid_date Y M D" "(Y, M, D) \<noteq> (300, 3, 1)" and ms: "0 \<le> ms" "ms < 86400000"
    and p: "iJD p = julian_ms Y M D ms" "validJD p" "\<not> validYMD p"
  shows "computeYMD p = p\<lparr>dt_D := D, dt_M := M, dt_Y := Y, validYMD := True\<rparr>"
proof -
  let ?Z = "day_number Y M D" and ?y = "march_year Y M"
  let ?a = "cdiv (4 * ?Z - 7468865) 146097" and ?m = "march_month M + 1" and ?x = "month_offset M"
  note j = julian_ms_day [OF ms valid(1)] and Z = day_number_bounds [OF valid(1)]
  have a: "ctrunc (rnd (rnd (of_int ?Z - 1867216.25) / 36524.25)) = ?a" using Z by (intro ymd_century) simp_all
  define B where "B = 365 * (?y + 4716) + (?y + 4716) div 4 + ?x + D"
  have y: "- 1 \<le> ?y" "?y \<le> 9999" using march_year_bounds [OF valid(1)] by simp_all
  have B: "?Z + 1 + ?a - cdiv ?a 4 + 1524 = B"
    using march_day_number [OF valid(1)] century_term [OF valid] unfolding B_def by linarith
  have xD: "123 \<le> ?x + D" "?x + D \<le> 488" using day_of_march_year [OF valid(1)] by (simp_all split: if_splits)
  have "0 \<le> (?y + 4716) div 4" "(?y + 4716) div 4 \<le> (?y + 4716) div 1"
    using y by (simp_all add: pos_imp_zdiv_nonneg_iff zdiv_mono2)
  with y xD have "0 \<le> B" "B \<le> 10000000" unfolding B_def by simp_all
  then have C: "ctrunc (rnd (rnd (of_int B - rnd 122.1) / 365.25)) = ?y + 4716"
    using year_of_day [OF valid(1)] by (simp only: ymd_year B_def)
  have D: "cdiv (36525 * ((?y + 4716) AND 32767)) 100 = 365 * (?y + 4716) + (?y + 4716) div 4"
    using y by (intro julian_years_masked) simp_all
  have E: "ctrunc (rnd (of_int (?x + D) / rnd 30.6001)) = ?m"
    using xD month_of_day [OF valid(1)] by (subst ymd_month) simp_all
  have X1: "ctrunc (rnd (rnd 30.6001 * of_int ?m)) = ?x"
    using valid(1) by (subst ymd_day) (simp_all add: month_offset_def march_month_def valid_date_def)
  have BD: "B - (365 * (?y + 4716) + (?y + 4716) div 4) = ?x + D" by (simp add: B_def)
  have "computeYMD p =
    (let M = (if ?m < 14 then ?m - 1 else ?m - 13)
     in p\<lparr>dt_D := ?x + D - ?x, dt_M := M, dt_Y := (if 2 < M then ?y + 4716 - 4716 else ?y + 4716 - 4715),
          validYMD := True\<rparr>)"
    unfolding computeYMD_def Let_def
    by (simp only: p j if_True if_False simp_thms a B C D BD E X1)
  then show ?thesis using valid(1) by (simp add: Let_def march_month_def march_year_def valid_date_def)
qed

text \<open>
  The exception: the quotient for the century is exactly \<open>-1\<close> on the first of March of the
  year 300, and the truncating division that gives the right result for the other negative quotients is
  one too small there.
\<close>

lemma computeYMD_exception:
  assumes ms: "0 \<le> ms" "ms < 86400000" and p: "iJD p = julian_ms 300 3 1 ms" "validJD p" "\<not> validYMD p"
  shows "computeYMD p = p\<lparr>dt_D := 29, dt_M := 2, dt_Y := 300, validYMD := True\<rparr>"
proof -
  have valid: "valid_date 300 3 1" by (simp add: valid_date_def month_length_def)
  have Z: "day_number 300 3 1 = 1830692"
    by (simp add: day_number_march [OF valid] march_year_def leaps_def month_offset_def march_month_def cdiv_def)
  note j = julian_ms_day [OF ms valid, unfolded Z]
  have a: "ctrunc (rnd (rnd (of_int 1830692 - 1867216.25) / 36524.25)) = - 1"
    by (subst ymd_century) (simp_all add: cdiv_def)
  have C: "ctrunc (rnd (rnd (of_int 1832216 - rnd 122.1) / 365.25)) = 5015"
    by (subst ymd_year) (simp_all add: cdiv_def)
  have E: "ctrunc (rnd (of_int 488 / rnd 30.6001)) = 15" by (subst ymd_month) (simp_all add: cdiv_def)
  have X1: "ctrunc (rnd (rnd 30.6001 * of_int 15)) = 459" by (subst ymd_day) (simp_all add: cdiv_def)
  have B: "(1830692 + 1 + - 1 - cdiv (- 1) 4 + 1524 :: int) = 1832216" by (simp add: cdiv_def)
  have D: "1832216 - cdiv (36525 * (5015 AND 32767)) 100 = 488" by (simp add: cdiv_def)
  show ?thesis
    unfolding computeYMD_def Let_def by (simp only: p j a B C D E X1 if_True if_False simp_thms) simp
qed

lemma computeHMS_day:
  assumes valid: "valid_date Y M D" "valid_time h m s"
    and p: "iJD p = julian_ms Y M D (1000 * (3600 * h + 60 * m + s))" "validJD p" "\<not> validHMS p"
  shows "computeHMS p = p\<lparr>dt_s := of_int s, dt_h := h, dt_m := m, rawS := False, validHMS := True\<rparr>"
proof -
  let ?t = "3600 * h + 60 * m + s"
  have t: "0 \<le> ?t" "?t < 86400" and bounds: "0 \<le> h" "0 \<le> m" "m < 60" "0 \<le> s" "s < 60"
    using valid(2) by (auto simp: valid_time_def)
  have ms: "crem (iJD p + 43200000) 86400000 = 1000 * ?t"
    unfolding p(1) using t by (intro julian_ms_day(2) [OF _ _ valid(1)]) simp_all
  have "of_int (1000 * ?t) / 1000 = (of_int ?t :: rat)" by simp
  moreover have "rnd (of_int ?t) = of_int ?t" using t by (intro dbl.fl_int) simp
  ultimately have fs: "rnd (of_int (1000 * ?t) / 1000) = of_int ?t" by (simp only:)
  have h: "cdiv ?t 3600 = h" using cdiv_quotient [of "60 * m + s" 3600 h] bounds by (simp add: add.assoc)
  have m: "cdiv (60 * m + s) 60 = m" using cdiv_quotient [of s 60 m] bounds by simp
  have s: "rnd (of_int s) = of_int s" using bounds by (intro dbl.fl_int) simp
  have rest: "?t - h * 3600 = 60 * m + s" "60 * m + s - m * 60 = s" by simp_all
  have zero: "rnd 0 + of_int s = of_int s" by (simp add: rnd_def)
  have "computeJD p = p" using p(2) by (simp add: computeJD_def)
  then show ?thesis
    unfolding computeHMS_def Let_def
    by (simp only: p(3) if_False ms fs ctrunc_int diff_self h rest m zero s)
qed

end
