(* ===== verification/DateText.thy ===== *)
theory DateText
  imports Calendar
begin

text \<open>
  The round trip of \<open>date.c\<close>: the text that \<open>datetimeFunc\<close> writes is read back by
  \<open>parseYyyyMmDd\<close>, converted to a Julian day and printed again.
\<close>

subsection \<open>Digits\<close>

lemma digits_loop_dec:
  "list_all isdig ds \<Longrightarrow> digits_loop (length ds) (ds @ rest) v = Some (v * 10 ^ length ds + int (dec ds), rest)"
proof (induction ds arbitrary: v)
  case (Cons c ds)
  then have c: "isdig c" "uint c = int (dig_val c) + 48" by (auto simp: isdig_iff dig_val_def)
  with Cons show ?case by (simp add: Isdigit_isdig dec_Cons cat_def algebra_simps)
qed simp

lemma zero_padded_facts:
  assumes "0 \<le> i" "i < 10 ^ n" "0 < n"
  shows "list_all isdig (zero_padded n i)" "length (zero_padded n i) = n" "int (dec (zero_padded n i)) = i"
proof -
  have "nat i < 10 ^ n" using assms by (simp add: nat_less_iff)
  then have l: "length (dtext (nat i)) \<le> n" using assms(3) by (rule length_dtext)
  have z: "dec (replicate k 48) = 0" for k by (induction k) (simp_all add: dec_Cons dig_val_def)
  show "list_all isdig (zero_padded n i)" "length (zero_padded n i) = n" "int (dec (zero_padded n i)) = i"
    using assms(1) l dtext_digits [of "nat i"]
    by (auto simp: zero_padded_def ch_def dec_append z isdig_iff list_all_iff Let_def)
qed

lemma digits_loop_padded:
  "0 \<le> i \<Longrightarrow> i < 10 ^ n \<Longrightarrow> 0 < n \<Longrightarrow> digits_loop n (zero_padded n i @ rest) 0 = Some (i, rest)"
  using digits_loop_dec [of "zero_padded n i" rest 0] by (simp add: zero_padded_facts)

text \<open>One field of a format, followed by its separator.\<close>

lemma getDigits_field:
  assumes "uint (lo - 48) \<le> i" "i \<le> aMx ! unat (hi - 97)" "i < 10 ^ unat (n - 48)" "n \<noteq> 48" "c \<noteq> 0"
  shows "getDigits (zero_padded (unat (n - 48)) i @ c # rest) (n # lo # hi # c # fmt) = i # getDigits rest fmt"
    "getDigits (zero_padded (unat (n - 48)) i @ rest) [n, lo, hi] = [i]"
proof -
  have "0 \<le> i" using assms(1) uint_ge_0 [of "lo - 48"] by linarith
  moreover have "0 < unat (n - 48)" using assms(4) by (simp add: unat_gt_0)
  ultimately have d: "digits_loop (unat (n - 48)) (zero_padded (unat (n - 48)) i @ z) 0 = Some (i, z)" for z
    using assms(3) by (intro digits_loop_padded)
  show "getDigits (zero_padded (unat (n - 48)) i @ c # rest) (n # lo # hi # c # fmt) = i # getDigits rest fmt"
    "getDigits (zero_padded (unat (n - 48)) i @ rest) [n, lo, hi] = [i]"
    using assms by (simp_all add: d cat_def)
qed

subsection \<open>The parser\<close>

definition clock_text :: "int \<Rightarrow> int \<Rightarrow> int \<Rightarrow> cstr" where
  "clock_text h m s =
     zero_padded 2 h @ ch CHR '':'' # zero_padded 2 m @ ch CHR '':'' # zero_padded 2 s"

definition iso_text :: "int \<Rightarrow> int \<Rightarrow> int \<Rightarrow> int \<Rightarrow> int \<Rightarrow> int \<Rightarrow> cstr" where
  "iso_text Y M D h m s =
     zero_padded 4 Y @ ch CHR ''-'' # zero_padded 2 M @ ch CHR ''-'' # zero_padded 2 D
       @ ch CHR '' '' # clock_text h m s"

lemma padded_two:
  assumes "0 \<le> i" "i < 100"
  shows "length (zero_padded 2 i) = 2" "isdig (cat (zero_padded 2 i @ rest) 0)"
proof -
  show l: "length (zero_padded 2 i) = 2" using assms by (intro zero_padded_facts) simp_all
  have "list_all isdig (zero_padded 2 i)" using assms by (intro zero_padded_facts) simp_all
  with l show "isdig (cat (zero_padded 2 i @ rest) 0)" by (cases "zero_padded 2 i") (simp_all add: cat_def)
qed

lemma month_length_le: "month_length Y M \<le> 31"
  by (simp add: month_length_def)

lemma getDigits_clock:
  assumes "valid_time h m s"
  shows "getDigits (clock_text h m s) (cstring ''20c:20e'') = [h, m]"
    "getDigits (zero_padded 2 s) (cstring ''20e'') = [s]"
  using assms getDigits_field [of 48 h 99 50 58] getDigits_field(2) [of 48 m 101 50 58]
    getDigits_field(2) [of 48 s 101 50 58 "[]"]
  by (simp_all add: clock_text_def cstring_def ch_def valid_time_def aMx_def)

lemma getDigits_date:
  assumes "valid_date Y M D"
  shows "getDigits (iso_text Y M D h m s) (cstring ''40f-21a-21d'') = [Y, M, D]"
  using assms getDigits_field [of 48 Y 102 52 45] getDigits_field(1) [of 49 M 97 50 45]
    getDigits_field(2) [of 49 D 100 50 45] month_length_le [of Y M]
  by (simp add: iso_text_def cstring_def ch_def valid_date_def aMx_def)

lemma parse_seconds_clock:
  assumes "valid_time h m s"
  shows "parse_seconds (drop 5 (clock_text h m s)) = Some (s, 0, [])"
proof -
  have two: "length (zero_padded 2 h) = 2" "length (zero_padded 2 m) = 2" "length (zero_padded 2 s) = 2"
    using assms by (auto simp: valid_time_def intro!: padded_two(1))
  then have "drop 5 (clock_text h m s) = ch CHR '':'' # zero_padded 2 s" by (simp add: clock_text_def)
  then show ?thesis using getDigits_clock(2) [OF assms] two(3) by (simp add: parse_seconds_def cat_def ch_def)
qed

lemma parseHhMmSs_clock:
  assumes "valid_time h m s"
  shows "parseHhMmSs (clock_text h m s) p =
    (p\<lparr>validJD := False, rawS := False, validHMS := True, dt_h := h, dt_m := m, dt_s := of_int s,
       dt_tz := 0, validTZ := False\<rparr>, False)"
proof -
  have "rnd (of_int s + 0) = of_int s" using assms by (simp add: valid_time_def)
  moreover have "parseTimezone [] q = (q\<lparr>dt_tz := 0\<rparr>, False)" for q
    by (simp add: parseTimezone_def skip_spaces_def cat_def ch_def Let_def)
  ultimately show ?thesis
    using getDigits_clock(1) [OF assms] parse_seconds_clock [OF assms] by (simp add: parseHhMmSs_def)
qed

lemma isdig_not_separator: "isdig c \<Longrightarrow> c \<noteq> ch CHR ''-'' \<and> c \<noteq> ch CHR ''T'' \<and> \<not> sqlite3Isspace c"
  by (auto simp: isdig_iff Isspace_iff ch_def)

lemma parseYyyyMmDd_iso:
  assumes "valid_date Y M D" "valid_time h m s"
  shows "parseYyyyMmDd (iso_text Y M D h m s) p =
    (p\<lparr>validJD := False, rawS := False, validHMS := True, dt_h := h, dt_m := m, dt_s := of_int s,
       dt_tz := 0, validTZ := False, validYMD := True, dt_Y := Y, dt_M := M, dt_D := D\<rparr>, False)"
proof -
  have Y: "list_all isdig (zero_padded 4 Y)" "length (zero_padded 4 Y) = 4"
    using assms(1) by (intro zero_padded_facts; simp add: valid_date_def)+
  have MD: "length (zero_padded 2 M) = 2" "length (zero_padded 2 D) = 2"
    using assms(1) month_length_le [of Y M] by (auto simp: valid_date_def intro!: padded_two(1))
  have "isdig (cat (iso_text Y M D h m s) 0)"
    using Y by (cases "zero_padded 4 Y") (simp_all add: iso_text_def cat_def)
  then have neg: "(cat (iso_text Y M D h m s) 0 = ch CHR ''-'') = False" using isdig_not_separator by blast
  have "isdig (cat (clock_text h m s) 0)"
    using assms(2) unfolding clock_text_def by (intro padded_two) (simp_all add: valid_time_def)
  then have T: "skip_T (clock_text h m s) = clock_text h m s"
    using isdig_not_separator by (cases "clock_text h m s") (simp_all add: skip_T_def cat_def)
  have "drop 10 (iso_text Y M D h m s) = ch CHR '' '' # clock_text h m s" using Y MD by (simp add: iso_text_def)
  moreover have "skip_T (ch CHR '' '' # clock_text h m s) = skip_T (clock_text h m s)"
    by (simp add: skip_T_def Isspace_iff ch_def)
  ultimately have rest: "skip_T (drop 10 (iso_text Y M D h m s)) = clock_text h m s" using T by simp
  show ?thesis
    unfolding parseYyyyMmDd_def neg Let_def if_False getDigits_date [OF assms(1)]
    by (simp add: rest parseHhMmSs_clock [OF assms(2)])
qed

subsection \<open>Text, Julian days and text again\<close>

definition day_ms :: "int \<Rightarrow> int \<Rightarrow> int \<Rightarrow> int" where
  "day_ms h m s = 1000 * (3600 * h + 60 * m + s)"

lemma seconds_exact:
  assumes "0 \<le> s" "s < 60"
  shows "ctrunc (rnd (of_int s * 1000)) = 1000 * s"
proof -
  have "rnd (of_int (1000 * s)) = of_int (1000 * s)" using assms by (intro dbl.fl_int) simp
  moreover have "of_int s * 1000 = (of_int (1000 * s) :: rat)" by simp
  ultimately show ?thesis by (simp only: ctrunc_int)
qed

lemma computeJD_datetime:
  assumes "valid_date (dt_Y p) (dt_M p) (dt_D p)" "valid_time (dt_h p) (dt_m p) s" "dt_s p = of_int s"
    "validYMD p" "validHMS p" "\<not> validTZ p" "\<not> validJD p" "\<not> rawS p"
  shows "computeJD p =
    p\<lparr>iJD := julian_ms (dt_Y p) (dt_M p) (dt_D p) (day_ms (dt_h p) (dt_m p) s), validJD := True\<rparr>"
  using assms seconds_exact [of s]
  by (simp add: computeJD_day julian_ms_def day_ms_def valid_time_def Let_def)

text \<open>A structure that holds the Julian day of a date and a time, and nothing else.\<close>

definition holds_day :: "int \<Rightarrow> int \<Rightarrow> int \<Rightarrow> int \<Rightarrow> int \<Rightarrow> int \<Rightarrow> DateTime \<Rightarrow> bool" where
  "holds_day Y M D h m s p \<longleftrightarrow>
     iJD p = julian_ms Y M D (day_ms h m s) \<and> validJD p \<and> \<not> validYMD p \<and> \<not> validHMS p \<and> \<not> isError p"

lemma datetime_text_printed:
  assumes "valid_date Y M D" "valid_time h m s" "holds_day Y M D h m s p"
    "computeYMD p = p\<lparr>dt_D := D', dt_M := M', dt_Y := Y', validYMD := True\<rparr>"
  shows "datetime_text p = iso_text Y' M' D' h m s"
proof -
  let ?q = "p\<lparr>dt_D := D', dt_M := M', dt_Y := Y', validYMD := True\<rparr>"
  have "computeHMS ?q = ?q\<lparr>dt_s := of_int s, dt_h := h, dt_m := m, rawS := False, validHMS := True\<rparr>"
    using assms by (intro computeHMS_day) (simp_all add: holds_day_def day_ms_def)
  then show ?thesis
    by (simp add: datetime_text_def computeYMD_HMS_def assms(4) iso_text_def clock_text_def ctrunc_int Let_def)
qed

lemma day_ms_bounds: "valid_time h m s \<Longrightarrow> 0 \<le> day_ms h m s \<and> day_ms h m s < 86400000"
  by (auto simp: valid_time_def day_ms_def)

lemma datetime_text_day:
  assumes "valid_date Y M D" "valid_time h m s" "holds_day Y M D h m s p"
  shows "datetime_text p =
    (if (Y, M, D) = (300, 3, 1) then iso_text 300 2 29 h m s else iso_text Y M D h m s)"
  using assms day_ms_bounds [OF assms(2)]
  by (auto simp: holds_day_def intro!: datetime_text_printed [OF assms(1,2)] computeYMD_exception computeYMD_day [of Y M D "day_ms h m s"])

lemma holds_day_parsed:
  assumes "valid_date Y M D" "valid_time h m s"
  shows "\<exists>q. parseYyyyMmDd (iso_text Y M D h m s) zero_DateTime = (q, False)
    \<and> dt_Y q = Y \<and> dt_M q = M \<and> dt_D q = D \<and> dt_h q = h \<and> dt_m q = m \<and> dt_s q = of_int s
    \<and> validYMD q \<and> validHMS q \<and> \<not> validTZ q \<and> \<not> isError q \<and> \<not> rawS q
    \<and> computeJD q = q\<lparr>iJD := julian_ms Y M D (day_ms h m s), validJD := True\<rparr>
    \<and> holds_day Y M D h m s (clearYMD_HMS_TZ (computeJD q))"
  using assms
  by (simp add: parseYyyyMmDd_iso computeJD_datetime zero_DateTime_def holds_day_def clearYMD_HMS_TZ_def)

lemma iso_text_exception: "iso_text 300 2 29 h m s \<noteq> iso_text 300 3 1 h m s"
proof -
  have "zero_padded 2 2 \<noteq> zero_padded 2 3" by (simp add: zero_padded_def dtext.simps ch_def)
  moreover have "length (zero_padded 2 2) = length (zero_padded 2 3)" by (simp add: zero_padded_facts)
  ultimately show ?thesis by (simp add: iso_text_def)
qed

lemma shift_exact:
  assumes "\<bar>N\<bar> < 5373485"
  shows "ctrunc (rnd (rnd (of_int N * 86400000) + (if of_int N < (0 :: rat) then - 0.5 else 0.5))) = 86400000 * N"
proof -
  let ?k = "2 * (86400000 * N) + (if N < 0 then - 1 else 1)"
  have x: "of_int N * 86400000 = (of_int (86400000 * N) :: rat)" by simp
  have "rnd (of_int N * 86400000) = of_int (86400000 * N)"
    unfolding x using assms by (intro dbl.fl_int) simp
  moreover have "of_int (86400000 * N) + (if of_int N < (0 :: rat) then - 0.5 else 0.5) = (of_int ?k / 2 ^ 1 :: rat)" by simp
  moreover have "rnd (of_int ?k / 2 ^ 1) = of_int ?k / 2 ^ 1" using assms by (intro dbl.fl_exact) auto
  moreover have "ctrunc (of_int ?k / 2 ^ 1) = 86400000 * N"
    by (cases "N < 0") (auto simp: ctrunc_def intro!: floor_unique ceiling_unique)
  ultimately show ?thesis by (simp only:)
qed

lemma day_unit:
  "sqlite3Strlen30 (cstring ''days'') = 4" "sqlite3UpperToLower (cat (cstring ''days'') 3) = ch CHR ''s''"
  "skip_spaces (cstring ''days'') = cstring ''days''"
  "strnicmp_loop (cstring ''day'') (cstring ''days'') 3 = 0"
  by code_simp+

lemma holds_day_result:
  assumes "valid_date Y M D" "valid_time h m s" "holds_day Y M D h m s p" "(Y, M, D) \<noteq> (300, 3, 1)"
  shows "isDate_finish p = Some p \<and> datetime_text p = iso_text Y M D h m s"
proof -
  have "isDate_finish p = Some p"
    using assms(3) julian_ms_day(3) [OF _ _ assms(1), of "day_ms h m s"] day_ms_bounds [OF assms(2)]
    by (simp add: isDate_finish_def computeJD_def holds_day_def)
  then show ?thesis using datetime_text_day [OF assms(1-3)] assms(4) by auto
qed

text \<open>
  C16. Reading a date and a time in the form \<open>YYYY-MM-DD HH:MM:SS\<close> succeeds, and the Julian day in milliseconds that
  \<open>computeJD\<close> computes from it in double precision is exact: the number of days that the Gregorian calendar
  counts up to the date (with 0000-01-01 as day 1721060), less half a day, plus the
  milliseconds of the time.\<close>

theorem datetime_julian_day:
  assumes "valid_date Y M D" "valid_time h m s"
  shows "\<exists>q. parseYyyyMmDd (iso_text Y M D h m s) zero_DateTime = (q, False) \<and> validJD (computeJD q)
    \<and> iJD (computeJD q) = 86400000 * day_number Y M D - 43200000 + 1000 * (3600 * h + 60 * m + s)"
  using holds_day_parsed [OF assms] by (auto simp: julian_ms_def day_ms_def)

theorem datetime_julian_day_witness:
  "\<exists>q. parseYyyyMmDd (iso_text 0 3 2 23 59 58) zero_DateTime = (q, False) \<and> validJD (computeJD q)
    \<and> iJD (computeJD q) = 86400000 * 1721121 - 43200000 + 86398000"
proof -
  have d: "valid_date 0 3 2" by (simp add: valid_date_def month_length_def)
  moreover have "day_number 0 3 2 = 1721121"
    by (simp add: day_number_march [OF d] march_year_def leaps_def month_offset_def march_month_def cdiv_def)
  ultimately show ?thesis using datetime_julian_day [of 0 3 2 23 59 58] by (simp add: valid_time_def)
qed

text \<open>
  C15. A date and a time that are read, converted to a Julian day and computed back from it, as after a modifier that moves the date,
  are printed as the text that was read, for every date from 0000-01-01 to 9999-12-31
  but one: 0300-03-01 comes back as 0300-02-29.\<close>

theorem datetime_roundtrip:
  assumes "valid_date Y M D" "valid_time h m s"
  shows "\<exists>q. parseYyyyMmDd (iso_text Y M D h m s) zero_DateTime = (q, False)
    \<and> (datetime_text (clearYMD_HMS_TZ (computeJD q)) = iso_text Y M D h m s \<longleftrightarrow> (Y, M, D) \<noteq> (300, 3, 1))"
  using holds_day_parsed [OF assms] datetime_text_day [OF assms] iso_text_exception by fastforce

theorem datetime_roundtrip_witness:
  "(\<exists>q. parseYyyyMmDd (iso_text 2024 2 29 12 30 1) zero_DateTime = (q, False)
     \<and> datetime_text (clearYMD_HMS_TZ (computeJD q)) = iso_text 2024 2 29 12 30 1)
   \<and> (\<exists>q. parseYyyyMmDd (iso_text 300 3 1 0 0 0) zero_DateTime = (q, False)
     \<and> datetime_text (clearYMD_HMS_TZ (computeJD q)) \<noteq> iso_text 300 3 1 0 0 0)"
  using datetime_roundtrip [of 2024 2 29 12 30 1] datetime_roundtrip [of 300 3 1 0 0 0]
  by (simp add: valid_date_def month_length_def leap_year_def valid_time_def)

subsection \<open>Modifiers\<close>

lemma modifier_shift_days:
  assumes "\<bar>N\<bar> < 5373485" "validJD (computeJD p)"
  shows "modifier_shift (of_int N) (cstring ''days'') p =
    (clearYMD_HMS_TZ ((computeJD p)\<lparr>iJD := iJD (computeJD p) + 86400000 * N\<rparr>), False)"
proof -
  have again: "computeJD (computeJD p) = computeJD p" using assms(2) by (simp add: computeJD_def)
  have N: "- 5373485 < (of_int N :: rat)" "(of_int N :: rat) < 5373485" using assms(1) by linarith+
  show ?thesis
    using shift_exact [OF assms(1)] assms(1)
    by (simp add: modifier_shift_def day_unit aXformType_def xform_apply_def again N Let_def)
qed

lemma julian_ms_shift:
  "day_number Y' M' D' = day_number Y M D + N \<Longrightarrow> julian_ms Y M D ms + 86400000 * N = julian_ms Y' M' D' ms"
  by (simp add: julian_ms_def)

lemma day_number_distance:
  assumes "valid_date Y M D" "valid_date Y' M' D'" "day_number Y' M' D' = day_number Y M D + N"
  shows "\<bar>N\<bar> < 5373485"
  using day_number_bounds [OF assms(1)] day_number_bounds [OF assms(2)] assms(3) by simp

text \<open>
  C17. The modifier \<open>N days\<close> moves a date by N days of the calendar, forwards or backwards, over
  months, years and leap days, and keeps the time: the function \<open>datetime\<close> prints the date whose day
  number is N higher, for every N for which this is a date from 0000-01-01 to 9999-12-31 (other
  than 0300-03-01, which is printed as 0300-02-29).\<close>

theorem days_modifier:
  assumes "valid_date Y M D" "valid_time h m s" "valid_date Y' M' D'"
    "day_number Y' M' D' = day_number Y M D + N" "(Y', M', D') \<noteq> (300, 3, 1)"
  shows "\<exists>q p. parseYyyyMmDd (iso_text Y M D h m s) zero_DateTime = (q, False)
    \<and> modifier_shift (of_int N) (cstring ''days'') q = (p, False)
    \<and> isDate_finish p = Some p \<and> datetime_text p = iso_text Y' M' D' h m s"
proof -
  obtain q where q: "parseYyyyMmDd (iso_text Y M D h m s) zero_DateTime = (q, False)" "\<not> isError q"
      "computeJD q = q\<lparr>iJD := julian_ms Y M D (day_ms h m s), validJD := True\<rparr>"
    using holds_day_parsed [OF assms(1,2)] by blast
  let ?p = "clearYMD_HMS_TZ ((computeJD q)\<lparr>iJD := iJD (computeJD q) + 86400000 * N\<rparr>)"
  have "modifier_shift (of_int N) (cstring ''days'') q = (?p, False)"
    using day_number_distance [OF assms(1,3,4)] q(3) by (intro modifier_shift_days) simp_all
  moreover have "holds_day Y' M' D' h m s ?p"
    using q(2) by (simp add: holds_day_def q(3) clearYMD_HMS_TZ_def julian_ms_shift [OF assms(4)])
  ultimately show ?thesis using q(1) holds_day_result [OF assms(3,2) _ assms(5)] by blast
qed

theorem days_modifier_witness:
  "\<exists>q p. parseYyyyMmDd (iso_text 2023 12 31 23 59 59) zero_DateTime = (q, False)
    \<and> modifier_shift (of_int 60) (cstring ''days'') q = (p, False)
    \<and> isDate_finish p = Some p \<and> datetime_text p = iso_text 2024 2 29 23 59 59"
proof -
  have d: "valid_date 2023 12 31" "valid_date 2024 2 29"
    by (simp_all add: valid_date_def month_length_def leap_year_def)
  have "day_number 2024 2 29 = day_number 2023 12 31 + 60"
    by (simp add: d [THEN day_number_march] march_year_def leaps_def month_offset_def march_month_def cdiv_def)
  then show ?thesis by (intro days_modifier d) (simp_all add: valid_time_def)
qed

definition weekday :: "int \<Rightarrow> int \<Rightarrow> int \<Rightarrow> int" where
  "weekday Y M D = (day_number Y M D + 1) mod 7"

lemma next_weekday:
  fixes Z :: int
  assumes "0 \<le> n" "n < 7" "0 \<le> Z"
  defines "w \<equiv> crem Z 7"
  shows "0 \<le> n - (if n < w then w - 7 else w)" "n - (if n < w then w - 7 else w) < 7"
    "(Z + (n - (if n < w then w - 7 else w))) mod 7 = n"
proof -
  have w: "w = Z mod 7" using assms(3) by (simp add: w_def crem_def cdiv_pos minus_mult_div_eq_mod)
  then have b: "0 \<le> w" "w < 7" by simp_all
  show "0 \<le> n - (if n < w then w - 7 else w)" "n - (if n < w then w - 7 else w) < 7" using assms(1,2) b by auto
  have "Z + (n - w) = n + 7 * (Z div 7)" "Z + (n - (w - 7)) = n + 7 * (Z div 7 + 1)"
    by (simp_all add: w minus_mod_eq_mult_div [symmetric])
  then have "(Z + (n - w)) mod 7 = n" "(Z + (n - (w - 7))) mod 7 = n"
    using assms(1,2) by (simp_all only: mod_mult_self2) simp_all
  then show "(Z + (n - (if n < w then w - 7 else w))) mod 7 = n" by simp
qed

lemma week_unique:
  fixes a b k n :: int
  assumes "0 \<le> k" "k < 7" "(a + 1 + k) mod 7 = n" "(b + 1) mod 7 = n" "a \<le> b" "b < a + 7"
  shows "b = a + k"
proof (rule ccontr)
  assume "b \<noteq> a + k"
  moreover have "7 dvd (a + 1 + k) - (b + 1)" 
    using assms(3,4) by (subst mod_eq_dvd_iff [symmetric]) simp
  ultimately have "\<bar>7\<bar> \<le> \<bar>(a + 1 + k) - (b + 1)\<bar>" by (intro dvd_imp_le_int) simp_all
  then show False using assms by linarith
qed

lemma modifier_weekday_datetime:
  assumes "valid_date (dt_Y p) (dt_M p) (dt_D p)" "valid_time (dt_h p) (dt_m p) s" "dt_s p = of_int s"
    "validYMD p" "validHMS p" "\<not> rawS p"
  defines "j \<equiv> julian_ms (dt_Y p) (dt_M p) (dt_D p) (day_ms (dt_h p) (dt_m p) s)"
    and "w \<equiv> crem (day_number (dt_Y p) (dt_M p) (dt_D p) + 1) 7"
  shows "modifier_weekday n p =
    clearYMD_HMS_TZ (p\<lparr>validTZ := False, validJD := True, iJD := j + (n - (if n < w then w - 7 else w)) * 86400000\<rparr>)"
proof -
  let ?N = "day_number (dt_Y p) (dt_M p) (dt_D p)" and ?ms = "day_ms (dt_h p) (dt_m p) s"
  have "computeYMD_HMS p = p" using assms(4,5) by (simp add: computeYMD_HMS_def computeYMD_def computeHMS_def)
  moreover have "computeJD (p\<lparr>validTZ := False, validJD := False\<rparr>) = p\<lparr>validTZ := False, iJD := j, validJD := True\<rparr>"
    using assms(1-6) computeJD_datetime [of "p\<lparr>validTZ := False, validJD := False\<rparr>" s] by (simp add: j_def)
  moreover have eq: "j + 129600000 = 86400000 * (?N + 1) + ?ms" by (simp add: j_def julian_ms_def)
  have "cdiv (j + 129600000) 86400000 = ?N + 1"
    unfolding eq using day_ms_bounds [OF assms(2)] day_number_bounds(1) [OF assms(1)]
    by (subst cdiv_quotient) simp_all
  ultimately show ?thesis by (simp add: modifier_weekday_def w_def Let_def)
qed

text \<open>
  The modifier \<open>weekday n\<close> (0 is Sunday) moves a date to the first date from it on that falls on this
  weekday, which is at most six days later, and keeps the time: \<open>datetime\<close> prints that date.\<close>

theorem weekday_modifier:
  assumes "valid_date Y M D" "valid_time h m s" "valid_date Y' M' D'" "(Y', M', D') \<noteq> (300, 3, 1)"
    "weekday Y' M' D' = n" "day_number Y M D \<le> day_number Y' M' D'" "day_number Y' M' D' < day_number Y M D + 7"
  shows "\<exists>q p. parseYyyyMmDd (iso_text Y M D h m s) zero_DateTime = (q, False)
    \<and> modifier_weekday n q = p \<and> isDate_finish p = Some p \<and> datetime_text p = iso_text Y' M' D' h m s"
proof -
  obtain q where q: "parseYyyyMmDd (iso_text Y M D h m s) zero_DateTime = (q, False)" "\<not> isError q"
      "dt_Y q = Y" "dt_M q = M" "dt_D q = D" "dt_h q = h" "dt_m q = m" "dt_s q = of_int s"
      "validYMD q" "validHMS q" "\<not> rawS q"
    using holds_day_parsed [OF assms(1,2)] by blast
  let ?Z = "day_number Y M D + 1"
  let ?w = "crem ?Z 7"
  let ?k = "n - (if n < ?w then ?w - 7 else ?w)"
  let ?p = "modifier_weekday n q"
  have "0 \<le> n" "n < 7" using assms(5) by (simp_all add: weekday_def flip: assms(5))
  then have k: "0 \<le> ?k" "?k < 7" "(?Z + ?k) mod 7 = n"
    using next_weekday [of n ?Z] day_number_bounds(1) [OF assms(1)] by simp_all
  have N: "day_number Y' M' D' = day_number Y M D + ?k" 
    using k assms(5-7) unfolding weekday_def by (rule week_unique)
  have p: "?p = clearYMD_HMS_TZ (q\<lparr>validTZ := False, validJD := True,
      iJD := julian_ms Y M D (day_ms h m s) + ?k * 86400000\<rparr>)"
    using modifier_weekday_datetime [of q s n] assms(1,2) q by simp
  have "julian_ms Y M D (day_ms h m s) + ?k * 86400000 = julian_ms Y' M' D' (day_ms h m s)"
    using julian_ms_shift [OF N] by (simp only: mult.commute)
  with q(2) have "holds_day Y' M' D' h m s ?p" unfolding p by (simp add: holds_day_def clearYMD_HMS_TZ_def)
  then show ?thesis using q(1) holds_day_result [OF assms(3,2) _ assms(4)] by blast
qed

theorem weekday_modifier_witness:
  "\<exists>q p. parseYyyyMmDd (iso_text 2024 2 29 8 0 0) zero_DateTime = (q, False)
    \<and> modifier_weekday 0 q = p \<and> isDate_finish p = Some p \<and> datetime_text p = iso_text 2024 3 3 8 0 0"
proof -
  have d: "valid_date 2024 2 29" "valid_date 2024 3 3"
    by (simp_all add: valid_date_def month_length_def leap_year_def)
  have "day_number 2024 2 29 = 2460370" "day_number 2024 3 3 = 2460373"
    by (simp_all add: d [THEN day_number_march] march_year_def leaps_def month_offset_def march_month_def cdiv_def)
  then show ?thesis by (intro weekday_modifier d) (simp_all add: valid_time_def weekday_def)
qed

text \<open>
  Fractions of a second are truncated after the multiplication by 1000, which may be just below the
  integer: the last millisecond of this text is lost.
\<close>

lemma millisecond_lost:
  "iJD (computeJD (fst (parseYyyyMmDd (cstring ''2000-01-01 00:00:01.001'') zero_DateTime)))
     = 86400000 * 2451545 - 43200000 + 1000"
  by code_simp

end
