(* ===== verification/Spec2Isabelle.thy ===== *)
theory Spec2Isabelle
  imports Packet SyncQueue Promise EventBus ThreadPool Logger Str Native Sqlite3cpp
    Checked_Arith Varint NumText Bitvec Hash RowSet Utf Complete Pattern Memdb MemJournal RecordFormat
    DateText
begin

text \<open>
  A verification library for libenigma, a C++ support library (containers, threads, events, logging, strings, a
  database wrapper) that ships with the SQLite amalgamation.

  \<^bold>\<open>The parts of the program and how they interact.\<close>  \<open>SyncQueue\<close> is the blocking queue on which the event handlers,
  the workers of the thread pool and the logger are built: each of them owns one queue and a thread that pops from it.
  \<open>EventBus\<close> publishes to subscribed \<open>EventHandler\<close>s, \<open>ThreadPool\<close> distributes tasks over \<open>Worker\<close>s, \<open>Logger\<close> passes
  messages to its sinks.  \<open>Promise\<close> and \<open>Future\<close>, the packet buffer and the string class stand alone; the native helpers
  use the strings.  \<open>Sqlite3cpp\<close> wraps the C interface of SQLite.  Of SQLite itself the library models modules that the
  rest of the engine is built on: integer and text codecs, the character tables, quoting, text encodings, pattern matching,
  recognising complete statements, dates, the record format, bit vectors, hash tables, row sets, in-memory databases and in-memory journals.

  \<^bold>\<open>Theories and what they model.\<close>
  \<^item> \<open>Prelude\<close>: byte memories, C strings, machine integers, result codes and lemmas on words.
  \<^item> \<open>Cpp\<close>: outcomes of C++ code (\<open>'a result\<close>: a value, the out-of-memory exception, undefined behaviour, a bad
    state, the end of the program by \<open>std::terminate\<close>), \<open>noexcept\<close>, allocators that may fail, and \<open>std::string::find\<close>.
  \<^item> \<open>Packet\<close> (\<open>src/include/network/packet.h\<close>): the record \<open>packet\<close> has the block, the three 64-bit members, and one
    function per member function.  Memory safety of every sequence of operations, with the operation and the request that end it when
    memory runs out: a write throws, a copy terminates the program (\<open>packet_memory_safe\<close>); what is written is read back (\<open>packet_roundtrip\<close>).
  \<^item> \<open>SyncQueue\<close> (\<open>src/include/container/sync_queue.h\<close>): the sequential operations, the locale \<open>fifo_queue\<close> with the
    laws the three clients use and its interpretation \<open>sq\<close>, and the relation \<open>sq_step\<close> with threads, mutex, condition
    variable, spurious wakeups and the unprotected \<open>Stop\<close>.  First-in first-out for all interleavings, no lost wakeup of
    \<open>Push\<close>, the lost wakeup of \<open>Stop\<close>, and when \<open>Pop\<close> is undefined.
  \<^item> \<open>Promise\<close> (\<open>src/include/thread/thread.h\<close>): which callbacks a promise calls, and with what, for any sequence of
    registrations and attempts to settle it.
  \<^item> \<open>EventBus\<close> (\<open>src/include/event_bus/\<close>): registration, publishing, delivery, and the handler thread as a function
    of the number of rounds of its loop, which an exception of a callback of \<open>OnType\<close> leaves, ending the program.  Delivery to
    exactly the matching handlers, handling in order, and what happens to a published message (\<open>published_message_is_handled\<close>).
  \<^item> \<open>ThreadPool\<close> (\<open>src/include/thread/thread_pool.h\<close>): \<open>Worker_step\<close>, \<open>ThreadPool_Submit_step\<close> and \<open>ThreadPool_Shutdown_step\<close> are
    the steps of a worker, of the thread that submits and of the one that shuts down, in the grain of the statements (counting and queueing a
    task, running it and counting it off are steps of their own); \<open>tp_step\<close> interleaves them.  The accounting of all tasks in every reachable
    state, shutdown and restart included (\<open>ThreadPool_accounting\<close>); the bound on the unfinished tasks.
  \<^item> \<open>LogSink\<close> and \<open>Logger\<close> (\<open>src/include/log/\<close>, \<open>src/src/logger/\<close>): levels, messages, log files in a directory
    (a finite map from file numbers to contents), rotation, the console sink, and the logger thread.  What rotation does
    to every file; the files refine a list of contents (\<open>append_line\<close>), so that they keep the log up to what rotation gives up
    (\<open>logger_file_bound\<close>); the lines on the console (\<open>Logger_logs_in_order\<close>).
  \<^item> \<open>Str\<close> (\<open>src/src/string/str.cpp\<close>) and \<open>Native\<close> (\<open>src/src/native/win32/\<close>, \<open>src/include/time/clock.h\<close>): replacing,
    splitting and trimming against a specification by \<open>pieces\<close> and \<open>join\<close>; paths of processes, monitors, the clock.
  \<^item> \<open>Sqlite3cpp\<close> (\<open>src/src/db/sqlite3/\<close>, \<open>src/include/bit_mask.h\<close>): the wrapper over an interface of SQLite that is a
    parameter (\<open>sqlite_api\<close>), and \<open>db_run\<close>, any sequence of its calls: when \<open>Exec\<close> returns, and that the first reported error destroys
    the connection (\<open>Impl_error_destroys_connection\<close>).
  \<^item> \<open>Checked_Arith\<close>, \<open>Varint\<close>, \<open>CString\<close>, \<open>Quoting\<close>, \<open>NumText\<close>, \<open>Bitvec\<close>, \<open>Hash\<close>, \<open>RowSet\<close>, \<open>Utf\<close>: the modules
    \<open>util.c\<close>, \<open>global.c\<close>, the quoting conversions of \<open>printf.c\<close>, \<open>bitvec.c\<close>, \<open>hash.c\<close>, \<open>rowset.c\<close> and \<open>utf.c\<close> of
    \<open>src/src/db/sqlite3/core/sqlite3.c\<close>.  Exact or saturating arithmetic, round trips of every codec, equivalence of the
    unrolled and optimised routines with reference definitions, and refinement: a \<open>Bitvec\<close> is a set, the pointer
    structure of \<open>hash.c\<close> is a finite map, with insertions refused exactly when memory is exhausted (locale of map laws, interpreted on the
    heap operations), a \<open>RowSet\<close> is a set
    with batches.
  \<^item> \<open>Complete\<close> (\<open>complete.c\<close>): the scanner and the table of \<open>sqlite3_complete\<close> against a grammar of statements and triggers
    (\<open>complete_language\<close>), and that a literal written by \<open>%Q\<close> is one word for it (\<open>quoted_literal_is_one_word\<close>).
  \<^item> \<open>Pattern\<close> (\<open>func.c\<close>): \<open>patternCompare\<close> with its searches and early exits against the meaning of a \<open>LIKE\<close> or \<open>GLOB\<close>
    pattern on characters (\<open>patternCompare_correct\<close>), the SQL function with its escape character, and the one character for
    which the code is wrong (\<open>patternCompare_U0080\<close>).
  \<^item> \<open>Serial\<close> (\<open>vdbemem.c\<close>, \<open>vdbeaux.c\<close>): the cells that hold SQL values, and the codec of one value in a record.  The
    locale \<open>prefix_code\<close> is the contract between a writer and a reader; its interpretation \<open>hdr\<close> is the varint of the header.
  \<^item> \<open>RecordFormat\<close> (\<open>vdbe.c\<close>, \<open>vdbeaux.c\<close>): the opcode \<open>OP_MakeRecord\<close> and \<open>sqlite3VdbeRecordUnpack\<close>.  Records are read back as they
    were written (\<open>record_roundtrip\<close>), when encoding fails (\<open>MakeRecord_outcome\<close>), and damaged records are read safely
    (\<open>RecordUnpack_bounded\<close>).
  \<^item> \<open>Double\<close>: double-precision numbers as rationals that are rounded to 53 bits; the locale \<open>rounding\<close> states the error bound that the
    clients use, its interpretation \<open>dbl\<close> is rounding to nearest with ties to even.
  \<^item> \<open>Date\<close> (\<open>date.c\<close>): the parser of dates and times, the conversions between a date and the Julian day, the modifiers and the
    printed text.  \<open>Calendar\<close> relates the conversions, floating-point expressions included, to the Gregorian calendar;
    \<open>DateText\<close> has the properties from text to text: the Julian day counts the days of the calendar
    (\<open>datetime_julian_day\<close>), dates survive the conversion with one exception in ten thousand years (\<open>datetime_roundtrip\<close>), and
    what the modifiers for days and weekdays do (\<open>days_modifier\<close>, \<open>weekday_modifier\<close>).
  \<^item> \<open>ByteFile\<close>: blocks of memory, what reading, writing and truncating do to the contents of a file, and the locales \<open>byte_file\<close>
    and \<open>reliable_file\<close> with the contract of the file methods and what a client can rely on.
  \<^item> \<open>Memdb\<close> (\<open>memdb.c\<close>): stores, handles, the list of shared stores, every method, and \<open>md_exec\<close>, one call of any connection.
    The invariant of all reachable states: no use after free, counters equal to the locks and users, one writer, contents shared by
    exactly the users of a name; that an \<open>EXCLUSIVE\<close> lock admits readers; interpretations \<open>mdb\<close> and \<open>mdbr\<close> of the file contracts.
  \<^item> \<open>MemJournal\<close> (\<open>memjournal.c\<close>): the chunks in a heap, the cursors, spilling to a real file that is a parameter and is required
    to be a \<open>byte_file\<close>; interpretations \<open>jrn\<close> and \<open>jmem\<close>, and that the journal is a plain file to its client.

  This theory adds the properties that span components.

  \<^bold>\<open>Conventions.\<close>  State is passed explicitly and functions keep the names of the source (\<open>Class_Method\<close>).  Fallible code
  returns \<open>'a result\<close> or an option.  A loop that may not end is a \<open>partial_function (option)\<close> with \<open>None\<close> for not
  returning (\<open>replace_loop\<close>, \<open>split_loop\<close>, \<open>Exec_loop\<close>, the loops over the chunks of a journal); loops whose end depends on the data structure being sound
  return an option too, and the theorems show that the result is \<open>Some\<close>.  The recursion of \<open>sqlite3BitvecSet\<close> has fuel
  \<open>BITVEC_FUEL\<close>, 12 levels, and \<open>BITVEC_FUEL_enough\<close> shows that this suffices for every 32-bit size.  The loops of the
  threads take the number of rounds; the theorems hold for every number, or for every number that is at least the length
  of the queue.  The merge buckets of \<open>rowSetEntrySort\<close> are an array of 40, so the theorems on row sets ask for fewer than
  \<open>2^40\<close> entries.  The callers of the operating system, of the allocator and of SQLite's C interface are parameters;
  hypotheses on them (\<open>alloc_ok\<close>, \<open>realloc_ok\<close>, \<open>jalloc_ok\<close>, \<open>env_ok\<close>) say that a block has the size that was asked for, or that a
  new address is fresh.  What the pager keeps to when it calls the methods of an in-memory database is \<open>legal\<close>; offsets stay below
  \<open>2^62\<close>, because the code doubles the end of a write when it enlarges the block.

  \<^bold>\<open>Not modelled.\<close>  The SQL parser, code generator, virtual machine, b-tree, pager and disk file layers of SQLite, and its
  extensions: libenigma calls them only through the wrapper, which takes them as a parameter.  Of \<open>date.c\<close> the current time, local
  time and \<open>strftime\<close>; the number in a modifier, which \<open>sqlite3AtoF\<close> reads, is an argument of its model.  The WebSocket sources are
  empty and the protocol is the vendored Beast library.  JSON, fmt, Beast and GoogleTest are third-party code.
  The logging macros, \<open>format.h\<close>, \<open>singleton.h\<close> and \<open>class.h\<close> only forward or declare.  Known-folder paths and the
  session token in \<open>fs_win32.cpp\<close> are calls of the operating system.  Data races on members that are read without a lock
  are outside the model, except the stop flag of the queue, whose unprotected update is a step of its own.
\<close>

subsection \<open>From publishing to the callback\<close>

text \<open>
  C1. A message published on the bus reaches the callback.  The thread of every subscribed handler that has a callback for its
  type, is running and makes enough rounds first handles the events that were waiting, in their order.  If none of them is fatal,
  then the function of \<open>On<T>\<close> is called with the message, followed by the acknowledgement unless the function throws, or the
  function of \<open>OnType\<close> is called with the event; the thread goes on unless that is a function of \<open>OnType\<close> that throws.  If one of
  the waiting events is fatal, because its function is one of \<open>OnType\<close> and throws, then the exception ends the program:
  the events before it and this one are handled, the message is not.  (\<open>On<T>\<close> registers under the name of \<open>T\<close>, \<open>handles_ok\<close>, which every
  method keeps by \<open>handles_ok_ops\<close>.)
\<close>

theorem published_message_is_handled:
  assumes "bus_ok b" "a \<in> set (eb_handlers b)" "handles_ok (eh_handles (w a))" "eh_handles (w a) ty = Some f"
    and "\<not> eh_stop_requested (w a)" "\<not> sq_stop (eh_events (w a))" "length (sq_queue (eh_events (w a))) < n"
    and "handler_thread throws n (snd (EventBus_Publish b w ty msg ack) a) = (terminated, h)"
  shows "((\<forall>e \<in> set (sq_queue (eh_events (w a))). \<not> fatal throws (eh_handles (w a)) e) \<longrightarrow>
      terminated = (\<exists>c. f = TypeFn c \<and> throws c)
      \<and> eh_log h = eh_log (w a) @ concat (map (event_calls throws (eh_handles (w a))) (sq_queue (eh_events (w a))))
          @ (case f of
               TypeFn c \<Rightarrow> [CalledType c \<lparr>ev_type = ty, ev_ev = Any ty msg, ev_ack = ack\<rparr>]
             | OnFn ty' c \<Rightarrow> Called c msg # (if throws c then [] else case ack of None \<Rightarrow> [] | Some k \<Rightarrow> [Acked k])))
    \<and> (\<forall>pre e post c. sq_queue (eh_events (w a)) = pre @ e # post \<and> (\<forall>e' \<in> set pre. \<not> fatal throws (eh_handles (w a)) e')
        \<and> eh_handles (w a) (ev_type e) = Some (TypeFn c) \<and> throws c \<longrightarrow>
      terminated \<and> eh_log h = eh_log (w a) @ concat (map (event_calls throws (eh_handles (w a))) pre) @ [CalledType c e])"
proof -
  let ?ev = "\<lparr>ev_type = ty, ev_ev = Any ty msg, ev_ack = ack\<rparr>" and ?q = "sq_queue (eh_events (w a))"
  let ?calls = "event_calls throws (eh_handles (w a))"
  have t: "handler_thread throws n (EventHandler_Deliver (w a) ?ev) = (terminated, h)"
    using assms(2,4,8) by (simp add: Publish_eq [OF assms(1)] EventHandler_HasType_def)
  note d = Deliver_simps [of "w a" ?ev]
  have f: "?calls ?ev = (case f of TypeFn c \<Rightarrow> [CalledType c ?ev]
      | OnFn ty' c \<Rightarrow> Called c msg # (if throws c then [] else case ack of None \<Rightarrow> [] | Some k \<Rightarrow> [Acked k]))"
    using assms(3,4) by (auto simp: event_calls_def handles_ok_def split: event_fn.splits option.splits)
  have k: "fatal throws (eh_handles (w a)) ?ev = (\<exists>c. f = TypeFn c \<and> throws c)"
    using assms(4) by (auto simp: fatal_def split: event_fn.splits)
  have A: "terminated = (\<exists>c. f = TypeFn c \<and> throws c) \<and> eh_log h = eh_log (w a) @ concat (map ?calls (?q @ [?ev]))"
    if "\<forall>e \<in> set ?q. \<not> fatal throws (eh_handles (w a)) e"
    using handler_thread_all [of "EventHandler_Deliver (w a) ?ev" throws n]
      handler_thread_fatal [of "EventHandler_Deliver (w a) ?ev" ?q ?ev "[]" throws n] that t assms(3,5-7) k
    by (cases "fatal throws (eh_handles (w a)) ?ev") (auto simp: d)
  have B: "terminated \<and> eh_log h = eh_log (w a) @ concat (map ?calls (pre @ [e]))"
    if "?q = pre @ e # post" "\<forall>e' \<in> set pre. \<not> fatal throws (eh_handles (w a)) e'" "fatal throws (eh_handles (w a)) e" for pre e post
    using handler_thread_fatal [of "EventHandler_Deliver (w a) ?ev" pre e "post @ [?ev]" throws n] that t assms(3,5-7)
    by (auto simp: d)
  show ?thesis using A B f by (fastforce simp: fatal_def event_calls_def)
qed

theorem published_message_is_handled_witness:
  "(\<exists>h. handler_thread (\<lambda>_. False) 1
      (snd (EventBus_Publish \<lparr>eb_handlers = [4, 7]\<rparr> (\<lambda>_. snd (EventHandler_On EventHandler_new ''i'' (Some 3))) ''i'' (42 :: nat) (Some 9)) 7)
     = (False, h) \<and> eh_log h = [Called 3 42, Acked 9])
   \<and> (\<exists>h. handler_thread (\<lambda>c. c = 3) 1
      (snd (EventBus_Publish \<lparr>eb_handlers = [4, 7]\<rparr> (\<lambda>_. snd (EventHandler_OnType EventHandler_new ''i'' (Some 3))) ''i'' (42 :: nat) None) 7)
     = (True, h) \<and> eh_log h = [CalledType 3 \<lparr>ev_type = ''i'', ev_ev = Any ''i'' 42, ev_ack = None\<rparr>])"
proof -
  let ?w = "\<lambda>_. snd (EventHandler_On EventHandler_new ''i'' (Some 3)) :: nat EventHandler"
  let ?v = "\<lambda>_. snd (EventHandler_OnType EventHandler_new ''i'' (Some 3)) :: nat EventHandler"
  have ok: "handles_ok (eh_handles (?w 7))" "handles_ok (eh_handles (?v 7))" by (intro handles_ok_ops)+
  note s = EventHandler_On_def EventHandler_OnType_def EventHandler_new_def bus_ok_def
  obtain t1 h1 where r1: "handler_thread (\<lambda>_. False) 1 (snd (EventBus_Publish \<lparr>eb_handlers = [4, 7]\<rparr> ?w ''i'' 42 (Some 9)) 7) = (t1, h1)"
    by fastforce
  obtain t2 h2 where r2: "handler_thread (\<lambda>c. c = 3) 1 (snd (EventBus_Publish \<lparr>eb_handlers = [4, 7]\<rparr> ?v ''i'' 42 None) 7) = (t2, h2)"
    by fastforce
  have "\<not> t1 \<and> eh_log h1 = [Called 3 42, Acked 9]"
    using published_message_is_handled [where w = ?w and a = 7 and f = "OnFn ''i'' 3", OF _ _ ok(1) _ _ _ _ r1] by (simp add: s)
  moreover have "t2 \<and> eh_log h2 = [CalledType 3 \<lparr>ev_type = ''i'', ev_ev = Any ''i'' 42, ev_ack = None\<rparr>]"
    using published_message_is_handled [where w = ?v and a = 7 and f = "TypeFn 3", OF _ _ ok(2) _ _ _ _ r2] by (simp add: s)
  ultimately show ?thesis using r1 r2 by simp
qed

subsection \<open>From the logger to the log files\<close>

text \<open>
  C2. The log files of a logger, among any console sinks, stay bounded and keep the log.  Suppose the files are numbered
  without gaps, \<open>app.log\<close> is open, there are at most \<open>max_file_count\<close> of them, and the system renames and opens every file it is
  asked to.  Then after enough rounds of the logger thread this is so again, and the files, read from the oldest to the newest, say what
  they said before followed by one line for each message at or above the level, in the order of the calls of \<open>LogIt\<close>.  Text is only
  missing at the old end, and only if there is a limit for the size and the number of files is at its maximum; if at least two files are
  allowed, the line of the last message is never missing.
\<close>

theorem logger_file_bound:
  assumes "\<And>i j. env_rename env i j" "env_open env 0" "lg_sinks g = as @ FileS k # bs" "\<forall>s \<in> set (as @ bs). \<exists>c. s = ConsoleS c"
    and "sink_ok k (lw_fs (lg_world g))"
    and "\<not> lg_stop_requested g" "\<not> sq_stop (lg_queue g)" "sq_queue (lg_queue g) = []" "length ms \<le> n"
    and "g' = logger_thread env n (foldl Logger_LogIt g ms)" "fs = lw_fs (lg_world g)" "fs' = lw_fs (lg_world g')"
    and "accepted = filter (\<lambda>m. lg_lvl g \<le> msg_lvl m) ms"
  shows "\<exists>k' dropped. lg_sinks g' = as @ FileS k' # bs \<and> sink_ok k' fs' \<and> fcard (fmdom fs') \<le> fk_max_file_count k
    \<and> dropped @ all_text fs' = all_text fs @ concat (map (\<lambda>m.
          env_stamp env (msg_time m) @ ''.'' @ pad3 (msg_time m mod 1000) @ '' ['' @ dec_text (msg_thread m) @ ''] ['' @ level_str (msg_lvl m)
          @ '']'' @ (case msg_module m of None \<Rightarrow> [] | Some t \<Rightarrow> '' ['' @ t @ '']'') @ ''> '' @ msg_msg m @ [CHR 0x0A]) accepted)
    \<and> (dropped \<noteq> [] \<longrightarrow> fk_max_file_size k \<noteq> 0 \<and> fcard (fmdom fs') = fk_max_file_count k)
    \<and> (accepted \<noteq> [] \<and> 1 < fk_max_file_count k \<longrightarrow> suffix (''> '' @ msg_msg (last accepted) @ [CHR 0x0A]) (all_text fs'))"
proof -
  let ?line = "FileSink_line (env_stamp env)"
  obtain k' fs'' where l: "log_all env (lg_lvl g) ms (k, fs) = (k', fs'')" by fastforce
  have g: "lg_sinks g' = as @ FileS k' # bs" "fs' = fs''"
    using log_steps_file [OF assms(4), of env "lg_lvl g" ms k "lg_world g" k' fs''] logger_thread_all [OF assms(6-9), of env] l assms(3,10-12)
    by (metis fst_conv snd_conv)+
  note r = FileSink_file_count [OF assms(1,2,5) l [unfolded assms(11)]]
  then have "kept (fk_max_file_size k) (fk_max_file_count k) (log_files fs) (map ?line accepted) (log_files fs')"
    by (simp add: g assms(11,13))
  then obtain dropped where d: "concat (rev dropped) @ all_text fs' = all_text fs @ lines_text (map ?line accepted)"
    and full: "dropped \<noteq> [] \<longrightarrow> fk_max_file_size k \<noteq> 0 \<and> fcard (fmdom fs') = fk_max_file_count k"
    and last: "accepted \<noteq> [] \<and> 1 < fk_max_file_count k \<longrightarrow> suffix (?line (last accepted) @ [CHR 0x0A]) (all_text fs')"
    by (auto simp: kept_def all_text_def length_log_files last_map)
  have "suffix (''> '' @ msg_msg m @ [CHR 0x0A]) (?line m @ [CHR 0x0A])" for m
    by (simp add: FileSink_line_def suffix_def)
  with last have "accepted \<noteq> [] \<and> 1 < fk_max_file_count k \<longrightarrow> suffix (''> '' @ msg_msg (last accepted) @ [CHR 0x0A]) (all_text fs')"
    using suffix_order.trans by blast
  moreover have "lines_text (map ?line accepted) = concat (map (\<lambda>m.
      env_stamp env (msg_time m) @ ''.'' @ pad3 (msg_time m mod 1000) @ '' ['' @ dec_text (msg_thread m) @ ''] ['' @ level_str (msg_lvl m)
      @ '']'' @ (case msg_module m of None \<Rightarrow> [] | Some t \<Rightarrow> '' ['' @ t @ '']'') @ ''> '' @ msg_msg m @ [CHR 0x0A]) accepted)"
    by (simp add: lines_text_def FileSink_line_def comp_def)
  moreover have "concat (rev dropped) \<noteq> [] \<longrightarrow> dropped \<noteq> []" by auto
  ultimately show ?thesis
    using r full d g by (intro exI [of _ k'] exI [of _ "concat (rev dropped)"]) simp
qed

definition file_logger :: Logger where
  "file_logger = logger_con\<lparr>lg_sinks := [ConsoleS \<lparr>ck_color = True\<rparr>, FileS sink2], lg_world := \<lparr>lw_fs = fmap_of_list [(0, [])], lw_console = []\<rparr>\<rparr>"

theorem logger_file_bound_witness:
  "fcard (fmdom (lw_fs (lg_world (logger_thread env_all 3 (foldl Logger_LogIt file_logger [msg_of ''a'', msg_of ''b'', msg_of ''c'']))))) \<le> 2
   \<and> suffix (''> c'' @ [CHR 0x0A]) (all_text (lw_fs (lg_world (logger_thread env_all 3
        (foldl Logger_LogIt file_logger [msg_of ''a'', msg_of ''b'', msg_of ''c''])))))"
proof -
  have "fset (fmdom (fmap_of_list [(0, [])] :: logdir)) = {0..<1}" by (auto simp: fset_of_list.rep_eq)
  then have "sink_ok sink2 (lw_fs (lg_world file_logger))"
    by (auto simp: sink_ok_def sink2_def file_logger_def intro!: exI [of _ "1 :: nat"])
  from logger_file_bound [of env_all file_logger "[ConsoleS \<lparr>ck_color = True\<rparr>]" sink2 "[]", OF _ _ _ _ this _ _ _ _ refl refl refl refl,
      of "[msg_of ''a'', msg_of ''b'', msg_of ''c'']" 3]
  show ?thesis by (auto simp: env_all_def file_logger_def logger_con_def sink2_def msg_of_def less_eq_LogLevel_def)
qed

subsection \<open>Integers as text in every encoding\<close>

lemma int_char_cases: "isdig c \<or> c = 45 \<Longrightarrow> 45 \<le> unat c \<and> unat c \<le> 57"
  by (auto simp: isdig_iff)

lemma utf8_ascii: "list_all (\<lambda>c. unat c < 128) t \<Longrightarrow> utf8 (map ucast t) = t \<and> list_all unichar (map ucast t)"
  by (induction t) (simp_all add: utf8_def ascii_WRITE)

lemma translate_ascii:
  assumes "list_all (\<lambda>c. unat c < 128) t"
  shows "utf8_to_16 WRITE_UTF16LE t = concat (map (\<lambda>c. [c, 0]) t)" "utf8_to_16 WRITE_UTF16BE t = concat (map (\<lambda>c. [0, c]) t)"
proof -
  have "utf8_to_16 (WRITE_UTF16 le) t = utf16 le (map ucast t)" for le
    using utf8_to_16_chars [of "map ucast t" le] utf8_ascii [OF assms] by simp
  from this [of True] this [of False] assms
  show "utf8_to_16 WRITE_UTF16LE t = concat (map (\<lambda>c. [c, 0]) t)" "utf8_to_16 WRITE_UTF16BE t = concat (map (\<lambda>c. [0, c]) t)"
    by (simp_all add: WRITE_UTF16_def utf16_def list_all_iff ascii_WRITE cong: map_cong)
qed

lemma nth_pairs:
  "j < length t \<Longrightarrow> concat (map (\<lambda>c. [f c, g c]) t) ! (2 * j) = f (t ! j) \<and> concat (map (\<lambda>c. [f c, g c]) t) ! (2 * j + 1) = g (t ! j)"
  by (induction t arbitrary: j) (auto simp: nth_Cons split: nat.splits)

lemma length_pairs: "length (concat (map (\<lambda>c. [f c, g c]) t)) = 2 * length t"
  by (induction t) simp_all

lemma cat_pairs:
  assumes "j < length t"
  shows "cat (concat (map (\<lambda>c. [f c, g c]) t)) (2 * j) = f (t ! j)" "cat (concat (map (\<lambda>c. [f c, g c]) t)) (Suc (2 * j)) = g (t ! j)"
  using nth_pairs [OF assms, of f g] assms by (simp_all add: cat_def length_pairs)

lemma latin_text_ascii:
  "latin_text (cat (concat (map (\<lambda>c. [c, 0]) t))) (2 * length t) SQLITE_UTF16LE = (t, False)"
  "latin_text (cat (concat (map (\<lambda>c. [0, c]) t))) (2 * length t) SQLITE_UTF16BE = (t, False)"
proof -
  have le: "takeWhile (\<lambda>j. cat (concat (map (\<lambda>c. [c, 0]) t)) (Suc (2 * j)) = 0) [0..<length t] = [0..<length t]"
    and be: "takeWhile (\<lambda>j. cat (concat (map (\<lambda>c. [0, c]) t)) (2 * j) = 0) [0..<length t] = [0..<length t]"
    by (simp_all add: takeWhile_eq_all_conv cat_pairs [where g = "\<lambda>_. 0"] cat_pairs [where f = "\<lambda>_. 0"])
  have "map (\<lambda>j. cat (concat (map (\<lambda>c. [c, 0]) t)) (2 * j)) [0..<length t] = t"
    "map (\<lambda>j. cat (concat (map (\<lambda>c. [0, c]) t)) (Suc (2 * j))) [0..<length t] = t"
    by (rule nth_equalityI; simp add: cat_pairs [where f = "\<lambda>c. c"] cat_pairs [where g = "\<lambda>c. c"])+
  then show "latin_text (cat (concat (map (\<lambda>c. [c, 0]) t))) (2 * length t) SQLITE_UTF16LE = (t, False)"
    "latin_text (cat (concat (map (\<lambda>c. [0, c]) t))) (2 * length t) SQLITE_UTF16BE = (t, False)"
    by (simp_all add: latin_text_def le be)
qed

text \<open>
  C26. Integers survive as text in every encoding: the text of a 64-bit integer, translated by
  \<open>sqlite3VdbeMemTranslate\<close> to UTF-16 of either byte order, is read by \<open>sqlite3Atoi64\<close> as the same integer
  with return code 0.
\<close>

theorem int64_utf16_roundtrip:
  assumes "in_i64 v" "e \<noteq> SQLITE_UTF8"
  shows "\<exists>t m. sqlite3Int64ToText v = Some (t @ [0]) \<and> sqlite3VdbeMemTranslate False \<lparr>mz = t, menc = SQLITE_UTF8\<rparr> e = Some m
    \<and> sqlite3Atoi64 (cat (mz m)) (length (mz m)) e = (0, v)"
proof -
  have a: "list_all (\<lambda>c. unat c < 128) (int_text v)"
    using int_text_chars [of v] int_char_cases by (fastforce simp: list_all_iff)
  note s = atoi_spec_int_text [OF assms(1)]
  obtain m where "sqlite3VdbeMemTranslate False \<lparr>mz = int_text v, menc = SQLITE_UTF8\<rparr> e = Some m"
    and "sqlite3Atoi64 (cat (mz m)) (length (mz m)) e = (0, v)"
    using assms(2) s by (cases e)
      (auto simp: sqlite3VdbeMemTranslate_def translate_ascii [OF a] Atoi64_spec_eq length_pairs latin_text_ascii)
  then show ?thesis using Int64ToText_eq [OF assms(1)] by (auto simp: int_text_def)
qed

theorem int64_utf16_roundtrip_witness:
  "\<exists>t m. sqlite3Int64ToText SMALLEST_INT64 = Some (t @ [0])
     \<and> sqlite3VdbeMemTranslate False \<lparr>mz = t, menc = SQLITE_UTF8\<rparr> SQLITE_UTF16BE = Some m
     \<and> sqlite3Atoi64 (cat (mz m)) (length (mz m)) SQLITE_UTF16BE = (0, SMALLEST_INT64)"
  by (rule int64_utf16_roundtrip) (simp_all add: in_i64_def i64_bounds)

end
